(* ===== verification/Prelude.thy ===== *)
theory Prelude
  imports Main "HOL-Library.Word"
begin

text \<open>
  What every component shares: machine widths, the sum type that carries a fault of the
  modelled C code, and generic facts on finite sums and lists.

  \<^item> \<open>byte\<close>, \<open>u32\<close>, \<open>u64\<close> are the C unsigned types at their width.
  \<^item> A C function that can reach undefined behaviour or abort returns \<open>fault + 'a\<close>:
    \<open>Inl\<close> names what went wrong, \<open>Inr\<close> is the ordinary result. \<open>bnd\<close> sequences them.
  \<^item> The collection \<open>ret_iff\<close> turns \<open>m = Inr x\<close> into the facts a successful run gives.
\<close>

type_synonym byte = "8 word"
type_synonym u16 = "16 word"
type_synonym u32 = "32 word"
type_synonym u64 = "64 word"

named_theorems ret_iff "what a run that returned says of its parts"

definition bnd :: "'e + 'a \<Rightarrow> ('a \<Rightarrow> 'e + 'b) \<Rightarrow> 'e + 'b" where
  "bnd m f = (case m of Inl e \<Rightarrow> Inl e | Inr x \<Rightarrow> f x)"

lemma bnd_Inr [simp]: "bnd (Inr x) f = f x"
  by (simp add: bnd_def)

lemma bnd_Inl [simp]: "bnd (Inl e) f = Inl e"
  by (simp add: bnd_def)

lemma bnd_eq_Inr [ret_iff]: "bnd m f = Inr y \<longleftrightarrow> (\<exists>x. m = Inr x \<and> f x = Inr y)"
  by (cases m) auto

lemma bnd_eq_Inl [ret_iff]:
  "bnd m f = Inl e \<longleftrightarrow> m = Inl e \<or> (\<exists>x. m = Inr x \<and> f x = Inl e)"
  by (cases m) auto

lemma bnd_assoc: "bnd (bnd m f) g = bnd m (\<lambda>x. bnd (f x) g)"
  by (cases m) auto

lemma bnd_cong [fundef_cong]:
  "m = m' \<Longrightarrow> (\<And>x. m' = Inr x \<Longrightarrow> f x = f' x) \<Longrightarrow> bnd m f = bnd m' f'"
  by (cases m') auto

text \<open>\<open>size_t\<close> subtraction wraps at 64 bits.\<close>

definition sz_sub :: "nat \<Rightarrow> nat \<Rightarrow> nat" where
  "sz_sub a b = (if b \<le> a then a - b else a + 2 ^ 64 - b)"

lemma sz_sub_le [simp]: "b \<le> a \<Longrightarrow> sz_sub a b = a - b"
  by (simp add: sz_sub_def)

text \<open>The conversion of a 64-bit \<open>lua_Integer\<close> to \<open>int\<close> keeps the low 32 bits.\<close>

definition c_int :: "int \<Rightarrow> int" where
  "c_int h = sint (word_of_int h :: 32 word)"

lemma c_int_small: "- (2 ^ 31) \<le> h \<Longrightarrow> h < 2 ^ 31 \<Longrightarrow> c_int h = h"
  unfolding c_int_def by (simp add: signed_of_int signed_take_bit_int_eq_self)

section \<open>Finite sums that change in one place\<close>

text \<open>
  The reference counts of the kernel are sums over tables. One table slot changes at a time,
  so the new sum and the old one differ by that slot: stated additively, so that it is also
  usable on \<open>nat\<close>.
\<close>

lemma sum_one_change:
  fixes f g :: "nat \<Rightarrow> nat"
  assumes "i < n" and "\<And>k. k < n \<Longrightarrow> k \<noteq> i \<Longrightarrow> f k = g k"
  shows "(\<Sum>k<n. f k) + g i = (\<Sum>k<n. g k) + f i"
proof -
  have "(\<Sum>k<n. f k) = f i + (\<Sum>k\<in>{..<n} - {i}. f k)"
    using assms(1) by (intro sum.remove) auto
  moreover have "(\<Sum>k<n. g k) = g i + (\<Sum>k\<in>{..<n} - {i}. g k)"
    using assms(1) by (intro sum.remove) auto
  moreover have "(\<Sum>k\<in>{..<n} - {i}. f k) = (\<Sum>k\<in>{..<n} - {i}. g k)"
    using assms(2) by (intro sum.cong) auto
  ultimately show ?thesis by simp
qed

lemma sum_ge_one:
  fixes f :: "nat \<Rightarrow> nat"
  shows "i < n \<Longrightarrow> f i \<le> (\<Sum>k<n. f k)"
  by (metis finite_lessThan lessThan_iff member_le_sum zero_le)

lemma sum_same:
  fixes f g :: "nat \<Rightarrow> nat"
  shows "(\<And>k. k < n \<Longrightarrow> f k = g k) \<Longrightarrow> (\<Sum>k<n. f k) = (\<Sum>k<n. g k)"
  by (rule sum.cong) auto

lemma find_upt_Some:
  "List.find P [m..<n] = Some i \<Longrightarrow> m \<le> i \<and> i < n \<and> P i \<and> (\<forall>j. m \<le> j \<and> j < i \<longrightarrow> \<not> P j)"
  by (auto simp: find_Some_iff less_diff_conv)
    (metis add_diff_inverse_nat add_less_imp_less_left linorder_not_le)

lemma find_upt_None: "List.find P [m..<n] = None \<longleftrightarrow> (\<forall>j. m \<le> j \<and> j < n \<longrightarrow> \<not> P j)"
  by (auto simp: find_None_iff)

end
