(* ===== verification/Kstate.thy ===== *)
theory Kstate
  imports Prelude
begin

text \<open>
  The kernel's data: \<open>src/src/kproc.h\<close>, \<open>src/src/cpu.h\<close>, \<open>src/src/timer.c\<close>'s table and the
  file-scope variables of \<open>src/src/port.c\<close> and \<open>src/src/sched.c\<close>, as one record \<open>kstate\<close>.

  \<^item> A \<open>struct kport *\<close> is an address into \<open>k_pheap\<close>; the port table \<open>portv\<close> maps an index to
    such an address. Freeing removes the address, and reading through an address that is not
    there is the fault \<open>UseAfterFree\<close>. Addresses are never handed out twice, so a stale
    pointer is always seen as stale.
  \<^item> A \<open>struct kproc *\<close> is its slot in \<open>procv\<close>: slots are allocated once and recycled in
    place, never freed (\<open>proc_new\<close>).
  \<^item> A \<open>struct waiter *\<close> is either the record inline in a proc (\<open>W0\<close>) or one from \<open>malloc\<close>
    (\<open>WH\<close>).
  \<^item> \<open>malloc\<close> answers from an oracle in the state: \<open>k_memok n\<close> says whether the \<open>n\<close>-th request
    is granted.
  \<^item> The parallel arrays \<open>refs\<close>, \<open>refrecv\<close> of a message are one list of pairs, its \<open>msgbufs\<close> one
    list of (chunk, length); a slot whose chunk was taken is \<open>None\<close>.
\<close>

type_synonym addr = nat

datatype fault = UseAfterFree | DoubleFree | BadList | Aborted | Spin | OutOfFuel

abbreviation (input) MAXMSG :: nat where "MAXMSG \<equiv> 65536"
abbreviation (input) MAXQUEUE :: nat where "MAXQUEUE \<equiv> 65536"
abbreviation (input) MAXRIGHTS :: nat where "MAXRIGHTS \<equiv> 512"
abbreviation (input) NRIGHTS_INLINE :: nat where "NRIGHTS_INLINE \<equiv> 8"
abbreviation (input) MAXDEPTH :: nat where "MAXDEPTH \<equiv> 16"
abbreviation (input) MAXMSGRIGHTS :: nat where "MAXMSGRIGHTS \<equiv> 32"
abbreviation (input) MAXMSGBUFS :: nat where "MAXMSGBUFS \<equiv> 4"
abbreviation (input) MAXWATCH :: nat where "MAXWATCH \<equiv> 8"
abbreviation (input) NIPCLOCK :: nat where "NIPCLOCK \<equiv> 8"
abbreviation (input) MAXTIMERS :: nat where "MAXTIMERS \<equiv> 128"
abbreviation (input) NRQ :: nat where "NRQ \<equiv> 16"
abbreviation (input) MAXWEIGHT :: nat where "MAXWEIGHT \<equiv> 16"
abbreviation (input) PRI_BASE :: nat where "PRI_BASE \<equiv> 10"

type_synonym msgbufs = "(addr option \<times> nat) list"

record kmsg =
  m_len :: nat
  m_bufs :: msgbufs
  m_qcost :: nat
  m_refs :: "(nat \<times> bool) list"
  m_data :: "byte list"

datatype waddr = W0 nat | WH addr

record kport =
  pt_idx :: nat
  pt_used :: bool
  pt_gen :: nat
  pt_waiters :: "waddr list"
  pt_nrights :: int
  pt_nrecv :: int
  pt_dead :: bool
  pt_qbytes :: nat
  pt_queue :: "kmsg list"
  pt_nsent :: nat
  pt_ndrop_full :: nat
  pt_ndrop_dead :: nat
  pt_qpeak :: nat
  pt_tag :: string
  pt_where :: string

record right =
  r_port :: addr
  r_recv :: bool
  r_used :: bool

record waiter =
  w_proc :: nat
  w_port :: addr
  w_send :: bool
  w_onport :: bool

datatype pstatus = DEAD | READY | BLOCKED | BROKE | HATCHING | STOPPED

text \<open>The two fields of a debugger record the scheduler reads (\<open>struct kdbg\<close>).\<close>

datatype dbgreason = DBG_RUN | DBG_REQ | DBG_BP | DBG_STEP

record kdbg =
  d_stopreq :: bool
  d_reason :: dbgreason
  d_notify :: dbgreason

record kproc =
  pr_status :: pstatus
  pr_id :: int
  pr_selfidx :: nat
  pr_selfgen :: nat
  pr_waiters :: "waddr list"
  pr_w0used :: bool
  pr_onq :: "nat option"
  pr_rights :: "nat \<Rightarrow> right"
  pr_xrights :: "(nat \<Rightarrow> right) option"
  pr_rhint :: nat
  pr_rhigh :: nat
  pr_bufdenied :: bool
  pr_frozen :: nat
  pr_woken :: bool
  pr_oncpu :: nat
  pr_watchers :: "(int \<times> bool) list"
  pr_mem_used :: nat
  pr_buf_used :: nat
  pr_mem_peak :: nat
  pr_mem_limit :: nat
  pr_gc_owed :: nat
  pr_nports :: int
  pr_nports_peak :: int
  pr_port_limit :: int
  pr_name :: string
  pr_cputime :: u64
  pr_lastupdate :: u64
  pr_lastcpu :: u64
  pr_cpu :: nat
  pr_pri :: int
  pr_grants :: "(string \<times> nat) list"
  pr_dbg :: "kdbg option"
  pr_brokeseq :: nat
  pr_reaping :: bool
  pr_reapreq :: bool
  pr_killreq :: bool
  pr_killfree :: bool
  pr_killwhy :: string
  pr_exitcode :: int
  pr_exitmsg :: string
  pr_weight :: nat
  pr_expendable :: bool

text \<open>
  One lock: whether it is held and how often it was taken.
\<close>

record klock =
  l_held :: bool
  l_nlock :: nat

record ipcbucket =
  b_lk :: klock
  b_owner :: "nat option"
  b_depth :: int
  b_held :: u64
  b_t0 :: u64

record rqset =
  rq_q :: "nat \<Rightarrow> nat list"
  rq_mask :: u32
  rq_n :: int

record kcpu =
  c_current :: "nat option"
  c_idle :: bool
  c_nlaps :: nat
  c_ndispatch :: nat
  c_ndrop_full :: nat
  c_ndrop_dead :: nat

record ktimer =
  t_port :: "addr option"
  t_due_ms :: u64

record kstate =
  k_maxports :: nat
  k_maxprocs :: nat
  k_ncpu :: nat
  k_self :: nat
  k_cpus :: "nat \<Rightarrow> kcpu"
  k_ticks :: u64
  k_boot_tsc :: u64
  k_cyc_per_ms :: u64
  k_clock_ready :: bool
  k_memok :: "nat \<Rightarrow> bool"
  k_mcount :: nat
  k_chunks :: "addr \<rightharpoonup> nat"
  k_buckets :: "nat \<Rightarrow> ipcbucket"
  k_schedlock :: klock
  k_schedq :: "nat \<Rightarrow> rqset"
  k_runq :: nat
  k_donq :: nat
  k_wakes :: "nat list"
  k_portv :: "nat \<rightharpoonup> addr"
  k_pheap :: "addr \<rightharpoonup> kport"
  k_porthigh :: nat
  k_portgen :: nat
  k_hangup_gen :: nat
  k_rights_high :: nat
  k_claim_won :: nat
  k_claim_lost :: nat
  k_waits :: "waddr \<rightharpoonup> waiter"
  k_procs :: "nat \<rightharpoonup> kproc"
  k_timers :: "nat \<Rightarrow> ktimer"

section \<open>The state before anything has run\<close>

text \<open>
  Every static of the kernel is zero when it is entered; the sizes of the tables, the number of
  cpus and what the allocator will answer are the platform's.
\<close>

definition klock0 :: klock where
  "klock0 = \<lparr>l_held = False, l_nlock = 0\<rparr>"

definition kzero :: "nat \<Rightarrow> nat \<Rightarrow> nat \<Rightarrow> (nat \<Rightarrow> bool) \<Rightarrow> kstate" where
  "kzero maxports maxprocs ncpu memok =
    \<lparr>k_maxports = maxports, k_maxprocs = maxprocs, k_ncpu = ncpu, k_self = 0,
     k_cpus = \<lambda>_. \<lparr>c_current = None, c_idle = False, c_nlaps = 0, c_ndispatch = 0,
                     c_ndrop_full = 0, c_ndrop_dead = 0\<rparr>,
     k_ticks = 0, k_boot_tsc = 0, k_cyc_per_ms = 0, k_clock_ready = False,
     k_memok = memok, k_mcount = 0, k_chunks = Map.empty,
     k_buckets = \<lambda>_. \<lparr>b_lk = klock0, b_owner = None, b_depth = 0, b_held = 0, b_t0 = 0\<rparr>,
     k_schedlock = klock0,
     k_schedq = \<lambda>_. \<lparr>rq_q = \<lambda>_. [], rq_mask = 0, rq_n = 0\<rparr>, k_runq = 0, k_donq = 1, k_wakes = [],
     k_portv = Map.empty, k_pheap = Map.empty, k_porthigh = 0, k_portgen = 0, k_hangup_gen = 0,
     k_rights_high = 0, k_claim_won = 0, k_claim_lost = 0, k_waits = Map.empty, k_procs = Map.empty,
     k_timers = \<lambda>_. \<lparr>t_port = None, t_due_ms = 0\<rparr>\<rparr>"

text \<open>A proc slot as \<open>calloc\<close> hands it to \<open>proc_new\<close>.\<close>

definition kproc0 :: kproc where
  "kproc0 =
    \<lparr>pr_status = DEAD, pr_id = 0, pr_selfidx = 0, pr_selfgen = 0, pr_waiters = [], pr_w0used = False,
     pr_onq = None, pr_rights = \<lambda>_. \<lparr>r_port = 0, r_recv = False, r_used = False\<rparr>, pr_xrights = None,
     pr_rhint = 0, pr_rhigh = 0, pr_bufdenied = False, pr_frozen = 0, pr_woken = False, pr_oncpu = 0,
     pr_watchers = [], pr_mem_used = 0, pr_buf_used = 0, pr_mem_peak = 0, pr_mem_limit = 0,
     pr_gc_owed = 0, pr_nports = 0, pr_nports_peak = 0, pr_port_limit = 0, pr_name = [],
     pr_cputime = 0, pr_lastupdate = 0, pr_lastcpu = 0, pr_cpu = 0, pr_pri = 0, pr_grants = [],
     pr_dbg = None, pr_brokeseq = 0, pr_reaping = False, pr_reapreq = False, pr_killreq = False,
     pr_killfree = False, pr_killwhy = [], pr_exitcode = 0, pr_exitmsg = [], pr_weight = 0,
     pr_expendable = False\<rparr>"

section \<open>Access through a pointer\<close>

definition get_port :: "kstate \<Rightarrow> addr \<Rightarrow> fault + kport" where
  "get_port s a = (case k_pheap s a of None \<Rightarrow> Inl UseAfterFree | Some p \<Rightarrow> Inr p)"

definition set_port :: "kstate \<Rightarrow> addr \<Rightarrow> kport \<Rightarrow> kstate" where
  "set_port s a p = s\<lparr>k_pheap := (k_pheap s)(a \<mapsto> p)\<rparr>"

definition get_proc :: "kstate \<Rightarrow> nat \<Rightarrow> fault + kproc" where
  "get_proc s i = (case k_procs s i of None \<Rightarrow> Inl UseAfterFree | Some p \<Rightarrow> Inr p)"

definition set_proc :: "kstate \<Rightarrow> nat \<Rightarrow> kproc \<Rightarrow> kstate" where
  "set_proc s i p = s\<lparr>k_procs := (k_procs s)(i \<mapsto> p)\<rparr>"

definition get_waiter :: "kstate \<Rightarrow> waddr \<Rightarrow> fault + waiter" where
  "get_waiter s w = (case k_waits s w of None \<Rightarrow> Inl UseAfterFree | Some x \<Rightarrow> Inr x)"

definition set_waiter :: "kstate \<Rightarrow> waddr \<Rightarrow> waiter \<Rightarrow> kstate" where
  "set_waiter s w x = s\<lparr>k_waits := (k_waits s)(w \<mapsto> x)\<rparr>"

text \<open>\<open>malloc\<close>: a fresh non-null address, or null.\<close>

definition kmalloc :: "kstate \<Rightarrow> addr option \<times> kstate" where
  "kmalloc s = (if k_memok s (k_mcount s) then Some (Suc (k_mcount s)) else None,
                s\<lparr>k_mcount := Suc (k_mcount s)\<rparr>)"

definition chunk_free :: "addr \<Rightarrow> kstate \<Rightarrow> fault + kstate" where
  "chunk_free c s = (case k_chunks s c of None \<Rightarrow> Inl DoubleFree
                     | Some _ \<Rightarrow> Inr (s\<lparr>k_chunks := (k_chunks s)(c := None)\<rparr>))"

lemma get_port_Inr [ret_iff]: "get_port s a = Inr p \<longleftrightarrow> k_pheap s a = Some p"
  by (simp add: get_port_def split: option.split)

lemma get_proc_Inr [ret_iff]: "get_proc s a = Inr p \<longleftrightarrow> k_procs s a = Some p"
  by (simp add: get_proc_def split: option.split)

lemma get_waiter_Inr [ret_iff]: "get_waiter s a = Inr p \<longleftrightarrow> k_waits s a = Some p"
  by (simp add: get_waiter_def split: option.split)

lemma get_port_Some: "k_pheap s a = Some p \<Longrightarrow> get_port s a = Inr p"
  by (simp add: get_port_def)

lemma get_proc_Some: "k_procs s a = Some p \<Longrightarrow> get_proc s a = Inr p"
  by (simp add: get_proc_def)

lemma get_waiter_Some: "k_waits s a = Some p \<Longrightarrow> get_waiter s a = Inr p"
  by (simp add: get_waiter_def)

lemmas get_Some = get_port_Some get_proc_Some get_waiter_Some

lemma set_port_sel [simp]:
  "k_maxports (set_port s a p) = k_maxports s"
  "k_maxprocs (set_port s a p) = k_maxprocs s"
  "k_ncpu (set_port s a p) = k_ncpu s"
  "k_self (set_port s a p) = k_self s"
  "k_cpus (set_port s a p) = k_cpus s"
  "k_ticks (set_port s a p) = k_ticks s"
  "k_boot_tsc (set_port s a p) = k_boot_tsc s"
  "k_cyc_per_ms (set_port s a p) = k_cyc_per_ms s"
  "k_clock_ready (set_port s a p) = k_clock_ready s"
  "k_memok (set_port s a p) = k_memok s"
  "k_mcount (set_port s a p) = k_mcount s"
  "k_chunks (set_port s a p) = k_chunks s"
  "k_buckets (set_port s a p) = k_buckets s"
  "k_schedlock (set_port s a p) = k_schedlock s"
  "k_schedq (set_port s a p) = k_schedq s"
  "k_runq (set_port s a p) = k_runq s"
  "k_donq (set_port s a p) = k_donq s"
  "k_wakes (set_port s a p) = k_wakes s"
  "k_portv (set_port s a p) = k_portv s"
  "k_pheap (set_port s a p) = (k_pheap s)(a \<mapsto> p)"
  "k_porthigh (set_port s a p) = k_porthigh s"
  "k_portgen (set_port s a p) = k_portgen s"
  "k_hangup_gen (set_port s a p) = k_hangup_gen s"
  "k_rights_high (set_port s a p) = k_rights_high s"
  "k_claim_won (set_port s a p) = k_claim_won s"
  "k_claim_lost (set_port s a p) = k_claim_lost s"
  "k_waits (set_port s a p) = k_waits s"
  "k_procs (set_port s a p) = k_procs s"
  "k_timers (set_port s a p) = k_timers s"
  by (simp_all add: set_port_def)

lemma set_proc_sel [simp]:
  "k_maxports (set_proc s a p) = k_maxports s"
  "k_maxprocs (set_proc s a p) = k_maxprocs s"
  "k_ncpu (set_proc s a p) = k_ncpu s"
  "k_self (set_proc s a p) = k_self s"
  "k_cpus (set_proc s a p) = k_cpus s"
  "k_ticks (set_proc s a p) = k_ticks s"
  "k_boot_tsc (set_proc s a p) = k_boot_tsc s"
  "k_cyc_per_ms (set_proc s a p) = k_cyc_per_ms s"
  "k_clock_ready (set_proc s a p) = k_clock_ready s"
  "k_memok (set_proc s a p) = k_memok s"
  "k_mcount (set_proc s a p) = k_mcount s"
  "k_chunks (set_proc s a p) = k_chunks s"
  "k_buckets (set_proc s a p) = k_buckets s"
  "k_schedlock (set_proc s a p) = k_schedlock s"
  "k_schedq (set_proc s a p) = k_schedq s"
  "k_runq (set_proc s a p) = k_runq s"
  "k_donq (set_proc s a p) = k_donq s"
  "k_wakes (set_proc s a p) = k_wakes s"
  "k_portv (set_proc s a p) = k_portv s"
  "k_pheap (set_proc s a p) = k_pheap s"
  "k_porthigh (set_proc s a p) = k_porthigh s"
  "k_portgen (set_proc s a p) = k_portgen s"
  "k_hangup_gen (set_proc s a p) = k_hangup_gen s"
  "k_rights_high (set_proc s a p) = k_rights_high s"
  "k_claim_won (set_proc s a p) = k_claim_won s"
  "k_claim_lost (set_proc s a p) = k_claim_lost s"
  "k_waits (set_proc s a p) = k_waits s"
  "k_procs (set_proc s a p) = (k_procs s)(a \<mapsto> p)"
  "k_timers (set_proc s a p) = k_timers s"
  by (simp_all add: set_proc_def)

lemma set_waiter_sel [simp]:
  "k_maxports (set_waiter s a p) = k_maxports s"
  "k_maxprocs (set_waiter s a p) = k_maxprocs s"
  "k_ncpu (set_waiter s a p) = k_ncpu s"
  "k_self (set_waiter s a p) = k_self s"
  "k_cpus (set_waiter s a p) = k_cpus s"
  "k_ticks (set_waiter s a p) = k_ticks s"
  "k_boot_tsc (set_waiter s a p) = k_boot_tsc s"
  "k_cyc_per_ms (set_waiter s a p) = k_cyc_per_ms s"
  "k_clock_ready (set_waiter s a p) = k_clock_ready s"
  "k_memok (set_waiter s a p) = k_memok s"
  "k_mcount (set_waiter s a p) = k_mcount s"
  "k_chunks (set_waiter s a p) = k_chunks s"
  "k_buckets (set_waiter s a p) = k_buckets s"
  "k_schedlock (set_waiter s a p) = k_schedlock s"
  "k_schedq (set_waiter s a p) = k_schedq s"
  "k_runq (set_waiter s a p) = k_runq s"
  "k_donq (set_waiter s a p) = k_donq s"
  "k_wakes (set_waiter s a p) = k_wakes s"
  "k_portv (set_waiter s a p) = k_portv s"
  "k_pheap (set_waiter s a p) = k_pheap s"
  "k_porthigh (set_waiter s a p) = k_porthigh s"
  "k_portgen (set_waiter s a p) = k_portgen s"
  "k_hangup_gen (set_waiter s a p) = k_hangup_gen s"
  "k_rights_high (set_waiter s a p) = k_rights_high s"
  "k_claim_won (set_waiter s a p) = k_claim_won s"
  "k_claim_lost (set_waiter s a p) = k_claim_lost s"
  "k_waits (set_waiter s a p) = (k_waits s)(a \<mapsto> p)"
  "k_procs (set_waiter s a p) = k_procs s"
  "k_timers (set_waiter s a p) = k_timers s"
  by (simp_all add: set_waiter_def)

end
