(* ===== verification/Ipclock.thy ===== *)
theory Ipclock
  imports Kstate
begin

text \<open>
  The ipc lock of \<open>src/src/port.c\<close> (lines 28-225): eight buckets hashed on the port index, each
  recursive per cpu, taken one at a time or all together, and the assertions of \<open>kproc.h\<close> the
  inner helpers make. \<open>lock\<close> and \<open>unlock\<close> are those of \<open>lock.h\<close> seen from one cpu: a lock found
  held by somebody else is waited for, which no step of this cpu can end, and is the outcome
  \<open>Spin\<close>.
\<close>

definition lock :: "klock \<Rightarrow> fault + klock" where
  "lock l = (if l_held l then Inl Spin else Inr (l\<lparr>l_held := True, l_nlock := l_nlock l + 1\<rparr>))"

definition unlock :: "klock \<Rightarrow> klock" where
  "unlock l = l\<lparr>l_held := False\<rparr>"

definition holding :: "klock \<Rightarrow> bool" where
  "holding l = l_held l"

text \<open>The bucket covering a port index.\<close>

definition ipcbucket_of :: "nat \<Rightarrow> nat" where
  "ipcbucket_of idx = idx mod NIPCLOCK"

definition ipcheld_one :: "kstate \<Rightarrow> nat \<Rightarrow> bool" where
  "ipcheld_one s b = (b_owner (k_buckets s b) = Some (k_self s))"

definition ipcheld :: "kstate \<Rightarrow> bool" where
  "ipcheld s = list_all (ipcheld_one s) [0..<NIPCLOCK]"

definition ipcheld_any :: "kstate \<Rightarrow> bool" where
  "ipcheld_any s = list_ex (ipcheld_one s) [0..<NIPCLOCK]"

definition ipcheld_one_port :: "kstate \<Rightarrow> kport \<Rightarrow> bool" where
  "ipcheld_one_port s p = ipcheld_one s (ipcbucket_of (pt_idx p))"

definition set_bucket :: "kstate \<Rightarrow> nat \<Rightarrow> ipcbucket \<Rightarrow> kstate" where
  "set_bucket s i b = s\<lparr>k_buckets := (k_buckets s)(i := b)\<rparr>"

definition ipclock_enter_one :: "nat \<Rightarrow> kstate \<Rightarrow> fault + kstate" where
  "ipclock_enter_one i s =
    (let b = k_buckets s i in
     if b_owner b = Some (k_self s) then Inr (set_bucket s i (b\<lparr>b_depth := b_depth b + 1\<rparr>))
     else bnd (lock (b_lk b)) (\<lambda>l.
       Inr (set_bucket s i (b\<lparr>b_lk := l, b_owner := Some (k_self s), b_depth := 1,
                              b_t0 := k_ticks s\<rparr>))))"

definition ipclock_leave_one :: "nat \<Rightarrow> kstate \<Rightarrow> kstate" where
  "ipclock_leave_one i s =
    (let b = (k_buckets s i)\<lparr>b_depth := b_depth (k_buckets s i) - 1\<rparr> in
     if b_depth b > 0 then set_bucket s i b
     else set_bucket s i (b\<lparr>b_held := b_held b + (k_ticks s - b_t0 b), b_owner := None,
                            b_lk := unlock (b_lk b)\<rparr>))"

definition ipclock_enter_port :: "addr \<Rightarrow> kstate \<Rightarrow> fault + kstate" where
  "ipclock_enter_port a s = bnd (get_port s a) (\<lambda>p. ipclock_enter_one (ipcbucket_of (pt_idx p)) s)"

definition ipclock_leave_port :: "addr \<Rightarrow> kstate \<Rightarrow> fault + kstate" where
  "ipclock_leave_port a s =
    bnd (get_port s a) (\<lambda>p. Inr (ipclock_leave_one (ipcbucket_of (pt_idx p)) s))"

fun enter_upto :: "nat list \<Rightarrow> kstate \<Rightarrow> fault + kstate" where
  "enter_upto [] s = Inr s"
| "enter_upto (i # is) s = bnd (ipclock_enter_one i s) (enter_upto is)"

definition ipclock_enter :: "kstate \<Rightarrow> fault + kstate" where
  "ipclock_enter s = enter_upto [0..<NIPCLOCK] s"

definition ipclock_leave :: "kstate \<Rightarrow> kstate" where
  "ipclock_leave s = fold ipclock_leave_one (rev [0..<NIPCLOCK]) s"

definition ipc_assert_locked :: "kstate \<Rightarrow> fault + unit" where
  "ipc_assert_locked s = (if ipcheld s then Inr () else Inl Aborted)"

definition ipc_assert_port :: "addr \<Rightarrow> kstate \<Rightarrow> fault + unit" where
  "ipc_assert_port a s =
    bnd (get_port s a) (\<lambda>p. if ipcheld_one_port s p then Inr () else Inl Aborted)"

definition ipc_assert_any :: "kstate \<Rightarrow> fault + unit" where
  "ipc_assert_any s = (if ipcheld_any s then Inr () else Inl Aborted)"

section \<open>What the lock operations change and what they keep\<close>

text \<open>
  The whole of the state but the buckets. Every operation of this theory keeps it, so a fact
  about anything else passes through a lock operation untouched.
\<close>

definition nolocks :: "kstate \<Rightarrow> kstate" where
  "nolocks s = s\<lparr>k_buckets := \<lambda>_. undefined\<rparr>"

lemma set_bucket_simps [simp]:
  "nolocks (set_bucket s i b) = nolocks s"
  "k_self (set_bucket s i b) = k_self s"
  "k_ticks (set_bucket s i b) = k_ticks s"
  "k_buckets (set_bucket s i b) = (k_buckets s)(i := b)"
  by (simp_all add: set_bucket_def nolocks_def)

lemma ipcheld_iff: "ipcheld s \<longleftrightarrow> (\<forall>b<NIPCLOCK. ipcheld_one s b)"
  by (auto simp: ipcheld_def list_all_iff)

lemma ipcheld_any_iff: "ipcheld_any s \<longleftrightarrow> (\<exists>b<NIPCLOCK. ipcheld_one s b)"
  by (auto simp: ipcheld_any_def list_ex_iff)

lemma ipcbucket_of_less [simp]: "ipcbucket_of i < NIPCLOCK"
  by (simp add: ipcbucket_of_def)

lemma ipcheld_port: "ipcheld s \<Longrightarrow> ipcheld_one_port s p"
  by (simp add: ipcheld_iff ipcheld_one_port_def ipcbucket_of_def)

lemma ipcheld_one_any: "ipcheld_one_port s p \<Longrightarrow> ipcheld_any s"
  unfolding ipcheld_any_iff ipcheld_one_port_def using ipcbucket_of_less by blast

lemma enter_one_nolocks: "ipclock_enter_one i s = Inr s' \<Longrightarrow> nolocks s' = nolocks s"
  by (auto simp: ipclock_enter_one_def Let_def ret_iff split: if_splits)

lemma leave_one_nolocks [simp]: "nolocks (ipclock_leave_one i s) = nolocks s"
  by (simp add: ipclock_leave_one_def Let_def)

lemma enter_upto_nolocks: "enter_upto is s = Inr s' \<Longrightarrow> nolocks s' = nolocks s"
  by (induction "is" arbitrary: s) (auto simp: ret_iff dest: enter_one_nolocks)

lemma leave_nolocks [simp]: "nolocks (ipclock_leave s) = nolocks s"
proof -
  have "nolocks (fold ipclock_leave_one xs s) = nolocks s" for xs
    by (induction xs arbitrary: s) simp_all
  then show ?thesis by (simp add: ipclock_leave_def)
qed

text \<open>
  A bucket is consistent when its lock is held exactly while it has an owner, and it is owned
  exactly while its depth is positive.
\<close>

definition bucket_ok :: "ipcbucket \<Rightarrow> bool" where
  "bucket_ok b \<longleftrightarrow> (l_held (b_lk b) \<longleftrightarrow> b_owner b \<noteq> None) \<and> (b_owner b \<noteq> None \<longleftrightarrow> b_depth b > 0)"

definition locks_ok :: "kstate \<Rightarrow> bool" where
  "locks_ok s \<longleftrightarrow> (\<forall>b. bucket_ok (k_buckets s b))"

text \<open>How deep this cpu is inside a bucket.\<close>

definition depth_of :: "kstate \<Rightarrow> nat \<Rightarrow> int" where
  "depth_of s b = (if ipcheld_one s b then b_depth (k_buckets s b) else 0)"

lemma enter_one_ok:
  assumes "locks_ok s" and "ipclock_enter_one i s = Inr s'"
  shows "locks_ok s'" and "depth_of s' = (depth_of s)(i := depth_of s i + 1)"
    and "ipcheld_one s' i"
  using assms
  by (auto simp: ipclock_enter_one_def Let_def ret_iff locks_ok_def bucket_ok_def lock_def
      depth_of_def ipcheld_one_def fun_eq_iff split: if_splits)

text \<open>
  Entering only ever waits for another cpu: a bucket this cpu holds, or nobody holds, is had.
\<close>

lemma enter_one_returns:
  assumes "locks_ok s" and "b_owner (k_buckets s i) \<in> {None, Some (k_self s)}"
  shows "\<exists>s'. ipclock_enter_one i s = Inr s'"
  using assms spec [OF assms(1) [unfolded locks_ok_def], of i]
  by (auto simp: ipclock_enter_one_def Let_def lock_def bucket_ok_def)

lemma leave_one_ok:
  assumes "locks_ok s" and "ipcheld_one s i"
  shows "locks_ok (ipclock_leave_one i s)"
    and "depth_of (ipclock_leave_one i s) = (depth_of s)(i := depth_of s i - 1)"
  using assms spec [OF assms(1) [unfolded locks_ok_def], of i]
  by (auto simp: ipclock_leave_one_def Let_def locks_ok_def bucket_ok_def unlock_def depth_of_def
      ipcheld_one_def fun_eq_iff)

lemma depth_held: "locks_ok s \<Longrightarrow> ipcheld_one s b \<longleftrightarrow> depth_of s b > 0"
  by (auto simp: locks_ok_def bucket_ok_def depth_of_def ipcheld_one_def)

lemma enter_upto_ok:
  assumes "locks_ok s" and "enter_upto is s = Inr s'" and "distinct is"
  shows "locks_ok s'" and "depth_of s' = (\<lambda>b. depth_of s b + (if b \<in> set is then 1 else 0))"
  using assms
proof (induction "is" arbitrary: s)
  case (Cons i "is")
  {
    case 1
    then show ?case using Cons.IH(1) by (auto simp: ret_iff dest: enter_one_ok(1))
  next
    case 2
    then obtain s1 where s1: "ipclock_enter_one i s = Inr s1" "enter_upto is s1 = Inr s'"
      by (auto simp: ret_iff)
    from 2 s1 have "depth_of s' = (\<lambda>b. depth_of s1 b + (if b \<in> set is then 1 else 0))"
      using Cons.IH(2) enter_one_ok(1) by auto
    then show ?case using 2 s1 enter_one_ok(2) [OF 2(1) s1(1)] by (auto simp: fun_eq_iff)
  }
qed auto

lemma leave_fold_ok:
  assumes "locks_ok s" and "distinct is" and "\<forall>i\<in>set is. ipcheld_one s i"
  shows "locks_ok (fold ipclock_leave_one is s)
    \<and> depth_of (fold ipclock_leave_one is s) = (\<lambda>b. depth_of s b - (if b \<in> set is then 1 else 0))"
  using assms
proof (induction "is" arbitrary: s)
  case (Cons i "is")
  let ?s1 = "ipclock_leave_one i s"
  have ok: "locks_ok ?s1" and d: "depth_of ?s1 = (depth_of s)(i := depth_of s i - 1)"
    using leave_one_ok [of s i] Cons.prems by auto
  have "\<forall>j\<in>set is. ipcheld_one ?s1 j"
    using Cons.prems depth_held [OF ok] depth_held [OF Cons.prems(1)] d by auto
  from Cons.IH [OF ok _ this] Cons.prems d show ?case by (auto simp: fun_eq_iff)
qed simp

lemma enter_held:
  assumes "locks_ok s" and "ipclock_enter s = Inr s'"
  shows "locks_ok s'" and "ipcheld s'" and "nolocks s' = nolocks s"
    and "depth_of s' = (\<lambda>b. depth_of s b + (if b < NIPCLOCK then 1 else 0))"
proof -
  note e = assms(2) [unfolded ipclock_enter_def]
  show ok: "locks_ok s'" and n: "nolocks s' = nolocks s"
    using enter_upto_ok(1) [OF assms(1) e] enter_upto_nolocks [OF e] by auto
  show d: "depth_of s' = (\<lambda>b. depth_of s b + (if b < NIPCLOCK then 1 else 0))"
    using enter_upto_ok(2) [OF assms(1) e] by auto
  have "depth_of s b \<ge> 0" for b
    using assms(1) by (auto simp: depth_of_def locks_ok_def bucket_ok_def ipcheld_one_def
        intro: order_less_imp_le)
  then have "depth_of s' b > 0" if "b < NIPCLOCK" for b
    using d that by (simp add: add_nonneg_pos)
  then show "ipcheld s'" using depth_held [OF ok] by (simp add: ipcheld_iff)
qed

lemma leave_ok:
  assumes "locks_ok s" and "ipcheld s"
  shows "locks_ok (ipclock_leave s)"
    and "depth_of (ipclock_leave s) = (\<lambda>b. depth_of s b - (if b < NIPCLOCK then 1 else 0))"
proof -
  have "\<forall>i\<in>set (rev [0..<NIPCLOCK]). ipcheld_one s i"
    using assms(2) by (simp add: ipcheld_iff)
  from leave_fold_ok [OF assms(1) _ this]
  show "locks_ok (ipclock_leave s)"
    and "depth_of (ipclock_leave s) = (\<lambda>b. depth_of s b - (if b < NIPCLOCK then 1 else 0))"
    unfolding ipclock_leave_def by auto
qed

text \<open>
  Nobody else is in a bucket: what the bucket's lock gives a cpu that has got this far. Under
  it every entry returns.
\<close>

definition bucket_free :: "kstate \<Rightarrow> nat \<Rightarrow> bool" where
  "bucket_free s b \<longleftrightarrow> b_owner (k_buckets s b) \<in> {None, Some (k_self s)}"

lemma enter_one_free:
  assumes "ipclock_enter_one i s = Inr s'" and "bucket_free s b"
  shows "bucket_free s' b"
  using assms by (auto simp: ipclock_enter_one_def Let_def ret_iff bucket_free_def split: if_splits)

lemma enter_upto_free: "enter_upto is s = Inr s' \<Longrightarrow> bucket_free s b \<Longrightarrow> bucket_free s' b"
  by (induction "is" arbitrary: s) (auto simp: ret_iff dest: enter_one_free)

lemma leave_one_free: "bucket_free s b \<Longrightarrow> bucket_free (ipclock_leave_one i s) b"
  by (auto simp: ipclock_leave_one_def Let_def bucket_free_def)

lemma leave_free: "bucket_free s b \<Longrightarrow> bucket_free (ipclock_leave s) b"
proof -
  have "bucket_free s b \<Longrightarrow> bucket_free (fold ipclock_leave_one xs s) b" for xs
    by (induction xs arbitrary: s) (auto intro: leave_one_free)
  then show "bucket_free s b \<Longrightarrow> bucket_free (ipclock_leave s) b" by (simp add: ipclock_leave_def)
qed

lemma enter_upto_returns:
  assumes "locks_ok s" and "\<forall>b\<in>set is. bucket_free s b"
  shows "\<exists>s'. enter_upto is s = Inr s'"
  using assms
proof (induction "is" arbitrary: s)
  case (Cons i "is")
  then obtain t where t: "ipclock_enter_one i s = Inr t"
    using enter_one_returns [of s i] by (auto simp: bucket_free_def)
  then have "\<exists>s'. enter_upto is t = Inr s'"
    using Cons enter_one_ok(1) [OF Cons.prems(1) t] enter_one_free [OF t] by auto
  with t show ?case by simp
qed simp

lemma enter_returns:
  assumes "locks_ok s" and "\<forall>b<NIPCLOCK. bucket_free s b"
  obtains s' where "ipclock_enter s = Inr s'"
  using enter_upto_returns [of s "[0..<NIPCLOCK]"] assms by (auto simp: ipclock_enter_def)

lemma enter_port_ok:
  assumes "locks_ok s" and "k_pheap s a = Some p" and "bucket_free s (ipcbucket_of (pt_idx p))"
  obtains s' where "ipclock_enter_port a s = Inr s'" and "locks_ok s'" and "nolocks s' = nolocks s"
    and "ipcheld_one_port s' p"
    and "depth_of s' = (\<lambda>b. depth_of s b + (if b = ipcbucket_of (pt_idx p) then 1 else 0))"
proof -
  let ?b = "ipcbucket_of (pt_idx p)"
  obtain s' where s': "ipclock_enter_one ?b s = Inr s'"
    using enter_one_returns [OF assms(1)] assms(3) by (auto simp: bucket_free_def)
  note ok = enter_one_ok [OF assms(1) s']
  have d: "depth_of s' = (\<lambda>b. depth_of s b + (if b = ?b then 1 else 0))"
    unfolding ok(2) by (rule ext) simp
  show ?thesis
    using that [OF _ ok(1) enter_one_nolocks [OF s'] _ d] s' ok(3) assms(2)
    by (simp add: ipclock_enter_port_def get_Some ipcheld_one_port_def)
qed

lemma leave_port_ok:
  assumes "locks_ok s" and "k_pheap s a = Some p" and "ipcheld_one_port s p"
  obtains s' where "ipclock_leave_port a s = Inr s'" and "locks_ok s'" and "nolocks s' = nolocks s"
    and "depth_of s' = (\<lambda>b. depth_of s b - (if b = ipcbucket_of (pt_idx p) then 1 else 0))"
proof -
  let ?b = "ipcbucket_of (pt_idx p)"
  have h: "ipcheld_one s ?b" using assms(3) by (simp add: ipcheld_one_port_def)
  note ok = leave_one_ok [OF assms(1) h]
  have d: "depth_of (ipclock_leave_one ?b s) = (\<lambda>b. depth_of s b - (if b = ?b then 1 else 0))"
    unfolding ok(2) by (rule ext) simp
  show ?thesis
    by (rule that [OF _ ok(1) leave_one_nolocks d])
      (use assms(2) in \<open>simp add: ipclock_leave_port_def get_Some\<close>)
qed

lemma locks_ok_cong: "k_buckets s' = k_buckets s \<Longrightarrow> locks_ok s' = locks_ok s"
  by (simp add: locks_ok_def)

lemma depth_of_cong: "k_buckets s' = k_buckets s \<Longrightarrow> k_self s' = k_self s \<Longrightarrow> depth_of s' = depth_of s"
  by (simp add: depth_of_def ipcheld_one_def fun_eq_iff)

end
