(* ===== verification/Sched.thy ===== *)
theory Sched
  imports Ipclock
begin

unbundle bit_operations_syntax

text \<open>
  The run queues and the price of a proc: \<open>src/src/sched.c\<close> and the clock it reads
  (\<open>uptime_ms\<close> of \<open>src/src/timer.c\<close>). The two dispatch sets are \<open>k_schedq 0\<close> and \<open>k_schedq 1\<close>;
  \<open>k_runq\<close> and \<open>k_donq\<close> name them as the pointers \<open>runq\<close>, \<open>donq\<close> do. A \<open>TAILQ\<close> is a list, front
  first; removing an element that is not on the list is the fault \<open>BadList\<close>.
\<close>

definition uptime_ms :: "kstate \<Rightarrow> u64" where
  "uptime_ms s = (if \<not> k_clock_ready s then 0 else (k_ticks s - k_boot_tsc s) div k_cyc_per_ms s)"

definition sched_lock :: "kstate \<Rightarrow> fault + kstate" where
  "sched_lock s = bnd (lock (k_schedlock s)) (\<lambda>l. Inr (s\<lparr>k_schedlock := l\<rparr>))"

definition sched_unlock :: "kstate \<Rightarrow> kstate" where
  "sched_unlock s = s\<lparr>k_schedlock := unlock (k_schedlock s)\<rparr>"

definition sched_assert_locked :: "kstate \<Rightarrow> fault + unit" where
  "sched_assert_locked s = (if holding (k_schedlock s) then Inr () else Inl Aborted)"

definition proc_running :: "kproc \<Rightarrow> bool" where
  "proc_running p = (pr_oncpu p \<noteq> 0)"

definition proc_freeze :: "nat \<Rightarrow> kstate \<Rightarrow> fault + bool \<times> kstate" where
  "proc_freeze i s =
    bnd (sched_lock s) (\<lambda>s. bnd (get_proc s i) (\<lambda>p.
      Inr (proc_running p, sched_unlock (set_proc s i (p\<lparr>pr_frozen := pr_frozen p + 1\<rparr>)))))"

definition proc_thaw :: "nat \<Rightarrow> kstate \<Rightarrow> fault + kstate" where
  "proc_thaw i s =
    bnd (sched_lock s) (\<lambda>s. bnd (get_proc s i) (\<lambda>p.
      Inr (sched_unlock (if pr_frozen p > 0 then set_proc s i (p\<lparr>pr_frozen := pr_frozen p - 1\<rparr>)
                         else s))))"

definition proc_still_running :: "nat \<Rightarrow> kstate \<Rightarrow> fault + bool \<times> kstate" where
  "proc_still_running i s =
    bnd (sched_lock s) (\<lambda>s. bnd (get_proc s i) (\<lambda>p. Inr (proc_running p, sched_unlock s)))"

abbreviation (input) SCHED_DECAY_MS :: nat where "SCHED_DECAY_MS \<equiv> 500"

text \<open>
  The fraction is computed in 64 bits and then cut to 32, as the cast does; the average of two
  numbers far below \<open>2 ^ 32\<close> is exact.
\<close>

definition cpu_frac :: "kstate \<Rightarrow> u64 \<Rightarrow> u64 \<Rightarrow> nat" where
  "cpu_frac s n used =
    (let denom = n * (if k_cyc_per_ms s \<noteq> 0 then k_cyc_per_ms s else 1);
         frac = (if denom \<noteq> 0 then unat (ucast ((used * 1000) div denom) :: u32) else 0)
     in if frac > 1000 then 1000 else frac)"

definition cpu_average :: "nat \<Rightarrow> u64 \<Rightarrow> nat \<Rightarrow> nat" where
  "cpu_average cpu n frac =
    (let window = (if n > of_nat SCHED_DECAY_MS then SCHED_DECAY_MS else unat n)
     in (cpu * (SCHED_DECAY_MS - window) + frac * window) div SCHED_DECAY_MS)"

definition updatecpu :: "kstate \<Rightarrow> kproc \<Rightarrow> kproc" where
  "updatecpu s p =
    (let n = uptime_ms s - pr_lastupdate p in
     if n < 10 then p
     else p\<lparr>pr_cpu := cpu_average (pr_cpu p) n (cpu_frac s n (pr_cputime p - pr_lastcpu p)),
            pr_lastupdate := uptime_ms s, pr_lastcpu := pr_cputime p\<rparr>)"

definition reprioritize :: "kstate \<Rightarrow> kproc \<Rightarrow> int \<Rightarrow> int \<times> kproc" where
  "reprioritize s p0 nrunnable0 =
    (let p = updatecpu s p0;
         nrunnable = (if nrunnable0 \<le> 0 then 1 else nrunnable0);
         fair = 1000 div nat nrunnable;
         n = (if pr_cpu p \<noteq> 0 then pr_cpu p else 1);
         cap = pr_weight p * PRI_BASE;
         r = (fair * cap) div n
     in (int (if r > cap then cap else r), p))"

definition rq_init :: "kstate \<Rightarrow> kstate" where
  "rq_init s = s\<lparr>k_schedq := (\<lambda>_. \<lparr>rq_q = \<lambda>_. [], rq_mask = 0, rq_n = 0\<rparr>),
                 k_runq := 0, k_donq := 1\<rparr>"

definition rq_bucket :: "int \<Rightarrow> nat" where
  "rq_bucket pri0 =
    (let top = int (MAXWEIGHT * PRI_BASE);
         pri1 = (if pri0 < 0 then 0 else pri0);
         pri = (if pri1 > top then top else pri1)
     in nat (pri * int (NRQ - 1) div top))"

text \<open>A bucket's list, the mask and the count, as \<open>rq_add\<close> and \<open>rq_del\<close> leave them.\<close>

definition rqset_add :: "nat \<Rightarrow> nat \<Rightarrow> rqset \<Rightarrow> rqset" where
  "rqset_add b i r = r\<lparr>rq_q := (rq_q r)(b := rq_q r b @ [i]), rq_mask := rq_mask r OR push_bit b 1,
                       rq_n := rq_n r + 1\<rparr>"

definition rqset_del :: "nat \<Rightarrow> nat \<Rightarrow> rqset \<Rightarrow> rqset" where
  "rqset_del b i r =
    (let l = remove1 i (rq_q r b) in
     r\<lparr>rq_q := (rq_q r)(b := l),
       rq_mask := (if l = [] then rq_mask r AND NOT (push_bit b 1) else rq_mask r),
       rq_n := rq_n r - 1\<rparr>)"

definition set_rq :: "kstate \<Rightarrow> nat \<Rightarrow> rqset \<Rightarrow> kstate" where
  "set_rq s q r = s\<lparr>k_schedq := (k_schedq s)(q := r)\<rparr>"

definition rq_add :: "nat \<Rightarrow> nat \<Rightarrow> kstate \<Rightarrow> fault + kstate" where
  "rq_add q i s =
    bnd (get_proc s i) (\<lambda>p. bnd (sched_assert_locked s) (\<lambda>_.
      Inr (set_proc (set_rq s q (rqset_add (rq_bucket (pr_pri p)) i (k_schedq s q)))
             i (p\<lparr>pr_onq := Some q\<rparr>))))"

definition rq_del :: "nat \<Rightarrow> kstate \<Rightarrow> fault + kstate" where
  "rq_del i s =
    bnd (get_proc s i) (\<lambda>p. bnd (sched_assert_locked s) (\<lambda>_.
      case pr_onq p of
        None \<Rightarrow> Inr s
      | Some q \<Rightarrow>
          (let b = rq_bucket (pr_pri p) in
           if i \<notin> set (rq_q (k_schedq s q) b) then Inl BadList
           else Inr (set_proc (set_rq s q (rqset_del b i (k_schedq s q))) i (p\<lparr>pr_onq := None\<rparr>)))))"

text \<open>The two takes differ only in the order the buckets are looked at.\<close>

definition rq_take :: "nat list \<Rightarrow> nat \<Rightarrow> kstate \<Rightarrow> fault + nat option \<times> kstate" where
  "rq_take bs q s =
    (case find (\<lambda>b. rq_mask (k_schedq s q) AND push_bit b 1 \<noteq> 0) bs of
       None \<Rightarrow> Inr (None, s)
     | Some b \<Rightarrow>
         (case rq_q (k_schedq s q) b of
            [] \<Rightarrow> Inl BadList
          | i # _ \<Rightarrow> bnd (rq_del i s) (\<lambda>s. Inr (Some i, s))))"

definition rq_take_high :: "nat \<Rightarrow> kstate \<Rightarrow> fault + nat option \<times> kstate" where
  "rq_take_high = rq_take (rev [0..<NRQ])"

definition rq_take_any :: "nat \<Rightarrow> kstate \<Rightarrow> fault + nat option \<times> kstate" where
  "rq_take_any = rq_take [0..<NRQ]"

definition proc_block :: "nat \<Rightarrow> kstate \<Rightarrow> fault + kstate" where
  "proc_block i s =
    bnd (ipc_assert_any s) (\<lambda>_. bnd (sched_lock s) (\<lambda>s. bnd (get_proc s i) (\<lambda>p.
      bnd (rq_del i (set_proc s i (p\<lparr>pr_status := BLOCKED\<rparr>))) (\<lambda>s. Inr (sched_unlock s)))))"

definition proc_unqueue :: "nat \<Rightarrow> kstate \<Rightarrow> fault + kstate" where
  "proc_unqueue i s =
    bnd (sched_lock s) (\<lambda>s. bnd (rq_del i s) (\<lambda>s. Inr (sched_unlock s)))"

text \<open>Is cpu \<open>c\<close> running a runnable proc that is on neither set?\<close>

definition cpu_in_hand :: "kstate \<Rightarrow> nat \<Rightarrow> bool" where
  "cpu_in_hand s c =
    (case c_current (k_cpus s c) of
       None \<Rightarrow> False
     | Some j \<Rightarrow> (case k_procs s j of
                    None \<Rightarrow> False
                  | Some p \<Rightarrow> pr_status p = READY \<and> pr_onq p = None))"

definition count_runnable :: "kstate \<Rightarrow> int" where
  "count_runnable s =
    rq_n (k_schedq s (k_runq s)) + rq_n (k_schedq s (k_donq s))
    + int (length (filter (cpu_in_hand s) [0..<k_ncpu s]))"

definition wake_idle_cpu :: "kstate \<Rightarrow> nat option" where
  "wake_idle_cpu s = find (\<lambda>c. c_idle (k_cpus s c) \<and> c \<noteq> k_self s) [0..<k_ncpu s]"

text \<open>A pending stop request of a debugger, taken by the wake of a blocked proc.\<close>

definition dbg_stop_pending :: "kproc \<Rightarrow> bool" where
  "dbg_stop_pending p =
    (case pr_dbg p of None \<Rightarrow> False | Some d \<Rightarrow> pr_status p = BLOCKED \<and> d_stopreq d)"

definition dbg_take_stop :: "kproc \<Rightarrow> kproc" where
  "dbg_take_stop p =
    p\<lparr>pr_status := STOPPED,
      pr_dbg := map_option (\<lambda>d. d\<lparr>d_stopreq := False, d_reason := DBG_REQ, d_notify := DBG_REQ\<rparr>)
                 (pr_dbg p)\<rparr>"

text \<open>Price a proc that has just been marked \<open>READY\<close> in the state \<open>s\<close>.\<close>

definition price :: "nat \<Rightarrow> kstate \<Rightarrow> fault + kstate" where
  "price i s =
    bnd (get_proc s i) (\<lambda>p.
      let (pri, p') = reprioritize s p (count_runnable s + 1) in
      Inr (set_proc s i (p'\<lparr>pr_pri := pri\<rparr>)))"

text \<open>The tail of \<open>make_ready\<close>, for a proc in nobody's hands that is on the set \<open>keep\<close> or on none.\<close>

definition ready_enqueue :: "nat \<Rightarrow> nat option \<Rightarrow> kstate \<Rightarrow> fault + kstate" where
  "ready_enqueue i keep s =
    bnd (if keep \<noteq> None then rq_del i s else Inr s) (\<lambda>s. bnd (get_proc s i) (\<lambda>p.
    bnd (price i (set_proc s i (p\<lparr>pr_status := READY\<rparr>))) (\<lambda>s.
    bnd (rq_add (case keep of Some q \<Rightarrow> q | None \<Rightarrow> k_runq s) i s) (\<lambda>s.
    Inr (case wake_idle_cpu s of
           None \<Rightarrow> sched_unlock s
         | Some c \<Rightarrow> (sched_unlock s)\<lparr>k_wakes := k_wakes s @ [c]\<rparr>)))))"

definition make_ready :: "nat \<Rightarrow> kstate \<Rightarrow> fault + kstate" where
  "make_ready i s =
    bnd (ipc_assert_any s) (\<lambda>_. bnd (sched_lock s) (\<lambda>s. bnd (get_proc s i) (\<lambda>p.
      if pr_status p = STOPPED \<or> pr_status p = BROKE then Inr (sched_unlock s)
      else if dbg_stop_pending p then Inr (sched_unlock (set_proc s i (dbg_take_stop p)))
      else if pr_oncpu p \<noteq> 0 then
        bnd (price i (set_proc s i (p\<lparr>pr_status := READY\<rparr>))) (\<lambda>s. Inr (sched_unlock s))
      else ready_enqueue i (pr_onq p) s)))"

section \<open>What the scheduler changes and what it keeps\<close>

text \<open>
  A proc without its scheduling fields, and the state without the run queues, the scheduler's
  lock and the record of wake-ups. Nothing in \<open>sched.c\<close> changes these projections.
\<close>

definition nosched_proc :: "kproc \<Rightarrow> kproc" where
  "nosched_proc p = p\<lparr>pr_status := DEAD, pr_onq := None, pr_pri := 0, pr_cpu := 0,
     pr_lastupdate := 0, pr_lastcpu := 0, pr_dbg := None\<rparr>"

definition nosched :: "kstate \<Rightarrow> kstate" where
  "nosched s = s\<lparr>k_schedq := \<lambda>_. undefined, k_schedlock := undefined, k_wakes := [],
     k_procs := \<lambda>i. map_option nosched_proc (k_procs s i)\<rparr>"

lemma nosched_proc_sel [simp]:
  "pr_oncpu (nosched_proc p) = pr_oncpu p" "pr_woken (nosched_proc p) = pr_woken p"
  "pr_waiters (nosched_proc p) = pr_waiters p" "pr_w0used (nosched_proc p) = pr_w0used p"
  "pr_rights (nosched_proc p) = pr_rights p" "pr_xrights (nosched_proc p) = pr_xrights p"
  by (simp_all add: nosched_proc_def)

lemma nosched_proc_eqD:
  assumes "nosched_proc p' = nosched_proc p"
  shows "pr_oncpu p' = pr_oncpu p" "pr_woken p' = pr_woken p" "pr_waiters p' = pr_waiters p"
    "pr_w0used p' = pr_w0used p" "pr_rights p' = pr_rights p" "pr_xrights p' = pr_xrights p"
  using assms by (metis nosched_proc_sel)+

text \<open>
  The run queues are consistent: a proc is on exactly the bucket its priority names in the set
  it says it is on, no proc is listed twice, a proc in a cpu's hands is on neither set, the mask
  has exactly the bits of the buckets that are not empty, and the count is the number of procs.
\<close>

definition rqset_ok :: "rqset \<Rightarrow> bool" where
  "rqset_ok r \<longleftrightarrow> (\<forall>b. distinct (rq_q r b)) \<and> (\<forall>b<NRQ. bit (rq_mask r) b \<longleftrightarrow> rq_q r b \<noteq> [])
     \<and> rq_n r = (\<Sum>b<NRQ. int (length (rq_q r b)))"

definition on_bucket :: "kstate \<Rightarrow> nat \<Rightarrow> nat \<Rightarrow> nat \<Rightarrow> bool" where
  "on_bucket s i q b \<longleftrightarrow>
     (\<exists>p. k_procs s i = Some p \<and> pr_onq p = Some q \<and> rq_bucket (pr_pri p) = b)"

definition rq_ok :: "kstate \<Rightarrow> bool" where
  "rq_ok s \<longleftrightarrow> (\<forall>q. rqset_ok (k_schedq s q)) \<and> k_runq s < 2 \<and> k_donq s = 1 - k_runq s
     \<and> (\<forall>i p q. k_procs s i = Some p \<longrightarrow> pr_onq p = Some q \<longrightarrow> q < 2 \<and> pr_oncpu p = 0)
     \<and> (\<forall>q b i. i \<in> set (rq_q (k_schedq s q) b) \<longleftrightarrow> on_bucket s i q b)"

lemma rq_bucket_less [simp]: "rq_bucket pri < NRQ"
  by (simp add: rq_bucket_def Let_def nat_less_iff) linarith

lemma rq_bucket_mono: "x \<le> y \<Longrightarrow> rq_bucket x \<le> rq_bucket y"
  by (simp add: rq_bucket_def Let_def) linarith

lemma mask_bit_iff: "b < NRQ \<Longrightarrow> (m :: u32) AND 2 ^ b \<noteq> 0 \<longleftrightarrow> bit m b"
  by (simp add: and_exp_eq_0_iff_not_bit)

lemma bit_add_mask:
  "c < NRQ \<Longrightarrow> bit ((m :: u32) OR 2 ^ b) c \<longleftrightarrow> bit m c \<or> c = b"
  by (auto simp: bit_simps)

lemma bit_del_mask:
  "c < NRQ \<Longrightarrow> bit ((m :: u32) AND NOT (2 ^ b)) c \<longleftrightarrow> bit m c \<and> c \<noteq> b"
  by (auto simp: bit_simps)

lemma rqset_ok_add:
  assumes "rqset_ok r" and "i \<notin> set (rq_q r b)" and "b < NRQ"
  shows "rqset_ok (rqset_add b i r)"
proof -
  have "(\<Sum>c<NRQ. int (length (((rq_q r)(b := rq_q r b @ [i])) c)))
      = (\<Sum>c<NRQ. int (length (rq_q r c)) + (if c = b then 1 else 0))"
    by (rule sum.cong) auto
  also have "\<dots> = (\<Sum>c<NRQ. int (length (rq_q r c))) + 1"
    using assms(3) by (simp add: sum.distrib)
  finally show ?thesis
    using assms by (simp add: rqset_ok_def rqset_add_def bit_add_mask)
qed

lemma rqset_ok_del:
  assumes "rqset_ok r" and "i \<in> set (rq_q r b)" and "b < NRQ"
  shows "rqset_ok (rqset_del b i r)"
proof -
  have "int (length (remove1 i (rq_q r b))) = int (length (rq_q r b)) - 1"
    using length_pos_if_in_set [OF assms(2)] assms(2)
    by (metis One_nat_def Suc_leI length_remove1 of_nat_1 of_nat_diff)
  then have "(\<Sum>c<NRQ. int (length (((rq_q r)(b := remove1 i (rq_q r b))) c)))
      = (\<Sum>c<NRQ. int (length (rq_q r c)) - (if c = b then 1 else 0))"
    by (intro sum.cong) auto
  also have "\<dots> = (\<Sum>c<NRQ. int (length (rq_q r c))) - 1"
    using assms(3) by (simp add: sum_subtractf)
  finally have n: "(\<Sum>c<NRQ. int (length (((rq_q r)(b := remove1 i (rq_q r b))) c)))
      = (\<Sum>c<NRQ. int (length (rq_q r c))) - 1" .
  have "rq_q r b \<noteq> []" using assms(2) by auto
  with assms n show ?thesis
    by (auto simp: rqset_ok_def rqset_del_def Let_def bit_del_mask)
qed

lemma rqset_q [simp]:
  "rq_q (rqset_add b i r) = (rq_q r)(b := rq_q r b @ [i])"
  "rq_q (rqset_del b i r) = (rq_q r)(b := remove1 i (rq_q r b))"
  by (simp_all add: rqset_add_def rqset_del_def Let_def)

lemma set_rq_sel [simp]:
  "k_schedq (set_rq s q r) = (k_schedq s)(q := r)" "k_procs (set_rq s q r) = k_procs s"
  "k_runq (set_rq s q r) = k_runq s" "k_donq (set_rq s q r) = k_donq s"
  "k_schedlock (set_rq s q r) = k_schedlock s" "k_wakes (set_rq s q r) = k_wakes s"
  "nosched (set_rq s q r) = nosched s"
  by (simp_all add: set_rq_def nosched_def)

text \<open>Changing a proc's scheduling fields leaves the projection alone.\<close>

lemma nosched_set_proc:
  "k_procs s i = Some p \<Longrightarrow> nosched_proc p' = nosched_proc p \<Longrightarrow> nosched (set_proc s i p') = nosched s"
  by (auto simp: nosched_def set_proc_def fun_eq_iff)

lemma nosched_onq:
  "k_procs s i = Some p \<Longrightarrow> nosched (set_proc s i (p\<lparr>pr_onq := q\<rparr>)) = nosched s"
  by (rule nosched_set_proc) (simp_all add: nosched_proc_def)

lemma rq_okD:
  assumes "rq_ok s"
  shows "rqset_ok (k_schedq s q)" and "k_runq s < 2" and "k_donq s = 1 - k_runq s"
    and "i \<in> set (rq_q (k_schedq s q) b) \<longleftrightarrow> on_bucket s i q b"
    and "k_procs s i = Some p \<Longrightarrow> pr_onq p = Some q \<Longrightarrow> q < 2 \<and> pr_oncpu p = 0"
  using assms by (auto simp: rq_ok_def)

lemma rq_add_ok:
  assumes "rq_ok s" and "l_held (k_schedlock s)" and "k_procs s i = Some p" and "pr_onq p = None"
    and "pr_oncpu p = 0" and "q < 2"
  obtains s' where "rq_add q i s = Inr s'" and "rq_ok s'" and "nosched s' = nosched s"
    and "k_procs s' = (k_procs s)(i \<mapsto> p\<lparr>pr_onq := Some q\<rparr>)" and "k_schedlock s' = k_schedlock s"
    and "k_wakes s' = k_wakes s"
proof -
  let ?s' = "set_proc (set_rq s q (rqset_add (rq_bucket (pr_pri p)) i (k_schedq s q)))
               i (p\<lparr>pr_onq := Some q\<rparr>)"
  have r: "rq_add q i s = Inr ?s'"
    using assms by (simp add: rq_add_def get_Some sched_assert_locked_def holding_def Let_def)
  have fresh: "i \<notin> set (rq_q (k_schedq s q') b')" for q' b'
    using rq_okD(4) [OF assms(1)] assms(3,4) by (auto simp: on_bucket_def)
  have "rq_ok ?s'"
    unfolding rq_ok_def
  proof (intro conjI allI impI)
    show "rqset_ok (k_schedq ?s' q')" for q'
      using rqset_ok_add [OF rq_okD(1) [OF assms(1)] fresh rq_bucket_less]
        rq_okD(1) [OF assms(1)] by auto
    show "j \<in> set (rq_q (k_schedq ?s' q') b') \<longleftrightarrow> on_bucket ?s' j q' b'" for q' b' j
      using rq_okD(4) [OF assms(1), of j q' b'] fresh assms(3,4)
      by (auto simp: on_bucket_def split: if_splits)
  qed (use assms rq_okD [OF assms(1)] in \<open>auto split: if_splits\<close>)
  with r show ?thesis
    by (rule that) (use assms in \<open>simp_all add: nosched_onq\<close>)
qed

lemma rq_del_ok:
  assumes "rq_ok s" and "l_held (k_schedlock s)" and "k_procs s i = Some p"
  obtains s' where "rq_del i s = Inr s'" and "rq_ok s'" and "nosched s' = nosched s"
    and "k_procs s' = (k_procs s)(i \<mapsto> p\<lparr>pr_onq := None\<rparr>)" and "k_schedlock s' = k_schedlock s"
    and "k_wakes s' = k_wakes s"
proof (cases "pr_onq p")
  case None
  then have "rq_del i s = Inr s" and "k_procs s = (k_procs s)(i \<mapsto> p\<lparr>pr_onq := None\<rparr>)"
    using assms by (auto simp: rq_del_def get_Some sched_assert_locked_def holding_def)
  then show ?thesis using that assms(1) by simp
next
  case (Some q)
  let ?b = "rq_bucket (pr_pri p)"
  let ?s' = "set_proc (set_rq s q (rqset_del ?b i (k_schedq s q))) i (p\<lparr>pr_onq := None\<rparr>)"
  have on: "i \<in> set (rq_q (k_schedq s q') b') \<longleftrightarrow> q' = q \<and> b' = ?b" for q' b'
    using rq_okD(4) [OF assms(1)] assms(3) Some by (auto simp: on_bucket_def)
  then have r: "rq_del i s = Inr ?s'"
    using assms Some
    by (simp add: rq_del_def get_Some sched_assert_locked_def holding_def Let_def)
  have d: "distinct (rq_q (k_schedq s q') b')" for q' b'
    using rq_okD(1) [OF assms(1)] by (simp add: rqset_ok_def)
  have "rq_ok ?s'"
    unfolding rq_ok_def
  proof (intro conjI allI impI)
    show "rqset_ok (k_schedq ?s' q')" for q'
      using rqset_ok_del [OF rq_okD(1) [OF assms(1)] _ rq_bucket_less, of i q "pr_pri p"] on
        rq_okD(1) [OF assms(1)] by auto
    show "j \<in> set (rq_q (k_schedq ?s' q') b') \<longleftrightarrow> on_bucket ?s' j q' b'" for q' b' j
      using rq_okD(4) [OF assms(1), of j q' b'] on d [of q' b'] assms(3)
      by (auto simp: on_bucket_def split: if_splits)
  qed (use assms rq_okD [OF assms(1)] in \<open>auto split: if_splits\<close>)
  with r show ?thesis
    by (rule that) (use assms in \<open>simp_all add: nosched_onq\<close>)
qed

section \<open>Prices\<close>

lemma cpu_frac_bound: "cpu_frac s n used \<le> 1000"
  by (simp add: cpu_frac_def Let_def)

lemma cpu_average_bound:
  assumes "cpu \<le> 1000" and "frac \<le> 1000"
  shows "cpu_average cpu n frac \<le> 1000"
proof -
  have b: "(cpu * (500 - w) + frac * w) div 500 \<le> 1000" if "w \<le> 500" for w :: nat
  proof -
    have "cpu * (500 - w) \<le> 1000 * (500 - w)" "frac * w \<le> 1000 * w"
      using assms by simp_all
    then have "cpu * (500 - w) + frac * w \<le> 1000 * 500" using that by linarith
    then show ?thesis by linarith
  qed
  have "unat n \<le> 500" if "\<not> n > 500"
    using that by (simp add: word_less_nat_alt)
  then show ?thesis
    using b [of "unat n"] assms by (auto simp: cpu_average_def Let_def)
qed

lemma updatecpu_bound: "pr_cpu p \<le> 1000 \<Longrightarrow> pr_cpu (updatecpu s p) \<le> 1000"
  by (simp add: updatecpu_def Let_def cpu_average_bound cpu_frac_bound)

lemma updatecpu_nosched [simp]:
  "nosched_proc (updatecpu s p) = nosched_proc p"
  "pr_status (updatecpu s p) = pr_status p" "pr_onq (updatecpu s p) = pr_onq p"
  "pr_dbg (updatecpu s p) = pr_dbg p" "pr_oncpu (updatecpu s p) = pr_oncpu p"
  "pr_weight (updatecpu s p) = pr_weight p"
  by (simp_all add: updatecpu_def Let_def nosched_proc_def)

lemma rq_ok_set_proc:
  assumes "rq_ok s" and "k_procs s i = Some p" and "pr_onq p' = pr_onq p"
    and "pr_pri p' = pr_pri p \<or> pr_onq p = None" and "pr_oncpu p' = pr_oncpu p"
  shows "rq_ok (set_proc s i p')"
  using assms by (auto simp: rq_ok_def on_bucket_def)

lemma price_ok:
  assumes "k_procs s i = Some p" and "rq_ok s" and "pr_onq p = None"
  obtains s' p' where "price i s = Inr s'" and "rq_ok s'" and "nosched s' = nosched s"
    and "k_procs s' = (k_procs s)(i \<mapsto> p')" and "nosched_proc p' = nosched_proc p"
    and "pr_status p' = pr_status p" and "pr_onq p' = None" and "pr_dbg p' = pr_dbg p"
    and "k_schedlock s' = k_schedlock s"
proof -
  define p' where "p' = (updatecpu s p)\<lparr>pr_pri := fst (reprioritize s p (count_runnable s + 1))\<rparr>"
  have r: "price i s = Inr (set_proc s i p')"
    using assms by (simp add: price_def get_Some reprioritize_def Let_def p'_def)
  have "nosched_proc p' = nosched_proc (updatecpu s p)"
    unfolding p'_def by (simp add: nosched_proc_def)
  then have n: "nosched_proc p' = nosched_proc p" by simp
  have "pr_status p' = pr_status p" "pr_onq p' = None" "pr_dbg p' = pr_dbg p"
    "pr_oncpu p' = pr_oncpu p"
    using assms(3) by (simp_all add: p'_def)
  then show ?thesis
    using that [OF r] rq_ok_set_proc [OF assms(2,1), of p'] nosched_set_proc [OF assms(1) n] n assms(3)
    by simp
qed

lemma nosched_unlock [simp]: "nosched (sched_unlock s) = nosched s"
  by (simp add: sched_unlock_def nosched_def)

lemma nosched_wakes [simp]: "nosched (s\<lparr>k_wakes := x\<rparr>) = nosched s"
  by (simp add: nosched_def)

lemma rq_ok_upd [simp]:
  "rq_ok (sched_unlock s) = rq_ok s" "rq_ok (s\<lparr>k_wakes := x\<rparr>) = rq_ok s"
  "rq_ok (s\<lparr>k_schedlock := l\<rparr>) = rq_ok s"
  by (simp_all add: rq_ok_def sched_unlock_def on_bucket_def)

lemma sched_unlock_simps [simp]:
  "k_procs (sched_unlock s) = k_procs s" "l_held (k_schedlock (sched_unlock s)) = False"
  by (simp_all add: sched_unlock_def unlock_def)

text \<open>
  What making a proc ready comes to. A held proc and a corpse are left as they are, a pending
  debugger stop turns the wake into the stop, and any other proc is \<open>READY\<close> after it: on a run
  queue, or in the hands of the cpu that will put it there.
\<close>

definition woken_to :: "kproc \<Rightarrow> kproc \<Rightarrow> bool" where
  "woken_to p p' \<longleftrightarrow>
     (if pr_status p = STOPPED \<or> pr_status p = BROKE then p' = p
      else if dbg_stop_pending p then p' = dbg_take_stop p
      else pr_status p' = READY \<and> (pr_oncpu p' = 0 \<longrightarrow> pr_onq p' \<noteq> None))"

lemma ready_enqueue_ok:
  assumes "rq_ok s" and "l_held (k_schedlock s)" and "k_procs s i = Some p" and "pr_oncpu p = 0"
  obtains s' p' where "ready_enqueue i (pr_onq p) s = Inr s'" and "rq_ok s'"
    and "\<not> l_held (k_schedlock s')" and "nosched s' = nosched s" and "k_procs s' = (k_procs s)(i \<mapsto> p')"
    and "nosched_proc p' = nosched_proc p" and "pr_status p' = READY" and "pr_onq p' \<noteq> None"
proof -
  define p1 where "p1 = p\<lparr>pr_onq := None\<rparr>"
  define p2 where "p2 = p1\<lparr>pr_status := READY\<rparr>"
  have pp: "nosched_proc p1 = nosched_proc p" "nosched_proc p2 = nosched_proc p1"
    "pr_onq p1 = None" "pr_onq p2 = None" "pr_status p2 = READY" "pr_oncpu p2 = pr_oncpu p1"
    by (simp_all add: p1_def p2_def nosched_proc_def)
  obtain s1 where s1: "(if pr_onq p \<noteq> None then rq_del i s else Inr s) = Inr s1"
    "rq_ok s1" "nosched s1 = nosched s" "k_procs s1 = (k_procs s)(i \<mapsto> p1)" "l_held (k_schedlock s1)"
  proof (cases "pr_onq p = None")
    case True
    then have "p1 = p" by (simp add: p1_def)
    with True show ?thesis using assms by (intro that [of s]) auto
  next
    case False
    from rq_del_ok [OF assms(1-3)] obtain s1 where "rq_del i s = Inr s1" "rq_ok s1"
      "nosched s1 = nosched s" "k_procs s1 = (k_procs s)(i \<mapsto> p1)" "k_schedlock s1 = k_schedlock s"
      unfolding p1_def by metis
    with False assms(2) show ?thesis by (intro that [of s1]) auto
  qed
  define s2 where "s2 = set_proc s1 i p2"
  have s2: "rq_ok s2" "nosched s2 = nosched s1" "k_procs s2 = (k_procs s)(i \<mapsto> p2)"
    "l_held (k_schedlock s2)"
    using rq_ok_set_proc [OF s1(2), of i p1 p2] nosched_set_proc [of s1 i p1 p2] s1(4,5) pp
    by (simp_all add: s2_def)
  obtain s3 p3 where s3: "price i s2 = Inr s3" "rq_ok s3" "nosched s3 = nosched s2"
    "k_procs s3 = (k_procs s2)(i \<mapsto> p3)" "nosched_proc p3 = nosched_proc p2"
    "pr_status p3 = READY" "pr_onq p3 = None" "k_schedlock s3 = k_schedlock s2"
    using s2 pp by (elim price_ok [of s2 i p2, rotated]) auto
  define q where "q = (case pr_onq p of Some q \<Rightarrow> q | None \<Rightarrow> k_runq s3)"
  have "q < 2"
    using rq_okD(5) [OF assms(1,3)] rq_okD(2) [OF s3(2)] by (auto simp: q_def split: option.split)
  moreover have np: "nosched_proc p3 = nosched_proc p" using s3(5) pp by simp
  then have "pr_oncpu p3 = 0"
    using nosched_proc_eqD(1) [OF np] assms(4) by simp
  ultimately obtain s4 where s4: "rq_add q i s3 = Inr s4" "rq_ok s4" "nosched s4 = nosched s3"
    "k_procs s4 = (k_procs s3)(i \<mapsto> p3\<lparr>pr_onq := Some q\<rparr>)"
    using s3 s2(4) by (elim rq_add_ok [of s3 i p3 q, rotated 5]) auto
  define s5 where "s5 = (case wake_idle_cpu s4 of None \<Rightarrow> sched_unlock s4
       | Some c \<Rightarrow> (sched_unlock s4)\<lparr>k_wakes := k_wakes s4 @ [c]\<rparr>)"
  have "get_proc s1 i = Inr p1" using s1(4) by (simp add: get_Some)
  then have r: "ready_enqueue i (pr_onq p) s = Inr s5"
    by (simp only: ready_enqueue_def s1(1) bnd_Inr s3(1) s4(1) p2_def [symmetric] s2_def [symmetric]
        q_def [symmetric] s5_def [symmetric])
  have s5: "rq_ok s5" "nosched s5 = nosched s4" "\<not> l_held (k_schedlock s5)" "k_procs s5 = k_procs s4"
    using s4(2) by (simp_all add: s5_def split: option.split)
  show ?thesis
    using r s5 s4 s3 s2(2,3) s1(3) np
    by (intro that [of s5 "p3\<lparr>pr_onq := Some q\<rparr>"]) (simp_all add: nosched_proc_def)
qed

lemma make_ready_ok:
  assumes "rq_ok s" and "\<not> l_held (k_schedlock s)" and "ipcheld_any s" and "k_procs s i = Some p"
  obtains s' p' where "make_ready i s = Inr s'" and "rq_ok s'" and "\<not> l_held (k_schedlock s')"
    and "nosched s' = nosched s" and "k_procs s' = (k_procs s)(i \<mapsto> p')"
    and "nosched_proc p' = nosched_proc p" and "woken_to p p'"
proof -
  obtain t where l: "sched_lock s = Inr t" and ok: "rq_ok t" and n: "nosched t = nosched s"
    and h: "l_held (k_schedlock t)" and pt: "k_procs t = k_procs s"
    using assms by (simp add: sched_lock_def lock_def nosched_def)
  have pi: "k_procs t i = Some p" using pt assms(4) by simp
  have i: "ipc_assert_any s = Inr ()" using assms by (simp add: ipc_assert_any_def)
  note red = make_ready_def l i get_proc_Some [OF pi]
  consider (held) "pr_status p = STOPPED \<or> pr_status p = BROKE"
    | (stop) "\<not> (pr_status p = STOPPED \<or> pr_status p = BROKE)" "dbg_stop_pending p"
    | (hand) "\<not> (pr_status p = STOPPED \<or> pr_status p = BROKE)" "\<not> dbg_stop_pending p"
        "pr_oncpu p \<noteq> 0"
    | (queue) "\<not> (pr_status p = STOPPED \<or> pr_status p = BROKE)" "\<not> dbg_stop_pending p"
        "pr_oncpu p = 0"
    by blast
  then show ?thesis
  proof cases
    case held
    then show ?thesis
      using assms(4) ok n pt
      by (intro that [of "sched_unlock t" p]) (auto simp: red woken_to_def fun_upd_idem)
  next
    case stop
    define p1 where "p1 = dbg_take_stop p"
    have "nosched_proc p1 = nosched_proc p" "pr_onq p1 = pr_onq p" "pr_pri p1 = pr_pri p"
      "pr_oncpu p1 = pr_oncpu p"
      by (simp_all add: nosched_proc_def dbg_take_stop_def p1_def)
    with stop show ?thesis
      using n pt rq_ok_set_proc [OF ok pi, of p1] nosched_set_proc [OF pi, of p1]
      by (intro that [of "sched_unlock (set_proc t i p1)" p1])
        (simp_all add: red woken_to_def p1_def)
  next
    case hand
    define p1 where "p1 = p\<lparr>pr_status := READY\<rparr>"
    have p1: "nosched_proc p1 = nosched_proc p" "pr_onq p1 = pr_onq p" "pr_pri p1 = pr_pri p"
      "pr_oncpu p1 = pr_oncpu p" "pr_status p1 = READY"
      by (simp_all add: nosched_proc_def p1_def)
    have none: "pr_onq p = None" using rq_okD(5) [OF assms(1,4)] hand by (cases "pr_onq p") auto
    have ok1: "rq_ok (set_proc t i p1)" by (rule rq_ok_set_proc [OF ok pi]) (use p1 in auto)
    obtain s' p' where s': "price i (set_proc t i p1) = Inr s'" "rq_ok s'"
      "nosched s' = nosched (set_proc t i p1)" "k_procs s' = (k_procs t)(i \<mapsto> p')"
      "nosched_proc p' = nosched_proc p1" "pr_status p' = READY"
      by (rule price_ok [OF _ ok1, of i p1]) (use p1 none in auto)
    have "pr_oncpu p' = pr_oncpu p"
      using nosched_proc_eqD(1) [OF s'(5)] p1 by simp
    moreover have "make_ready i s = Inr (sched_unlock s')"
      using hand s'(1) by (simp add: red p1_def)
    ultimately show ?thesis
      using hand s' n pt nosched_set_proc [OF pi p1(1)] p1(1)
      by (intro that [of "sched_unlock s'" p']) (simp_all add: woken_to_def)
  next
    case queue
    with ready_enqueue_ok [OF ok h pi] obtain s' p' where "ready_enqueue i (pr_onq p) t = Inr s'"
      "rq_ok s'" "\<not> l_held (k_schedlock s')" "nosched s' = nosched t" "k_procs s' = (k_procs t)(i \<mapsto> p')"
      "nosched_proc p' = nosched_proc p" "pr_status p' = READY" "pr_onq p' \<noteq> None" by metis
    with queue n pt show ?thesis
      by (intro that [of s' p']) (simp_all add: red woken_to_def)
  qed
qed

end
