(* ===== verification/Port.thy ===== *)
theory Port
  imports Sched
begin

text \<open>
  Ports, rights and message delivery: \<open>src/src/port.c\<close>. The functions below are the file's, in
  its order. \<open>port_unref\<close> is recursive through \<open>port_flush\<close>, \<open>msg_free\<close> and \<open>release_inflight\<close>, so
  these three take the callee as an argument and \<open>port_unref_f\<close> closes the knot with a fuel; the
  fuel \<open>port_unref\<close> starts with is one more than the number of rights in flight, and theory
  \<open>PortTerm\<close> shows that it is never used up.
\<close>

fun msgbufs_free :: "msgbufs \<Rightarrow> kstate \<Rightarrow> fault + kstate" where
  "msgbufs_free [] s = Inr s"
| "msgbufs_free ((None, _) # b) s = msgbufs_free b s"
| "msgbufs_free ((Some c, _) # b) s = bnd (chunk_free c s) (msgbufs_free b)"

text \<open>A message's buffers are chunks that are live together, so the sum the code takes in a \<open>size_t\<close> does not wrap.\<close>

definition msgbufs_bytes :: "msgbufs \<Rightarrow> nat" where
  "msgbufs_bytes b = sum_list (map snd b)"

section \<open>Waits\<close>

definition port_waiters_del :: "waddr \<Rightarrow> addr \<Rightarrow> kstate \<Rightarrow> fault + kstate" where
  "port_waiters_del w a s =
    bnd (get_port s a) (\<lambda>p.
      if w \<notin> set (pt_waiters p) then Inl BadList
      else Inr (set_port s a (p\<lparr>pt_waiters := remove1 w (pt_waiters p)\<rparr>)))"

definition wait_add :: "nat \<Rightarrow> addr \<Rightarrow> bool \<Rightarrow> kstate \<Rightarrow> fault + bool \<times> kstate" where
  "wait_add i a send s =
    bnd (ipc_assert_port a s) (\<lambda>_. bnd (get_proc s i) (\<lambda>p.
      let (w, s) = (if \<not> pr_w0used p then (Some (W0 i), set_proc s i (p\<lparr>pr_w0used := True\<rparr>))
                    else (let (c, s) = kmalloc s in (map_option WH c, s))) in
      case w of
        None \<Rightarrow> Inr (False, s)
      | Some w \<Rightarrow>
          (let s = set_waiter s w \<lparr>w_proc = i, w_port = a, w_send = send, w_onport = True\<rparr> in
           bnd (get_port s a) (\<lambda>q.
           let s = set_port s a (q\<lparr>pt_waiters := pt_waiters q @ [w]\<rparr>) in
           bnd (get_proc s i) (\<lambda>p.
           Inr (True, set_proc s i (p\<lparr>pr_waiters := w # pr_waiters p\<rparr>)))))))"

text \<open>Give back the record of a wait: the inline one is marked free, any other is freed.\<close>

definition waiter_free :: "nat \<Rightarrow> waddr \<Rightarrow> kstate \<Rightarrow> fault + kstate" where
  "waiter_free i w s =
    (if w = W0 i then bnd (get_proc s i) (\<lambda>p. Inr (set_proc s i (p\<lparr>pr_w0used := False\<rparr>)))
     else if k_waits s w = None then Inl DoubleFree
     else Inr (s\<lparr>k_waits := (k_waits s)(w := None)\<rparr>))"

definition waiters_pop :: "nat \<Rightarrow> kstate \<Rightarrow> fault + kstate" where
  "waiters_pop i s =
    bnd (get_proc s i) (\<lambda>p. Inr (set_proc s i (p\<lparr>pr_waiters := tl (pr_waiters p)\<rparr>)))"

fun wait_clear_loop :: "nat \<Rightarrow> waddr list \<Rightarrow> kstate \<Rightarrow> fault + kstate" where
  "wait_clear_loop i [] s = Inr s"
| "wait_clear_loop i (w # ws) s =
    bnd (waiters_pop i s) (\<lambda>s. bnd (get_waiter s w) (\<lambda>x.
    bnd (if w_onport x then port_waiters_del w (w_port x) s else Inr s) (\<lambda>s.
    bnd (waiter_free i w s) (wait_clear_loop i ws))))"

definition wait_clear :: "nat \<Rightarrow> kstate \<Rightarrow> fault + kstate" where
  "wait_clear i s =
    bnd (ipc_assert_locked s) (\<lambda>_. bnd (get_proc s i) (\<lambda>p. wait_clear_loop i (pr_waiters p) s))"

text \<open>
  The second read of \<open>onport\<close> is under the bucket; between the two another cpu may have cleared
  it, which the model leaves to the interleaving of steps.
\<close>

definition wait_unlink :: "waddr \<Rightarrow> addr \<Rightarrow> kstate \<Rightarrow> fault + kstate" where
  "wait_unlink w a s =
    bnd (ipclock_enter_port a s) (\<lambda>s. bnd (get_waiter s w) (\<lambda>x.
    bnd (if w_onport x then bnd (port_waiters_del w a s) (\<lambda>s. bnd (get_waiter s w) (\<lambda>x.
           Inr (set_waiter s w (x\<lparr>w_onport := False\<rparr>))))
         else Inr s) (ipclock_leave_port a)))"

fun wait_reap_loop :: "nat \<Rightarrow> waddr list \<Rightarrow> kstate \<Rightarrow> fault + kstate" where
  "wait_reap_loop i [] s = Inr s"
| "wait_reap_loop i (w # ws) s =
    bnd (waiters_pop i s) (\<lambda>s. bnd (get_waiter s w) (\<lambda>x.
    bnd (if w_onport x then wait_unlink w (w_port x) s else Inr s) (\<lambda>s.
    bnd (waiter_free i w s) (wait_reap_loop i ws))))"

definition wait_reap :: "nat \<Rightarrow> kstate \<Rightarrow> fault + kstate" where
  "wait_reap i s =
    bnd (get_proc s i) (\<lambda>p. bnd (wait_reap_loop i (pr_waiters p) s) (\<lambda>s.
    bnd (get_proc s i) (\<lambda>p. Inr (set_proc s i (p\<lparr>pr_woken := False\<rparr>)))))"

definition wake_claim :: "nat \<Rightarrow> kstate \<Rightarrow> fault + bool \<times> kstate" where
  "wake_claim i s =
    bnd (get_proc s i) (\<lambda>p.
      if \<not> pr_woken p
      then Inr (True, (set_proc s i (p\<lparr>pr_woken := True\<rparr>))\<lparr>k_claim_won := k_claim_won s + 1\<rparr>)
      else Inr (False, s\<lparr>k_claim_lost := k_claim_lost s + 1\<rparr>))"

text \<open>
  One turn of either wake loop. The loop saves the next element before the body runs and the
  body unlinks only the element it is at, so it visits the list as it was at the start.
\<close>

definition wake_one :: "bool \<Rightarrow> addr \<Rightarrow> waddr \<Rightarrow> kstate \<Rightarrow> fault + kstate" where
  "wake_one send a w s =
    bnd (get_waiter s w) (\<lambda>x. bnd (get_proc s (w_proc x)) (\<lambda>p.
      if w_send x \<noteq> send \<or> pr_status p \<noteq> BLOCKED then Inr s
      else bnd (wake_claim (w_proc x) s) (\<lambda>(won, s).
        if \<not> won then Inr s
        else bnd (port_waiters_del w a s) (\<lambda>s. bnd (get_waiter s w) (\<lambda>x.
          make_ready (w_proc x) (set_waiter s w (x\<lparr>w_onport := False\<rparr>)))))))"

fun wake_loop :: "bool \<Rightarrow> addr \<Rightarrow> waddr list \<Rightarrow> kstate \<Rightarrow> fault + kstate" where
  "wake_loop send a [] s = Inr s"
| "wake_loop send a (w # ws) s = bnd (wake_one send a w s) (wake_loop send a ws)"

definition wake_receivers :: "addr \<Rightarrow> kstate \<Rightarrow> fault + kstate" where
  "wake_receivers a s =
    bnd (ipc_assert_port a s) (\<lambda>_. bnd (get_port s a) (\<lambda>p. wake_loop False a (pt_waiters p) s))"

definition wake_senders :: "addr \<Rightarrow> kstate \<Rightarrow> fault + kstate" where
  "wake_senders a s =
    bnd (ipc_assert_port a s) (\<lambda>_. bnd (get_port s a) (\<lambda>p. wake_loop True a (pt_waiters p) s))"

section \<open>References\<close>

fun release_inflight_with ::
  "(addr \<Rightarrow> kstate \<Rightarrow> fault + kstate) \<Rightarrow> (nat \<times> bool) list \<Rightarrow> kstate \<Rightarrow> fault + kstate" where
  "release_inflight_with unref [] s = Inr s"
| "release_inflight_with unref ((i, recv) # refs) s =
    (case k_portv s i of
       None \<Rightarrow> release_inflight_with unref refs s
     | Some a \<Rightarrow>
         bnd (if recv then bnd (get_port s a) (\<lambda>p. Inr (set_port s a (p\<lparr>pt_nrecv := pt_nrecv p - 1\<rparr>)))
              else Inr s) (\<lambda>s.
         bnd (unref a s) (release_inflight_with unref refs)))"

text \<open>The assertion at the head of \<open>release_inflight\<close>, made only when there is something to do.\<close>

definition release_inflight_by ::
  "(addr \<Rightarrow> kstate \<Rightarrow> fault + kstate) \<Rightarrow> (nat \<times> bool) list \<Rightarrow> kstate \<Rightarrow> fault + kstate" where
  "release_inflight_by unref refs s =
    (if refs = [] then Inr s
     else bnd (ipc_assert_locked s) (\<lambda>_. release_inflight_with unref refs s))"

definition msg_free_by :: "(addr \<Rightarrow> kstate \<Rightarrow> fault + kstate) \<Rightarrow> kmsg \<Rightarrow> kstate \<Rightarrow> fault + kstate" where
  "msg_free_by unref m s =
    bnd (release_inflight_by unref (m_refs m) s) (msgbufs_free (m_bufs m))"

fun msgs_free_by :: "(addr \<Rightarrow> kstate \<Rightarrow> fault + kstate) \<Rightarrow> kmsg list \<Rightarrow> kstate \<Rightarrow> fault + kstate" where
  "msgs_free_by unref [] s = Inr s"
| "msgs_free_by unref (m # ms) s = bnd (msg_free_by unref m s) (msgs_free_by unref ms)"

definition port_flush_by :: "(addr \<Rightarrow> kstate \<Rightarrow> fault + kstate) \<Rightarrow> addr \<Rightarrow> kstate \<Rightarrow> fault + kstate" where
  "port_flush_by unref a s =
    bnd (get_port s a) (\<lambda>p.
      msgs_free_by unref (pt_queue p) (set_port s a (p\<lparr>pt_queue := [], pt_qbytes := 0\<rparr>)))"

definition port_free :: "addr \<Rightarrow> kstate \<Rightarrow> fault + kstate" where
  "port_free a s =
    bnd (get_port s a) (\<lambda>p.
      Inr (s\<lparr>k_portv := (k_portv s)(pt_idx p := None), k_pheap := (k_pheap s)(a := None)\<rparr>))"

text \<open>The tail of \<open>port_unref\<close>: whoever is left on the port has to look again.\<close>

definition port_hangup :: "addr \<Rightarrow> kstate \<Rightarrow> fault + kstate" where
  "port_hangup a s =
    bnd (wake_receivers a (s\<lparr>k_hangup_gen := k_hangup_gen s + 1\<rparr>)) (wake_senders a)"

fun port_unref_f :: "nat \<Rightarrow> addr \<Rightarrow> kstate \<Rightarrow> fault + kstate" where
  "port_unref_f 0 a s = Inl OutOfFuel"
| "port_unref_f (Suc n) a s =
    bnd (ipc_assert_locked s) (\<lambda>_. bnd (get_port s a) (\<lambda>p0.
      let p = p0\<lparr>pt_nrights := pt_nrights p0 - 1\<rparr>; s = set_port s a p in
      if pt_nrights p \<le> 0 then
        bnd (port_flush_by (port_unref_f n) a s) (port_free a)
      else
        bnd (if pt_nrecv p = 0 \<and> \<not> pt_dead p
             then port_flush_by (port_unref_f n) a (set_port s a (p\<lparr>pt_dead := True\<rparr>))
             else Inr s) (port_hangup a)))"

text \<open>The number of rights in flight: what one message and one queue carry, and all of them.\<close>

definition queue_refs :: "kmsg list \<Rightarrow> nat" where
  "queue_refs q = sum_list (map (\<lambda>m. length (m_refs m)) q)"

definition port_at :: "kstate \<Rightarrow> nat \<Rightarrow> kport option" where
  "port_at s i = Option.bind (k_portv s i) (k_pheap s)"

definition refs_at :: "kstate \<Rightarrow> nat \<Rightarrow> nat" where
  "refs_at s i = (case port_at s i of None \<Rightarrow> 0 | Some p \<Rightarrow> queue_refs (pt_queue p))"

definition total_refs :: "kstate \<Rightarrow> nat" where
  "total_refs s = (\<Sum>i<k_maxports s. refs_at s i)"

definition port_unref :: "addr \<Rightarrow> kstate \<Rightarrow> fault + kstate" where
  "port_unref a s = port_unref_f (Suc (total_refs s)) a s"

definition release_inflight :: "(nat \<times> bool) list \<Rightarrow> kstate \<Rightarrow> fault + kstate" where
  "release_inflight = release_inflight_by port_unref"

definition msg_free :: "kmsg \<Rightarrow> kstate \<Rightarrow> fault + kstate" where
  "msg_free = msg_free_by port_unref"

definition port_flush :: "addr \<Rightarrow> kstate \<Rightarrow> fault + kstate" where
  "port_flush = port_flush_by port_unref"

section \<open>The port table\<close>

definition new_kport :: "nat \<Rightarrow> nat \<Rightarrow> kport" where
  "new_kport i gen =
    \<lparr>pt_idx = i, pt_used = True, pt_gen = gen, pt_waiters = [], pt_nrights = 0, pt_nrecv = 0,
     pt_dead = False, pt_qbytes = 0, pt_queue = [], pt_nsent = 0, pt_ndrop_full = 0,
     pt_ndrop_dead = 0, pt_qpeak = 0, pt_tag = [], pt_where = []\<rparr>"

definition port_install :: "nat \<Rightarrow> addr \<Rightarrow> kstate \<Rightarrow> kstate" where
  "port_install i a s =
    s\<lparr>k_pheap := (k_pheap s)(a \<mapsto> new_kport i (k_portgen s + 1)),
      k_portgen := k_portgen s + 1,
      k_portv := (k_portv s)(i \<mapsto> a),
      k_porthigh := (if i \<ge> k_porthigh s then i + 1 else k_porthigh s)\<rparr>"

definition port_new :: "kstate \<Rightarrow> addr option \<times> kstate" where
  "port_new s =
    (case find (\<lambda>i. k_portv s i = None) [0..<k_maxports s] of
       None \<Rightarrow> (None, s)
     | Some i \<Rightarrow>
         (case kmalloc s of
            (None, s) \<Rightarrow> (None, s)
          | (Some a, s) \<Rightarrow> (Some a, port_install i a s)))"

definition port_budget_left :: "kproc \<Rightarrow> bool" where
  "port_budget_left p = (pr_port_limit p = 0 \<or> pr_nports p < pr_port_limit p)"

definition proc_selfport :: "kstate \<Rightarrow> kproc \<Rightarrow> fault + addr option" where
  "proc_selfport s p =
    (if pr_selfgen p = 0 then Inr None
     else case k_portv s (pr_selfidx p) of
            None \<Rightarrow> Inr None
          | Some a \<Rightarrow> bnd (get_port s a) (\<lambda>q.
              Inr (if pt_gen q \<noteq> pr_selfgen p then None else Some a)))"

section \<open>Rights\<close>

definition right0 :: right where
  "right0 = \<lparr>r_port = 0, r_recv = False, r_used = False\<rparr>"

definition right_slot :: "kproc \<Rightarrow> int \<Rightarrow> right option" where
  "right_slot p h =
    (if h < 0 \<or> h \<ge> int MAXRIGHTS then None
     else if h < int NRIGHTS_INLINE then Some (pr_rights p (nat h))
     else map_option (\<lambda>x. x (nat h - NRIGHTS_INLINE)) (pr_xrights p))"

text \<open>A store through the pointer \<open>right_slot\<close> returned.\<close>

definition set_right :: "kproc \<Rightarrow> nat \<Rightarrow> right \<Rightarrow> kproc" where
  "set_right p h r =
    (if h < NRIGHTS_INLINE then p\<lparr>pr_rights := (pr_rights p)(h := r)\<rparr>
     else p\<lparr>pr_xrights := map_option (\<lambda>x. x(h - NRIGHTS_INLINE := r)) (pr_xrights p)\<rparr>)"

definition right_slot_grow :: "kproc \<Rightarrow> nat \<Rightarrow> kstate \<Rightarrow> right option \<times> kproc \<times> kstate" where
  "right_slot_grow p h s =
    (if h \<ge> MAXRIGHTS then (None, p, s)
     else if h < NRIGHTS_INLINE then (Some (pr_rights p h), p, s)
     else case pr_xrights p of
            Some x \<Rightarrow> (Some (x (h - NRIGHTS_INLINE)), p, s)
          | None \<Rightarrow>
              (case kmalloc s of
                 (None, s) \<Rightarrow> (None, p, s)
               | (Some _, s) \<Rightarrow> (Some right0, p\<lparr>pr_xrights := Some (\<lambda>_. right0)\<rparr>, s)))"

text \<open>What \<open>right_new\<close> writes into the proc once slot \<open>h\<close> is found free.\<close>

definition right_fill :: "kproc \<Rightarrow> nat \<Rightarrow> addr \<Rightarrow> bool \<Rightarrow> kproc" where
  "right_fill p h a recv =
    (let p = set_right p h \<lparr>r_port = a, r_recv = recv, r_used = True\<rparr>;
         p = (if recv then p\<lparr>pr_nports := pr_nports p + 1,
                             pr_nports_peak := max (pr_nports p + 1) (pr_nports_peak p)\<rparr>
              else p)
     in p\<lparr>pr_rhint := h + 1, pr_rhigh := max (h + 1) (pr_rhigh p)\<rparr>)"

fun right_new_from :: "nat list \<Rightarrow> nat \<Rightarrow> addr \<Rightarrow> bool \<Rightarrow> kstate \<Rightarrow> fault + nat option \<times> kstate" where
  "right_new_from [] i a recv s = Inr (None, s)"
| "right_new_from (h # hs) i a recv s =
    bnd (get_proc s i) (\<lambda>p.
      let (r, p, s) = right_slot_grow p h s; s = set_proc s i p in
      case r of
        None \<Rightarrow> Inr (None, s)
      | Some r \<Rightarrow>
          if r_used r then right_new_from hs i a recv s
          else
            (let s = set_proc (s\<lparr>k_rights_high := max (h + 1) (k_rights_high s)\<rparr>) i
                       (right_fill p h a recv) in
             bnd (get_port s a) (\<lambda>q.
             Inr (Some h, set_port s a
               (q\<lparr>pt_nrights := pt_nrights q + 1,
                  pt_nrecv := (if recv then pt_nrecv q + 1 else pt_nrecv q)\<rparr>)))))"

definition right_new :: "nat \<Rightarrow> addr \<Rightarrow> bool \<Rightarrow> kstate \<Rightarrow> fault + nat option \<times> kstate" where
  "right_new i a recv s =
    bnd (get_proc s i) (\<lambda>p. right_new_from [pr_rhint p..<MAXRIGHTS] i a recv s)"

definition right_drop :: "nat \<Rightarrow> nat \<Rightarrow> kstate \<Rightarrow> fault + kstate" where
  "right_drop i h s =
    bnd (ipc_assert_locked s) (\<lambda>_. bnd (get_proc s i) (\<lambda>p.
      case right_slot p (int h) of
        None \<Rightarrow> Inl UseAfterFree
      | Some r \<Rightarrow>
          (let p = set_right p h (r\<lparr>r_used := False\<rparr>) in
           if r_recv r then
             bnd (get_port s (r_port r)) (\<lambda>q.
             port_unref (r_port r)
               (set_port (set_proc s i (p\<lparr>pr_nports := (if pr_nports p > 0 then pr_nports p - 1
                                                      else pr_nports p)\<rparr>))
                 (r_port r) (q\<lparr>pt_nrecv := pt_nrecv q - 1\<rparr>)))
           else port_unref (r_port r) (set_proc s i p))))"

text \<open>\<open>lua_Integer\<close> to \<open>int\<close>: the handle is cut to 32 bits before it is looked up.\<close>

definition right_get :: "kproc \<Rightarrow> int \<Rightarrow> (nat \<times> right) option" where
  "right_get p h =
    (case right_slot p (c_int h) of
       None \<Rightarrow> None
     | Some r \<Rightarrow> if r_used r then Some (nat (c_int h), r) else None)"

definition grant_named :: "nat \<Rightarrow> string \<Rightarrow> addr option \<Rightarrow> bool \<Rightarrow> kstate \<Rightarrow> fault + kstate" where
  "grant_named i name port recv s =
    (case port of
       None \<Rightarrow> Inr s
     | Some a \<Rightarrow>
         bnd (right_new i a recv s) (\<lambda>(h, s).
         case h of
           None \<Rightarrow> Inr s
         | Some h \<Rightarrow>
             (case kmalloc s of
                (None, s) \<Rightarrow> right_drop i h s
              | (Some _, s) \<Rightarrow>
                  bnd (get_proc s i) (\<lambda>p.
                  Inr (set_proc s i (p\<lparr>pr_grants := (name, h) # pr_grants p\<rparr>))))))"

definition proc_has_port :: "kproc option \<Rightarrow> addr option \<Rightarrow> bool" where
  "proc_has_port p port =
    (case (p, port) of
       (Some p, Some a) \<Rightarrow>
         list_ex (\<lambda>i. case right_slot p (int i) of None \<Rightarrow> False
                      | Some r \<Rightarrow> r_used r \<and> r_port r = a) [0..<MAXRIGHTS]
     | _ \<Rightarrow> False)"

section \<open>Messages\<close>

datatype push_rc = PUSH_OK | PUSH_NOMEM | PUSH_FULL | PUSH_DEAD

definition cpu_stat :: "(kcpu \<Rightarrow> kcpu) \<Rightarrow> kstate \<Rightarrow> kstate" where
  "cpu_stat f s = s\<lparr>k_cpus := (k_cpus s)(k_self s := f (k_cpus s (k_self s)))\<rparr>"

definition port_enqueue :: "kmsg \<Rightarrow> kport \<Rightarrow> kport" where
  "port_enqueue m p =
    p\<lparr>pt_queue := pt_queue p @ [m], pt_qbytes := pt_qbytes p + m_qcost m,
      pt_qpeak := max (pt_qbytes p + m_qcost m) (pt_qpeak p), pt_nsent := pt_nsent p + 1\<rparr>"

definition new_kmsg :: "byte list \<Rightarrow> (nat \<times> bool) list \<Rightarrow> msgbufs \<Rightarrow> kmsg" where
  "new_kmsg data refs bufs =
    \<lparr>m_len = length data, m_bufs = bufs, m_qcost = length data + msgbufs_bytes bufs, m_refs = refs,
     m_data = data\<rparr>"

definition port_push_owned ::
  "addr \<Rightarrow> byte list \<Rightarrow> (nat \<times> bool) list \<Rightarrow> msgbufs \<Rightarrow> kstate \<Rightarrow> fault + push_rc \<times> kstate" where
  "port_push_owned a data refs bufs s =
    bnd (ipc_assert_port a s) (\<lambda>_. bnd (get_port s a) (\<lambda>p.
      if pt_dead p then
        Inr (PUSH_DEAD, cpu_stat (\<lambda>c. c\<lparr>c_ndrop_dead := c_ndrop_dead c + 1\<rparr>)
               (set_port s a (p\<lparr>pt_ndrop_dead := pt_ndrop_dead p + 1\<rparr>)))
      else
        (let cost = length data + msgbufs_bytes bufs in
         if pt_qbytes p + cost > MAXQUEUE then
           Inr (PUSH_FULL, cpu_stat (\<lambda>c. c\<lparr>c_ndrop_full := c_ndrop_full c + 1\<rparr>)
                  (set_port s a (p\<lparr>pt_ndrop_full := pt_ndrop_full p + 1\<rparr>)))
         else
           (case kmalloc s of
              (None, s) \<Rightarrow> Inr (PUSH_NOMEM, s)
            | (Some _, s) \<Rightarrow>
                bnd (wake_receivers a (set_port s a (port_enqueue (new_kmsg data refs bufs) p))) (\<lambda>s.
                Inr (PUSH_OK, s))))))"

definition port_push ::
  "addr \<Rightarrow> byte list \<Rightarrow> nat list \<Rightarrow> kstate \<Rightarrow> fault + push_rc \<times> kstate" where
  "port_push a data refs s =
    bnd (ipc_assert_locked s) (\<lambda>_.
      let rs = map (\<lambda>r. (r, False)) refs in
      case kmalloc s of
        (None, s) \<Rightarrow> bnd (release_inflight rs s) (\<lambda>s. Inr (PUSH_NOMEM, s))
      | (Some _, s) \<Rightarrow>
          bnd (port_push_owned a data rs [] s) (\<lambda>(rc, s).
          bnd (if rc = PUSH_OK then Inr s else release_inflight rs s) (\<lambda>s.
          Inr (if rc = PUSH_DEAD then PUSH_OK else rc, s))))"

definition port_pop :: "addr \<Rightarrow> kstate \<Rightarrow> fault + kmsg option \<times> kstate" where
  "port_pop a s =
    bnd (ipclock_enter_port a s) (\<lambda>s. bnd (get_port s a) (\<lambda>p.
    bnd (case pt_queue p of
           [] \<Rightarrow> Inr (None, s)
         | m # q \<Rightarrow>
             bnd (wake_senders a (set_port s a (p\<lparr>pt_queue := q,
                    pt_qbytes := sz_sub (pt_qbytes p) (m_qcost m)\<rparr>))) (\<lambda>s.
             Inr (Some m, s))) (\<lambda>(m, s).
    bnd (ipclock_leave_port a s) (\<lambda>s. Inr (m, s)))))"

definition msg_dispose :: "kmsg \<Rightarrow> kstate \<Rightarrow> fault + kstate" where
  "msg_dispose m s =
    (if m_refs m \<noteq> [] then
       bnd (ipclock_enter s) (\<lambda>s. bnd (msg_free m s) (\<lambda>s. Inr (ipclock_leave s)))
     else msg_free m s)"

definition release_inflight_locked :: "(nat \<times> bool) list \<Rightarrow> kstate \<Rightarrow> fault + kstate" where
  "release_inflight_locked refs s =
    bnd (ipclock_enter s) (\<lambda>s. bnd (release_inflight refs s) (\<lambda>s. Inr (ipclock_leave s)))"

end
