(* ===== verification/PortTerm.thy ===== *)
theory PortTerm
  imports Port
begin

text \<open>
  What waking and unreferencing leave alone, and that dropping a reference always comes to an
  end: \<open>port_unref\<close> may flush a queue whose messages hold the last references of other ports,
  which are then dropped in turn, but every such step takes a queue out of the state first.
\<close>

section \<open>The state without scheduling and waits\<close>

definition core_port :: "kport \<Rightarrow> kport" where
  "core_port p = p\<lparr>pt_waiters := []\<rparr>"

definition core_proc :: "kproc \<Rightarrow> kproc" where
  "core_proc p = (nosched_proc p)\<lparr>pr_woken := False\<rparr>"

definition core :: "kstate \<Rightarrow> kstate" where
  "core s = (nosched s)\<lparr>k_waits := Map.empty, k_claim_won := 0, k_claim_lost := 0,
     k_procs := \<lambda>i. map_option core_proc (k_procs s i),
     k_pheap := \<lambda>a. map_option core_port (k_pheap s a)\<rparr>"

lemma core_nosched: "nosched s' = nosched s \<Longrightarrow> core s' = core s"
proof -
  assume n: "nosched s' = nosched s"
  have *: "core s = (nosched s)\<lparr>k_waits := Map.empty, k_claim_won := 0, k_claim_lost := 0,
     k_procs := \<lambda>i. map_option (\<lambda>p. p\<lparr>pr_woken := False\<rparr>) (k_procs (nosched s) i),
     k_pheap := \<lambda>a. map_option core_port (k_pheap (nosched s) a)\<rparr>" for s
    by (simp add: core_def nosched_def option.map_comp comp_def core_proc_def [abs_def])
  show ?thesis by (subst (1 2) *) (simp only: n)
qed

lemma nosched_sel:
  assumes "nosched s' = nosched s"
  shows "k_pheap s' = k_pheap s" "k_portv s' = k_portv s" "k_waits s' = k_waits s"
    "k_buckets s' = k_buckets s" "k_self s' = k_self s"
    "k_claim_won s' = k_claim_won s" "k_claim_lost s' = k_claim_lost s"
    "map_option nosched_proc (k_procs s' i) = map_option nosched_proc (k_procs s i)"
    "k_mcount s' = k_mcount s"
proof -
  have "F (nosched s') = F (nosched s)" for F :: "kstate \<Rightarrow> 'b" by (simp only: assms)
  from this [of k_pheap] this [of k_portv] this [of k_waits] this [of k_buckets] this [of k_self]
    this [of k_claim_won] this [of k_claim_lost] this [of "\<lambda>s. k_procs s i"]
    this [of k_mcount]
  show "k_pheap s' = k_pheap s" "k_portv s' = k_portv s" "k_waits s' = k_waits s"
    "k_buckets s' = k_buckets s" "k_self s' = k_self s"
    "k_claim_won s' = k_claim_won s" "k_claim_lost s' = k_claim_lost s"
    "map_option nosched_proc (k_procs s' i) = map_option nosched_proc (k_procs s i)"
    "k_mcount s' = k_mcount s"
    by (simp_all add: nosched_def)
qed

lemma core_sel [simp]:
  "k_maxports (core s) = k_maxports s" "k_maxprocs (core s) = k_maxprocs s"
  "k_portv (core s) = k_portv s" "k_buckets (core s) = k_buckets s" "k_self (core s) = k_self s"
  "k_chunks (core s) = k_chunks s" "k_timers (core s) = k_timers s"
  "k_mcount (core s) = k_mcount s" "k_memok (core s) = k_memok s"
  "k_pheap (core s) a = map_option core_port (k_pheap s a)"
  "k_procs (core s) i = map_option core_proc (k_procs s i)"
  by (simp_all add: core_def nosched_def)

lemma core_port_sel [simp]:
  "pt_idx (core_port p) = pt_idx p" "pt_nrights (core_port p) = pt_nrights p"
  "pt_nrecv (core_port p) = pt_nrecv p" "pt_dead (core_port p) = pt_dead p"
  "pt_queue (core_port p) = pt_queue p" "pt_qbytes (core_port p) = pt_qbytes p"
  by (simp_all add: core_port_def)

lemma core_proc_sel [simp]:
  "pr_rights (core_proc p) = pr_rights p" "pr_xrights (core_proc p) = pr_xrights p"
  "pr_rhint (core_proc p) = pr_rhint p" "pr_rhigh (core_proc p) = pr_rhigh p"
  "pr_waiters (core_proc p) = pr_waiters p"
  by (simp_all add: core_proc_def nosched_proc_def)

lemma core_eqD:
  assumes "core s' = core s"
  shows "k_maxports s' = k_maxports s" "k_maxprocs s' = k_maxprocs s"
    "k_portv s' = k_portv s" "k_buckets s' = k_buckets s" "k_self s' = k_self s"
    "k_chunks s' = k_chunks s" "k_timers s' = k_timers s" "k_mcount s' = k_mcount s"
    "map_option core_port (k_pheap s' a) = map_option core_port (k_pheap s a)"
    "map_option core_proc (k_procs s' i) = map_option core_proc (k_procs s i)"
  using assms by (metis core_sel)+

lemma core_eq_port:
  assumes "core s' = core s" and "k_pheap s a = Some p"
  obtains p' where "k_pheap s' a = Some p'" and "core_port p' = core_port p"
  using core_eqD(9) [OF assms(1), of a] assms(2) by auto

lemma core_eq_proc:
  assumes "core s' = core s" and "k_procs s a = Some p"
  obtains p' where "k_procs s' a = Some p'" and "core_proc p' = core_proc p"
  using core_eqD(10) [OF assms(1), of a] assms(2) by auto

lemma core_port_eqD:
  assumes "core_port p' = core_port p"
  shows "pt_idx p' = pt_idx p" "pt_nrights p' = pt_nrights p" "pt_nrecv p' = pt_nrecv p"
    "pt_dead p' = pt_dead p" "pt_queue p' = pt_queue p" "pt_qbytes p' = pt_qbytes p"
  using assms by (metis core_port_sel)+

lemma core_ipcheld: "core s' = core s \<Longrightarrow> ipcheld s' = ipcheld s"
  using core_eqD(4,5) [of s' s] by (simp add: ipcheld_iff ipcheld_one_def)

section \<open>What waking leaves alone\<close>

lemma nosched_fields:
  assumes "k_procs s i = Some p"
  shows "nosched (set_proc s i (p\<lparr>pr_status := st\<rparr>)) = nosched s"
    and "nosched (set_proc s i (p\<lparr>pr_onq := q\<rparr>)) = nosched s"
    and "nosched (set_proc s i (dbg_take_stop p)) = nosched s"
    and "nosched (set_proc s i ((updatecpu s1 p)\<lparr>pr_pri := x\<rparr>)) = nosched s"
proof -
  have "nosched_proc ((updatecpu s1 p)\<lparr>pr_pri := x\<rparr>) = nosched_proc (updatecpu s1 p)"
    by (simp add: nosched_proc_def)
  then show "nosched (set_proc s i ((updatecpu s1 p)\<lparr>pr_pri := x\<rparr>)) = nosched s"
    by (intro nosched_set_proc [OF assms]) simp
qed (rule nosched_set_proc [OF assms], simp add: nosched_proc_def dbg_take_stop_def)+

lemma sched_lock_frame: "sched_lock s = Inr s' \<Longrightarrow> nosched s' = nosched s"
  by (auto simp: sched_lock_def ret_iff nosched_def)

lemma rq_del_frame: "rq_del i s = Inr s' \<Longrightarrow> nosched s' = nosched s"
  by (auto simp: rq_del_def ret_iff Let_def nosched_fields split: option.splits if_splits)

lemma rq_add_frame: "rq_add q i s = Inr s' \<Longrightarrow> nosched s' = nosched s"
  by (auto simp: rq_add_def ret_iff Let_def nosched_fields)

lemma price_frame: "price i s = Inr s' \<Longrightarrow> nosched s' = nosched s"
  by (auto simp: price_def ret_iff reprioritize_def Let_def nosched_fields)

lemma ready_enqueue_frame: "ready_enqueue i keep s = Inr s' \<Longrightarrow> nosched s' = nosched s"
  by (auto simp: ready_enqueue_def ret_iff nosched_fields
      dest!: rq_del_frame rq_add_frame price_frame split: if_splits option.splits)

lemma make_ready_frame: "make_ready i s = Inr s' \<Longrightarrow> nosched s' = nosched s"
  by (auto simp: make_ready_def ret_iff nosched_fields
      dest!: sched_lock_frame ready_enqueue_frame price_frame split: if_splits)

lemma core_upd [simp]:
  "core (set_waiter s w x) = core s" "core (s\<lparr>k_claim_won := y\<rparr>) = core s"
  "core (s\<lparr>k_claim_lost := y\<rparr>) = core s" "core (s\<lparr>k_waits := z\<rparr>) = core s"
  by (simp_all add: core_def nosched_def set_waiter_def)

lemma core_set_port:
  "k_pheap s a = Some p \<Longrightarrow> core_port p' = core_port p \<Longrightarrow> core (set_port s a p') = core s"
  by (simp add: core_def nosched_def set_port_def fun_eq_iff)

lemma core_set_proc:
  "k_procs s i = Some p \<Longrightarrow> core_proc p' = core_proc p \<Longrightarrow> core (set_proc s i p') = core s"
  by (simp add: core_def nosched_def set_proc_def fun_eq_iff)

lemma core_waiters:
  "k_pheap s a = Some p \<Longrightarrow> core (set_port s a (p\<lparr>pt_waiters := x\<rparr>)) = core s"
  by (rule core_set_port) (simp_all add: core_port_def)

lemma core_woken:
  "k_procs s i = Some p \<Longrightarrow> core (set_proc s i (p\<lparr>pr_woken := x\<rparr>)) = core s"
  by (rule core_set_proc) (simp_all add: core_proc_def nosched_proc_def)

lemma port_waiters_del_core: "port_waiters_del w a s = Inr s' \<Longrightarrow> core s' = core s"
  by (auto simp: port_waiters_del_def ret_iff core_waiters split: if_splits)

lemma wake_claim_core: "wake_claim i s = Inr (b, s') \<Longrightarrow> core s' = core s"
  by (auto simp: wake_claim_def ret_iff core_woken split: if_splits)

lemma wake_one_core: "wake_one send a w s = Inr s' \<Longrightarrow> core s' = core s"
  by (auto simp: wake_one_def ret_iff split: if_splits prod.splits
      dest!: wake_claim_core port_waiters_del_core make_ready_frame core_nosched)

lemma wake_loop_core: "wake_loop send a ws s = Inr s' \<Longrightarrow> core s' = core s"
  by (induction ws arbitrary: s) (auto simp: ret_iff dest!: wake_one_core)

lemma wake_receivers_core: "wake_receivers a s = Inr s' \<Longrightarrow> core s' = core s"
  by (auto simp: wake_receivers_def ret_iff dest: wake_loop_core)

lemma wake_senders_core: "wake_senders a s = Inr s' \<Longrightarrow> core s' = core s"
  by (auto simp: wake_senders_def ret_iff dest: wake_loop_core)

section \<open>The port table\<close>

text \<open>
  The table and the heap of ports agree: a live port is in the slot its index names, and a slot
  in use holds a live port with that index.
\<close>

definition ptable_ok :: "kstate \<Rightarrow> bool" where
  "ptable_ok s \<longleftrightarrow>
     (\<forall>i a. k_portv s i = Some a \<longleftrightarrow> map_option pt_idx (k_pheap s a) = Some i)
     \<and> (\<forall>i a. k_portv s i = Some a \<longrightarrow> i < k_maxports s)"

lemma ptable_okD:
  assumes "ptable_ok s"
  shows "k_pheap s a = Some p \<Longrightarrow> k_portv s (pt_idx p) = Some a"
    and "k_pheap s a = Some p \<Longrightarrow> pt_idx p < k_maxports s"
    and "k_portv s i = Some a \<Longrightarrow> \<exists>p. k_pheap s a = Some p \<and> pt_idx p = i"
  using assms by (auto simp: ptable_ok_def)

lemma ptable_ok_core [simp]: "ptable_ok (core s) = ptable_ok s"
proof -
  have "map_option pt_idx (k_pheap (core s) a) = map_option pt_idx (k_pheap s a)" for a
    by (cases "k_pheap s a") simp_all
  then show ?thesis by (simp add: ptable_ok_def)
qed

lemma refs_at_core [simp]: "refs_at (core s) i = refs_at s i"
  by (cases "k_portv s i") (auto simp: refs_at_def port_at_def split: option.split)

lemma total_refs_core [simp]: "total_refs (core s) = total_refs s"
  by (simp add: total_refs_def)

lemma port_at_heap: "ptable_ok s \<Longrightarrow> k_pheap s a = Some p \<Longrightarrow> port_at s (pt_idx p) = Some p"
  by (simp add: port_at_def ptable_okD(1))

lemma port_at_set_port:
  assumes "ptable_ok s" and "k_pheap s a = Some p" and "pt_idx p' = pt_idx p"
  shows "port_at (set_port s a p') = (port_at s)(pt_idx p := Some p')"
proof
  fix j
  show "port_at (set_port s a p') j = ((port_at s)(pt_idx p := Some p')) j"
    using ptable_okD(1) [OF assms(1,2)] ptable_okD(3) [OF assms(1), of j] assms(2,3)
    by (cases "k_portv s j") (auto simp: port_at_def)
qed

lemma ptable_ok_set_port:
  assumes "ptable_ok s" and "k_pheap s a = Some p" and "pt_idx p' = pt_idx p"
  shows "ptable_ok (set_port s a p')"
proof -
  have "map_option pt_idx (k_pheap (set_port s a p') b) = map_option pt_idx (k_pheap s b)" for b
    using assms by simp
  with assms(1) show ?thesis by (simp add: ptable_ok_def)
qed

lemma total_refs_set_port:
  assumes "ptable_ok s" and "k_pheap s a = Some p" and "pt_idx p' = pt_idx p"
  shows "total_refs (set_port s a p') + queue_refs (pt_queue p)
    = total_refs s + queue_refs (pt_queue p')"
proof -
  have "pt_idx p < k_maxports s" using ptable_okD(2) assms by blast
  then have "(\<Sum>k<k_maxports s. refs_at (set_port s a p') k) + refs_at s (pt_idx p)
    = (\<Sum>k<k_maxports s. refs_at s k) + refs_at (set_port s a p') (pt_idx p)"
    by (rule sum_one_change) (simp add: refs_at_def port_at_set_port [OF assms])
  then show ?thesis
    by (simp add: total_refs_def refs_at_def port_at_set_port [OF assms] port_at_heap [OF assms(1,2)])
qed

lemma total_refs_same:
  assumes "ptable_ok s" and "k_pheap s a = Some p" and "pt_idx p' = pt_idx p"
    and "pt_queue p' = pt_queue p"
  shows "total_refs (set_port s a p') = total_refs s"
  using total_refs_set_port [OF assms(1-3)] assms(4) by simp

lemma port_at_free:
  assumes "ptable_ok s" and "port_free a s = Inr s'" and "k_pheap s a = Some p"
  shows "ptable_ok s'" and "port_at s' = (port_at s)(pt_idx p := None)"
    and "k_maxports s' = k_maxports s"
proof -
  have s': "s' = s\<lparr>k_portv := (k_portv s)(pt_idx p := None), k_pheap := (k_pheap s)(a := None)\<rparr>"
    using assms(2,3) by (simp add: port_free_def get_Some)
  show "ptable_ok s'" and "k_maxports s' = k_maxports s"
    using assms(1,3) unfolding s' ptable_ok_def by (auto, metis option.inject)
  show "port_at s' = (port_at s)(pt_idx p := None)"
  proof
    fix j
    show "port_at s' j = ((port_at s)(pt_idx p := None)) j"
      using ptable_okD(3) [OF assms(1), of j a] assms(3)
      by (cases "k_portv s j") (auto simp: s' port_at_def)
  qed
qed

section \<open>Dropping a reference ends\<close>

text \<open>
  An outcome that is not the end of the fuel, and that leaves a consistent table with no more
  rights in flight than there were.
\<close>

definition settles :: "kstate \<Rightarrow> fault + kstate \<Rightarrow> bool" where
  "settles s r \<longleftrightarrow> (case r of
     Inl f \<Rightarrow> f \<noteq> OutOfFuel
   | Inr s' \<Rightarrow> ptable_ok s' \<and> total_refs s' \<le> total_refs s)"

lemma settles_Inr [simp]: "settles s (Inr s') \<longleftrightarrow> ptable_ok s' \<and> total_refs s' \<le> total_refs s"
  by (simp add: settles_def)

lemma settles_Inl [simp]: "settles s (Inl f) \<longleftrightarrow> f \<noteq> OutOfFuel"
  by (simp add: settles_def)

lemma settles_same: "total_refs t = total_refs s \<Longrightarrow> settles t r \<longleftrightarrow> settles s r"
  by (cases r) simp_all

lemma settles_bnd:
  assumes "settles s m"
    and "\<And>t. ptable_ok t \<Longrightarrow> total_refs t \<le> total_refs s \<Longrightarrow> m = Inr t \<Longrightarrow> settles t (f t)"
  shows "settles s (bnd m f)"
proof (cases m)
  case (Inr t)
  with assms have "settles t (f t)" "ptable_ok t" "total_refs t \<le> total_refs s" by auto
  with Inr show ?thesis by (auto simp: settles_def split: sum.splits)
qed (use assms in simp)

text \<open>An operation that has only to be free of the end of the fuel, its result being known.\<close>

definition fuelless :: "fault + 'a \<Rightarrow> bool" where
  "fuelless r \<longleftrightarrow> r \<noteq> Inl OutOfFuel"

lemma fuelless_bnd [intro!]: "fuelless m \<Longrightarrow> (\<And>x. fuelless (f x)) \<Longrightarrow> fuelless (bnd m f)"
  by (cases m) (auto simp: fuelless_def)

lemma fuelless_basic [simp, intro]:
  "fuelless (Inr x)" "fuelless (get_port s a)" "fuelless (get_proc s i)" "fuelless (get_waiter s w)"
  "fuelless (ipc_assert_locked s)" "fuelless (ipc_assert_any s)" "fuelless (sched_assert_locked s)"
  "fuelless (sched_lock s)" "fuelless (price i s)" "fuelless (chunk_free c s)"
  by (auto simp: fuelless_def get_port_def get_proc_def get_waiter_def ipc_assert_locked_def
      ipc_assert_any_def sched_assert_locked_def sched_lock_def lock_def price_def chunk_free_def
      Let_def split: option.split prod.split)

lemma fuelless_Inl [simp]: "fuelless (Inl f) \<longleftrightarrow> f \<noteq> OutOfFuel"
  by (simp add: fuelless_def)

lemma fuelless_sched [simp, intro]:
  "fuelless (rq_add q i s)" "fuelless (rq_del i s)" "fuelless (ipc_assert_port a s)"
  by (auto simp: rq_add_def rq_del_def ipc_assert_port_def Let_def split: option.split)

lemma fuelless_make_ready [simp, intro]: "fuelless (make_ready i s)"
  by (auto simp: make_ready_def ready_enqueue_def split: if_split)

lemma fuelless_wake [simp, intro]: "fuelless (wake_one send a w s)"
  by (auto simp: wake_one_def wake_claim_def port_waiters_del_def split: prod.split)

lemma fuelless_wake_loop [simp, intro]: "fuelless (wake_loop send a ws s)"
  by (induction ws arbitrary: s) auto

lemma settles_core:
  assumes "fuelless r" and "\<And>s'. r = Inr s' \<Longrightarrow> core s' = core s" and "ptable_ok s"
  shows "settles s r"
proof (cases r)
  case (Inr s')
  with assms(2,3) show ?thesis by (metis ptable_ok_core settles_Inr total_refs_core order_refl)
qed (use assms(1) in simp)

lemma settles_wake:
  "ptable_ok s \<Longrightarrow> settles s (wake_receivers a s)" "ptable_ok s \<Longrightarrow> settles s (wake_senders a s)"
  by (rule settles_core; auto simp: wake_receivers_def wake_senders_def ret_iff dest: wake_loop_core)+

lemma hangup_gen_upd [simp]:
  "ptable_ok (s\<lparr>k_hangup_gen := x\<rparr>) = ptable_ok s"
  "total_refs (s\<lparr>k_hangup_gen := x\<rparr>) = total_refs s"
  by (simp_all add: ptable_ok_def total_refs_def refs_at_def port_at_def)

lemma settles_hangup: "ptable_ok s \<Longrightarrow> settles s (port_hangup a s)"
proof -
  assume "ptable_ok s"
  then have "settles (s\<lparr>k_hangup_gen := k_hangup_gen s + 1\<rparr>) (port_hangup a s)"
    unfolding port_hangup_def by (intro settles_bnd) (auto intro: settles_wake)
  then show ?thesis using settles_same [OF hangup_gen_upd(2)] by blast
qed

lemma settles_msgbufs_free: "ptable_ok s \<Longrightarrow> settles s (msgbufs_free b s)"
proof (induction b s rule: msgbufs_free.induct)
  case (3 c n b s)
  have "settles s (chunk_free c s)"
    using 3(2) by (auto simp: chunk_free_def ptable_ok_def total_refs_def refs_at_def port_at_def
        split: option.split)
  then show ?case using 3(1) by (auto intro: settles_bnd)
qed simp_all

text \<open>
  What the flush relies on of the function that drops a reference: given a table with fewer
  than \<open>n\<close> rights in flight, it settles.
\<close>

locale unref_fuel =
  fixes unref :: "addr \<Rightarrow> kstate \<Rightarrow> fault + kstate" and n :: nat
  assumes unref: "ptable_ok s \<Longrightarrow> total_refs s < n \<Longrightarrow> settles s (unref a s)"
begin

lemma settles_release:
  "ptable_ok s \<Longrightarrow> total_refs s < n \<Longrightarrow> settles s (release_inflight_with unref refs s)"
proof (induction refs arbitrary: s)
  case (Cons r refs)
  obtain i recv where r: "r = (i, recv)" by fastforce
  show ?case
  proof (cases "k_portv s i")
    case None
    with Cons r show ?thesis by simp
  next
    case (Some a)
    then obtain p where p: "k_pheap s a = Some p" using ptable_okD(3) Cons.prems(1) by blast
    define s1 where "s1 = set_port s a (p\<lparr>pt_nrecv := pt_nrecv p - 1\<rparr>)"
    have s1: "ptable_ok s1" "total_refs s1 = total_refs s"
      using ptable_ok_set_port [OF Cons.prems(1) p] total_refs_same [OF Cons.prems(1) p]
      unfolding s1_def by auto
    define t where "t = (if recv then s1 else s)"
    have t: "ptable_ok t" "total_refs t = total_refs s"
      using s1 Cons.prems by (auto simp: t_def)
    have eq: "release_inflight_with unref (r # refs) s
        = bnd (unref a t) (release_inflight_with unref refs)"
      using Some p by (simp add: r get_Some t_def s1_def)
    have "settles t (bnd (unref a t) (release_inflight_with unref refs))"
      using unref [OF t(1)] t Cons.prems(2) Cons.IH by (intro settles_bnd) auto
    then show ?thesis by (simp add: eq settles_same [OF t(2)])
  qed
qed simp

lemma settles_msgs:
  "ptable_ok s \<Longrightarrow> total_refs s < n \<or> queue_refs q = 0 \<Longrightarrow> settles s (msgs_free_by unref q s)"
proof (induction q arbitrary: s)
  case (Cons m q)
  have "settles s (release_inflight_by unref (m_refs m) s)"
    using Cons.prems settles_release
    by (auto simp: release_inflight_by_def queue_refs_def ipc_assert_locked_def)
  then have "settles s (msg_free_by unref m s)"
    unfolding msg_free_by_def by (intro settles_bnd) (auto intro: settles_msgbufs_free)
  then show ?case
    using Cons.prems Cons.IH
    by (auto simp: queue_refs_def intro!: settles_bnd)
qed simp

lemma settles_flush:
  assumes "ptable_ok s" and "total_refs s \<le> n"
  shows "settles s (port_flush_by unref a s)"
proof (cases "k_pheap s a")
  case None
  then show ?thesis by (simp add: port_flush_by_def get_port_def)
next
  case (Some p)
  define s1 where "s1 = set_port s a (p\<lparr>pt_queue := [], pt_qbytes := 0\<rparr>)"
  have s1: "ptable_ok s1" "total_refs s1 + queue_refs (pt_queue p) = total_refs s"
    using ptable_ok_set_port [OF assms(1) Some] total_refs_set_port [OF assms(1) Some]
    unfolding s1_def by (auto simp: queue_refs_def)
  have "settles s1 (msgs_free_by unref (pt_queue p) s1)"
    using s1 assms(2) by (intro settles_msgs) auto
  then have "settles s (msgs_free_by unref (pt_queue p) s1)"
    using s1(2) by (auto simp: settles_def split: sum.splits)
  with Some show ?thesis by (simp add: port_flush_by_def get_Some s1_def)
qed

end

lemma unref_fuel_step:
  assumes "unref_fuel (port_unref_f n) n"
  shows "unref_fuel (port_unref_f (Suc n)) (Suc n)"
proof
  fix s a
  assume ok: "ptable_ok s" and lt: "total_refs s < Suc n"
  note flush = unref_fuel.settles_flush [OF assms]
  show "settles s (port_unref_f (Suc n) a s)"
  proof (cases "ipcheld s \<and> k_pheap s a \<noteq> None")
    case False
    then show ?thesis by (auto simp: ipc_assert_locked_def get_port_def)
  next
    case True
    then obtain p0 where p0: "k_pheap s a = Some p0" and held: "ipcheld s" by auto
    define p where "p = p0\<lparr>pt_nrights := pt_nrights p0 - 1\<rparr>"
    define s1 where "s1 = set_port s a p"
    define s2 where "s2 = set_port s1 a (p\<lparr>pt_dead := True\<rparr>)"
    have s1: "ptable_ok s1" "total_refs s1 = total_refs s" "k_pheap s1 a = Some p"
      using ptable_ok_set_port [OF ok p0] total_refs_same [OF ok p0]
      unfolding s1_def p_def by auto
    have s2: "ptable_ok s2" "total_refs s2 = total_refs s"
      using ptable_ok_set_port [OF s1(1,3)] total_refs_same [OF s1(1,3)] s1(2)
      unfolding s2_def by auto
    have free: "settles s1 (bnd (port_flush_by (port_unref_f n) a s1) (port_free a))"
    proof (rule settles_bnd)
      show "settles s1 (port_flush_by (port_unref_f n) a s1)" using flush s1 lt by simp
    next
      fix t
      assume t: "ptable_ok t"
      show "settles t (port_free a t)"
      proof (cases "k_pheap t a")
        case (Some q)
        then obtain t' where t': "port_free a t = Inr t'" by (simp add: port_free_def get_Some)
        note f = port_at_free [OF t t' Some]
        have "total_refs t' \<le> total_refs t"
          unfolding total_refs_def f(3) by (rule sum_mono) (simp add: refs_at_def f(2))
        with t' f(1) show ?thesis by simp
      qed (simp add: port_free_def get_port_def)
    qed
    have keep: "settles s1 (bnd (if pt_nrecv p = 0 \<and> \<not> pt_dead p
        then port_flush_by (port_unref_f n) a s2 else Inr s1) (port_hangup a))"
    proof (rule settles_bnd)
      show "settles s1 (if pt_nrecv p = 0 \<and> \<not> pt_dead p
        then port_flush_by (port_unref_f n) a s2 else Inr s1)"
        using flush [OF s2(1), of a] settles_same [of s2 s1] s1 s2 lt by auto
    qed (use settles_hangup in auto)
    have "port_unref_f (Suc n) a s = (if pt_nrights p \<le> 0
        then bnd (port_flush_by (port_unref_f n) a s1) (port_free a)
        else bnd (if pt_nrecv p = 0 \<and> \<not> pt_dead p
          then port_flush_by (port_unref_f n) a s2 else Inr s1) (port_hangup a))"
      using held p0
      by (simp add: ipc_assert_locked_def get_Some Let_def p_def s1_def s2_def)
    with free keep show ?thesis by (simp add: settles_same [OF s1(2)])
  qed
qed

lemma unref_fuel_all: "unref_fuel (port_unref_f n) n"
  by (induction n) (use unref_fuel_step in \<open>auto simp: unref_fuel_def\<close>)

interpretation uf: unref_fuel "port_unref_f n" n for n
  by (rule unref_fuel_all)

lemma settles_port_unref: "ptable_ok s \<Longrightarrow> settles s (port_unref a s)"
  unfolding port_unref_def by (rule uf.unref) simp_all

end
