(* ===== verification/Waits.thy ===== *)
theory Waits
  imports PortTerm
begin

text \<open>
  Blocking and waking (\<open>wait_add\<close>, \<open>wait_clear\<close>, \<open>wait_reap\<close>, \<open>wake_receivers\<close>, \<open>wake_senders\<close> of
  \<open>src/src/port.c\<close>): the invariant that ties a port's list of waits, a proc's list of waits and
  the records themselves together, that it survives every one of these, that none of them
  faults under it, and that no wake is lost.
\<close>

text \<open>Does the proc hold a right that names the port at \<open>a\<close>?\<close>

definition names :: "kproc \<Rightarrow> nat \<Rightarrow> addr \<Rightarrow> bool" where
  "names p h a = (case right_slot p (int h) of None \<Rightarrow> False | Some r \<Rightarrow> r_used r \<and> r_port r = a)"

definition holds :: "kproc \<Rightarrow> addr \<Rightarrow> bool" where
  "holds p a \<longleftrightarrow> (\<exists>h<MAXRIGHTS. names p h a)"

definition waiting :: "kstate \<Rightarrow> waddr \<Rightarrow> nat \<Rightarrow> bool" where
  "waiting s w i \<longleftrightarrow> (\<exists>q. k_procs s i = Some q \<and> w \<in> set (pr_waiters q))"

text \<open>
  A wait is on a port's list exactly if its record says so and it is on its proc's list; a proc
  that is on a port's list holds a right to the port; a proc's first wait is its inline record
  or one from the heap, and records are shared with nobody.
\<close>

definition port_waits_ok :: "kstate \<Rightarrow> bool" where
  "port_waits_ok s \<longleftrightarrow> (\<forall>a p. k_pheap s a = Some p \<longrightarrow> distinct (pt_waiters p) \<and>
     (\<forall>w. w \<in> set (pt_waiters p) \<longleftrightarrow>
        (\<exists>x. k_waits s w = Some x \<and> w_onport x \<and> w_port x = a \<and> waiting s w (w_proc x))))"

fun record_ok :: "nat \<Rightarrow> nat \<Rightarrow> kproc \<Rightarrow> waddr \<Rightarrow> bool" where
  "record_ok m i q (W0 j) = (j = i \<and> pr_w0used q)"
| "record_ok m i q (WH c) = (c \<le> m)"

definition wait_ok :: "kstate \<Rightarrow> nat \<Rightarrow> kproc \<Rightarrow> waddr \<Rightarrow> bool" where
  "wait_ok s i q w \<longleftrightarrow> (\<exists>x. k_waits s w = Some x \<and> w_proc x = i \<and> (w_onport x \<longrightarrow> holds q (w_port x)))
     \<and> record_ok (k_mcount s) i q w"

definition proc_waits_ok :: "kstate \<Rightarrow> bool" where
  "proc_waits_ok s \<longleftrightarrow> (\<forall>i q. k_procs s i = Some q \<longrightarrow> distinct (pr_waiters q) \<and>
     (\<forall>w\<in>set (pr_waiters q). wait_ok s i q w))"

definition waits_ok :: "kstate \<Rightarrow> bool" where
  "waits_ok s \<longleftrightarrow> port_waits_ok s \<and> proc_waits_ok s"

text \<open>A blocked proc has not been claimed by a waker.\<close>

definition claims_ok :: "kstate \<Rightarrow> bool" where
  "claims_ok s \<longleftrightarrow> (\<forall>i q. k_procs s i = Some q \<longrightarrow> pr_status q = BLOCKED \<longrightarrow> \<not> pr_woken q)"

definition wake_inv :: "kstate \<Rightarrow> bool" where
  "wake_inv s \<longleftrightarrow> waits_ok s \<and> claims_ok s \<and> rq_ok s \<and> \<not> l_held (k_schedlock s)"

lemma names_cong:
  "pr_rights p' = pr_rights p \<Longrightarrow> pr_xrights p' = pr_xrights p \<Longrightarrow> names p' h a = names p h a"
  by (simp add: names_def right_slot_def)

lemma holds_cong:
  "pr_rights p' = pr_rights p \<Longrightarrow> pr_xrights p' = pr_xrights p \<Longrightarrow> holds p' a = holds p a"
  unfolding holds_def using names_cong by blast

lemma nosched_proc_back:
  assumes "nosched s' = nosched s" and "k_procs s' i = Some q'"
  obtains q where "k_procs s i = Some q" and "nosched_proc q' = nosched_proc q"
  using nosched_sel(8) [OF assms(1), of i] assms(2) by (cases "k_procs s i") auto

lemma waiting_nosched: "nosched s' = nosched s \<Longrightarrow> waiting s' v i \<Longrightarrow> waiting s v i"
  unfolding waiting_def using nosched_proc_back nosched_proc_eqD(3) by metis

lemma record_ok_cong: "pr_w0used q' = pr_w0used q \<Longrightarrow> record_ok m i q' w = record_ok m i q w"
  by (cases w) simp_all

lemma waits_ok_nosched:
  assumes n: "nosched s' = nosched s" and ok: "waits_ok s"
  shows "waits_ok s'"
proof -
  have wi: "waiting s' v i \<longleftrightarrow> waiting s v i" for v i
    using waiting_nosched [OF n] waiting_nosched [OF n [symmetric]] by blast
  note sel = nosched_sel(1,3,9) [OF n]
  have "port_waits_ok s'"
    using ok by (simp add: waits_ok_def port_waits_ok_def sel wi)
  moreover have "proc_waits_ok s'"
    unfolding proc_waits_ok_def
  proof (intro allI impI)
    fix i q'
    assume "k_procs s' i = Some q'"
    then obtain q where q: "k_procs s i = Some q" "nosched_proc q' = nosched_proc q"
      by (rule nosched_proc_back [OF n])
    note e = nosched_proc_eqD [OF q(2)]
    have "distinct (pr_waiters q)" "\<forall>w\<in>set (pr_waiters q). wait_ok s i q w"
      using ok q(1) by (auto simp: waits_ok_def proc_waits_ok_def)
    then show "distinct (pr_waiters q') \<and> (\<forall>w\<in>set (pr_waiters q'). wait_ok s' i q' w)"
      using e by (simp add: wait_ok_def sel holds_cong [of q' q] record_ok_cong [of q' q])
  qed
  ultimately show ?thesis by (simp add: waits_ok_def)
qed

lemma waits_okD:
  assumes "waits_ok s"
  shows "k_pheap s a = Some p \<Longrightarrow> distinct (pt_waiters p)"
    and "k_pheap s a = Some p \<Longrightarrow> w \<in> set (pt_waiters p) \<longleftrightarrow>
        (\<exists>x. k_waits s w = Some x \<and> w_onport x \<and> w_port x = a \<and> waiting s w (w_proc x))"
    and "k_procs s i = Some q \<Longrightarrow> distinct (pr_waiters q)"
    and "k_procs s i = Some q \<Longrightarrow> w \<in> set (pr_waiters q) \<Longrightarrow> wait_ok s i q w"
  using assms by (auto simp: waits_ok_def port_waits_ok_def proc_waits_ok_def)

text \<open>A waker takes one wait off the port's list, and the proc's own list keeps it.\<close>

definition unlink :: "waddr \<Rightarrow> addr \<Rightarrow> kstate \<Rightarrow> kport \<Rightarrow> waiter \<Rightarrow> kstate" where
  "unlink w a s p x =
    set_waiter (set_port s a (p\<lparr>pt_waiters := remove1 w (pt_waiters p)\<rparr>)) w (x\<lparr>w_onport := False\<rparr>)"

lemma unlink_sel [simp]:
  "k_procs (unlink w a s p x) = k_procs s" "k_mcount (unlink w a s p x) = k_mcount s"
  "k_waits (unlink w a s p x) = (k_waits s)(w \<mapsto> x\<lparr>w_onport := False\<rparr>)"
  "k_pheap (unlink w a s p x) = (k_pheap s)(a \<mapsto> p\<lparr>pt_waiters := remove1 w (pt_waiters p)\<rparr>)"
  "k_schedlock (unlink w a s p x) = k_schedlock s" "k_buckets (unlink w a s p x) = k_buckets s"
  "k_self (unlink w a s p x) = k_self s"
  "waiting (unlink w a s p x) v i = waiting s v i"
  by (simp_all add: unlink_def waiting_def)

lemma rq_ok_cong:
  assumes "k_schedq s' = k_schedq s" "k_runq s' = k_runq s" "k_donq s' = k_donq s"
    and "\<And>i. map_option (\<lambda>p. (pr_onq p, pr_pri p, pr_oncpu p)) (k_procs s' i)
       = map_option (\<lambda>p. (pr_onq p, pr_pri p, pr_oncpu p)) (k_procs s i)"
  shows "rq_ok s' \<longleftrightarrow> rq_ok s"
proof -
  have a: "\<exists>p. k_procs s i = Some p \<and> pr_onq p = pr_onq p' \<and> pr_pri p = pr_pri p' \<and> pr_oncpu p = pr_oncpu p'"
    if "k_procs s' i = Some p'" for i p'
    using assms(4) [of i] that by (cases "k_procs s i") auto
  have b: "\<exists>p. k_procs s' i = Some p \<and> pr_onq p = pr_onq p' \<and> pr_pri p = pr_pri p' \<and> pr_oncpu p = pr_oncpu p'"
    if "k_procs s i = Some p'" for i p'
    using assms(4) [of i] that by (cases "k_procs s' i") auto
  have "on_bucket s' i q b' = on_bucket s i q b'" for i q b'
    unfolding on_bucket_def using a b by metis
  moreover have "(\<forall>i p q. k_procs s' i = Some p \<longrightarrow> pr_onq p = Some q \<longrightarrow> q < 2 \<and> pr_oncpu p = 0)
      \<longleftrightarrow> (\<forall>i p q. k_procs s i = Some p \<longrightarrow> pr_onq p = Some q \<longrightarrow> q < 2 \<and> pr_oncpu p = 0)"
    using a b by metis
  ultimately show ?thesis by (simp only: rq_ok_def assms(1-3))
qed

lemma waits_ok_unlink:
  assumes "waits_ok s" and "k_pheap s a = Some p" and "k_waits s w = Some x" and "w \<in> set (pt_waiters p)"
  shows "waits_ok (unlink w a s p x)"
proof -
  have d: "distinct (pt_waiters p)" and wp: "w_port x = a"
    using waits_okD(1,2) [OF assms(1,2)] assms(3,4) by auto
  have "port_waits_ok (unlink w a s p x)"
    unfolding port_waits_ok_def
  proof (intro allI impI conjI)
    fix b q v
    assume q: "k_pheap (unlink w a s p x) b = Some q"
    show "distinct (pt_waiters q)"
      using q d waits_okD(1) [OF assms(1)] by (auto split: if_splits)
    show "v \<in> set (pt_waiters q) \<longleftrightarrow> (\<exists>y. k_waits (unlink w a s p x) v = Some y \<and> w_onport y
        \<and> w_port y = b \<and> waiting (unlink w a s p x) v (w_proc y))"
    proof (cases "b = a")
      case True
      then show ?thesis using q d waits_okD(2) [OF assms(1,2), of v] by auto
    next
      case False
      then have "k_pheap s b = Some q" using q by simp
      from waits_okD(2) [OF assms(1) this, of v] show ?thesis using wp assms(3) False by auto
    qed
  qed
  moreover have "proc_waits_ok (unlink w a s p x)"
    unfolding proc_waits_ok_def
  proof (intro allI impI conjI ballI)
    fix i q v
    assume q: "k_procs (unlink w a s p x) i = Some q"
    then show "distinct (pr_waiters q)" using waits_okD(3) [OF assms(1)] by simp
    assume "v \<in> set (pr_waiters q)"
    with q have "wait_ok s i q v" using waits_okD(4) [OF assms(1)] by simp
    then show "wait_ok (unlink w a s p x) i q v"
      using assms(3) by (auto simp: wait_ok_def)
  qed
  ultimately show ?thesis by (simp add: waits_ok_def)
qed

section \<open>Waking\<close>

text \<open>A wait whose proc is still asleep, for a message (\<open>send\<close> false) or for room.\<close>

definition asleep :: "bool \<Rightarrow> kstate \<Rightarrow> waddr \<Rightarrow> bool" where
  "asleep send s w \<longleftrightarrow> (\<exists>x q. k_waits s w = Some x \<and> w_send x = send
     \<and> k_procs s (w_proc x) = Some q \<and> pr_status q = BLOCKED)"

text \<open>
  What a wake makes of a sleeper: it is \<open>READY\<close> and on a run queue, or in the hands of the cpu that will put
  it there; if a debugger had asked for it to stop, it is stopped. A proc the loop does not wake keeps what
  the scheduler knows of it.
\<close>

definition woken_up :: "kproc \<Rightarrow> kproc \<Rightarrow> bool" where
  "woken_up q q' \<longleftrightarrow> (if dbg_stop_pending q then pr_status q' = STOPPED
     else pr_status q' = READY \<and> (pr_oncpu q' = 0 \<longrightarrow> pr_onq q' \<noteq> None))"

definition sched_view :: "kproc \<Rightarrow> pstatus \<times> nat option \<times> nat \<times> kdbg option" where
  "sched_view q = (pr_status q, pr_onq q, pr_oncpu q, pr_dbg q)"

definition turned :: "kproc \<Rightarrow> kproc \<Rightarrow> bool" where
  "turned q q' \<longleftrightarrow> sched_view q' = sched_view q \<or> pr_status q = BLOCKED \<and> woken_up q q'"

lemma woken_up_awake: "woken_up q q' \<Longrightarrow> pr_status q' \<noteq> BLOCKED"
  by (auto simp: woken_up_def split: if_splits)

lemma woken_up_cong: "woken_up q q' \<Longrightarrow> sched_view p = sched_view q \<Longrightarrow> sched_view p' = sched_view q' \<Longrightarrow> woken_up p p'"
proof -
  assume w: "woken_up q q'" and v: "sched_view p = sched_view q" "sched_view p' = sched_view q'"
  have "dbg_stop_pending p = dbg_stop_pending q" using v(1) by (auto simp: sched_view_def dbg_stop_pending_def split: option.split)
  then show ?thesis using w v by (simp add: woken_up_def sched_view_def)
qed

lemma turned_trans: "turned p q \<Longrightarrow> turned q r \<Longrightarrow> turned p r"
  using woken_up_cong [of q r p r] woken_up_cong [of p q p r] woken_up_awake [of p q]
  by (auto simp: turned_def sched_view_def)

definition all_turned :: "kstate \<Rightarrow> kstate \<Rightarrow> bool" where
  "all_turned s s' \<longleftrightarrow> (\<forall>i q. k_procs s i = Some q \<longrightarrow> (\<exists>q'. k_procs s' i = Some q' \<and> turned q q'))"

lemma all_turned_refl [simp]: "all_turned s s"
  by (simp add: all_turned_def turned_def)

lemma all_turned_trans: "all_turned s t \<Longrightarrow> all_turned t u \<Longrightarrow> all_turned s u"
  unfolding all_turned_def using turned_trans by blast

text \<open>
  What a wake loop over the waits \<open>ws\<close> of the port at \<open>a\<close> leaves: nothing new asleep, only waits of
  \<open>ws\<close> possibly off the list, and all of them awake.
\<close>

definition wakes :: "bool \<Rightarrow> addr \<Rightarrow> waddr set \<Rightarrow> kstate \<Rightarrow> kstate \<Rightarrow> bool" where
  "wakes send a ws s s' \<longleftrightarrow> wake_inv s' \<and> core s' = core s \<and> all_turned s s'
     \<and> (\<forall>d v. asleep d s' v \<longrightarrow> asleep d s v) \<and> (\<forall>w\<in>ws. \<not> asleep send s' w)
     \<and> (\<forall>v. map_option (\<lambda>x. (w_proc x, w_send x)) (k_waits s' v) = map_option (\<lambda>x. (w_proc x, w_send x)) (k_waits s v))
     \<and> (\<forall>b. b \<noteq> a \<longrightarrow> k_pheap s' b = k_pheap s b)
     \<and> (\<forall>p. k_pheap s a = Some p \<longrightarrow> (\<exists>p'. k_pheap s' a = Some p'
          \<and> set (pt_waiters p') \<subseteq> set (pt_waiters p) \<and> set (pt_waiters p) - ws \<subseteq> set (pt_waiters p')
          \<and> (\<forall>w\<in>ws \<inter> set (pt_waiters p'). \<not> asleep send s' w)))"

lemma wakes_refl:
  assumes "wake_inv s" and "\<forall>w\<in>ws. \<not> asleep send s w"
  shows "wakes send a ws s s"
  using assms by (auto simp: wakes_def)

lemma wakes_trans:
  assumes "wakes send a ws s t" and "wakes send a vs t u"
  shows "wakes send a (ws \<union> vs) s u"
  unfolding wakes_def
proof (intro conjI allI impI)
  fix p
  assume "k_pheap s a = Some p"
  then obtain q where q: "k_pheap t a = Some q" "set (pt_waiters q) \<subseteq> set (pt_waiters p)"
    "set (pt_waiters p) - ws \<subseteq> set (pt_waiters q)" "\<forall>w\<in>ws \<inter> set (pt_waiters q). \<not> asleep send t w"
    using assms(1) unfolding wakes_def by blast
  then obtain r where "k_pheap u a = Some r" "set (pt_waiters r) \<subseteq> set (pt_waiters q)"
    "set (pt_waiters q) - vs \<subseteq> set (pt_waiters r)" "\<forall>w\<in>vs \<inter> set (pt_waiters r). \<not> asleep send u w"
    using assms(2) unfolding wakes_def by blast
  moreover have "asleep send u w \<Longrightarrow> asleep send t w" for w
    using assms(2) unfolding wakes_def by blast
  ultimately show "\<exists>p'. k_pheap u a = Some p' \<and> set (pt_waiters p') \<subseteq> set (pt_waiters p)
      \<and> set (pt_waiters p) - (ws \<union> vs) \<subseteq> set (pt_waiters p')
      \<and> (\<forall>w\<in>(ws \<union> vs) \<inter> set (pt_waiters p'). \<not> asleep send u w)"
    using q by (intro exI [of _ r]) blast
qed (use assms all_turned_trans [of s t u] in \<open>auto simp: wakes_def\<close>)

lemma woken_to_up:
  "woken_to q q' \<Longrightarrow> pr_status q = BLOCKED \<Longrightarrow> woken_up q q'"
  by (auto simp: woken_to_def woken_up_def dbg_take_stop_def split: if_splits)

lemma woken_not_blocked:
  "woken_to q q' \<Longrightarrow> pr_status q = BLOCKED \<Longrightarrow> pr_status q' \<noteq> BLOCKED"
  by (auto simp: woken_to_def dbg_take_stop_def split: if_splits)

text \<open>Taking the claim changes nothing but the flag it sets.\<close>

lemma wake_claim_ok:
  assumes inv: "wake_inv s" and q: "k_procs s i = Some q" and b: "pr_status q = BLOCKED"
  obtains s1 q1 where "wake_claim i s = Inr (True, s1)" and "k_procs s1 = (k_procs s)(i \<mapsto> q1)"
    and "pr_status q1 = BLOCKED" and "sched_view q1 = sched_view q" and "waits_ok s1" and "rq_ok s1" and "core s1 = core s"
    and "k_pheap s1 = k_pheap s" and "k_waits s1 = k_waits s" and "k_schedlock s1 = k_schedlock s"
    and "k_buckets s1 = k_buckets s" and "k_self s1 = k_self s"
proof -
  have wok: "waits_ok s" and rok: "rq_ok s" using inv by (auto simp: wake_inv_def)
  define q1 where "q1 = q\<lparr>pr_woken := True\<rparr>"
  define s1 where "s1 = (set_proc s i q1)\<lparr>k_claim_won := k_claim_won s + 1\<rparr>"
  have q1: "pr_waiters q1 = pr_waiters q" "pr_rights q1 = pr_rights q" "pr_xrights q1 = pr_xrights q"
    "pr_status q1 = BLOCKED" "pr_onq q1 = pr_onq q" "pr_pri q1 = pr_pri q" "pr_oncpu q1 = pr_oncpu q"
    "pr_w0used q1 = pr_w0used q" "core_proc q1 = core_proc q" "sched_view q1 = sched_view q"
    using b by (simp_all add: q1_def core_proc_def nosched_proc_def sched_view_def)
  have s1: "k_pheap s1 = k_pheap s" "k_waits s1 = k_waits s" "k_procs s1 = (k_procs s)(i \<mapsto> q1)"
    "k_schedq s1 = k_schedq s" "k_runq s1 = k_runq s" "k_donq s1 = k_donq s"
    "k_schedlock s1 = k_schedlock s" "k_buckets s1 = k_buckets s" "k_self s1 = k_self s"
    "k_mcount s1 = k_mcount s" "core s1 = core s"
    using core_set_proc [OF q q1(9)] by (simp_all add: s1_def)
  have wait1: "waiting s1 v j \<longleftrightarrow> waiting s v j" for v j
    using q q1(1) by (auto simp: waiting_def s1(3))
  have "wait_ok s1 j q1 v = wait_ok s j q v" for j v
    by (simp add: wait_ok_def s1 holds_cong [OF q1(2,3)] record_ok_cong [OF q1(8)])
  moreover have "wait_ok s1 j r v = wait_ok s j r v" for j r v by (simp add: wait_ok_def s1)
  ultimately have "waits_ok s1"
    using wok q q1(1)
    by (auto simp: waits_ok_def port_waits_ok_def proc_waits_ok_def s1 wait1 split: if_splits)
  moreover have "rq_ok s1"
    using rok q q1 by (subst rq_ok_cong [of s1 s]) (simp_all add: s1)
  moreover have "\<not> pr_woken q" using inv q b by (auto simp: wake_inv_def claims_ok_def)
  then have "wake_claim i s = Inr (True, s1)"
    using q by (simp add: wake_claim_def get_Some s1_def q1_def)
  ultimately show ?thesis using that s1 q1(4,10) by blast
qed

lemma wake_one_ok:
  assumes inv: "wake_inv s" and p: "k_pheap s a = Some p" and held: "ipcheld_one_port s p"
    and w: "w \<in> set (pt_waiters p)"
  shows "\<exists>s'. wake_one send a w s = Inr s' \<and> wakes send a {w} s s'"
proof -
  have wok: "waits_ok s" and cok: "claims_ok s" and sl: "\<not> l_held (k_schedlock s)"
    using inv by (auto simp: wake_inv_def)
  obtain x q where x: "k_waits s w = Some x" and q: "k_procs s (w_proc x) = Some q"
    using waits_okD(2) [OF wok p] w by (auto simp: waiting_def)
  show ?thesis
  proof (cases "w_send x \<noteq> send \<or> pr_status q \<noteq> BLOCKED")
    case True
    then have "wake_one send a w s = Inr s" and "\<not> asleep send s w"
      using x q by (auto simp: wake_one_def get_Some asleep_def)
    then show ?thesis using wakes_refl [OF inv] by auto
  next
    case False
    let ?i = "w_proc x"
    obtain s1 q1 where claim: "wake_claim ?i s = Inr (True, s1)"
      and v1: "sched_view q1 = sched_view q"
      and s1: "k_procs s1 = (k_procs s)(?i \<mapsto> q1)" "pr_status q1 = BLOCKED" "waits_ok s1" "rq_ok s1"
        "core s1 = core s" "k_pheap s1 = k_pheap s" "k_waits s1 = k_waits s"
        "k_schedlock s1 = k_schedlock s" "k_buckets s1 = k_buckets s" "k_self s1 = k_self s"
      using wake_claim_ok [OF inv q] False by blast
    define s3 where "s3 = unlink w a s1 p x"
    have wok3: "waits_ok s3"
      unfolding s3_def using p x w s1 by (intro waits_ok_unlink) auto
    have rok3: "rq_ok s3"
      using s1(4) by (subst rq_ok_cong [of s3 s1]) (simp_all add: s3_def unlink_def)
    have any: "ipcheld_any s3"
      using ipcheld_one_any [OF held] by (simp add: ipcheld_any_iff ipcheld_one_def s3_def s1)
    have "k_procs s3 ?i = Some q1" "\<not> l_held (k_schedlock s3)" using sl by (simp_all add: s3_def s1)
    then obtain s' q' where r: "make_ready ?i s3 = Inr s'" "rq_ok s'" "\<not> l_held (k_schedlock s')"
      "nosched s' = nosched s3" "k_procs s' = (k_procs s3)(?i \<mapsto> q')" "woken_to q1 q'"
      using make_ready_ok [OF rok3 _ any] by metis
    have st: "pr_status q' \<noteq> BLOCKED" using woken_not_blocked [OF r(6) s1(2)] .
    have "turned q q'"
      using woken_up_cong [OF woken_to_up [OF r(6) s1(2)] v1 [symmetric] refl] False by (simp add: turned_def)
    then have tu: "all_turned s s'"
      using q by (auto simp: all_turned_def turned_def r(5) s3_def s1)
    note sel = nosched_sel [OF r(4)]
    have "port_waiters_del w a s1 = Inr (set_port s1 a (p\<lparr>pt_waiters := remove1 w (pt_waiters p)\<rparr>))"
      using p w by (simp add: port_waiters_del_def get_Some s1)
    then have one: "wake_one send a w s = Inr s'"
      using x q False claim r(1) by (simp add: wake_one_def get_Some s1 s3_def unlink_def)
    have "core s3 = core s1"
      unfolding s3_def unlink_def using p by (simp add: core_waiters s1)
    then have c: "core s' = core s" using core_nosched [OF r(4)] s1(5) by simp
    have claims': "claims_ok s'"
      using cok st by (auto simp: claims_ok_def r(5) s3_def s1 split: if_splits)
    have sleep: "asleep d s' v \<Longrightarrow> asleep d s v" for d v
      using st x(1) by (auto simp: asleep_def r(5) sel(3) s3_def s1 split: if_splits)
    have "\<not> asleep send s' w" using st by (auto simp: asleep_def r(5) sel(3) s3_def)
    then have "wakes send a {w} s s'"
      using waits_ok_nosched [OF r(4) wok3] claims' r(2,3) c tu sleep p x waits_okD(1) [OF wok p]
      by (auto simp: wakes_def wake_inv_def sel(1,3) s3_def s1)
    with one show ?thesis by auto
  qed
qed

lemma wake_loop_ok:
  assumes "wake_inv s" and "k_pheap s a = Some p" and "ipcheld_one_port s p" and "distinct ws"
    and "set ws \<subseteq> set (pt_waiters p)"
  shows "\<exists>s'. wake_loop send a ws s = Inr s' \<and> wakes send a (set ws) s s'"
  using assms
proof (induction ws arbitrary: s p)
  case Nil
  then show ?case using wakes_refl by simp
next
  case (Cons w ws)
  then obtain t where t: "wake_one send a w s = Inr t" "wakes send a {w} s t"
    using wake_one_ok [OF Cons.prems(1-3), of w send] by auto
  then obtain q where q: "k_pheap t a = Some q" "set (pt_waiters p) - {w} \<subseteq> set (pt_waiters q)"
    using Cons.prems(2) unfolding wakes_def by blast
  have c: "core t = core s" using t(2) by (simp add: wakes_def)
  have "core_port q = core_port p"
    using core_eqD(9) [OF c, of a] Cons.prems(2) q(1) by simp
  then have "pt_idx q = pt_idx p" by (rule core_port_eqD)
  then have "ipcheld_one_port t q"
    using Cons.prems(3) core_eqD(4,5) [OF c]
    by (simp add: ipcheld_one_port_def ipcheld_one_def)
  moreover have "set ws \<subseteq> set (pt_waiters q)" using Cons.prems(4,5) q(2) by auto
  ultimately obtain u where "wake_loop send a ws t = Inr u" "wakes send a (set ws) t u"
    using Cons.IH [of t q] t(2) q(1) Cons.prems(4) by (auto simp: wakes_def)
  then show ?case using t wakes_trans [OF t(2), of "set ws" u] by auto
qed

text \<open>
  After either wake, everybody who slept on the port's list for that reason has been woken.
\<close>

definition roused :: "bool \<Rightarrow> kport \<Rightarrow> kstate \<Rightarrow> kstate \<Rightarrow> bool" where
  "roused send p s s' \<longleftrightarrow> (\<forall>w\<in>set (pt_waiters p). \<forall>x q. k_waits s w = Some x \<and> w_send x = send
     \<and> k_procs s (w_proc x) = Some q \<and> pr_status q = BLOCKED
     \<longrightarrow> (\<exists>q'. k_procs s' (w_proc x) = Some q' \<and> woken_up q q'))"

lemma wakes_roused:
  assumes "wakes send a (set (pt_waiters p)) s s'"
  shows "roused send p s s'"
  unfolding roused_def
proof (intro ballI allI impI)
  fix w x q
  assume w: "w \<in> set (pt_waiters p)" and x: "k_waits s w = Some x \<and> w_send x = send
    \<and> k_procs s (w_proc x) = Some q \<and> pr_status q = BLOCKED"
  obtain q' where q': "k_procs s' (w_proc x) = Some q'" "turned q q'"
    using assms x unfolding wakes_def all_turned_def by blast
  have "map_option (\<lambda>x. (w_proc x, w_send x)) (k_waits s' w) = Some (w_proc x, w_send x)"
    using assms x unfolding wakes_def by simp
  then have "pr_status q' = BLOCKED \<Longrightarrow> asleep send s' w" using x q'(1) by (auto simp: asleep_def)
  moreover have "\<not> asleep send s' w" using assms w unfolding wakes_def by blast
  ultimately have "woken_up q q'" using q'(2) x by (auto simp: turned_def sched_view_def)
  with q'(1) show "\<exists>q'. k_procs s' (w_proc x) = Some q' \<and> woken_up q q'" by blast
qed

text \<open>What is woken in between stays woken when only the locks, the queue or a proc's accounts change.\<close>

lemma roused_cong:
  assumes "roused send p s s'" "k_waits t = k_waits s" "pt_waiters p1 = pt_waiters p"
    "\<And>i. map_option sched_view (k_procs t i) = map_option sched_view (k_procs s i)"
    "\<And>i. map_option sched_view (k_procs t' i) = map_option sched_view (k_procs s' i)"
  shows "roused send p1 t t'"
  unfolding roused_def
proof (intro ballI allI impI)
  fix w x q
  assume w: "w \<in> set (pt_waiters p1)" and x: "k_waits t w = Some x \<and> w_send x = send
    \<and> k_procs t (w_proc x) = Some q \<and> pr_status q = BLOCKED"
  obtain q0 where q0: "k_procs s (w_proc x) = Some q0" "sched_view q0 = sched_view q"
    using assms(4) [of "w_proc x"] x by (cases "k_procs s (w_proc x)") auto
  then have "pr_status q0 = BLOCKED" using x by (simp add: sched_view_def)
  with assms(1) q0(1) x w assms(2,3) obtain q1 where q1: "k_procs s' (w_proc x) = Some q1" "woken_up q0 q1"
    unfolding roused_def by metis
  then obtain q' where q': "k_procs t' (w_proc x) = Some q'" "sched_view q' = sched_view q1"
    using assms(5) [of "w_proc x"] by (cases "k_procs t' (w_proc x)") auto
  show "\<exists>q'. k_procs t' (w_proc x) = Some q' \<and> woken_up q q'"
    using woken_up_cong [OF q1(2) q0(2) [symmetric] q'(2)] q'(1) by blast
qed

lemma wake_all_ok:
  assumes "wake_inv s" and "k_pheap s a = Some p" and "ipcheld_one_port s p"
  shows "\<exists>s'. wake_loop send a (pt_waiters p) s = Inr s' \<and> wakes send a (set (pt_waiters p)) s s'"
  by (rule wake_loop_ok [OF assms]) (use waits_okD(1) [OF _ assms(2)] assms(1) in \<open>auto simp: wake_inv_def\<close>)

lemma wake_receivers_ok:
  assumes "wake_inv s" and "k_pheap s a = Some p" and "ipcheld_one_port s p"
  shows "\<exists>s'. wake_receivers a s = Inr s' \<and> wakes False a (set (pt_waiters p)) s s'"
  using wake_all_ok [OF assms, of False] assms
  by (simp add: wake_receivers_def ipc_assert_port_def get_Some)

lemma wake_senders_ok:
  assumes "wake_inv s" and "k_pheap s a = Some p" and "ipcheld_one_port s p"
  shows "\<exists>s'. wake_senders a s = Inr s' \<and> wakes True a (set (pt_waiters p)) s s'"
  using wake_all_ok [OF assms, of True] assms
  by (simp add: wake_senders_def ipc_assert_port_def get_Some)

end
