(* ===== verification/Refs.thy ===== *)
theory Refs
  imports Waits
begin

text \<open>
  Who owns a reference. A port's \<open>nrights\<close> counts the rights in handle tables, the rights inside
  queued messages, the timer table's references, and those the running C code has in a local
  variable at the moment; \<open>nrecv\<close> counts the receive rights among them. The last kind is the
  argument \<open>G\<close> of the invariant: \<open>G (i, recv)\<close> references to the port at index \<open>i\<close> are in the hands
  of the code. \<open>C c\<close> is the same for the transferred chunk at \<open>c\<close>. An operation that consumes a
  reference takes one from \<open>G\<close>, one that hands a reference back adds one.
\<close>

section \<open>The counts\<close>

type_synonym owned = "nat \<times> bool \<Rightarrow> nat"

definition qrefs :: "kmsg list \<Rightarrow> (nat \<times> bool) list" where
  "qrefs q = concat (map m_refs q)"

definition qchunks :: "kmsg list \<Rightarrow> addr option list" where
  "qchunks q = concat (map (\<lambda>m. map fst (m_bufs m)) q)"

definition slot_queue :: "kstate \<Rightarrow> nat \<Rightarrow> kmsg list" where
  "slot_queue s j = (case port_at s j of None \<Rightarrow> [] | Some p \<Rightarrow> pt_queue p)"

definition infl :: "kstate \<Rightarrow> nat \<times> bool \<Rightarrow> nat" where
  "infl s x = (\<Sum>j<k_maxports s. count_list (qrefs (slot_queue s j)) x)"

definition chunk_infl :: "kstate \<Rightarrow> addr \<Rightarrow> nat" where
  "chunk_infl s c = (\<Sum>j<k_maxports s. count_list (qchunks (slot_queue s j)) (Some c))"

definition right_is :: "kproc \<Rightarrow> nat \<Rightarrow> addr \<Rightarrow> bool \<Rightarrow> bool" where
  "right_is p h a recv = (case right_slot p (int h) of None \<Rightarrow> False
     | Some r \<Rightarrow> r_used r \<and> r_port r = a \<and> r_recv r = recv)"

definition held_by :: "kproc \<Rightarrow> addr \<Rightarrow> bool \<Rightarrow> nat" where
  "held_by p a recv = (\<Sum>h<MAXRIGHTS. of_bool (right_is p h a recv))"

definition held :: "kstate \<Rightarrow> addr \<Rightarrow> bool \<Rightarrow> nat" where
  "held s a recv = (\<Sum>i<k_maxprocs s. case k_procs s i of None \<Rightarrow> 0 | Some p \<Rightarrow> held_by p a recv)"

definition timed :: "kstate \<Rightarrow> addr \<Rightarrow> nat" where
  "timed s a = (\<Sum>i<MAXTIMERS. of_bool (t_port (k_timers s i) = Some a))"

definition refs_of :: "owned \<Rightarrow> kstate \<Rightarrow> nat \<Rightarrow> addr \<Rightarrow> bool \<Rightarrow> nat" where
  "refs_of G s i a recv = held s a recv + infl s (i, recv) + G (i, recv)"

section \<open>The invariant\<close>

definition counts_ok :: "owned \<Rightarrow> kstate \<Rightarrow> bool" where
  "counts_ok G s \<longleftrightarrow>
     (\<forall>i a p. k_portv s i = Some a \<longrightarrow> k_pheap s a = Some p \<longrightarrow>
        pt_nrecv p = int (refs_of G s i a True) \<and>
        pt_nrights p = int (refs_of G s i a True + refs_of G s i a False + timed s a))
     \<and> (\<forall>i recv. k_portv s i = None \<longrightarrow> infl s (i, recv) = 0 \<and> G (i, recv) = 0)
     \<and> (\<forall>a recv. k_pheap s a = None \<longrightarrow> held s a recv = 0 \<and> timed s a = 0)"

definition chunks_ok :: "(addr \<Rightarrow> nat) \<Rightarrow> kstate \<Rightarrow> bool" where
  "chunks_ok C s \<longleftrightarrow> (\<forall>c. chunk_infl s c + C c = (if k_chunks s c = None then 0 else 1))"

definition queue_ok :: "kport \<Rightarrow> bool" where
  "queue_ok p \<longleftrightarrow> pt_qbytes p = sum_list (map m_qcost (pt_queue p)) \<and> pt_qbytes p \<le> MAXQUEUE
     \<and> (pt_dead p \<longrightarrow> pt_queue p = [])"

definition tables_ok :: "kstate \<Rightarrow> bool" where
  "tables_ok s \<longleftrightarrow> (\<forall>i. k_procs s i \<noteq> None \<longrightarrow> i < k_maxprocs s)
     \<and> (\<forall>a. k_pheap s a \<noteq> None \<longrightarrow> a \<le> k_mcount s)"

definition port_inv :: "owned \<Rightarrow> (addr \<Rightarrow> nat) \<Rightarrow> kstate \<Rightarrow> bool" where
  "port_inv G C s \<longleftrightarrow> ptable_ok s \<and> counts_ok G s \<and> chunks_ok C s \<and> tables_ok s
     \<and> (\<forall>a p. k_pheap s a = Some p \<longrightarrow> queue_ok p)"

lemma port_invD:
  assumes "port_inv G C s"
  shows "ptable_ok s" "counts_ok G s" "chunks_ok C s" "tables_ok s"
    and "k_pheap s a = Some p \<Longrightarrow> queue_ok p"
  using assms by (auto simp: port_inv_def)

lemma counts_okD:
  assumes "counts_ok G s"
  shows "k_portv s i = Some a \<Longrightarrow> k_pheap s a = Some p \<Longrightarrow> pt_nrecv p = int (refs_of G s i a True)"
    and "k_portv s i = Some a \<Longrightarrow> k_pheap s a = Some p \<Longrightarrow>
      pt_nrights p = int (refs_of G s i a True + refs_of G s i a False + timed s a)"
    and "k_portv s i = None \<Longrightarrow> infl s (i, recv) = 0 \<and> G (i, recv) = 0"
    and "k_pheap s a = None \<Longrightarrow> held s a recv = 0 \<and> timed s a = 0"
  using assms unfolding counts_ok_def by blast+

section \<open>It does not depend on scheduling and waits\<close>

lemma slot_queue_core [simp]: "slot_queue (core s) j = slot_queue s j"
  by (cases "k_portv s j") (auto simp: slot_queue_def port_at_def split: option.split)

lemma infl_core [simp]: "infl (core s) x = infl s x" "chunk_infl (core s) c = chunk_infl s c"
  by (simp_all add: infl_def chunk_infl_def)

lemma held_by_cong:
  "pr_rights p' = pr_rights p \<Longrightarrow> pr_xrights p' = pr_xrights p \<Longrightarrow> held_by p' a r = held_by p a r"
  by (simp add: held_by_def right_is_def right_slot_def)

lemma held_core [simp]: "held (core s) a r = held s a r"
  unfolding held_def
  by (rule sum.cong) (auto split: option.split simp: held_by_cong [OF core_proc_sel(1,2)])

lemma timed_core [simp]: "timed (core s) a = timed s a"
  by (simp add: timed_def)

lemma core_heap_all:
  "(\<forall>p. k_pheap (core s) a = Some p \<longrightarrow> P p) \<longleftrightarrow> (\<forall>p. k_pheap s a = Some p \<longrightarrow> P (core_port p))"
  by (cases "k_pheap s a") auto

lemma port_inv_core [simp]: "port_inv G C (core s) \<longleftrightarrow> port_inv G C s"
proof -
  have c: "counts_ok G (core s) \<longleftrightarrow> counts_ok G s"
    unfolding counts_ok_def refs_of_def all_simps(6) core_heap_all by (simp del: of_nat_add)
  have t: "tables_ok (core s) \<longleftrightarrow> tables_ok s" by (simp add: tables_ok_def)
  have q: "(\<forall>a p. k_pheap (core s) a = Some p \<longrightarrow> queue_ok p) \<longleftrightarrow> (\<forall>a p. k_pheap s a = Some p \<longrightarrow> queue_ok p)"
    unfolding core_heap_all by (simp add: queue_ok_def)
  have "chunks_ok C (core s) \<longleftrightarrow> chunks_ok C s" by (simp add: chunks_ok_def)
  then show ?thesis by (simp only: port_inv_def c t q ptable_ok_core)
qed

lemma port_inv_core_eq: "core s' = core s \<Longrightarrow> port_inv G C s' \<longleftrightarrow> port_inv G C s"
  by (metis port_inv_core)

section \<open>One port changes\<close>

lemma slot_queue_set_port:
  assumes "ptable_ok s" and "k_pheap s a = Some p" and "pt_idx p' = pt_idx p"
  shows "slot_queue (set_port s a p') = (slot_queue s)(pt_idx p := pt_queue p')"
    and "slot_queue s (pt_idx p) = pt_queue p"
  using port_at_heap [OF assms(1,2)]
  by (auto simp: slot_queue_def port_at_set_port [OF assms] fun_eq_iff)

lemma infl_set_port:
  assumes "ptable_ok s" and "k_pheap s a = Some p" and "pt_idx p' = pt_idx p"
  shows "infl (set_port s a p') x + count_list (qrefs (pt_queue p)) x
      = infl s x + count_list (qrefs (pt_queue p')) x"
    and "chunk_infl (set_port s a p') c + count_list (qchunks (pt_queue p)) (Some c)
      = chunk_infl s c + count_list (qchunks (pt_queue p')) (Some c)"
proof -
  note q = slot_queue_set_port [OF assms]
  have i: "pt_idx p < k_maxports s" using ptable_okD(2) [OF assms(1,2)] .
  show "infl (set_port s a p') x + count_list (qrefs (pt_queue p)) x
      = infl s x + count_list (qrefs (pt_queue p')) x"
    using sum_one_change [OF i, of "\<lambda>j. count_list (qrefs (slot_queue (set_port s a p') j)) x"
        "\<lambda>j. count_list (qrefs (slot_queue s j)) x"]
    by (simp add: infl_def q)
  show "chunk_infl (set_port s a p') c + count_list (qchunks (pt_queue p)) (Some c)
      = chunk_infl s c + count_list (qchunks (pt_queue p')) (Some c)"
    using sum_one_change [OF i, of "\<lambda>j. count_list (qchunks (slot_queue (set_port s a p') j)) (Some c)"
        "\<lambda>j. count_list (qchunks (slot_queue s j)) (Some c)"]
    by (simp add: chunk_infl_def q)
qed

lemma held_set_port [simp]:
  "held (set_port s a p) b r = held s b r" "timed (set_port s a p) b = timed s b"
  by (simp_all add: held_def timed_def)

text \<open>
  The bookkeeping of a change to the port at \<open>a\<close>: what leaves its queue goes to the code's hands
  and back, and its two counters move by what the references to it moved by.
\<close>

lemma port_inv_set_port:
  fixes p p' :: kport
  defines "i \<equiv> pt_idx p" and "q \<equiv> qrefs (pt_queue p)" and "q' \<equiv> qrefs (pt_queue p')"
  assumes inv: "port_inv G C s" and p: "k_pheap s a = Some p" and idx: "pt_idx p' = pt_idx p"
    and G: "\<And>x. fst x \<noteq> i \<Longrightarrow> G' x + count_list q' x = G x + count_list q x"
    and recv: "pt_nrecv p' - pt_nrecv p = int (G' (i, True) + count_list q' (i, True))
      - int (G (i, True) + count_list q (i, True))"
    and rights: "pt_nrights p' - pt_nrights p
      = int (G' (i, True) + count_list q' (i, True) + G' (i, False) + count_list q' (i, False))
      - int (G (i, True) + count_list q (i, True) + G (i, False) + count_list q (i, False))"
    and C: "\<And>c. C' c + count_list (qchunks (pt_queue p')) (Some c)
      = C c + count_list (qchunks (pt_queue p)) (Some c)"
    and qok: "queue_ok p'"
  shows "port_inv G' C' (set_port s a p')"
proof -
  note D = port_invD [OF inv]
  note cD = counts_okD [OF D(2)]
  let ?s = "set_port s a p'"
  have infl: "infl ?s x + count_list q x = infl s x + count_list q' x" for x
    unfolding q_def q'_def using infl_set_port(1) [OF D(1) p idx] .
  have vi: "k_portv s i = Some a" using ptable_okD(1) [OF D(1) p] by (simp add: i_def)
  have uniq: "k_portv s j = Some a \<Longrightarrow> j = i" for j
    using ptable_okD(3) [OF D(1), of j a] p by (auto simp: i_def)
  have sum: "infl ?s x + G' x = infl s x + G x" if "fst x \<noteq> i" for x
    using infl [of x] G [OF that] by linarith
  have "counts_ok G' ?s"
    unfolding counts_ok_def
  proof (intro conjI allI impI)
    fix j b r
    assume v: "k_portv ?s j = Some b" and r: "k_pheap ?s b = Some r"
    have "pt_nrecv r = int (refs_of G' ?s j b True)
      \<and> pt_nrights r = int (refs_of G' ?s j b True + refs_of G' ?s j b False + timed ?s b)"
    proof (cases "b = a")
      case True
      then have j: "j = i" and [simp]: "r = p'" using v r uniq by auto
      show ?thesis
        using cD(1,2) [OF vi p] infl [of "(i, True)"] infl [of "(i, False)"] recv rights
        by (simp add: refs_of_def j True)
    next
      case False
      then have "j \<noteq> i" using v vi by auto
      then show ?thesis
        using cD(1,2) [of j b r] v r False sum [of "(j, True)"] sum [of "(j, False)"]
        by (simp add: refs_of_def)
    qed
    then show "pt_nrecv r = int (refs_of G' ?s j b True)"
      and "pt_nrights r = int (refs_of G' ?s j b True + refs_of G' ?s j b False + timed ?s b)"
      by blast+
  next
    fix j r
    assume "k_portv ?s j = None"
    then have "j \<noteq> i" "infl s (j, r) = 0" "G (j, r) = 0" using vi cD(3) by auto
    with sum [of "(j, r)"] show "infl ?s (j, r) = 0" and "G' (j, r) = 0" by auto
  next
    fix b r
    assume "k_pheap ?s b = None"
    then show "held ?s b r = 0" and "timed ?s b = 0" using cD(4) by (auto split: if_splits)
  qed
  moreover have "chunks_ok C' ?s"
    unfolding chunks_ok_def
  proof
    fix c
    have "chunk_infl ?s c + C' c = chunk_infl s c + C c"
      using infl_set_port(2) [OF D(1) p idx, of c] C [of c] by linarith
    then show "chunk_infl ?s c + C' c = (if k_chunks ?s c = None then 0 else 1)"
      using D(3) by (simp add: chunks_ok_def)
  qed
  moreover have "tables_ok ?s" using D(4) p by (auto simp: tables_ok_def)
  ultimately show ?thesis
    using ptable_ok_set_port [OF D(1) p idx] D(5) qok by (auto simp: port_inv_def)
qed

end
