(* ===== verification/PortSafe.thy ===== *)
theory PortSafe
  imports Refs
begin

text \<open>
  Dropping a reference is safe as long as no port can be reached from its own queue. Under the
  ownership invariant of theory \<open>Refs\<close> and an order \<open>rank\<close> in which every right in flight points
  downwards, \<open>port_unref\<close> returns: no read through a freed port, no chunk freed twice, no
  assertion failed; the invariant holds again with one reference fewer in the code's hands, and
  no port at or above the rank of the one dropped is touched.
\<close>

section \<open>What dropping references may change\<close>

text \<open>The state without ports, chunks, scheduling and waits.\<close>

definition outer :: "kstate \<Rightarrow> kstate" where
  "outer s = (core s)\<lparr>k_portv := Map.empty, k_pheap := Map.empty, k_chunks := Map.empty,
     k_hangup_gen := 0\<rparr>"

definition same_slot :: "kstate \<Rightarrow> kstate \<Rightarrow> nat \<Rightarrow> bool" where
  "same_slot s s' j \<longleftrightarrow> k_portv s' j = k_portv s j
     \<and> map_option core_port (port_at s' j) = map_option core_port (port_at s j)"

definition shrunk :: "kstate \<Rightarrow> kstate \<Rightarrow> bool" where
  "shrunk s s' \<longleftrightarrow> outer s' = outer s \<and> total_refs s' \<le> total_refs s
     \<and> (\<forall>j. set (slot_queue s' j) \<subseteq> set (slot_queue s j)) \<and> k_chunks s' \<subseteq>\<^sub>m k_chunks s
     \<and> (\<forall>a. k_pheap s' a \<noteq> None \<longrightarrow> map_option pt_idx (k_pheap s' a) = map_option pt_idx (k_pheap s a))"

definition kept :: "(nat \<Rightarrow> nat) \<Rightarrow> nat \<Rightarrow> kstate \<Rightarrow> kstate \<Rightarrow> bool" where
  "kept rank r s s' \<longleftrightarrow> (\<forall>j. r \<le> rank j \<longrightarrow> same_slot s s' j)"

definition acyc :: "(nat \<Rightarrow> nat) \<Rightarrow> kstate \<Rightarrow> bool" where
  "acyc rank s \<longleftrightarrow> (\<forall>j x. x \<in> set (qrefs (slot_queue s j)) \<longrightarrow> rank (fst x) < rank j)"

definition kinv :: "owned \<Rightarrow> (addr \<Rightarrow> nat) \<Rightarrow> kstate \<Rightarrow> bool" where
  "kinv G C s \<longleftrightarrow> port_inv G C s \<and> wake_inv s \<and> ipcheld s"

lemma shrunk_refl [simp]: "shrunk s s" by (simp add: shrunk_def)

lemma kept_refl [simp]: "kept rank r s s" by (simp add: kept_def same_slot_def)

lemma shrunk_trans:
  assumes "shrunk s t" "shrunk t u"
  shows "shrunk s u"
proof -
  have "k_chunks u \<subseteq>\<^sub>m k_chunks s" using assms map_le_trans by (auto simp: shrunk_def)
  then show ?thesis using assms unfolding shrunk_def by (metis order_trans map_option_is_None)
qed

lemma shrunk_qrefs: "shrunk s s' \<Longrightarrow> set (qrefs (slot_queue s' j)) \<subseteq> set (qrefs (slot_queue s j))"
  unfolding shrunk_def qrefs_def by fastforce

lemma kept_trans: "kept rank r s t \<Longrightarrow> kept rank r t u \<Longrightarrow> kept rank r s u"
  by (simp add: kept_def same_slot_def)

lemma acyc_shrunk: "acyc rank s \<Longrightarrow> shrunk s s' \<Longrightarrow> acyc rank s'"
  unfolding acyc_def using shrunk_qrefs by blast

lemma outer_eqD:
  assumes "outer s' = outer s"
  shows "k_buckets s' = k_buckets s" "k_self s' = k_self s" "k_maxports s' = k_maxports s"
    "k_timers s' = k_timers s" "k_mcount s' = k_mcount s" "k_maxprocs s' = k_maxprocs s"
    "map_option core_proc (k_procs s' i) = map_option core_proc (k_procs s i)"
proof -
  have "F (outer s') = F (outer s)" for F :: "kstate \<Rightarrow> 'b" by (simp only: assms)
  from this [of k_buckets] this [of k_self] this [of k_maxports] this [of k_timers]
    this [of k_mcount] this [of k_maxprocs] this [of "\<lambda>s. k_procs s i"]
  show "k_buckets s' = k_buckets s" "k_self s' = k_self s" "k_maxports s' = k_maxports s"
    "k_timers s' = k_timers s" "k_mcount s' = k_mcount s" "k_maxprocs s' = k_maxprocs s"
    "map_option core_proc (k_procs s' i) = map_option core_proc (k_procs s i)"
    by (simp_all add: outer_def)
qed

lemma ipcheld_outer: "outer s' = outer s \<Longrightarrow> ipcheld s' = ipcheld s"
  using outer_eqD(1,2) [of s' s] by (simp add: ipcheld_iff ipcheld_one_def)

lemma outer_upd [simp]:
  "outer (set_port s a p) = outer s" "outer (s\<lparr>k_chunks := c\<rparr>) = outer s"
  "outer (s\<lparr>k_hangup_gen := x\<rparr>) = outer s" "outer (s\<lparr>k_portv := v\<rparr>) = outer s"
  "outer (s\<lparr>k_pheap := h\<rparr>) = outer s"
  by (simp_all add: outer_def core_def nosched_def set_port_def)

lemma port_at_core: "map_option core_port (port_at s j) = port_at (core s) j"
  by (cases "k_portv s j") (simp_all add: port_at_def)

lemma core_shrunk:
  assumes "core s' = core s"
  shows "shrunk s s'" and "kept rank r s s'"
proof -
  have "outer s' = outer s" using assms by (simp add: outer_def)
  moreover have "slot_queue s' j = slot_queue s j" for j using assms by (metis slot_queue_core)
  moreover have "total_refs s' = total_refs s" using assms by (metis total_refs_core)
  moreover have "map_option pt_idx (k_pheap s' a) = map_option pt_idx (k_pheap s a)" for a
    using core_eqD(9) [OF assms, of a]
    by (cases "k_pheap s a"; cases "k_pheap s' a") (auto dest: core_port_eqD(1))
  moreover have "k_chunks s' = k_chunks s" using core_eqD [OF assms] by simp
  ultimately show "shrunk s s'" by (simp add: shrunk_def)
  show "kept rank r s s'"
    using core_eqD(3) [OF assms] assms by (simp add: kept_def same_slot_def port_at_core)
qed

text \<open>The wait lists are the only part of a port the wake invariant sees.\<close>

lemma wake_inv_ports:
  assumes "wake_inv s" and "k_waits s' = k_waits s" "k_procs s' = k_procs s" "k_mcount s' = k_mcount s"
    "k_schedq s' = k_schedq s" "k_runq s' = k_runq s" "k_donq s' = k_donq s"
    "k_schedlock s' = k_schedlock s"
    and ports: "\<And>a p'. k_pheap s' a = Some p' \<Longrightarrow> \<exists>p. k_pheap s a = Some p \<and> pt_waiters p' = pt_waiters p"
  shows "wake_inv s'"
proof -
  have w: "waiting s' v i = waiting s v i" for v i by (simp add: waiting_def assms)
  have "port_waits_ok s'"
    unfolding port_waits_ok_def w assms(2)
  proof (intro allI impI)
    fix a p'
    assume "k_pheap s' a = Some p'"
    then obtain p where p: "k_pheap s a = Some p" and e: "pt_waiters p' = pt_waiters p"
      using ports by blast
    have wok: "waits_ok s" using assms(1) by (simp add: wake_inv_def)
    show "distinct (pt_waiters p') \<and> (\<forall>w. w \<in> set (pt_waiters p') \<longleftrightarrow>
        (\<exists>x. k_waits s w = Some x \<and> w_onport x \<and> w_port x = a \<and> waiting s w (w_proc x)))"
      unfolding e using waits_okD(1) [OF wok p] waits_okD(2) [OF wok p] by blast
  qed
  moreover have "proc_waits_ok s'" "claims_ok s'"
    using assms(1) by (simp_all add: wake_inv_def waits_ok_def proc_waits_ok_def wait_ok_def
        claims_ok_def assms(2-4))
  moreover have "rq_ok s'"
    using assms(1) rq_ok_cong [of s' s] by (simp add: wake_inv_def assms(3,5-7))
  ultimately show ?thesis using assms(1,8) by (simp add: wake_inv_def waits_ok_def)
qed

lemma wake_inv_set_port:
  assumes "wake_inv s" and "k_pheap s a = Some p" and "pt_waiters p' = pt_waiters p"
  shows "wake_inv (set_port s a p')"
  by (rule wake_inv_ports [OF assms(1)]) (use assms in \<open>auto split: if_splits\<close>)

lemma kinv_set_port:
  assumes "kinv G C s" and "k_pheap s a = Some p" and "pt_waiters p' = pt_waiters p"
    and "port_inv G' C' (set_port s a p')"
  shows "kinv G' C' (set_port s a p')"
  using assms wake_inv_set_port ipcheld_outer [OF outer_upd(1)] by (simp add: kinv_def)

section \<open>Chunks\<close>

lemma chunk_upd [simp]:
  "ptable_ok (s\<lparr>k_chunks := c\<rparr>) = ptable_ok s" "counts_ok G (s\<lparr>k_chunks := c\<rparr>) = counts_ok G s"
  "tables_ok (s\<lparr>k_chunks := c\<rparr>) = tables_ok s" "chunk_infl (s\<lparr>k_chunks := c\<rparr>) d = chunk_infl s d"
  "slot_queue (s\<lparr>k_chunks := c\<rparr>) j = slot_queue s j"
  by (simp_all add: ptable_ok_def counts_ok_def refs_of_def held_def infl_def timed_def slot_queue_def
      port_at_def tables_ok_def chunk_infl_def)

lemma chunk_free_ok:
  assumes inv: "port_inv G (\<lambda>d. C d + of_bool (d = c)) s"
  obtains m where "chunk_free c s = Inr (s\<lparr>k_chunks := m\<rparr>)" and "port_inv G C (s\<lparr>k_chunks := m\<rparr>)"
    and "m \<subseteq>\<^sub>m k_chunks s"
proof -
  have ck: "chunk_infl s d + (C d + of_bool (d = c)) = (if k_chunks s d = None then 0 else 1)" for d
    using port_invD(3) [OF inv] by (simp add: chunks_ok_def)
  from ck [of c] have live: "k_chunks s c \<noteq> None" and z: "chunk_infl s c = 0" "C c = 0"
    by (auto split: if_splits)
  let ?m = "(k_chunks s)(c := None)"
  have "chunks_ok C (s\<lparr>k_chunks := ?m\<rparr>)"
    unfolding chunks_ok_def
  proof
    fix d
    show "chunk_infl (s\<lparr>k_chunks := ?m\<rparr>) d + C d
      = (if k_chunks (s\<lparr>k_chunks := ?m\<rparr>) d = None then 0 else 1)"
      using ck [of d] z by (cases "d = c") simp_all
  qed
  with inv have "port_inv G C (s\<lparr>k_chunks := ?m\<rparr>)" by (simp add: port_inv_def)
  moreover have "chunk_free c s = Inr (s\<lparr>k_chunks := ?m\<rparr>)"
    using live by (auto simp: chunk_free_def)
  moreover have "?m \<subseteq>\<^sub>m k_chunks s" by (auto simp: map_le_def)
  ultimately show ?thesis using that by blast
qed

lemma msgbufs_free_ok:
  assumes "port_inv G (\<lambda>c. C c + count_list (map fst b) (Some c)) s"
  shows "\<exists>m. msgbufs_free b s = Inr (s\<lparr>k_chunks := m\<rparr>) \<and> port_inv G C (s\<lparr>k_chunks := m\<rparr>) \<and> m \<subseteq>\<^sub>m k_chunks s"
  using assms
proof (induction b s rule: msgbufs_free.induct)
  case (1 s)
  then show ?case by (intro exI [of _ "k_chunks s"]) simp
next
  case (2 n b s)
  then show ?case by simp
next
  case (3 c n b s)
  have "(\<lambda>d. C d + count_list (map fst ((Some c, n) # b)) (Some d))
      = (\<lambda>d. (C d + count_list (map fst b) (Some d)) + of_bool (d = c))" by auto
  with 3(2) have "port_inv G (\<lambda>d. (C d + count_list (map fst b) (Some d)) + of_bool (d = c)) s"
    by simp
  then obtain m where m: "chunk_free c s = Inr (s\<lparr>k_chunks := m\<rparr>)"
    "port_inv G (\<lambda>d. C d + count_list (map fst b) (Some d)) (s\<lparr>k_chunks := m\<rparr>)" "m \<subseteq>\<^sub>m k_chunks s"
    by (rule chunk_free_ok)
  from 3(1) [OF m(1,2)] obtain m' where
    "msgbufs_free b (s\<lparr>k_chunks := m\<rparr>) = Inr (s\<lparr>k_chunks := m, k_chunks := m'\<rparr>)"
    "port_inv G C (s\<lparr>k_chunks := m, k_chunks := m'\<rparr>)" "m' \<subseteq>\<^sub>m m" by auto
  with m(1,3) show ?case using map_le_trans by auto
qed

lemma kinv_chunks:
  assumes "kinv G C s" and "port_inv G' C' (s\<lparr>k_chunks := m\<rparr>)"
  shows "kinv G' C' (s\<lparr>k_chunks := m\<rparr>)"
proof -
  have "wake_inv (s\<lparr>k_chunks := m\<rparr>)"
    by (rule wake_inv_ports [of s]) (use assms(1) in \<open>auto simp: kinv_def\<close>)
  with assms show ?thesis using ipcheld_outer [OF outer_upd(2)] by (simp add: kinv_def)
qed

lemma chunks_shrunk:
  "m \<subseteq>\<^sub>m k_chunks s \<Longrightarrow> shrunk s (s\<lparr>k_chunks := m\<rparr>)" "kept rank r s (s\<lparr>k_chunks := m\<rparr>)"
  by (simp_all add: shrunk_def kept_def same_slot_def total_refs_def refs_at_def port_at_def)

section \<open>The contract of a reference drop\<close>

text \<open>A reference in the code's hands is to a live port.\<close>

lemma owned_live:
  assumes "port_inv G C s" and "0 < G (i, b)"
  obtains a p where "k_portv s i = Some a" and "k_pheap s a = Some p" and "pt_idx p = i"
proof -
  have "k_portv s i \<noteq> None" using counts_okD(3) [OF port_invD(2) [OF assms(1)], of i b] assms(2) by auto
  then show ?thesis using that ptable_okD(3) [OF port_invD(1) [OF assms(1)]] by blast
qed

definition drop1 :: "owned \<Rightarrow> nat \<times> bool \<Rightarrow> owned" where
  "drop1 G x = G(x := G x - 1)"

text \<open>
  What the flush needs of the function that drops one plain reference the code has: with fewer
  than \<open>n\<close> rights in flight it returns, the reference is gone from the code's hands, and ports
  above the dropped one, or beside it, are as they were.
\<close>

locale unref_ok =
  fixes unref :: "addr \<Rightarrow> kstate \<Rightarrow> fault + kstate" and rank :: "nat \<Rightarrow> nat" and n :: nat
  assumes unref: "kinv G C s \<Longrightarrow> acyc rank s \<Longrightarrow> k_pheap s a = Some p \<Longrightarrow> 0 < G (pt_idx p, False) \<Longrightarrow>
    total_refs s < n \<Longrightarrow>
    \<exists>s'. unref a s = Inr s' \<and> kinv (drop1 G (pt_idx p, False)) C s' \<and> shrunk s s'
       \<and> (\<forall>j. j \<noteq> pt_idx p \<longrightarrow> rank (pt_idx p) \<le> rank j \<longrightarrow> same_slot s s' j)"
begin

lemma release_one:
  assumes inv: "kinv G C s" and ac: "acyc rank s" and G: "0 < G (i, b)" and r: "rank i < r"
    and n: "total_refs s < n"
  shows "\<exists>a t s'. k_portv s i = Some a \<and> (if b then bnd (get_port s a)
      (\<lambda>p. Inr (set_port s a (p\<lparr>pt_nrecv := pt_nrecv p - 1\<rparr>))) else Inr s) = Inr t
    \<and> unref a t = Inr s' \<and> kinv (drop1 G (i, b)) C s' \<and> shrunk s s' \<and> kept rank r s s'"
proof -
  obtain a p where v: "k_portv s i = Some a" and p: "k_pheap s a = Some p" and i: "pt_idx p = i"
    using owned_live [of G C s i b] inv G by (auto simp: kinv_def)
  define p1 where "p1 = (if b then p\<lparr>pt_nrecv := pt_nrecv p - 1\<rparr> else p)"
  define G1 where "G1 = (if b then G((i, True) := G (i, True) - 1, (i, False) := G (i, False) + 1) else G)"
  define t where "t = set_port s a p1"
  have pinv: "port_inv G C s" using inv by (simp add: kinv_def)
  have p1: "pt_idx p1 = i" "pt_queue p1 = pt_queue p" "pt_waiters p1 = pt_waiters p"
    using i by (simp_all add: p1_def)
  have "port_inv G1 C t"
    unfolding t_def
    by (rule port_inv_set_port [OF pinv p])
      (use G i port_invD(5) [OF pinv p] in \<open>auto simp: p1_def G1_def queue_ok_def\<close>)
  then have kt: "kinv G1 C t"
    unfolding t_def by (rule kinv_set_port [OF inv p p1(3)])
  have pt: "k_pheap t a = Some p1" and vt: "k_portv t = k_portv s" by (simp_all add: t_def)
  have at: "port_at t = (port_at s)(i := Some p1)" "port_at s i = Some p"
    using port_at_set_port [OF port_invD(1) [OF pinv] p] port_at_heap [OF port_invD(1) [OF pinv] p]
      p1(1) i by (simp_all add: t_def)
  have q: "slot_queue t j = slot_queue s j" for j using at p1(2) by (simp add: slot_queue_def)
  have tot: "total_refs t = total_refs s"
    unfolding t_def by (rule total_refs_same [OF port_invD(1) [OF pinv] p]) (use p1 i in auto)
  have st: "shrunk s t" using q tot p p1(1) i by (auto simp: shrunk_def t_def)
  have "0 < G1 (i, False)" using G by (cases b) (simp_all add: G1_def)
  then obtain s' where s': "unref a t = Inr s'" "kinv (drop1 G1 (i, False)) C s'" "shrunk t s'"
    "\<forall>j. j \<noteq> i \<longrightarrow> rank i \<le> rank j \<longrightarrow> same_slot t s' j"
    using unref [OF kt acyc_shrunk [OF ac st] pt, unfolded p1(1)] n tot by auto
  have "drop1 G1 (i, False) = drop1 G (i, b)"
    using G by (auto simp: drop1_def G1_def fun_eq_iff)
  moreover have "kept rank r s s'"
    unfolding kept_def
  proof (intro allI impI)
    fix j
    assume "r \<le> rank j"
    then have "j \<noteq> i" "rank i \<le> rank j" using r by auto
    with s'(4) at show "same_slot s s' j" by (auto simp: same_slot_def vt)
  qed
  moreover have "(if b then bnd (get_port s a)
      (\<lambda>p. Inr (set_port s a (p\<lparr>pt_nrecv := pt_nrecv p - 1\<rparr>))) else Inr s) = Inr t"
  proof (cases b)
    case False
    then have "t = s" using p by (simp add: t_def p1_def set_port_def fun_upd_idem)
    with False show ?thesis by simp
  qed (use p in \<open>simp add: get_Some t_def p1_def\<close>)
  ultimately show ?thesis using v s' shrunk_trans [OF st s'(3)] by auto
qed

lemma release_ok:
  assumes "kinv (\<lambda>x. G x + count_list refs x) C s" and "acyc rank s"
    and "\<forall>x\<in>set refs. rank (fst x) < r" and "total_refs s < n"
  shows "\<exists>s'. release_inflight_with unref refs s = Inr s' \<and> kinv G C s' \<and> shrunk s s' \<and> kept rank r s s'"
  using assms
proof (induction refs arbitrary: s)
  case Nil
  then show ?case by simp
next
  case (Cons x refs)
  obtain i b where x: "x = (i, b)" by fastforce
  let ?G = "\<lambda>y. G y + count_list (x # refs) y"
  obtain a t u where u: "k_portv s i = Some a" "(if b then bnd (get_port s a)
      (\<lambda>p. Inr (set_port s a (p\<lparr>pt_nrecv := pt_nrecv p - 1\<rparr>))) else Inr s) = Inr t"
    "unref a t = Inr u" "kinv (drop1 ?G (i, b)) C u" "shrunk s u" "kept rank r s u"
    using release_one [OF Cons.prems(1,2), of i b r] Cons.prems(3,4) x by auto
  have "drop1 ?G (i, b) = (\<lambda>y. G y + count_list refs y)"
    by (auto simp: drop1_def x fun_eq_iff)
  moreover have "total_refs u < n" using u(5) Cons.prems(4) by (simp add: shrunk_def)
  ultimately obtain s' where s': "release_inflight_with unref refs u = Inr s'" "kinv G C s'"
    "shrunk u s'" "kept rank r u s'"
    using Cons.IH [of u] u acyc_shrunk [OF Cons.prems(2) u(5)] Cons.prems(3) by auto
  have "release_inflight_with unref (x # refs) s = Inr s'"
    using u(1,3) s'(1) by (simp add: x u(2) split del: if_split)
  with s'(2) show ?case using shrunk_trans [OF u(5) s'(3)] kept_trans [OF u(6) s'(4)] by auto
qed

lemma msg_free_ok:
  assumes inv: "kinv (\<lambda>x. G x + count_list (m_refs m) x)
      (\<lambda>c. C c + count_list (map fst (m_bufs m)) (Some c)) s" and ac: "acyc rank s"
    and r: "\<forall>x\<in>set (m_refs m). rank (fst x) < r" and n: "total_refs s < n \<or> m_refs m = []"
  shows "\<exists>s'. msg_free_by unref m s = Inr s' \<and> kinv G C s' \<and> shrunk s s' \<and> kept rank r s s'"
proof -
  let ?C = "\<lambda>c. C c + count_list (map fst (m_bufs m)) (Some c)"
  have "ipcheld s" using inv by (simp add: kinv_def)
  then obtain t where t: "release_inflight_by unref (m_refs m) s = Inr t" "kinv G ?C t"
    "shrunk s t" "kept rank r s t"
    using release_ok [OF inv ac r] n inv
    by (cases "m_refs m = []") (auto simp: release_inflight_by_def ipc_assert_locked_def)
  from t(2) have "port_inv G ?C t" by (simp add: kinv_def)
  from msgbufs_free_ok [OF this] obtain k where
    k: "msgbufs_free (m_bufs m) t = Inr (t\<lparr>k_chunks := k\<rparr>)" "port_inv G C (t\<lparr>k_chunks := k\<rparr>)" "k \<subseteq>\<^sub>m k_chunks t" by blast
  have "kinv G C (t\<lparr>k_chunks := k\<rparr>)" by (rule kinv_chunks [OF t(2) k(2)])
  then show ?thesis
    using t(1) k(1) shrunk_trans [OF t(3) chunks_shrunk(1) [OF k(3)]] kept_trans [OF t(4) chunks_shrunk(2)]
    by (auto simp: msg_free_by_def)
qed

lemma msgs_free_ok:
  assumes "kinv (\<lambda>x. G x + count_list (qrefs q) x) (\<lambda>c. C c + count_list (qchunks q) (Some c)) s"
    and "acyc rank s" and "\<forall>x\<in>set (qrefs q). rank (fst x) < r"
    and "total_refs s < n \<or> qrefs q = []"
  shows "\<exists>s'. msgs_free_by unref q s = Inr s' \<and> kinv G C s' \<and> shrunk s s' \<and> kept rank r s s'"
  using assms
proof (induction q arbitrary: s)
  case Nil
  then show ?case by (simp add: qrefs_def qchunks_def)
next
  case (Cons m q)
  let ?G = "\<lambda>x. G x + count_list (qrefs q) x" and ?C = "\<lambda>c. C c + count_list (qchunks q) (Some c)"
  have "kinv (\<lambda>x. ?G x + count_list (m_refs m) x) (\<lambda>c. ?C c + count_list (map fst (m_bufs m)) (Some c)) s"
    using Cons.prems(1) by (simp add: qrefs_def qchunks_def ac_simps)
  from msg_free_ok [OF this Cons.prems(2), of r] obtain t where
    t: "msg_free_by unref m s = Inr t" "kinv ?G ?C t" "shrunk s t" "kept rank r s t"
    using Cons.prems(3,4) by (auto simp: qrefs_def)
  have "total_refs t < n \<or> qrefs q = []"
    using t(3) Cons.prems(4) by (auto simp: shrunk_def qrefs_def)
  from Cons.IH [OF t(2) acyc_shrunk [OF Cons.prems(2) t(3)] _ this] obtain s' where
    s': "msgs_free_by unref q t = Inr s'" "kinv G C s'" "shrunk t s'" "kept rank r t s'"
    using Cons.prems(3) by (auto simp: qrefs_def)
  then show ?case using t(1) shrunk_trans [OF t(3) s'(3)] kept_trans [OF t(4) s'(4)] by auto
qed

lemma flush_ok:
  assumes inv: "kinv G C s" and ac: "acyc rank s" and p: "k_pheap s a = Some p"
    and n: "total_refs s \<le> n"
  shows "\<exists>s' p'. port_flush_by unref a (set_port s a (p\<lparr>pt_dead := d\<rparr>)) = Inr s' \<and> kinv G C s'
    \<and> shrunk s s' \<and> (\<forall>j. j \<noteq> pt_idx p \<longrightarrow> rank (pt_idx p) \<le> rank j \<longrightarrow> same_slot s s' j)
    \<and> k_portv s' (pt_idx p) = Some a \<and> k_pheap s' a = Some p'
    \<and> core_port p' = core_port (p\<lparr>pt_dead := d, pt_queue := [], pt_qbytes := 0\<rparr>)"
proof -
  have pinv: "port_inv G C s" using inv by (simp add: kinv_def)
  note pt = port_invD(1) [OF pinv]
  let ?q = "pt_queue p"
  define p1 where "p1 = p\<lparr>pt_dead := d, pt_queue := [], pt_qbytes := 0\<rparr>"
  define t where "t = set_port s a p1"
  let ?G = "\<lambda>x. G x + count_list (qrefs ?q) x" and ?C = "\<lambda>c. C c + count_list (qchunks ?q) (Some c)"
  have "port_inv ?G ?C t"
    unfolding t_def by (rule port_inv_set_port [OF pinv p])
      (simp_all add: p1_def qrefs_def qchunks_def queue_ok_def)
  then have kt: "kinv ?G ?C t"
    unfolding t_def by (rule kinv_set_port [OF inv p, rotated]) (simp add: p1_def)
  have at: "port_at t = (port_at s)(pt_idx p := Some p1)" and vt: "k_portv t = k_portv s"
    using port_at_set_port [OF pt p, of p1] by (simp_all add: t_def p1_def)
  have sq: "slot_queue t = (slot_queue s)(pt_idx p := [])" "slot_queue s (pt_idx p) = ?q"
    using slot_queue_set_port [OF pt p, of p1] by (simp_all add: t_def p1_def)
  have tot: "total_refs t + length (qrefs ?q) = total_refs s"
    using total_refs_set_port [OF pt p, of p1]
    by (simp add: t_def p1_def queue_refs_def qrefs_def length_concat comp_def)
  have st: "shrunk s t"
    using tot p sq by (auto simp: shrunk_def t_def p1_def qrefs_def)
  have "total_refs t < n \<or> qrefs ?q = []" using tot n by (cases "qrefs ?q") auto
  moreover have "\<forall>x\<in>set (qrefs ?q). rank (fst x) < rank (pt_idx p)"
    using ac sq(2) unfolding acyc_def by metis
  ultimately obtain s' where s': "msgs_free_by unref ?q t = Inr s'" "kinv G C s'" "shrunk t s'"
    "kept rank (rank (pt_idx p)) t s'"
    using msgs_free_ok [OF kt acyc_shrunk [OF ac st]] by blast
  have slot: "same_slot t s' j" if "rank (pt_idx p) \<le> rank j" for j
    using s'(4) that by (simp add: kept_def)
  have "k_portv s' (pt_idx p) = Some a"
    using slot [of "pt_idx p"] ptable_okD(1) [OF pt p] by (simp add: same_slot_def vt)
  moreover have "map_option core_port (port_at s' (pt_idx p)) = Some (core_port p1)"
    using slot [of "pt_idx p"] at by (simp add: same_slot_def)
  ultimately obtain p' where "k_portv s' (pt_idx p) = Some a" "k_pheap s' a = Some p'"
    "core_port p' = core_port p1"
    by (auto simp: port_at_def)
  moreover have "port_flush_by unref a (set_port s a (p\<lparr>pt_dead := d\<rparr>)) = Inr s'"
    using s'(1) by (simp add: port_flush_by_def get_Some t_def p1_def set_port_def)
  moreover have "same_slot s s' j" if "j \<noteq> pt_idx p" "rank (pt_idx p) \<le> rank j" for j
    using slot [OF that(2)] that(1) at by (simp add: same_slot_def vt)
  ultimately show ?thesis using s'(2) shrunk_trans [OF st s'(3)] p1_def by auto
qed

end

section \<open>The two ends of a drop\<close>

lemma hangup_gen_inv [simp]:
  "port_inv G C (s\<lparr>k_hangup_gen := x\<rparr>) = port_inv G C s"
proof -
  have [simp]: "slot_queue (s\<lparr>k_hangup_gen := x\<rparr>) = slot_queue s"
    by (simp add: slot_queue_def port_at_def fun_eq_iff)
  have [simp]: "infl (s\<lparr>k_hangup_gen := x\<rparr>) = infl s" "held (s\<lparr>k_hangup_gen := x\<rparr>) = held s"
    "timed (s\<lparr>k_hangup_gen := x\<rparr>) = timed s" "chunk_infl (s\<lparr>k_hangup_gen := x\<rparr>) = chunk_infl s"
    by (simp_all add: infl_def held_def timed_def chunk_infl_def fun_eq_iff)
  show ?thesis
    by (simp add: port_inv_def counts_ok_def refs_of_def chunks_ok_def tables_ok_def)
qed

lemma hangup_ok:
  assumes inv: "kinv G C s" and p: "k_pheap s a = Some p"
  shows "\<exists>s'. port_hangup a s = Inr s' \<and> kinv G C s' \<and> shrunk s s' \<and> (\<forall>j. same_slot s s' j)
    \<and> (\<forall>p' w send. k_pheap s' a = Some p' \<longrightarrow> w \<in> set (pt_waiters p') \<longrightarrow> \<not> asleep send s' w)"
proof -
  let ?s = "s\<lparr>k_hangup_gen := k_hangup_gen s + 1\<rparr>"
  have w0: "wake_inv ?s"
    by (rule wake_inv_ports [of s]) (use inv in \<open>auto simp: kinv_def\<close>)
  have h0: "ipcheld ?s" using inv ipcheld_outer [OF outer_upd(3)] by (simp add: kinv_def)
  have p0: "k_pheap ?s a = Some p" using p by simp
  obtain t where t: "wake_receivers a ?s = Inr t" "wakes False a (set (pt_waiters p)) ?s t"
    using wake_receivers_ok [OF w0 p0 ipcheld_port [OF h0]] by auto
  then have ct: "core t = core ?s" and wt: "wake_inv t" by (auto simp: wakes_def)
  then obtain q where q: "k_pheap t a = Some q" "set (pt_waiters q) \<subseteq> set (pt_waiters p)"
    "\<forall>w\<in>set (pt_waiters p) \<inter> set (pt_waiters q). \<not> asleep False t w"
    using t(2) p0 unfolding wakes_def by blast
  have ht: "ipcheld t" using h0 core_ipcheld [OF ct] by simp
  obtain s' where s': "wake_senders a t = Inr s'" "wakes True a (set (pt_waiters q)) t s'"
    using wake_senders_ok [OF wt q(1) ipcheld_port [OF ht]] by auto
  then have cs: "core s' = core ?s" and ws: "wake_inv s'" using ct by (auto simp: wakes_def)
  have "port_hangup a s = Inr s'" using t(1) s'(1) by (simp add: port_hangup_def)
  moreover have "kinv G C s'"
    using port_inv_core_eq [OF cs] inv ws h0 core_ipcheld [OF cs] by (simp add: kinv_def)
  moreover have "shrunk s ?s" "same_slot s ?s j" for j
    by (simp_all add: shrunk_def same_slot_def slot_queue_def port_at_def)
  then have "shrunk s s'" "same_slot s s' j" for j
    using core_shrunk [OF cs] shrunk_trans [of s ?s s'] by (auto simp: kept_def same_slot_def)
  moreover have "\<not> asleep send s' w" if "k_pheap s' a = Some p'" "w \<in> set (pt_waiters p')" for p' w send
  proof -
    have sub: "set (pt_waiters p') \<subseteq> set (pt_waiters q)"
      and no: "\<forall>w\<in>set (pt_waiters q) \<inter> set (pt_waiters p'). \<not> asleep True s' w"
      using s'(2) q(1) that(1) unfolding wakes_def by auto
    moreover have "asleep False s' w \<Longrightarrow> asleep False t w" using s'(2) by (simp add: wakes_def)
    ultimately show ?thesis using that(2) q(2,3) by (cases send) auto
  qed
  ultimately show ?thesis by blast
qed

lemma free_ok:
  assumes inv: "kinv G C s" and p: "k_pheap s a = Some p" and z: "pt_nrights p \<le> 0"
    and q: "pt_queue p = []"
  shows "\<exists>s'. port_free a s = Inr s' \<and> kinv G C s' \<and> shrunk s s'
    \<and> (\<forall>j. j \<noteq> pt_idx p \<longrightarrow> same_slot s s' j) \<and> k_pheap s' a = None"
proof -
  let ?i = "pt_idx p"
  have pinv: "port_inv G C s" using inv by (simp add: kinv_def)
  note pt = port_invD(1) [OF pinv] and D = port_invD [OF pinv]
  note cD = counts_okD [OF D(2)]
  have v: "k_portv s ?i = Some a" using ptable_okD(1) [OF pt p] .
  have zero: "held s a r = 0" "infl s (?i, r) = 0" "G (?i, r) = 0" "timed s a = 0" for r
    using cD(2) [OF v p] z by (cases r; simp add: refs_of_def)+
  define s' where "s' = s\<lparr>k_portv := (k_portv s)(?i := None), k_pheap := (k_pheap s)(a := None)\<rparr>"
  have r: "port_free a s = Inr s'" using p by (simp add: port_free_def get_Some s'_def)
  note f = port_at_free [OF pt r p]
  have sq: "slot_queue s' j = slot_queue s j" for j
    using q port_at_heap [OF pt p] by (simp add: slot_queue_def f(2))
  have cnt: "infl s' x = infl s x" "held s' b t = held s b t" "timed s' b = timed s b"
    "chunk_infl s' c = chunk_infl s c" for x b t c
    by (simp_all add: infl_def chunk_infl_def held_def timed_def sq f(3)) (simp_all add: s'_def)
  have sel: "k_portv s' = (k_portv s)(?i := None)" "k_pheap s' = (k_pheap s)(a := None)"
    by (simp_all add: s'_def)
  have "counts_ok G s'"
    unfolding counts_ok_def
  proof (intro conjI allI impI)
    fix j b t
    assume "k_portv s' j = Some b" "k_pheap s' b = Some t"
    then have "k_portv s j = Some b" "k_pheap s b = Some t" by (auto simp: s'_def split: if_splits)
    then show "pt_nrecv t = int (refs_of G s' j b True)"
      and "pt_nrights t = int (refs_of G s' j b True + refs_of G s' j b False + timed s' b)"
      using cD(1,2) by (simp_all only: refs_of_def cnt)
  next
    fix j t
    assume "k_portv s' j = None"
    then show "infl s' (j, t) = 0" and "G (j, t) = 0"
      using zero cD(3) [of j t] by (auto simp: sel cnt split: if_splits)
  next
    fix b t
    assume "k_pheap s' b = None"
    then show "held s' b t = 0" and "timed s' b = 0"
      using zero cD(4) [of b t] by (auto simp: sel cnt split: if_splits)
  qed
  moreover have "chunks_ok C s'" using D(3) by (simp add: chunks_ok_def cnt) (simp add: s'_def)
  moreover have "tables_ok s'" "\<forall>b t. k_pheap s' b = Some t \<longrightarrow> queue_ok t"
    using D(4) pinv by (auto simp: tables_ok_def port_inv_def s'_def)
  ultimately have "port_inv G C s'" using f(1) by (simp add: port_inv_def)
  moreover have "wake_inv s'"
    by (rule wake_inv_ports [of s]) (use inv in \<open>auto simp: kinv_def s'_def split: if_splits\<close>)
  moreover have o: "outer s' = outer s" by (simp add: s'_def)
  ultimately have "kinv G C s'" using inv ipcheld_outer [OF o] by (simp add: kinv_def)
  moreover have "total_refs s' = total_refs s"
    using q port_at_heap [OF pt p] f(3)
    by (auto simp: total_refs_def refs_at_def f(2) queue_refs_def intro!: sum.cong)
  then have "shrunk s s'" using o sq by (simp add: shrunk_def) (simp add: s'_def)
  moreover have "same_slot s s' j" if "j \<noteq> ?i" for j
    using that by (simp add: same_slot_def f(2)) (simp add: s'_def)
  ultimately show ?thesis using r by (auto simp: s'_def)
qed

section \<open>The contract holds\<close>

lemma nrights_dec:
  assumes inv: "kinv G C s" and p: "k_pheap s a = Some p" and G: "0 < G (pt_idx p, False)"
  shows "kinv (drop1 G (pt_idx p, False)) C (set_port s a (p\<lparr>pt_nrights := pt_nrights p - 1\<rparr>))"
proof (rule kinv_set_port [OF inv p])
  show "port_inv (drop1 G (pt_idx p, False)) C (set_port s a (p\<lparr>pt_nrights := pt_nrights p - 1\<rparr>))"
    by (rule port_inv_set_port [of G C, OF _ p])
      (use inv G port_invD(5) [of G C s, OF _ p] in \<open>auto simp: kinv_def drop1_def queue_ok_def\<close>)
qed simp

lemma unref_ok_step:
  assumes "unref_ok (port_unref_f n) rank n"
  shows "unref_ok (port_unref_f (Suc n)) rank (Suc n)"
proof
  fix G C s a p0
  assume inv0: "kinv G C s" and ac: "acyc rank s" and p0: "k_pheap s a = Some p0"
    and G: "0 < G (pt_idx p0, False)" and n: "total_refs s < Suc n"
  let ?i = "pt_idx p0" and ?G = "drop1 G (pt_idx p0, False)"
  define p where "p = p0\<lparr>pt_nrights := pt_nrights p0 - 1\<rparr>"
  define s1 where "s1 = set_port s a p"
  have inv: "kinv ?G C s1" unfolding s1_def p_def by (rule nrights_dec [OF inv0 p0 G])
  have p: "k_pheap s1 a = Some p" "pt_idx p = ?i" by (simp_all add: s1_def p_def)
  have pt: "ptable_ok s" using inv0 by (simp add: kinv_def port_inv_def)
  have at: "port_at s1 = (port_at s)(?i := Some p)" "port_at s ?i = Some p0"
    using port_at_set_port [OF pt p0, of p] port_at_heap [OF pt p0] by (simp_all add: s1_def p_def)
  have slot1: "same_slot s s1 j" if "j \<noteq> ?i" for j
    using that at by (simp add: same_slot_def s1_def)
  have sh1: "shrunk s s1"
    using total_refs_same [OF pt p0, of p] at p0 by (auto simp: shrunk_def s1_def p_def slot_queue_def)
  have tot: "total_refs s1 \<le> n" using sh1 n by (simp add: shrunk_def)
  note flush = unref_ok.flush_ok [OF assms inv acyc_shrunk [OF ac sh1] p(1) tot]
  have held: "ipc_assert_locked s = Inr ()" using inv0 by (simp add: kinv_def ipc_assert_locked_def)
  have eq: "port_unref_f (Suc n) a s = (if pt_nrights p \<le> 0
      then bnd (port_flush_by (port_unref_f n) a s1) (port_free a)
      else bnd (if pt_nrecv p = 0 \<and> \<not> pt_dead p
        then port_flush_by (port_unref_f n) a (set_port s1 a (p\<lparr>pt_dead := True\<rparr>))
        else Inr s1) (port_hangup a))"
    using p0 by (simp add: held get_Some Let_def p_def s1_def)
  have "\<exists>s'. port_unref_f (Suc n) a s = Inr s' \<and> kinv ?G C s' \<and> shrunk s1 s'
      \<and> (\<forall>j. j \<noteq> ?i \<longrightarrow> rank ?i \<le> rank j \<longrightarrow> same_slot s1 s' j)"
  proof (cases "pt_nrights p \<le> 0")
    case True
    have "set_port s1 a (p\<lparr>pt_dead := pt_dead p\<rparr>) = s1" using p(1) by (simp add: s1_def set_port_def)
    with flush [of "pt_dead p"] obtain t q where t: "port_flush_by (port_unref_f n) a s1 = Inr t"
      "kinv ?G C t" "shrunk s1 t" "\<forall>j. j \<noteq> ?i \<longrightarrow> rank ?i \<le> rank j \<longrightarrow> same_slot s1 t j"
      "k_pheap t a = Some q" "core_port q = core_port (p\<lparr>pt_queue := [], pt_qbytes := 0\<rparr>)"
      using p(2) by auto
    have "pt_nrights q \<le> 0" "pt_queue q = []" "pt_idx q = ?i"
      using core_port_eqD [OF t(6)] True p(2) by simp_all
    from free_ok [OF t(2,5) this(1,2)] this(3) obtain s' where s': "port_free a t = Inr s'"
      "kinv ?G C s'" "shrunk t s'" "\<forall>j. j \<noteq> ?i \<longrightarrow> same_slot t s' j" by auto
    have "port_unref_f (Suc n) a s = Inr s'" by (simp only: eq True if_True t(1) bnd_Inr s'(1))
    with s' t(4) show ?thesis
      using shrunk_trans [OF t(3) s'(3)] by (auto simp: same_slot_def)
  next
    case False
    obtain t q where t: "(if pt_nrecv p = 0 \<and> \<not> pt_dead p
        then port_flush_by (port_unref_f n) a (set_port s1 a (p\<lparr>pt_dead := True\<rparr>))
        else Inr s1) = Inr t" "kinv ?G C t" "shrunk s1 t"
      "\<forall>j. j \<noteq> ?i \<longrightarrow> rank ?i \<le> rank j \<longrightarrow> same_slot s1 t j" "k_pheap t a = Some q"
    proof (cases "pt_nrecv p = 0 \<and> \<not> pt_dead p")
      case True
      then show ?thesis using that flush [of True] p(2) by auto
    next
      case False
      then show ?thesis using that [of s1 p] inv p by (auto simp: same_slot_def)
    qed
    from hangup_ok [OF t(2,5)] obtain s' where s': "port_hangup a t = Inr s'" "kinv ?G C s'"
      "shrunk t s'" "\<forall>j. same_slot t s' j" by auto
    have "port_unref_f (Suc n) a s = Inr s'" by (simp only: eq False if_False t(1) bnd_Inr s'(1))
    with s' t(4) show ?thesis
      using shrunk_trans [OF t(3) s'(3)] by (auto simp: same_slot_def)
  qed
  then show "\<exists>s'. port_unref_f (Suc n) a s = Inr s' \<and> kinv ?G C s' \<and> shrunk s s'
      \<and> (\<forall>j. j \<noteq> ?i \<longrightarrow> rank ?i \<le> rank j \<longrightarrow> same_slot s s' j)"
    using slot1 shrunk_trans [OF sh1] by (auto simp: same_slot_def)
qed

lemma unref_ok_all: "unref_ok (port_unref_f n) rank n"
  by (induction n) (use unref_ok_step in \<open>auto simp: unref_ok_def\<close>)

interpretation uok: unref_ok "port_unref_f n" rank n for n rank
  by (rule unref_ok_all)

interpretation pu: unref_ok port_unref rank n for rank n
proof
  fix G C s a p
  assume "kinv G C s" "acyc rank s" "k_pheap s a = Some p" "0 < G (pt_idx p, False)"
  then show "\<exists>s'. port_unref a s = Inr s' \<and> kinv (drop1 G (pt_idx p, False)) C s' \<and> shrunk s s'
       \<and> (\<forall>j. j \<noteq> pt_idx p \<longrightarrow> rank (pt_idx p) \<le> rank j \<longrightarrow> same_slot s s' j)"
    unfolding port_unref_def by (intro uok.unref) simp_all
qed

lemma port_unref_ok:
  assumes "kinv G C s" and "acyc rank s" and "k_pheap s a = Some p" and "0 < G (pt_idx p, False)"
  shows "\<exists>s'. port_unref a s = Inr s' \<and> kinv (drop1 G (pt_idx p, False)) C s' \<and> shrunk s s'
       \<and> (\<forall>j. j \<noteq> pt_idx p \<longrightarrow> rank (pt_idx p) \<le> rank j \<longrightarrow> same_slot s s' j)"
  using pu.unref [OF assms] by blast

end
