(* ===== verification/Rights.thy ===== *)
theory Rights
  imports PortSafe
begin

text \<open>
  The handle table and message queues keep the ownership invariant: \<open>right_new\<close>, \<open>right_drop\<close>,
  \<open>grant_named\<close>, \<open>port_new\<close>, \<open>port_push_owned\<close>, \<open>port_push\<close>, \<open>port_pop\<close> and \<open>msg_dispose\<close> of
  \<open>src/src/port.c\<close>.
\<close>

section \<open>One handle table changes\<close>

text \<open>The handles of a proc that name something.\<close>

definition rtable :: "kproc \<Rightarrow> nat \<rightharpoonup> right" where
  "rtable p k = (case right_slot p (int k) of None \<Rightarrow> None | Some r \<Rightarrow> if r_used r then Some r else None)"

lemma rtable_Some: "rtable p k = Some r \<longleftrightarrow> right_slot p (int k) = Some r \<and> r_used r"
  by (auto simp: rtable_def split: option.splits)

lemma rtable_cong: "pr_rights p' = pr_rights p \<Longrightarrow> pr_xrights p' = pr_xrights p \<Longrightarrow> rtable p' = rtable p"
  by (simp add: rtable_def right_slot_def fun_eq_iff)

lemma right_slot_set_right:
  assumes "h < MAXRIGHTS" and "right_slot p (int h) \<noteq> None"
  shows "right_slot (set_right p h r) (int k) = (if k = h then Some r else right_slot p (int k))"
  using assms by (auto simp: right_slot_def set_right_def nat_diff_distrib split: option.splits if_splits)

definition right_matches :: "right \<Rightarrow> addr \<Rightarrow> bool \<Rightarrow> bool" where
  "right_matches r a recv \<longleftrightarrow> r_used r \<and> r_port r = a \<and> r_recv r = recv"

lemma right_is_matches: "right_slot p (int h) = Some r \<Longrightarrow> right_is p h a recv = right_matches r a recv"
  by (simp add: right_is_def right_matches_def)

lemma held_by_set_right:
  assumes "h < MAXRIGHTS" and "right_slot p (int h) = Some r"
  shows "held_by (set_right p h r') a b + of_bool (right_matches r a b)
    = held_by p a b + of_bool (right_matches r' a b)"
proof -
  have s: "right_slot (set_right p h r') (int k) = (if k = h then Some r' else right_slot p (int k))" for k
    by (rule right_slot_set_right) (use assms in auto)
  have "(\<Sum>k<MAXRIGHTS. of_bool (right_is (set_right p h r') k a b)) + of_bool (right_is p h a b)
    = (\<Sum>k<MAXRIGHTS. of_bool (right_is p k a b)) + (of_bool (right_is (set_right p h r') h a b) :: nat)"
    by (rule sum_one_change [OF assms(1)]) (simp add: right_is_def s)
  then show ?thesis
    using right_is_matches [OF assms(2)] right_is_matches [of "set_right p h r'" h r'] s
    by (simp add: held_by_def)
qed

lemma held_set_proc:
  assumes "k_procs s i = Some p" and "i < k_maxprocs s"
  shows "held (set_proc s i p') a r + held_by p a r = held s a r + held_by p' a r"
  using sum_one_change [OF assms(2),
      of "\<lambda>j. case k_procs (set_proc s i p') j of None \<Rightarrow> 0 | Some p \<Rightarrow> held_by p a r"
         "\<lambda>j. case k_procs s j of None \<Rightarrow> 0 | Some p \<Rightarrow> held_by p a r"] assms(1)
  by (simp add: held_def)

lemma set_proc_counts [simp]:
  "infl (set_proc s i p) x = infl s x" "chunk_infl (set_proc s i p) c = chunk_infl s c"
  "timed (set_proc s i p) a = timed s a" "slot_queue (set_proc s i p) j = slot_queue s j"
  "port_at (set_proc s i p) j = port_at s j" "ptable_ok (set_proc s i p) = ptable_ok s"
  "total_refs (set_proc s i p) = total_refs s"
  by (simp_all add: infl_def chunk_infl_def timed_def slot_queue_def port_at_def ptable_ok_def
      total_refs_def refs_at_def)

lemma port_inv_set_proc:
  assumes inv: "port_inv G C s" and p: "k_procs s i = Some p"
    and live: "\<And>j a r. k_portv s j = Some a \<Longrightarrow> G' (j, r) + held_by p' a r = G (j, r) + held_by p a r"
    and free: "\<And>j r. k_portv s j = None \<Longrightarrow> G' (j, r) = G (j, r)"
    and dead: "\<And>a r. k_pheap s a = None \<Longrightarrow> held_by p' a r = held_by p a r"
  shows "port_inv G' C (set_proc s i p')"
proof -
  note D = port_invD [OF inv]
  note cD = counts_okD [OF D(2)]
  let ?s = "set_proc s i p'"
  have i: "i < k_maxprocs s" using D(4) p by (auto simp: tables_ok_def)
  note h = held_set_proc [OF p i, of p']
  have "counts_ok G' ?s"
    unfolding counts_ok_def
  proof (intro conjI allI impI)
    fix j a q
    assume v: "k_portv ?s j = Some a" and q: "k_pheap ?s a = Some q"
    have "refs_of G' ?s j a r = refs_of G s j a r" for r
      using h [of a r] live [of j a r] v by (simp add: refs_of_def)
    then show "pt_nrecv q = int (refs_of G' ?s j a True)"
      and "pt_nrights q = int (refs_of G' ?s j a True + refs_of G' ?s j a False + timed ?s a)"
      using cD(1,2) [of j a q] v q by simp_all
  next
    fix a r
    assume a: "k_pheap ?s a = None"
    then show "held ?s a r = 0" and "timed ?s a = 0"
      using h [of a r] dead [of a r] cD(4) [of a r] by simp_all
  qed (use free cD(3) in simp_all)
  moreover have "tables_ok ?s" "chunks_ok C ?s"
    using D(3,4) i by (auto simp: tables_ok_def chunks_ok_def)
  ultimately show ?thesis using D(1) inv by (simp add: port_inv_def)
qed

text \<open>
  What a change to a proc must keep for the wake invariant: the scheduling fields, the list of
  waits, and the rights the waits rest on.
\<close>

definition same_waits :: "kproc \<Rightarrow> kproc \<Rightarrow> bool" where
  "same_waits p p' \<longleftrightarrow> pr_waiters p' = pr_waiters p \<and> pr_w0used p' = pr_w0used p
     \<and> pr_status p' = pr_status p \<and> pr_woken p' = pr_woken p \<and> pr_onq p' = pr_onq p
     \<and> pr_pri p' = pr_pri p \<and> pr_oncpu p' = pr_oncpu p
     \<and> (pr_waiters p \<noteq> [] \<longrightarrow> (\<forall>a. holds p a \<longrightarrow> holds p' a))"

lemma wake_inv_set_proc:
  assumes inv: "wake_inv s" and p: "k_procs s i = Some p" and w: "same_waits p p'"
  shows "wake_inv (set_proc s i p')"
proof -
  let ?s = "set_proc s i p'"
  have wok: "waits_ok s" using inv by (simp add: wake_inv_def)
  have wait: "waiting ?s v j = waiting s v j" for v j
    using p w by (auto simp: waiting_def same_waits_def)
  have "port_waits_ok ?s" using wok by (simp add: waits_ok_def port_waits_ok_def wait)
  moreover have "proc_waits_ok ?s"
    unfolding proc_waits_ok_def
  proof (intro allI impI conjI ballI)
    fix j q v
    assume q: "k_procs ?s j = Some q"
    then show "distinct (pr_waiters q)"
      using waits_okD(3) [OF wok] p w by (auto simp: same_waits_def split: if_splits)
    assume v: "v \<in> set (pr_waiters q)"
    show "wait_ok ?s j q v"
    proof (cases "j = i")
      case False
      then have "wait_ok s j q v" using waits_okD(4) [OF wok] q v by simp
      then show ?thesis by (simp add: wait_ok_def)
    next
      case True
      then have [simp]: "q = p'" using q by simp
      have "wait_ok s i p v" using waits_okD(4) [OF wok p] v w by (simp add: same_waits_def)
      moreover have "holds p a \<longrightarrow> holds p' a" for a using v w by (auto simp: same_waits_def)
      ultimately show ?thesis
        using record_ok_cong [of p' p] w True by (auto simp: wait_ok_def same_waits_def)
    qed
  qed
  moreover have "claims_ok ?s"
    using inv p w by (auto simp: wake_inv_def claims_ok_def same_waits_def)
  moreover have "rq_ok ?s"
    using inv p w by (intro rq_ok_set_proc) (auto simp: wake_inv_def same_waits_def)
  ultimately show ?thesis using inv by (simp add: wake_inv_def waits_ok_def)
qed

lemma outer_set_port_proc: "set_proc (set_port s a q) i p = set_port (set_proc s i p) a q"
  by (simp add: set_proc_def set_port_def)

section \<open>Dropping a right\<close>

lemma held_pos:
  assumes "port_inv G C s" and "k_procs s i = Some p" and "h < MAXRIGHTS"
    and "right_slot p (int h) = Some r" and "r_used r"
  shows "0 < held s (r_port r) (r_recv r)"
proof -
  have "i < k_maxprocs s" using port_invD(4) [OF assms(1)] assms(2) by (auto simp: tables_ok_def)
  then have "(case k_procs s i of None \<Rightarrow> 0 | Some p \<Rightarrow> held_by p (r_port r) (r_recv r))
      \<le> held s (r_port r) (r_recv r)"
    unfolding held_def by (rule sum_ge_one)
  moreover have "of_bool (right_is p h (r_port r) (r_recv r)) \<le> held_by p (r_port r) (r_recv r)"
    unfolding held_by_def using assms(3) by (rule sum_ge_one)
  ultimately show ?thesis using assms by (simp add: right_is_def)
qed

lemma right_live:
  assumes "port_inv G C s" and "k_procs s i = Some p" and "h < MAXRIGHTS"
    and "right_slot p (int h) = Some r" and "r_used r"
  obtains q where "k_pheap s (r_port r) = Some q" and "k_portv s (pt_idx q) = Some (r_port r)"
proof (cases "k_pheap s (r_port r)")
  case None
  then show ?thesis
    using counts_okD(4) [OF port_invD(2) [OF assms(1)] None, of "r_recv r"] held_pos [OF assms] by simp
next
  case (Some q)
  then show ?thesis using that ptable_okD(1) [OF port_invD(1) [OF assms(1)]] by blast
qed

text \<open>The table of a proc that has given up handle \<open>h\<close>.\<close>

definition right_cleared :: "kproc \<Rightarrow> nat \<Rightarrow> right \<Rightarrow> kproc" where
  "right_cleared p h r =
    (let p' = set_right p h (r\<lparr>r_used := False\<rparr>) in
     if r_recv r then p'\<lparr>pr_nports := (if pr_nports p' > 0 then pr_nports p' - 1 else pr_nports p')\<rparr> else p')"

lemma set_right_sel [simp]:
  "pr_waiters (set_right p h r) = pr_waiters p" "pr_w0used (set_right p h r) = pr_w0used p"
  "pr_status (set_right p h r) = pr_status p" "pr_woken (set_right p h r) = pr_woken p"
  "pr_onq (set_right p h r) = pr_onq p" "pr_pri (set_right p h r) = pr_pri p"
  "pr_oncpu (set_right p h r) = pr_oncpu p"
  by (simp_all add: set_right_def)

lemma right_cleared_waits: "pr_waiters p = [] \<Longrightarrow> same_waits p (right_cleared p h r)"
  by (simp add: same_waits_def right_cleared_def Let_def)

lemma held_by_cleared:
  assumes "h < MAXRIGHTS" and "right_slot p (int h) = Some r" and "r_used r"
  shows "held_by (right_cleared p h r) a b + of_bool (a = r_port r \<and> b = r_recv r) = held_by p a b"
proof -
  have "held_by (right_cleared p h r) a b = held_by (set_right p h (r\<lparr>r_used := False\<rparr>)) a b"
    by (rule held_by_cong) (simp_all add: right_cleared_def Let_def)
  moreover have "right_matches r a b \<longleftrightarrow> a = r_port r \<and> b = r_recv r"
    using assms(3) by (auto simp: right_matches_def)
  ultimately show ?thesis
    using held_by_set_right [OF assms(1,2), of "r\<lparr>r_used := False\<rparr>" a b]
    by (simp add: right_matches_def)
qed

lemma right_drop_ok:
  assumes inv: "kinv G C s" and ac: "acyc rank s" and p: "k_procs s i = Some p" and h: "h < MAXRIGHTS"
    and r: "right_slot p (int h) = Some r" and u: "r_used r" and w: "pr_waiters p = []"
  shows "\<exists>s'. right_drop i h s = Inr s' \<and> kinv G C s' \<and> shrunk (set_proc s i (right_cleared p h r)) s'"
proof -
  let ?a = "r_port r" and ?b = "r_recv r" and ?p = "right_cleared p h r"
  let ?s = "set_proc s i ?p"
  have pinv: "port_inv G C s" and win: "wake_inv s" and held: "ipcheld s" using inv by (auto simp: kinv_def)
  obtain q where q: "k_pheap s ?a = Some q" and v: "k_portv s (pt_idx q) = Some ?a"
    using right_live [OF pinv p h r u] .
  let ?j = "pt_idx q"
  define G1 where "G1 = G((?j, ?b) := G (?j, ?b) + 1)"
  have idx: "k_portv s j = Some ?a \<Longrightarrow> j = ?j" for j
    using ptable_okD(3) [OF port_invD(1) [OF pinv], of j ?a] q by auto
  note hc = held_by_cleared [OF h r u]
  have "port_inv G1 C ?s"
  proof (rule port_inv_set_proc [OF pinv p])
    show "G1 (j, t) + held_by ?p a t = G (j, t) + held_by p a t" if "k_portv s j = Some a" for j a t
    proof (cases "a = ?a")
      case True
      then have "j = ?j" using idx that by simp
      with True show ?thesis using hc [of a t] by (auto simp: G1_def)
    next
      case False
      then have "j \<noteq> ?j" using that v by auto
      with False show ?thesis using hc [of a t] by (simp add: G1_def)
    qed
    show "G1 (j, t) = G (j, t)" if "k_portv s j = None" for j t using that v by (auto simp: G1_def)
    show "held_by ?p a t = held_by p a t" if "k_pheap s a = None" for a t
    proof -
      have "a \<noteq> ?a" using that q by auto
      then show ?thesis using hc [of a t] by simp
    qed
  qed
  moreover have "wake_inv ?s" by (rule wake_inv_set_proc [OF win p right_cleared_waits [OF w]])
  moreover have "ipcheld ?s" using held by (simp add: ipcheld_iff ipcheld_one_def)
  ultimately have k: "kinv G1 C ?s" by (simp add: kinv_def)
  have ac': "acyc rank ?s" using ac by (simp add: acyc_def)
  have "0 < G1 (?j, ?b)" by (simp add: G1_def)
  from pu.release_one [OF k ac' this lessI lessI] v obtain t s' where
    t: "(if ?b then bnd (get_port ?s ?a) (\<lambda>p. Inr (set_port ?s ?a (p\<lparr>pt_nrecv := pt_nrecv p - 1\<rparr>)))
      else Inr ?s) = Inr t" "port_unref ?a t = Inr s'" "kinv (drop1 G1 (?j, ?b)) C s'" "shrunk ?s s'"
    by auto
  have "right_drop i h s = Inr s'"
    using held p r q t(1,2)
    by (cases ?b) (simp_all add: right_drop_def ipc_assert_locked_def get_Some Let_def right_cleared_def)
  moreover have "drop1 G1 (?j, ?b) = G" by (simp add: drop1_def G1_def)
  ultimately show ?thesis using t(3,4) by auto
qed

section \<open>Taking a right\<close>

lemma held_by_xrights:
  "pr_xrights p = None \<Longrightarrow> held_by (p\<lparr>pr_xrights := Some (\<lambda>_. right0)\<rparr>) a r = held_by p a r"
  by (simp add: held_by_def right_is_def right_slot_def right0_def cong: sum.cong)

lemma port_inv_mcount: "port_inv G C s \<Longrightarrow> port_inv G C (s\<lparr>k_mcount := Suc (k_mcount s)\<rparr>)"
proof -
  assume inv: "port_inv G C s"
  let ?s = "s\<lparr>k_mcount := Suc (k_mcount s)\<rparr>"
  have [simp]: "slot_queue ?s = slot_queue s" by (simp add: slot_queue_def port_at_def fun_eq_iff)
  have [simp]: "infl ?s = infl s" "held ?s = held s" "timed ?s = timed s" "chunk_infl ?s = chunk_infl s"
    by (simp_all add: infl_def held_def timed_def chunk_infl_def fun_eq_iff)
  have "counts_ok G ?s" "chunks_ok C ?s" "ptable_ok ?s"
    using inv by (simp_all add: port_inv_def counts_ok_def refs_of_def chunks_ok_def ptable_ok_def)
  moreover have "tables_ok ?s" using port_invD(4) [OF inv] by (auto simp: tables_ok_def intro: le_SucI)
  ultimately show ?thesis using inv by (simp add: port_inv_def)
qed

lemma record_ok_mono: "record_ok m i q w \<Longrightarrow> m \<le> m' \<Longrightarrow> record_ok m' i q w"
  by (cases w) auto

lemma wake_inv_mcount: "wake_inv s \<Longrightarrow> wake_inv (s\<lparr>k_mcount := Suc (k_mcount s)\<rparr>)"
proof -
  assume inv: "wake_inv s"
  let ?s = "s\<lparr>k_mcount := Suc (k_mcount s)\<rparr>"
  have "waiting ?s v j = waiting s v j" for v j by (simp add: waiting_def)
  then have "port_waits_ok ?s" using inv by (simp add: wake_inv_def waits_ok_def port_waits_ok_def)
  moreover have "wait_ok ?s i q w" if "wait_ok s i q w" for i q w
    using that record_ok_mono [of "k_mcount s" i q w "Suc (k_mcount s)"] by (simp add: wait_ok_def)
  then have "proc_waits_ok ?s" using inv by (simp add: wake_inv_def waits_ok_def proc_waits_ok_def)
  moreover have "rq_ok ?s" using inv rq_ok_cong [of ?s s] by (simp add: wake_inv_def)
  ultimately show ?thesis using inv by (simp add: wake_inv_def waits_ok_def claims_ok_def)
qed

definition pinv :: "owned \<Rightarrow> (addr \<Rightarrow> nat) \<Rightarrow> kstate \<Rightarrow> bool" where
  "pinv G C s \<longleftrightarrow> port_inv G C s \<and> wake_inv s"

lemma pinv_kinv: "kinv G C s \<longleftrightarrow> pinv G C s \<and> ipcheld s"
  by (auto simp: kinv_def pinv_def)

lemma kmalloc_inv: "kmalloc s = (c, s') \<Longrightarrow> pinv G C s \<Longrightarrow> pinv G C s'"
  using port_inv_mcount wake_inv_mcount by (auto simp: kmalloc_def pinv_def)

text \<open>
  Looking up a slot, growing the table if it must: the invariant is kept, and the slot that
  comes back is the proc's.
\<close>

lemma right_slot_grow_ok:
  assumes inv: "pinv G C s" and p: "k_procs s i = Some p" and g: "right_slot_grow p h s = (r, p', s')"
  shows "pinv G C (set_proc s' i p')" and "k_procs s' = k_procs s" and "k_pheap s' = k_pheap s"
    and "\<And>x. r = Some x \<Longrightarrow> h < MAXRIGHTS \<and> right_slot p' (int h) = Some x"
    and "\<And>x k. right_slot p (int k) = Some x \<Longrightarrow> right_slot p' (int k) = Some x"
    and "same_waits p p'" and "pr_rhint p' = pr_rhint p" and "rtable p' = rtable p"
proof -
  have s': "s' = s \<or> s' = s\<lparr>k_mcount := Suc (k_mcount s)\<rparr>"
    and p': "p' = p \<or> pr_xrights p = None \<and> p' = p\<lparr>pr_xrights := Some (\<lambda>_. right0)\<rparr>"
    using g by (auto simp: right_slot_grow_def kmalloc_def split: if_splits option.splits)
  have inv': "pinv G C s'"
    using s' inv port_inv_mcount wake_inv_mcount by (auto simp: pinv_def)
  show procs: "k_procs s' = k_procs s" and "k_pheap s' = k_pheap s" using s' by auto
  show sw: "same_waits p p'" and "pr_rhint p' = pr_rhint p"
    using p' held_by_xrights [of p]
    by (auto simp: same_waits_def holds_def names_def right_slot_def split: if_splits)
  have "held_by p' a t = held_by p a t" for a t using p' held_by_xrights by auto
  then show "pinv G C (set_proc s' i p')"
    using port_inv_set_proc [of G C s' i p G p'] wake_inv_set_proc [of s' i p p'] inv' procs p sw
    by (simp add: pinv_def)
  show "h < MAXRIGHTS \<and> right_slot p' (int h) = Some x" if "r = Some x" for x
    using g that by (auto simp: right_slot_grow_def right_slot_def kmalloc_def nat_diff_distrib
        split: if_splits option.splits)
  show "right_slot p' (int k) = Some x" if "right_slot p (int k) = Some x" for x k
    using that p' by (auto simp: right_slot_def split: if_splits)
  show "rtable p' = rtable p"
    using p' by (auto simp: rtable_def right_slot_def fun_eq_iff right0_def)
qed

lemma port_inv_cong:
  assumes "k_portv s' = k_portv s" "k_pheap s' = k_pheap s" "k_procs s' = k_procs s"
    "k_timers s' = k_timers s" "k_chunks s' = k_chunks s" "k_maxports s' = k_maxports s"
    "k_maxprocs s' = k_maxprocs s" "k_mcount s' = k_mcount s"
  shows "port_inv G C s' \<longleftrightarrow> port_inv G C s"
proof -
  have [simp]: "slot_queue s' = slot_queue s"
    by (simp add: slot_queue_def port_at_def fun_eq_iff assms)
  have [simp]: "infl s' = infl s" "held s' = held s" "timed s' = timed s" "chunk_infl s' = chunk_infl s"
    by (simp_all add: infl_def held_def timed_def chunk_infl_def fun_eq_iff assms)
  show ?thesis
    by (simp add: port_inv_def counts_ok_def refs_of_def chunks_ok_def ptable_ok_def tables_ok_def assms)
qed

lemma pinv_rights_high [simp]: "pinv G C (s\<lparr>k_rights_high := x\<rparr>) \<longleftrightarrow> pinv G C s"
proof -
  have "wake_inv s" if "wake_inv (s\<lparr>k_rights_high := x\<rparr>)"
    by (rule wake_inv_ports [OF that]) auto
  moreover have "wake_inv (s\<lparr>k_rights_high := x\<rparr>)" if "wake_inv s"
    by (rule wake_inv_ports [OF that]) auto
  ultimately show ?thesis
    using port_inv_cong [of "s\<lparr>k_rights_high := x\<rparr>" s] by (auto simp: pinv_def)
qed

abbreviation new_right :: "addr \<Rightarrow> bool \<Rightarrow> right" where
  "new_right a recv \<equiv> \<lparr>r_port = a, r_recv = recv, r_used = True\<rparr>"

lemma right_slot_fill:
  assumes "h < MAXRIGHTS" and "right_slot p (int h) \<noteq> None"
  shows "right_slot (right_fill p h a recv) (int k)
    = (if k = h then Some (new_right a recv) else right_slot p (int k))"
proof -
  have "right_slot (right_fill p h a recv) (int k) = right_slot (set_right p h (new_right a recv)) (int k)"
    by (simp add: right_fill_def Let_def right_slot_def)
  then show ?thesis using right_slot_set_right [OF assms] by simp
qed

lemma rtable_fill:
  assumes "h < MAXRIGHTS" and "right_slot p (int h) = Some r" and "\<not> r_used r"
  shows "rtable (right_fill p h a recv) = (rtable p)(h \<mapsto> new_right a recv)" "rtable p h = None"
  by (use right_slot_fill [of h p a recv] assms in \<open>auto simp: rtable_def fun_eq_iff\<close>)

lemma right_fill_waits:
  assumes "h < MAXRIGHTS" and "right_slot p (int h) = Some r" and "\<not> r_used r"
  shows "same_waits p (right_fill p h a recv)"
proof -
  have "names (right_fill p h a recv) k x" if "names p k x" for k x
    using that right_slot_fill [of h p a recv k] assms by (auto simp: names_def split: option.splits)
  then have "holds (right_fill p h a recv) x" if "holds p x" for x
    using that unfolding holds_def by blast
  then show ?thesis by (simp add: same_waits_def right_fill_def Let_def)
qed

lemma held_by_fill:
  assumes "h < MAXRIGHTS" and "right_slot p (int h) = Some r" and "\<not> r_used r"
  shows "held_by (right_fill p h a recv) x b = held_by p x b + of_bool (x = a \<and> b = recv)"
proof -
  have "held_by (right_fill p h a recv) x b = held_by (set_right p h (new_right a recv)) x b"
    by (rule held_by_cong) (simp_all add: right_fill_def Let_def)
  then show ?thesis
    using held_by_set_right [OF assms(1,2), of "new_right a recv" x b] assms(3)
    by (auto simp: right_matches_def)
qed

definition port_ref_inc :: "bool \<Rightarrow> kport \<Rightarrow> kport" where
  "port_ref_inc recv q = q\<lparr>pt_nrights := pt_nrights q + 1,
     pt_nrecv := (if recv then pt_nrecv q + 1 else pt_nrecv q)\<rparr>"

lemma right_fill_inv:
  assumes inv: "pinv G C s" and p: "k_procs s i = Some p" and q: "k_pheap s a = Some q"
    and h: "h < MAXRIGHTS" and r: "right_slot p (int h) = Some r" and u: "\<not> r_used r"
  shows "pinv G C (set_port (set_proc s i (right_fill p h a recv)) a (port_ref_inc recv q))"
proof -
  let ?p = "right_fill p h a recv" and ?q = "port_ref_inc recv q" and ?j = "pt_idx q"
  define G1 where "G1 = G((?j, recv) := G (?j, recv) + 1)"
  define t where "t = set_port s a ?q"
  have pi: "port_inv G C s" and wi: "wake_inv s" using inv by (auto simp: pinv_def)
  have v: "k_portv s ?j = Some a" using ptable_okD(1) [OF port_invD(1) [OF pi] q] .
  have idx: "k_portv s j = Some a \<Longrightarrow> j = ?j" for j
    using ptable_okD(3) [OF port_invD(1) [OF pi], of j a] q by auto
  have t: "port_inv G1 C t"
    unfolding t_def by (rule port_inv_set_port [OF pi q])
      (use port_invD(5) [OF pi q] in \<open>auto simp: port_ref_inc_def G1_def queue_ok_def\<close>)
  have pt: "k_procs t i = Some p" using p by (simp add: t_def)
  note hf = held_by_fill [OF h r u, of a recv]
  have "port_inv G C (set_proc t i ?p)"
  proof (rule port_inv_set_proc [OF t pt])
    fix j b t'
    assume "k_portv t j = Some b"
    then have vb: "k_portv s j = Some b" by (simp add: t_def)
    show "G (j, t') + held_by ?p b t' = G1 (j, t') + held_by p b t'"
    proof (cases "b = a")
      case True
      then show ?thesis using idx vb hf [of b t'] by (simp add: G1_def)
    next
      case False
      then have "j \<noteq> ?j" using vb v by auto
      with False show ?thesis using hf [of b t'] by (simp add: G1_def)
    qed
  next
    show "G (j, t') = G1 (j, t')" if "k_portv t j = None" for j t'
      using that v by (auto simp: G1_def t_def)
    show "held_by ?p b t' = held_by p b t'" if "k_pheap t b = None" for b t'
      using that hf [of b t'] by (auto simp: t_def split: if_splits)
  qed
  moreover have "wake_inv t"
    unfolding t_def by (rule wake_inv_set_port [OF wi q]) (simp add: port_ref_inc_def)
  then have "wake_inv (set_proc t i ?p)"
    by (rule wake_inv_set_proc [OF _ pt right_fill_waits [OF h r u]])
  ultimately show ?thesis by (simp add: pinv_def t_def outer_set_port_proc)
qed

text \<open>
  What \<open>right_new\<close> comes to: a handle that named nothing and now names the port, every other
  handle as it was, or no handle and nothing taken.
\<close>

definition took_right :: "nat \<Rightarrow> addr \<Rightarrow> bool \<Rightarrow> kproc \<Rightarrow> kproc \<Rightarrow> nat option \<Rightarrow> bool" where
  "took_right lo a recv p p' h \<longleftrightarrow> (case h of
     None \<Rightarrow> rtable p' = rtable p
   | Some h \<Rightarrow> lo \<le> h \<and> h < MAXRIGHTS \<and> rtable p h = None \<and> rtable p' = (rtable p)(h \<mapsto> new_right a recv)
       \<and> pr_rhint p' = h + 1)"

definition ports_kept :: "kstate \<Rightarrow> kstate \<Rightarrow> bool" where
  "ports_kept s s' \<longleftrightarrow> k_portv s' = k_portv s \<and> slot_queue s' = slot_queue s
     \<and> k_buckets s' = k_buckets s \<and> k_self s' = k_self s \<and> k_timers s' = k_timers s
     \<and> k_maxports s' = k_maxports s \<and> k_maxprocs s' = k_maxprocs s \<and> k_chunks s' = k_chunks s
     \<and> k_waits s' = k_waits s
     \<and> (\<forall>a. map_option (\<lambda>p. (pt_idx p, pt_dead p, pt_gen p, pt_queue p, pt_qbytes p, pt_waiters p)) (k_pheap s' a)
           = map_option (\<lambda>p. (pt_idx p, pt_dead p, pt_gen p, pt_queue p, pt_qbytes p, pt_waiters p)) (k_pheap s a))"

lemma ports_kept_port:
  "ports_kept s s' \<Longrightarrow> map_option (\<lambda>p. (pt_idx p, pt_dead p, pt_gen p, pt_queue p, pt_qbytes p, pt_waiters p)) (k_pheap s' a)
     = map_option (\<lambda>p. (pt_idx p, pt_dead p, pt_gen p, pt_queue p, pt_qbytes p, pt_waiters p)) (k_pheap s a)"
  unfolding ports_kept_def by blast

lemma ports_kept_trans: "ports_kept s t \<Longrightarrow> ports_kept t u \<Longrightarrow> ports_kept s u"
  by (simp add: ports_kept_def)

lemma slot_queue_cong:
  assumes "k_portv s' = k_portv s" and "\<And>a. map_option pt_queue (k_pheap s' a) = map_option pt_queue (k_pheap s a)"
  shows "slot_queue s' = slot_queue s"
proof
  fix j
  show "slot_queue s' j = slot_queue s j"
  proof (cases "k_portv s j")
    case (Some a)
    then show ?thesis
      using assms(1) assms(2) [of a] by (auto simp: slot_queue_def port_at_def split: option.splits)
  qed (simp add: slot_queue_def port_at_def assms(1))
qed

lemma right_new_from_ok:
  assumes "pinv G C s" and "k_procs s i = Some p" and "k_pheap s a = Some q"
  shows "\<exists>h s' p'. right_new_from [lo..<MAXRIGHTS] i a recv s = Inr (h, s') \<and> pinv G C s'
    \<and> k_procs s' = (k_procs s)(i \<mapsto> p') \<and> took_right lo a recv p p' h \<and> ports_kept s s'
    \<and> same_waits p p'"
  using assms
proof (induction "MAXRIGHTS - lo" arbitrary: lo s p)
  case 0
  then show ?case
    by (intro exI [of _ None] exI [of _ s] exI [of _ p])
      (auto simp: took_right_def ports_kept_def same_waits_def)
next
  case (Suc n)
  then have lo: "[lo..<MAXRIGHTS] = lo # [Suc lo..<MAXRIGHTS]" by (simp add: upt_conv_Cons)
  obtain r p1 s1 where g: "right_slot_grow p lo s = (r, p1, s1)" by (metis prod_cases3)
  note G = right_slot_grow_ok [OF Suc.prems(1,2) g]
  have pr: "k_procs (set_proc s1 i p1) = (k_procs s)(i \<mapsto> p1)" and ph: "k_pheap (set_proc s1 i p1) = k_pheap s"
    using G(2,3) by simp_all
  have kept: "ports_kept s (set_proc s1 i p1)"
    using g by (auto simp: ports_kept_def right_slot_grow_def kmalloc_def slot_queue_def port_at_def
        fun_eq_iff split: if_splits option.splits)
  note red = lo right_new_from.simps get_proc_Some [OF Suc.prems(2)] bnd_Inr g
  show ?case
  proof (cases r)
    case None
    have "took_right lo a recv p p1 None" using G(8) by (simp add: took_right_def)
    with None show ?thesis
      using G(1,6) pr kept by (intro exI [of _ None] exI [of _ "set_proc s1 i p1"] exI [of _ p1])
        (simp add: red)
  next
    case (Some x)
    note sl = G(4) [OF Some]
    show ?thesis
    proof (cases "r_used x")
      case True
      have "n = MAXRIGHTS - Suc lo" using Suc.hyps(2) by simp
      from Suc.hyps(1) [OF this G(1), of p1] ph Suc.prems(3) pr
      obtain h s' p' where h: "right_new_from [Suc lo..<MAXRIGHTS] i a recv (set_proc s1 i p1) = Inr (h, s')"
        "pinv G C s'" "k_procs s' = (k_procs (set_proc s1 i p1))(i \<mapsto> p')"
        "took_right (Suc lo) a recv p1 p' h" "ports_kept (set_proc s1 i p1) s'" "same_waits p1 p'"
        by auto
      have "took_right lo a recv p p' h"
        using h(4) G(8) by (auto simp: took_right_def split: option.splits)
      moreover have "same_waits p p'" using G(6) h(6) by (auto simp: same_waits_def)
      ultimately show ?thesis
        using h True Some G(2) ports_kept_trans [OF kept h(5)]
        by (intro exI [of _ h] exI [of _ s'] exI [of _ p']) (simp add: red)
    next
      case False
      define p2 where "p2 = right_fill p1 lo a recv"
      define s2 where "s2 = set_port (set_proc ((set_proc s1 i p1)\<lparr>k_rights_high :=
        max (lo + 1) (k_rights_high s1)\<rparr>) i p2) a (port_ref_inc recv q)"
      have inv2: "pinv G C s2"
        unfolding s2_def p2_def
        by (rule right_fill_inv) (use G(1) pr ph sl False Suc.prems(3) in simp_all)
      have res: "right_new_from [lo..<MAXRIGHTS] i a recv s = Inr (Some lo, s2)"
        using Some False Suc.prems(3) ph
        by (simp add: red Let_def get_Some s2_def p2_def port_ref_inc_def G(3))
      have "took_right lo a recv p p2 (Some lo)"
        using rtable_fill(1) [of lo p1 x a recv] rtable_fill(2) [of lo p1 x] sl G(8) False
        by (simp add: took_right_def p2_def) (simp add: right_fill_def Let_def)
      moreover have "ports_kept (set_proc s1 i p1) s2"
        unfolding ports_kept_def
      proof (intro conjI allI)
        show "slot_queue s2 = slot_queue (set_proc s1 i p1)"
          by (rule slot_queue_cong) (use Suc.prems(3) G(3) in \<open>auto simp: s2_def port_ref_inc_def\<close>)
      qed (use Suc.prems(3) G(3) in \<open>simp_all add: s2_def port_ref_inc_def\<close>)
      moreover have "same_waits p p2"
        using G(6) right_fill_waits [of lo p1 x a recv] sl False by (auto simp: same_waits_def p2_def)
      moreover have "k_procs s2 = (k_procs s)(i \<mapsto> p2)" using G(2) by (simp add: s2_def)
      ultimately show ?thesis
        using res inv2 ports_kept_trans [OF kept] by blast
    qed
  qed
qed

lemma right_new_ok:
  assumes "pinv G C s" and "k_procs s i = Some p" and "k_pheap s a = Some q"
  shows "\<exists>h s' p'. right_new i a recv s = Inr (h, s') \<and> pinv G C s'
    \<and> k_procs s' = (k_procs s)(i \<mapsto> p') \<and> took_right (pr_rhint p) a recv p p' h \<and> ports_kept s s'
    \<and> same_waits p p'"
  using right_new_from_ok [OF assms] assms(2) by (simp add: right_new_def get_Some)

end
