(* ===== verification/Msgs.thy ===== *)
theory Msgs
  imports Rights
begin

text \<open>
  Ports are made and messages queued, taken and disposed of without losing or doubling a
  reference: \<open>port_new\<close>, \<open>port_push_owned\<close>, \<open>port_push\<close>, \<open>port_pop\<close>, \<open>msg_dispose\<close> and
  \<open>release_inflight_locked\<close> of \<open>src/src/port.c\<close>.
\<close>

section \<open>Lock operations\<close>

lemma nolocks_sel:
  assumes "nolocks s' = nolocks s"
  shows "k_portv s' = k_portv s" "k_pheap s' = k_pheap s" "k_procs s' = k_procs s"
    "k_timers s' = k_timers s" "k_chunks s' = k_chunks s" "k_maxports s' = k_maxports s"
    "k_maxprocs s' = k_maxprocs s" "k_mcount s' = k_mcount s" "k_waits s' = k_waits s"
    "k_schedq s' = k_schedq s" "k_runq s' = k_runq s" "k_donq s' = k_donq s"
    "k_schedlock s' = k_schedlock s" "k_self s' = k_self s" "k_ticks s' = k_ticks s"
    "k_memok s' = k_memok s"
proof -
  have "F (nolocks s') = F (nolocks s)" for F :: "kstate \<Rightarrow> 'b" by (simp only: assms)
  note e = this
  show "k_portv s' = k_portv s" "k_pheap s' = k_pheap s" "k_procs s' = k_procs s"
    "k_timers s' = k_timers s" "k_chunks s' = k_chunks s" "k_maxports s' = k_maxports s"
    "k_maxprocs s' = k_maxprocs s" "k_mcount s' = k_mcount s" "k_waits s' = k_waits s"
    "k_schedq s' = k_schedq s" "k_runq s' = k_runq s" "k_donq s' = k_donq s"
    "k_schedlock s' = k_schedlock s" "k_self s' = k_self s" "k_ticks s' = k_ticks s"
    "k_memok s' = k_memok s"
    using e [of k_portv] e [of k_pheap] e [of k_procs] e [of k_timers] e [of k_chunks]
      e [of k_maxports] e [of k_maxprocs] e [of k_mcount] e [of k_waits] e [of k_schedq]
      e [of k_runq] e [of k_donq] e [of k_schedlock] e [of k_self] e [of k_ticks] e [of k_memok]
    by (simp_all add: nolocks_def)
qed

lemma pinv_nolocks: "nolocks s' = nolocks s \<Longrightarrow> pinv G C s \<Longrightarrow> pinv G C s'"
  using port_inv_cong [of s' s] wake_inv_ports [of s s'] nolocks_sel [of s' s] by (simp add: pinv_def)

lemma slots_nolocks:
  assumes "nolocks s' = nolocks s"
  shows "slot_queue s' = slot_queue s" "total_refs s' = total_refs s" "acyc rank s' = acyc rank s"
proof -
  note e = nolocks_sel [OF assms]
  show q: "slot_queue s' = slot_queue s" by (simp add: slot_queue_def port_at_def e fun_eq_iff)
  show "total_refs s' = total_refs s" by (simp add: total_refs_def refs_at_def port_at_def e)
  show "acyc rank s' = acyc rank s" by (simp add: acyc_def q)
qed

section \<open>A new port\<close>

lemma holds_live:
  assumes "port_inv G C s" and "k_procs s i = Some p" and "holds p a"
  shows "k_pheap s a \<noteq> None"
proof -
  from assms(3) obtain h r where "h < MAXRIGHTS" "right_slot p (int h) = Some r" "r_used r" "r_port r = a"
    by (auto simp: holds_def names_def split: option.splits)
  then show ?thesis using right_live [OF assms(1,2), of h r] by auto
qed

lemma port_install_sel [simp]:
  "k_portv (port_install i a s) = (k_portv s)(i \<mapsto> a)"
  "k_pheap (port_install i a s) = (k_pheap s)(a \<mapsto> new_kport i (k_portgen s + 1))"
  "k_procs (port_install i a s) = k_procs s" "k_timers (port_install i a s) = k_timers s"
  "k_chunks (port_install i a s) = k_chunks s" "k_maxports (port_install i a s) = k_maxports s"
  "k_maxprocs (port_install i a s) = k_maxprocs s" "k_mcount (port_install i a s) = k_mcount s"
  "k_waits (port_install i a s) = k_waits s" "k_schedq (port_install i a s) = k_schedq s"
  "k_runq (port_install i a s) = k_runq s" "k_donq (port_install i a s) = k_donq s"
  "k_schedlock (port_install i a s) = k_schedlock s" "k_buckets (port_install i a s) = k_buckets s"
  "k_self (port_install i a s) = k_self s"
  by (simp_all add: port_install_def)

lemma new_kport_sel [simp]:
  "pt_queue (new_kport i g) = []" "pt_idx (new_kport i g) = i" "pt_nrights (new_kport i g) = 0"
  "pt_nrecv (new_kport i g) = 0" "pt_waiters (new_kport i g) = []" "queue_ok (new_kport i g)"
  by (simp_all add: new_kport_def queue_ok_def)

lemma slot_queue_install:
  assumes "ptable_ok s" and "k_pheap s a = None" and "k_portv s i = None"
  shows "slot_queue (port_install i a s) = slot_queue s"
proof
  fix j
  have "k_portv s j \<noteq> Some a" using ptable_okD(3) [OF assms(1), of j a] assms(2) by auto
  then show "slot_queue (port_install i a s) j = slot_queue s j"
    using assms(3) by (cases "k_portv s j") (auto simp: slot_queue_def port_at_def)
qed

lemma port_install_inv:
  assumes pi: "port_inv G C s" and a: "k_pheap s a = None" "a \<le> k_mcount s"
    and i: "k_portv s i = None" "i < k_maxports s"
  shows "port_inv G C (port_install i a s)"
proof -
  let ?s = "port_install i a s"
  note D = port_invD [OF pi]
  note cD = counts_okD [OF D(2)]
  note sq = slot_queue_install [OF D(1) a(1) i(1)]
  have noa: "k_portv s j \<noteq> Some a" for j using ptable_okD(3) [OF D(1), of j a] a(1) by auto
  have cnt: "infl ?s x = infl s x" "held ?s b t = held s b t" "timed ?s b = timed s b"
    "chunk_infl ?s c = chunk_infl s c" for x b t c
    by (simp_all add: infl_def chunk_infl_def held_def timed_def sq)
  have "ptable_ok ?s"
    using D(1) i noa a(1) unfolding ptable_ok_def by (auto, metis option.distinct(1))
  moreover have "counts_ok G ?s"
    unfolding counts_ok_def refs_of_def cnt
  proof (intro conjI allI impI)
    fix j b q
    assume v: "k_portv ?s j = Some b" and q: "k_pheap ?s b = Some q"
    have "pt_nrecv q = int (refs_of G s j b True)
      \<and> pt_nrights q = int (refs_of G s j b True + refs_of G s j b False + timed s b)"
    proof (cases "b = a")
      case True
      then have j: "j = i" using v noa [of j] by (auto split: if_splits)
      show ?thesis
        using q True j cD(3) [OF i(1), of True] cD(3) [OF i(1), of False]
          cD(4) [OF a(1), of True] cD(4) [OF a(1), of False]
        by (auto simp: refs_of_def)
    next
      case False
      then have "k_portv s j = Some b" "k_pheap s b = Some q" using v q by (auto split: if_splits)
      then show ?thesis using cD(1,2) by blast
    qed
    then show "pt_nrecv q = int (held s b True + infl s (j, True) + G (j, True))"
      and "pt_nrights q = int (held s b True + infl s (j, True) + G (j, True)
        + (held s b False + infl s (j, False) + G (j, False)) + timed s b)"
      by (simp_all add: refs_of_def)
  qed (use cD(3,4) in \<open>auto split: if_splits\<close>)
  moreover have "chunks_ok C ?s" using D(3) by (simp add: chunks_ok_def cnt)
  moreover have "tables_ok ?s" using D(4) a(2) by (auto simp: tables_ok_def)
  ultimately show ?thesis using pi by (auto simp: port_inv_def)
qed

lemma port_install_wake:
  assumes pi: "port_inv G C s" and wi: "wake_inv s" and a: "k_pheap s a = None"
  shows "wake_inv (port_install i a s)"
proof -
  let ?s = "port_install i a s"
  have wok: "waits_ok s" using wi by (simp add: wake_inv_def)
  have wait: "waiting ?s v j = waiting s v j" for v j by (simp add: waiting_def)
  have none: "\<not> (w_onport x \<and> w_port x = a \<and> waiting s w (w_proc x))" if "k_waits s w = Some x" for w x
    using holds_live [OF pi] a waits_okD(4) [OF wok] that by (fastforce simp: waiting_def wait_ok_def)
  have "port_waits_ok ?s"
    unfolding port_waits_ok_def wait
  proof (intro allI impI)
    fix b q
    assume q: "k_pheap ?s b = Some q"
    show "distinct (pt_waiters q) \<and> (\<forall>w. w \<in> set (pt_waiters q) \<longleftrightarrow> (\<exists>x. k_waits ?s w = Some x
        \<and> w_onport x \<and> w_port x = b \<and> waiting s w (w_proc x)))"
    proof (cases "b = a")
      case True
      then show ?thesis using q none by auto
    next
      case False
      then have "k_pheap s b = Some q" using q by simp
      from waits_okD(1) [OF wok this] waits_okD(2) [OF wok this] show ?thesis by simp
    qed
  qed
  moreover have "proc_waits_ok ?s" "claims_ok ?s"
    using wi by (simp_all add: wake_inv_def waits_ok_def proc_waits_ok_def wait_ok_def claims_ok_def)
  moreover have "rq_ok ?s" using wi rq_ok_cong [of ?s s] by (simp add: wake_inv_def)
  ultimately show ?thesis using wi by (simp add: wake_inv_def waits_ok_def)
qed

lemma port_new_ok:
  assumes inv: "pinv G C s" and r: "port_new s = (r, s')"
  shows "pinv G C s'" and "k_procs s' = k_procs s" and "slot_queue s' = slot_queue s"
    and "\<And>a. r = Some a \<Longrightarrow> \<exists>i. k_portv s i = None \<and> i < k_maxports s \<and> k_pheap s a = None
      \<and> k_portv s' = (k_portv s)(i \<mapsto> a)
      \<and> k_pheap s' = (k_pheap s)(a \<mapsto> new_kport i (k_portgen s + 1))"
proof -
  let ?s = "s\<lparr>k_mcount := Suc (k_mcount s)\<rparr>" and ?a = "Suc (k_mcount s)"
  have pi: "port_inv G C ?s" and wi: "wake_inv ?s"
    using inv port_inv_mcount wake_inv_mcount by (auto simp: pinv_def)
  have fresh: "k_pheap s ?a = None"
    using port_invD(4) [of G C s] inv by (metis Suc_n_not_le_n tables_ok_def pinv_def)
  have m: "slot_queue ?s = slot_queue s" by (simp add: slot_queue_def port_at_def fun_eq_iff)
  consider (full) "r = None" "s' = s" | (nomem) "r = None" "s' = ?s"
    | (new) i where "r = Some ?a" "k_portv s i = None" "i < k_maxports s" "s' = port_install i ?a ?s"
  proof (cases "find (\<lambda>i. k_portv s i = None) [0..<k_maxports s]")
    case None
    then show ?thesis using r that(1) by (simp add: port_new_def)
  next
    case (Some i)
    then show ?thesis
      using r that(2) that(3) [of i] find_upt_Some [OF Some]
      by (cases "k_memok s (k_mcount s)") (simp_all add: port_new_def kmalloc_def)
  qed
  then have "pinv G C s' \<and> k_procs s' = k_procs s \<and> slot_queue s' = slot_queue s
    \<and> (\<forall>a. r = Some a \<longrightarrow> (\<exists>i. k_portv s i = None \<and> i < k_maxports s \<and> k_pheap s a = None
      \<and> k_portv s' = (k_portv s)(i \<mapsto> a)
      \<and> k_pheap s' = (k_pheap s)(a \<mapsto> new_kport i (k_portgen s + 1))))"
  proof cases
    case full
    then show ?thesis using inv by simp
  next
    case nomem
    then show ?thesis using pi wi m by (simp add: pinv_def)
  next
    case new
    have "port_inv G C s'" unfolding new(4) by (rule port_install_inv [OF pi]) (use fresh new in auto)
    moreover have "wake_inv s'" unfolding new(4) by (rule port_install_wake [OF pi wi]) (use fresh in simp)
    moreover have "slot_queue s' = slot_queue s"
      using slot_queue_install [of ?s ?a i] port_invD(1) [OF pi] fresh new m by simp
    ultimately show ?thesis using new fresh by (auto simp: pinv_def)
  qed
  then show "pinv G C s'" and "k_procs s' = k_procs s" and "slot_queue s' = slot_queue s"
    and "\<And>a. r = Some a \<Longrightarrow> \<exists>i. k_portv s i = None \<and> i < k_maxports s \<and> k_pheap s a = None
      \<and> k_portv s' = (k_portv s)(i \<mapsto> a)
      \<and> k_pheap s' = (k_pheap s)(a \<mapsto> new_kport i (k_portgen s + 1))" by blast+
qed

section \<open>Queueing\<close>

definition with_refs :: "owned \<Rightarrow> (nat \<times> bool) list \<Rightarrow> owned" where
  "with_refs G refs = (\<lambda>x. G x + count_list refs x)"

definition with_bufs :: "(addr \<Rightarrow> nat) \<Rightarrow> msgbufs \<Rightarrow> addr \<Rightarrow> nat" where
  "with_bufs C bufs = (\<lambda>c. C c + count_list (map fst bufs) (Some c))"

lemma with_Nil [simp]: "with_refs G [] = G" "with_bufs C [] = C"
  by (simp_all add: with_refs_def with_bufs_def)

lemma cpu_stat_inv [simp]: "pinv G C (cpu_stat f s) \<longleftrightarrow> pinv G C s"
proof -
  have "wake_inv s" if "wake_inv (cpu_stat f s)"
    by (rule wake_inv_ports [OF that]) (auto simp: cpu_stat_def)
  moreover have "wake_inv (cpu_stat f s)" if "wake_inv s"
    by (rule wake_inv_ports [OF that]) (auto simp: cpu_stat_def)
  ultimately show ?thesis
    using port_inv_cong [of "cpu_stat f s" s] by (auto simp: pinv_def cpu_stat_def)
qed

lemma pinv_wakes: "wakes send a ws s s' \<Longrightarrow> pinv G C s \<Longrightarrow> pinv G C s'"
  unfolding wakes_def pinv_def using port_inv_core_eq [of s' s G C] by blast

lemma enqueue_inv:
  assumes inv: "pinv (with_refs G refs) (with_bufs C bufs) s" and p: "k_pheap s a = Some p"
    and d: "\<not> pt_dead p" and c: "pt_qbytes p + m_qcost m \<le> MAXQUEUE"
    and m: "m_refs m = refs" "m_bufs m = bufs"
  shows "pinv G C (set_port s a (port_enqueue m p))"
proof -
  have pi: "port_inv (with_refs G refs) (with_bufs C bufs) s" and wi: "wake_inv s"
    using inv by (auto simp: pinv_def)
  have "port_inv G C (set_port s a (port_enqueue m p))"
    by (rule port_inv_set_port [OF pi p])
      (use port_invD(5) [OF pi p] d c in \<open>auto simp: port_enqueue_def with_refs_def with_bufs_def
        qrefs_def qchunks_def queue_ok_def m\<close>)
  moreover have "wake_inv (set_port s a (port_enqueue m p))"
    by (rule wake_inv_set_port [OF wi p]) (simp add: port_enqueue_def)
  ultimately show ?thesis by (simp add: pinv_def)
qed

text \<open>
  What a region of the kernel's own leaves: queues lose messages or gain ones that carry nothing,
  chunks are only freed, and of a proc only its place in the scheduler moves.
\<close>

definition eased :: "nat set \<Rightarrow> kstate \<Rightarrow> kstate \<Rightarrow> bool" where
  "eased X s s' \<longleftrightarrow> (\<forall>i. i \<notin> X \<longrightarrow> map_option core_proc (k_procs s' i) = map_option core_proc (k_procs s i))
     \<and> k_chunks s' \<subseteq>\<^sub>m k_chunks s \<and> k_maxports s' = k_maxports s \<and> k_maxprocs s' = k_maxprocs s
     \<and> k_buckets s' = k_buckets s \<and> k_self s' = k_self s \<and> uptime_ms s' = uptime_ms s
     \<and> (\<forall>j. \<forall>m\<in>set (slot_queue s' j). m \<in> set (slot_queue s j) \<or> m_refs m = [] \<and> m_bufs m = [])"

lemma eased_refl [simp]: "eased X s s" by (simp add: eased_def)

lemma eased_trans: "eased X s t \<Longrightarrow> eased X t u \<Longrightarrow> eased X s u"
  unfolding eased_def using map_le_trans by (smt (verit))

lemma eased_acyc: "acyc rank s \<Longrightarrow> eased X s t \<Longrightarrow> acyc rank t"
  unfolding acyc_def eased_def qrefs_def by fastforce

lemma eased_mono: "eased X s t \<Longrightarrow> X \<subseteq> Y \<Longrightarrow> eased Y s t"
  by (auto simp: eased_def)

lemma uptime_core: "uptime_ms (core s) = uptime_ms s" "uptime_ms (outer s) = uptime_ms s"
  by (simp_all add: uptime_ms_def core_def outer_def nosched_def)

lemma eased_shrunk: "shrunk s t \<Longrightarrow> eased X s t"
  using outer_eqD [of t s] uptime_core(2) [of s] uptime_core(2) [of t] by (auto simp: shrunk_def eased_def)

lemma eased_same:
  "k_procs t = k_procs s \<Longrightarrow> k_chunks t = k_chunks s \<Longrightarrow> k_maxports t = k_maxports s \<Longrightarrow> k_maxprocs t = k_maxprocs s \<Longrightarrow>
   k_buckets t = k_buckets s \<Longrightarrow> k_self t = k_self s \<Longrightarrow> slot_queue t = slot_queue s \<Longrightarrow> uptime_ms t = uptime_ms s \<Longrightarrow> eased X s t"
  by (simp add: eased_def)

text \<open>
  A push that succeeds has put the message at the back of the queue, charged it and left no
  receiver of the port asleep; one that is refused has taken nothing.
\<close>

definition pushed :: "addr \<Rightarrow> kport \<Rightarrow> byte list \<Rightarrow> (nat \<times> bool) list \<Rightarrow> msgbufs \<Rightarrow> kstate \<Rightarrow> bool" where
  "pushed a p data refs bufs s' \<longleftrightarrow> (\<exists>p'. k_pheap s' a = Some p'
     \<and> pt_idx p' = pt_idx p \<and> pt_queue p' = pt_queue p @ [new_kmsg data refs bufs]
     \<and> pt_qbytes p' = pt_qbytes p + (length data + msgbufs_bytes bufs)
     \<and> (\<forall>w\<in>set (pt_waiters p). \<not> asleep False s' w))"

lemma port_push_owned_ok:
  assumes inv: "pinv (with_refs G refs) (with_bufs C bufs) s" and p: "k_pheap s a = Some p"
    and b: "ipcheld_one_port s p"
  shows "\<exists>rc s'. port_push_owned a data refs bufs s = Inr (rc, s')
    \<and> (rc = PUSH_OK \<longrightarrow> pinv G C s' \<and> pushed a p data refs bufs s' \<and> roused False p s s'
        \<and> slot_queue s' = (slot_queue s)(pt_idx p := pt_queue p @ [new_kmsg data refs bufs]))
    \<and> (rc \<noteq> PUSH_OK \<longrightarrow> pinv (with_refs G refs) (with_bufs C bufs) s' \<and> slot_queue s' = slot_queue s)
    \<and> (rc = PUSH_DEAD \<longleftrightarrow> pt_dead p)
    \<and> (rc = PUSH_FULL \<longleftrightarrow> \<not> pt_dead p \<and> pt_qbytes p + (length data + msgbufs_bytes bufs) > MAXQUEUE)
    \<and> (rc = PUSH_NOMEM \<longrightarrow> \<not> k_memok s (k_mcount s))
    \<and> k_buckets s' = k_buckets s \<and> k_self s' = k_self s \<and> k_portv s' = k_portv s
    \<and> k_timers s' = k_timers s \<and> map_option pt_idx (k_pheap s' a) = Some (pt_idx p)
    \<and> k_chunks s' = k_chunks s \<and> k_maxports s' = k_maxports s \<and> k_maxprocs s' = k_maxprocs s
    \<and> (\<forall>i. map_option core_proc (k_procs s' i) = map_option core_proc (k_procs s i)) \<and> uptime_ms s' = uptime_ms s"
proof -
  let ?G = "with_refs G refs" and ?C = "with_bufs C bufs"
  let ?cost = "length data + msgbufs_bytes bufs"
  have pi: "port_inv ?G ?C s" and wi: "wake_inv s" using inv by (auto simp: pinv_def)
  have as: "ipc_assert_port a s = Inr ()" using p b by (simp add: ipc_assert_port_def get_Some)
  note red = port_push_owned_def as get_port_Some [OF p] Let_def
  have stat: "pinv ?G ?C (cpu_stat f (set_port s a p')) \<and> slot_queue (cpu_stat f (set_port s a p')) = slot_queue s"
    if "pt_queue p' = pt_queue p" "pt_qbytes p' = pt_qbytes p" "pt_dead p' = pt_dead p" "pt_idx p' = pt_idx p"
      "pt_nrights p' = pt_nrights p" "pt_nrecv p' = pt_nrecv p" "pt_waiters p' = pt_waiters p" for f p'
  proof -
    have "port_inv ?G ?C (set_port s a p')"
      by (rule port_inv_set_port [OF pi p]) (use that port_invD(5) [OF pi p] in \<open>auto simp: queue_ok_def\<close>)
    moreover have "wake_inv (set_port s a p')" by (rule wake_inv_set_port [OF wi p that(7)])
    ultimately have "pinv ?G ?C (set_port s a p')" by (simp add: pinv_def)
    moreover have "slot_queue (cpu_stat f (set_port s a p')) = slot_queue s"
      by (rule slot_queue_cong) (use p that(1) in \<open>auto simp: cpu_stat_def\<close>)
    ultimately show ?thesis by simp
  qed
  consider (dead) "pt_dead p" | (full) "\<not> pt_dead p" "pt_qbytes p + ?cost > MAXQUEUE"
    | (nomem) "\<not> pt_dead p" "\<not> pt_qbytes p + ?cost > MAXQUEUE" "\<not> k_memok s (k_mcount s)"
    | (ok) "\<not> pt_dead p" "\<not> pt_qbytes p + ?cost > MAXQUEUE" "k_memok s (k_mcount s)" by blast
  then show ?thesis
  proof cases
    case dead
    then show ?thesis
      using stat [of "p\<lparr>pt_ndrop_dead := pt_ndrop_dead p + 1\<rparr>"] by (simp add: red cpu_stat_def uptime_ms_def)
  next
    case full
    then show ?thesis
      using stat [of "p\<lparr>pt_ndrop_full := pt_ndrop_full p + 1\<rparr>"] by (simp add: red cpu_stat_def uptime_ms_def)
  next
    case nomem
    have "slot_queue (s\<lparr>k_mcount := Suc (k_mcount s)\<rparr>) = slot_queue s"
      by (simp add: slot_queue_def port_at_def fun_eq_iff)
    with nomem show ?thesis
      using port_inv_mcount [OF pi] wake_inv_mcount [OF wi] p by (simp add: red kmalloc_def pinv_def uptime_ms_def)
  next
    case ok
    define m where "m = new_kmsg data refs bufs"
    define t where "t = set_port (s\<lparr>k_mcount := Suc (k_mcount s)\<rparr>) a (port_enqueue m p)"
    have t: "pinv G C t"
      unfolding t_def by (rule enqueue_inv [where refs = refs and bufs = bufs])
        (use ok p port_inv_mcount [OF pi] wake_inv_mcount [OF wi] in \<open>simp_all add: pinv_def m_def new_kmsg_def\<close>)
    have pt: "k_pheap t a = Some (port_enqueue m p)" and held: "ipcheld_one_port t (port_enqueue m p)"
      using b by (simp_all add: t_def port_enqueue_def ipcheld_one_port_def ipcheld_one_def)
    obtain s' where s': "wake_receivers a t = Inr s'"
      "wakes False a (set (pt_waiters (port_enqueue m p))) t s'"
      using wake_receivers_ok [OF _ pt held] t by (auto simp: pinv_def)
    have r: "port_push_owned a data refs bufs s = Inr (PUSH_OK, s')"
      using ok s'(1) by (simp add: red kmalloc_def t_def m_def)
    have c: "core s' = core t" using s'(2) by (simp add: wakes_def)
    obtain p' where p': "k_pheap s' a = Some p'" "set (pt_waiters p') \<subseteq> set (pt_waiters (port_enqueue m p))"
      "\<forall>w\<in>set (pt_waiters (port_enqueue m p)). \<not> asleep False s' w"
      using s'(2) pt unfolding wakes_def by blast
    have "core_port p' = core_port (port_enqueue m p)" using core_eqD(9) [OF c, of a] p'(1) pt by simp
    from core_port_eqD(1,5,6) [OF this] have "pushed a p data refs bufs s'"
      using p' by (auto simp: pushed_def port_enqueue_def m_def new_kmsg_def)
    moreover have "slot_queue s' = slot_queue t" using c by (metis slot_queue_core ext)
    moreover have "slot_queue t = (slot_queue s)(pt_idx p := pt_queue p @ [m])"
    proof -
      let ?u = "s\<lparr>k_mcount := Suc (k_mcount s)\<rparr>"
      have "ptable_ok ?u" using port_invD(1) [OF port_inv_mcount [OF pi]] .
      moreover have "slot_queue ?u = slot_queue s" by (simp add: slot_queue_def port_at_def fun_eq_iff)
      ultimately show ?thesis
        using slot_queue_set_port(1) [of ?u a p "port_enqueue m p"] p by (simp add: t_def port_enqueue_def)
    qed
    moreover have "roused False p s s'"
      by (rule roused_cong [OF wakes_roused [OF s'(2)]]) (simp_all add: t_def port_enqueue_def)
    moreover have "uptime_ms s' = uptime_ms s" using uptime_core(1) [of s'] uptime_core(1) [of t] c by (simp add: t_def uptime_ms_def)
    ultimately show ?thesis
      using r ok pinv_wakes [OF s'(2) t] core_eqD(1-7,10) [OF c]
      by (auto simp: t_def m_def pushed_def)
  qed
qed

lemma release_inflight_ok:
  assumes "kinv (with_refs G refs) C s" and "acyc rank s"
  shows "\<exists>s'. release_inflight refs s = Inr s' \<and> kinv G C s' \<and> shrunk s s'"
proof (cases "refs = []")
  case False
  obtain r where r: "\<forall>x\<in>set refs. rank (fst x) < r"
    by (metis List.finite_set finite_imageI finite_nat_set_iff_bounded image_eqI)
  have "ipcheld s" using assms(1) by (simp add: kinv_def)
  then show ?thesis
    using pu.release_ok [OF assms(1) [unfolded with_refs_def] assms(2) r lessI] False
    by (auto simp: release_inflight_def release_inflight_by_def ipc_assert_locked_def)
qed (use assms in \<open>simp add: release_inflight_def release_inflight_by_def\<close>)

lemma port_push_ok:
  assumes inv: "kinv (with_refs G (map (\<lambda>r. (r, False)) refs)) C s" and ac: "acyc rank s"
    and p: "k_pheap s a = Some p"
  shows "\<exists>rc s'. port_push a data refs s = Inr (rc, s') \<and> kinv G C s'
    \<and> k_buckets s' = k_buckets s \<and> k_self s' = k_self s
    \<and> (refs = [] \<longrightarrow> eased {} s s' \<and> k_timers s' = k_timers s \<and> k_pheap s' a \<noteq> None)"
proof -
  let ?rs = "map (\<lambda>r. (r, False)) refs" and ?s = "s\<lparr>k_mcount := Suc (k_mcount s)\<rparr>"
  have held: "ipcheld s" "ipcheld ?s" using inv by (simp_all add: kinv_def ipcheld_iff ipcheld_one_def)
  have pi: "pinv (with_refs G ?rs) C ?s"
    using inv port_inv_mcount wake_inv_mcount by (auto simp: kinv_def pinv_def)
  have ac': "acyc rank ?s" using ac by (simp add: acyc_def slot_queue_def port_at_def)
  have mq: "slot_queue ?s = slot_queue s" by (simp add: slot_queue_def port_at_def fun_eq_iff)
  have as: "ipc_assert_locked s = Inr ()" using held by (simp add: ipc_assert_locked_def)
  show ?thesis
  proof (cases "k_memok s (k_mcount s)")
    case False
    from release_inflight_ok [of G ?rs C ?s rank] pi ac' held obtain s' where
      s': "release_inflight ?rs ?s = Inr s'" "kinv G C s'" "shrunk ?s s'" by (auto simp: pinv_kinv)
    moreover have "k_buckets s' = k_buckets ?s" "k_self s' = k_self ?s"
      using outer_eqD(1,2) [of s' ?s] s'(3) by (simp_all add: shrunk_def)
    moreover have "s' = ?s" if "refs = []"
      using s'(1) that by (simp add: release_inflight_def release_inflight_by_def)
    ultimately show ?thesis
      using False as p eased_same [of ?s s "{}"] mq uptime_ms_def by (auto simp: port_push_def Let_def kmalloc_def)
  next
    case True
    have ps: "k_pheap ?s a = Some p" using p by simp
    from port_push_owned_ok [of G ?rs C "[]" ?s a p data] pi ps ipcheld_port [OF held(2)]
    obtain rc t where t: "port_push_owned a data ?rs [] ?s = Inr (rc, t)"
      "rc = PUSH_OK \<longrightarrow> pinv G C t
        \<and> slot_queue t = (slot_queue ?s)(pt_idx p := pt_queue p @ [new_kmsg data ?rs []])"
      "rc \<noteq> PUSH_OK \<longrightarrow> pinv (with_refs G ?rs) C t \<and> slot_queue t = slot_queue ?s"
      "k_buckets t = k_buckets ?s" "k_self t = k_self ?s" "k_timers t = k_timers ?s"
      "map_option pt_idx (k_pheap t a) = Some (pt_idx p)" "k_chunks t = k_chunks ?s" "k_maxports t = k_maxports ?s" "k_maxprocs t = k_maxprocs ?s"
      "\<forall>i. map_option core_proc (k_procs t i) = map_option core_proc (k_procs ?s i)" "uptime_ms t = uptime_ms ?s"
      by auto
    have ht: "ipcheld t" using held t(4,5) by (simp add: ipcheld_iff ipcheld_one_def)
    obtain u where u: "(if rc = PUSH_OK then Inr t else release_inflight ?rs t) = Inr u" "kinv G C u"
      "refs = [] \<longrightarrow> u = t" "k_buckets u = k_buckets t" "k_self u = k_self t"
    proof (cases "rc = PUSH_OK")
      case True
      then show ?thesis using that [of t] t(2) ht by (simp add: pinv_kinv)
    next
      case False
      then have "acyc rank t" using ac' t(3) by (simp add: acyc_def)
      from release_inflight_ok [of G ?rs C t rank, OF _ this] False t(3) ht obtain u where
        "release_inflight ?rs t = Inr u" "kinv G C u" "shrunk t u" by (auto simp: pinv_kinv)
      moreover from this have "refs = [] \<longrightarrow> u = t"
        by (auto simp: release_inflight_def release_inflight_by_def)
      moreover have "k_buckets u = k_buckets t" "k_self u = k_self t"
        using outer_eqD(1,2) [of u t] \<open>shrunk t u\<close> by (simp_all add: shrunk_def)
      ultimately show ?thesis using that [of u] False by simp
    qed
    have "port_push a data refs s = Inr (if rc = PUSH_DEAD then PUSH_OK else rc, u)"
      using True as t(1) u(1) by (simp add: port_push_def Let_def kmalloc_def)
    moreover have "eased {} s t" if "refs = []"
    proof -
      have sq: "slot_queue ?s (pt_idx p) = pt_queue p"
        using slot_queue_set_port(2) [of ?s a p p] pi ps by (simp add: pinv_def port_inv_def)
      have "m \<in> set (slot_queue s j) \<or> m_refs m = [] \<and> m_bufs m = []" if "m \<in> set (slot_queue t j)" for j m
        using t(2,3) sq that \<open>refs = []\<close> mq by (cases "rc = PUSH_OK") (auto simp: new_kmsg_def split: if_splits)
      then show ?thesis unfolding eased_def using t(4,5,8-12) by (simp add: uptime_ms_def)
    qed
    ultimately show ?thesis using u(2-5) t(4-7) by auto
  qed
qed

section \<open>Taking and disposing\<close>

text \<open>
  What taking and disposing leave: queues only lose messages, chunks are only freed, and outside
  \<open>X\<close> nothing of a proc moves but its place in the scheduler.
\<close>

definition calm :: "nat set \<Rightarrow> kstate \<Rightarrow> kstate \<Rightarrow> bool" where
  "calm X s s' \<longleftrightarrow> (\<forall>i. i \<notin> X \<longrightarrow> map_option core_proc (k_procs s' i) = map_option core_proc (k_procs s i))
     \<and> k_chunks s' \<subseteq>\<^sub>m k_chunks s \<and> k_maxports s' = k_maxports s \<and> k_maxprocs s' = k_maxprocs s
     \<and> k_timers s' = k_timers s \<and> k_self s' = k_self s \<and> (\<forall>j. set (slot_queue s' j) \<subseteq> set (slot_queue s j))
     \<and> (\<forall>b. bucket_free s b \<longrightarrow> bucket_free s' b)"

lemma calm_refl [simp]: "calm X s s" by (simp add: calm_def)

lemma calm_trans: "calm X s t \<Longrightarrow> calm X t u \<Longrightarrow> calm X s u"
  unfolding calm_def using map_le_trans by (smt (verit) subset_trans)

lemma calm_mono: "calm X s t \<Longrightarrow> X \<subseteq> Y \<Longrightarrow> calm Y s t"
  by (auto simp: calm_def)

lemma calm_acyc: "acyc rank s \<Longrightarrow> calm X s t \<Longrightarrow> acyc rank t"
  unfolding acyc_def calm_def qrefs_def by fastforce

lemma calm_shrunk: "shrunk s t \<Longrightarrow> calm X s t"
  using outer_eqD [of t s] by (simp add: shrunk_def calm_def bucket_free_def)

lemma calm_nolocks: "nolocks t = nolocks s \<Longrightarrow> (\<And>b. bucket_free s b \<Longrightarrow> bucket_free t b) \<Longrightarrow> calm X s t"
  using nolocks_sel [of t s] slots_nolocks [of t s] by (simp add: calm_def)

lemma calm_enter: "locks_ok s \<Longrightarrow> ipclock_enter s = Inr t \<Longrightarrow> calm X s t"
  using calm_nolocks [OF enter_held(3)] enter_upto_free by (auto simp: ipclock_enter_def)

lemma calm_leave: "calm X s (ipclock_leave s)"
  by (rule calm_nolocks [OF leave_nolocks leave_free])

lemma calm_enter_port: "ipclock_enter_port a s = Inr t \<Longrightarrow> calm X s t"
  by (rule calm_nolocks) (auto simp: ipclock_enter_port_def ret_iff intro: enter_one_nolocks enter_one_free)

lemma calm_leave_port: "ipclock_leave_port a s = Inr t \<Longrightarrow> calm X s t"
  by (rule calm_nolocks) (auto simp: ipclock_leave_port_def ret_iff intro: leave_one_free)

lemma dequeue_inv:
  assumes inv: "pinv G C s" and p: "k_pheap s a = Some p" and q: "pt_queue p = m # q"
  shows "pinv (with_refs G (m_refs m)) (with_bufs C (m_bufs m))
    (set_port s a (p\<lparr>pt_queue := q, pt_qbytes := sz_sub (pt_qbytes p) (m_qcost m)\<rparr>))"
proof -
  have pi: "port_inv G C s" and wi: "wake_inv s" using inv by (auto simp: pinv_def)
  have "port_inv (with_refs G (m_refs m)) (with_bufs C (m_bufs m))
    (set_port s a (p\<lparr>pt_queue := q, pt_qbytes := sz_sub (pt_qbytes p) (m_qcost m)\<rparr>))"
    by (rule port_inv_set_port [OF pi p])
      (use port_invD(5) [OF pi p] q in \<open>auto simp: with_refs_def with_bufs_def qrefs_def qchunks_def
        queue_ok_def\<close>)
  moreover have "wake_inv (set_port s a (p\<lparr>pt_queue := q, pt_qbytes := sz_sub (pt_qbytes p) (m_qcost m)\<rparr>))"
    by (rule wake_inv_set_port [OF wi p]) simp
  ultimately show ?thesis by (simp add: pinv_def)
qed

lemma port_pop_ok:
  assumes inv: "pinv G C s" and p: "k_pheap s a = Some p" and lk: "locks_ok s"
    and b: "bucket_free s (ipcbucket_of (pt_idx p))"
  shows "\<exists>m s' p'. port_pop a s = Inr (m, s') \<and> locks_ok s' \<and> depth_of s' = depth_of s
    \<and> k_pheap s' a = Some p' \<and> k_portv s' = k_portv s \<and> calm {} s s' \<and> k_chunks s' = k_chunks s
    \<and> slot_queue s' = (slot_queue s)(pt_idx p := pt_queue p')
    \<and> (case m of
         None \<Rightarrow> pt_queue p = [] \<and> pt_queue p' = [] \<and> pinv G C s'
       | Some x \<Rightarrow> pt_queue p = x # pt_queue p'
           \<and> pinv (with_refs G (m_refs x)) (with_bufs C (m_bufs x)) s'
           \<and> (\<forall>w\<in>set (pt_waiters p'). \<not> asleep True s' w) \<and> roused True p s s')"
proof -
  obtain t where t: "ipclock_enter_port a s = Inr t" "locks_ok t" "nolocks t = nolocks s"
    "ipcheld_one_port t p"
    "depth_of t = (\<lambda>b. depth_of s b + (if b = ipcbucket_of (pt_idx p) then 1 else 0))"
    using enter_port_ok [OF lk p b] .
  note e = nolocks_sel [OF t(3)]
  have it: "pinv G C t" by (rule pinv_nolocks [OF t(3) inv])
  have pt: "k_pheap t a = Some p" using p e by simp
  define body where "body = (case pt_queue p of [] \<Rightarrow> Inr (None, t)
    | m # q \<Rightarrow> bnd (wake_senders a (set_port t a (p\<lparr>pt_queue := q,
          pt_qbytes := sz_sub (pt_qbytes p) (m_qcost m)\<rparr>))) (\<lambda>s. Inr (Some m, s)))"
  have pop: "port_pop a s = bnd body (\<lambda>(m, s). bnd (ipclock_leave_port a s) (\<lambda>s. Inr (m, s)))"
    using t(1) pt by (simp add: port_pop_def get_Some body_def)
  obtain m u p' where u: "body = Inr (m, u)" "k_buckets u = k_buckets t" "k_self u = k_self t"
    "k_portv u = k_portv t" "k_pheap u a = Some p'" "pt_idx p' = pt_idx p"
    "case m of None \<Rightarrow> pt_queue p = [] \<and> pt_queue p' = [] \<and> pinv G C u
       | Some x \<Rightarrow> pt_queue p = x # pt_queue p' \<and> pinv (with_refs G (m_refs x)) (with_bufs C (m_bufs x)) u
         \<and> (\<forall>w\<in>set (pt_waiters p'). \<not> asleep True u w) \<and> roused True p t u"
    "calm {} t u" "k_chunks u = k_chunks t" "slot_queue u = (slot_queue t)(pt_idx p := pt_queue p')"
  proof (cases "pt_queue p")
    case Nil
    have "slot_queue t (pt_idx p) = pt_queue p" using slot_queue_set_port(2) [OF _ pt] it by (simp add: pinv_def port_inv_def)
    then show ?thesis using that [of None t p] it pt Nil by (simp add: body_def fun_eq_iff)
  next
    case (Cons x q)
    define p1 where "p1 = p\<lparr>pt_queue := q, pt_qbytes := sz_sub (pt_qbytes p) (m_qcost x)\<rparr>"
    define v where "v = set_port t a p1"
    have iv: "pinv (with_refs G (m_refs x)) (with_bufs C (m_bufs x)) v"
      unfolding v_def p1_def by (rule dequeue_inv [OF it pt Cons])
    have pv: "k_pheap v a = Some p1" and hv: "ipcheld_one_port v p1"
      using t(4) by (simp_all add: v_def p1_def ipcheld_one_port_def ipcheld_one_def)
    obtain u where u: "wake_senders a v = Inr u" "wakes True a (set (pt_waiters p1)) v u"
      using wake_senders_ok [OF _ pv hv] iv by (auto simp: pinv_def)
    have c: "core u = core v" using u(2) by (simp add: wakes_def)
    obtain p' where p': "k_pheap u a = Some p'" "set (pt_waiters p') \<subseteq> set (pt_waiters p1)"
      "\<forall>w\<in>set (pt_waiters p1) \<inter> set (pt_waiters p'). \<not> asleep True u w"
      using u(2) pv unfolding wakes_def by blast
    have "core_port p' = core_port p1" using core_eqD(9) [OF c, of a] p'(1) pv by simp
    note cp = core_port_eqD(1,5) [OF this]
    have tt: "ptable_ok t" using it by (simp add: pinv_def port_inv_def)
    have "slot_queue u = slot_queue v" using slot_queue_core c by (metis ext)
    also have "\<dots> = (slot_queue t)(pt_idx p := q)"
      using slot_queue_set_port(1) [OF tt pt, of p1] by (simp add: v_def p1_def fun_eq_iff)
    finally have sq: "slot_queue u = (slot_queue t)(pt_idx p := q)" .
    have "calm {} t u"
      using sq core_eqD [OF c] slot_queue_set_port(2) [OF tt pt] Cons by (auto simp: calm_def v_def bucket_free_def)
    moreover have "roused True p t u"
      by (rule roused_cong [OF wakes_roused [OF u(2)]]) (simp_all add: v_def p1_def)
    ultimately show ?thesis
      by (intro that [of "Some x" u p'])
        (use u(1) Cons core_eqD(3-6) [OF c] p' cp pinv_wakes [OF u(2) iv] sq in
          \<open>auto simp: body_def v_def p1_def\<close>)
  qed
  have lu: "locks_ok u" using t(2) locks_ok_cong [OF u(2)] by simp
  have hu: "ipcheld_one_port u p'"
    using t(4) u by (simp add: ipcheld_one_port_def ipcheld_one_def)
  obtain s' where s': "ipclock_leave_port a u = Inr s'" "locks_ok s'" "nolocks s' = nolocks u"
    "depth_of s' = (\<lambda>b. depth_of u b - (if b = ipcbucket_of (pt_idx p') then 1 else 0))"
    using leave_port_ok [OF lu u(5) hu] .
  note e' = nolocks_sel [OF s'(3)]
  have "depth_of s' = depth_of s"
    using s'(4) t(5) depth_of_cong [OF u(2,3)] u(6) by (simp add: fun_eq_iff)
  moreover have "asleep True s' w = asleep True u w" for w by (simp add: asleep_def e')
  moreover have "pinv G' C' s'" if "pinv G' C' u" for G' C' by (rule pinv_nolocks [OF s'(3) that])
  moreover have "calm {} s s'"
    using calm_trans [OF calm_trans [OF calm_enter_port [OF t(1)] u(8)] calm_leave_port [OF s'(1)]] .
  moreover have "roused True p s s' = roused True p t u" by (simp add: roused_def e e')
  ultimately show ?thesis
    using u s' pop e e' slots_nolocks(1) [OF t(3)] slots_nolocks(1) [OF s'(3)]
    by (intro exI [of _ m] exI [of _ s'] exI [of _ p']) (auto split: option.splits)
qed

lemma msg_free_narrow:
  assumes "pinv G (with_bufs C (m_bufs m)) s" and "m_refs m = []"
  shows "\<exists>s' k. msg_free m s = Inr s' \<and> s' = s\<lparr>k_chunks := k\<rparr> \<and> pinv G C s' \<and> calm {} s s'"
proof -
  have "port_inv G (\<lambda>c. C c + count_list (map fst (m_bufs m)) (Some c)) s" and wi: "wake_inv s"
    using assms(1) by (auto simp: pinv_def with_bufs_def)
  from msgbufs_free_ok [OF this(1)] obtain k where k: "msgbufs_free (m_bufs m) s = Inr (s\<lparr>k_chunks := k\<rparr>)"
    "port_inv G C (s\<lparr>k_chunks := k\<rparr>)" "k \<subseteq>\<^sub>m k_chunks s" by blast
  moreover have "wake_inv (s\<lparr>k_chunks := k\<rparr>)" by (rule wake_inv_ports [OF wi]) auto
  ultimately show ?thesis
    using assms(2)
    by (intro exI [of _ "s\<lparr>k_chunks := k\<rparr>"] exI [of _ k])
      (simp add: msg_free_def msg_free_by_def release_inflight_by_def pinv_def calm_def bucket_free_def)
qed

lemma msg_free_wide:
  assumes "kinv (with_refs G (m_refs m)) (with_bufs C (m_bufs m)) s" and "acyc rank s"
  shows "\<exists>s'. msg_free m s = Inr s' \<and> kinv G C s' \<and> shrunk s s'"
proof -
  obtain r where r: "\<forall>x\<in>set (m_refs m). rank (fst x) < r"
    by (metis List.finite_set finite_imageI finite_nat_set_iff_bounded image_eqI)
  show ?thesis
    using pu.msg_free_ok [OF assms(1) [unfolded with_refs_def with_bufs_def] assms(2) r disjI1 [OF lessI]]
    by (auto simp: msg_free_def)
qed

text \<open>
  Disposing of a popped message gives back every reference and chunk it carried, on both the
  narrow and the wide path, and leaves the locks as they were.
\<close>

lemma msg_dispose_ok:
  assumes inv: "pinv (with_refs G (m_refs m)) (with_bufs C (m_bufs m)) s" and ac: "acyc rank s"
    and lk: "locks_ok s" and fr: "\<forall>b<NIPCLOCK. bucket_free s b"
  shows "\<exists>s'. msg_dispose m s = Inr s' \<and> pinv G C s' \<and> locks_ok s' \<and> depth_of s' = depth_of s \<and> calm {} s s'"
proof (cases "m_refs m = []")
  case True
  with msg_free_narrow [of G C m s] inv obtain k where
    k: "msg_free m s = Inr (s\<lparr>k_chunks := k\<rparr>)" "pinv G C (s\<lparr>k_chunks := k\<rparr>)" "calm {} s (s\<lparr>k_chunks := k\<rparr>)" by auto
  show ?thesis
    using True k lk locks_ok_cong [of "s\<lparr>k_chunks := k\<rparr>" s] depth_of_cong [of "s\<lparr>k_chunks := k\<rparr>" s]
    by (simp add: msg_dispose_def)
next
  case False
  obtain t where t: "ipclock_enter s = Inr t" using enter_returns [OF lk fr] .
  note h = enter_held [OF lk t]
  have kt: "kinv (with_refs G (m_refs m)) (with_bufs C (m_bufs m)) t"
    using pinv_nolocks [OF h(3) inv] h(2) by (simp add: pinv_kinv)
  have at: "acyc rank t" using ac slots_nolocks(3) [OF h(3)] by simp
  from msg_free_wide [OF kt at] obtain u where u: "msg_free m t = Inr u" "kinv G C u" "shrunk t u" by blast
  have o: "outer u = outer t" using u(3) by (simp add: shrunk_def)
  have hu: "ipcheld u" and lu: "locks_ok u"
    using u(2) h(1) locks_ok_cong [OF outer_eqD(1) [OF o]] by (simp_all add: kinv_def)
  note l = leave_ok [OF lu hu]
  have "pinv G C (ipclock_leave u)"
    using pinv_nolocks [OF leave_nolocks] u(2) by (simp add: pinv_kinv)
  moreover have "depth_of (ipclock_leave u) = depth_of s"
    using l(2) h(4) depth_of_cong [OF outer_eqD(1,2) [OF o]] by (simp add: fun_eq_iff)
  moreover have "calm {} s (ipclock_leave u)"
    by (rule calm_trans [OF calm_trans [OF calm_enter [OF lk t] calm_shrunk [OF u(3)]] calm_leave])
  ultimately show ?thesis
    using False t u(1) l(1) by (simp add: msg_dispose_def)
qed

end
