(* ===== verification/Timer.thy ===== *)
theory Timer
  imports Msgs
begin

text \<open>
  The one-shot timers of \<open>src/src/timer.c\<close> (the clock is in theory \<open>Sched\<close>). A timer's slot holds
  a reference to its port. \<open>reap_dead_timers\<close> and \<open>expire_timers\<close> drop that reference first and
  clear the slot after, so in between the slot names a port that may be gone; nothing reads it
  there, which is shown by moving the store before the drop: no function \<open>port_unref\<close> calls reads
  or writes the timer table.
\<close>

definition clear_timer :: "nat \<Rightarrow> kstate \<Rightarrow> kstate" where
  "clear_timer i s = s\<lparr>k_timers := (k_timers s)(i := (k_timers s i)\<lparr>t_port := None\<rparr>)\<rparr>"

fun reap_timers_loop :: "nat list \<Rightarrow> kstate \<Rightarrow> fault + kstate" where
  "reap_timers_loop [] s = Inr s"
| "reap_timers_loop (i # is) s =
    (case t_port (k_timers s i) of
       None \<Rightarrow> reap_timers_loop is s
     | Some a \<Rightarrow>
         bnd (get_port s a) (\<lambda>p.
           if pt_dead p then bnd (port_unref a s) (\<lambda>s. reap_timers_loop is (clear_timer i s))
           else reap_timers_loop is s))"

definition reap_dead_timers :: "kstate \<Rightarrow> fault + kstate" where
  "reap_dead_timers s = reap_timers_loop [0..<MAXTIMERS] s"

definition free_timer :: "kstate \<Rightarrow> nat option" where
  "free_timer s = find (\<lambda>i. t_port (k_timers s i) = None) [0..<MAXTIMERS]"

definition timer_set :: "nat \<Rightarrow> addr \<Rightarrow> u64 \<Rightarrow> kstate \<Rightarrow> fault + kstate" where
  "timer_set i a ms s =
    bnd (get_port s a) (\<lambda>p.
      let s = set_port s a (p\<lparr>pt_nrights := pt_nrights p + 1\<rparr>) in
      Inr (s\<lparr>k_timers := (k_timers s)(i := \<lparr>t_port = Some a, t_due_ms = uptime_ms s + ms\<rparr>)\<rparr>))"

definition timer_arm :: "addr \<Rightarrow> u64 \<Rightarrow> kstate \<Rightarrow> fault + bool \<times> kstate" where
  "timer_arm a ms s =
    (case free_timer s of
       Some i \<Rightarrow> bnd (timer_set i a ms s) (\<lambda>s. Inr (True, s))
     | None \<Rightarrow>
         bnd (reap_dead_timers s) (\<lambda>s.
         case free_timer s of
           Some i \<Rightarrow> bnd (timer_set i a ms s) (\<lambda>s. Inr (True, s))
         | None \<Rightarrow> Inr (False, s)))"

text \<open>The message an expired timer's port receives: the one byte \<open>T\<close>.\<close>

definition tick_msg :: "byte list" where
  "tick_msg = [84]"

definition fire_timer :: "nat \<Rightarrow> addr \<Rightarrow> kstate \<Rightarrow> fault + kstate" where
  "fire_timer i a s =
    bnd (port_push a tick_msg [] s) (\<lambda>(rc, s). bnd (port_unref a s) (\<lambda>s. Inr (clear_timer i s)))"

fun expire_loop :: "u64 \<Rightarrow> nat list \<Rightarrow> kstate \<Rightarrow> fault + kstate" where
  "expire_loop now [] s = Inr s"
| "expire_loop now (i # is) s =
    (case t_port (k_timers s i) of
       None \<Rightarrow> expire_loop now is s
     | Some a \<Rightarrow>
         if now \<ge> t_due_ms (k_timers s i) then bnd (fire_timer i a s) (expire_loop now is)
         else expire_loop now is s)"

definition expire_timers :: "kstate \<Rightarrow> fault + kstate" where
  "expire_timers s =
    bnd (ipclock_enter s) (\<lambda>s.
      let now = uptime_ms s in
      bnd (reap_dead_timers s) (\<lambda>s. bnd (expire_loop now [0..<MAXTIMERS] s) (\<lambda>s.
      Inr (ipclock_leave s))))"

section \<open>Nothing under \<open>port_unref\<close> looks at the timers\<close>

definition wt :: "(nat \<Rightarrow> ktimer) \<Rightarrow> kstate \<Rightarrow> kstate" where
  "wt t s = s\<lparr>k_timers := t\<rparr>"

definition mapr :: "('a \<Rightarrow> 'b) \<Rightarrow> fault + 'a \<Rightarrow> fault + 'b" where
  "mapr f r = (case r of Inl e \<Rightarrow> Inl e | Inr x \<Rightarrow> Inr (f x))"

lemma mapr_simps [simp]: "mapr f (Inl e) = Inl e" "mapr f (Inr x) = Inr (f x)"
  by (simp_all add: mapr_def)

lemma bnd_mapr [simp]: "bnd (mapr f m) g = bnd m (\<lambda>x. g (f x))"
  by (cases m) simp_all

lemma mapr_bnd [simp]: "mapr f (bnd m g) = bnd m (\<lambda>x. mapr f (g x))"
  by (cases m) simp_all

lemma mapr_if [simp]: "mapr f (if c then a else b) = (if c then mapr f a else mapr f b)"
  by simp

lemma wt_sel [simp]:
  "k_procs (wt t s) = k_procs s" "k_pheap (wt t s) = k_pheap s" "k_portv (wt t s) = k_portv s"
  "k_waits (wt t s) = k_waits s" "k_schedq (wt t s) = k_schedq s" "k_schedlock (wt t s) = k_schedlock s"
  "k_runq (wt t s) = k_runq s" "k_donq (wt t s) = k_donq s" "k_ncpu (wt t s) = k_ncpu s"
  "k_cpus (wt t s) = k_cpus s" "k_self (wt t s) = k_self s" "k_buckets (wt t s) = k_buckets s"
  "k_ticks (wt t s) = k_ticks s" "k_boot_tsc (wt t s) = k_boot_tsc s"
  "k_cyc_per_ms (wt t s) = k_cyc_per_ms s" "k_clock_ready (wt t s) = k_clock_ready s"
  "k_chunks (wt t s) = k_chunks s" "k_maxports (wt t s) = k_maxports s" "k_maxprocs (wt t s) = k_maxprocs s" "k_timers (wt t s) = t"
  "k_wakes (wt t s) = k_wakes s" "k_claim_won (wt t s) = k_claim_won s"
  "k_claim_lost (wt t s) = k_claim_lost s" "k_hangup_gen (wt t s) = k_hangup_gen s"
  by (simp_all add: wt_def)

lemma wt_clock [simp]:
  "uptime_ms (wt t s) = uptime_ms s" "cpu_frac (wt t s) n u = cpu_frac s n u"
  by (simp_all add: uptime_ms_def cpu_frac_def)

lemma wt_cpu [simp]: "cpu_in_hand (wt t s) = cpu_in_hand s"
  by (rule ext) (simp add: cpu_in_hand_def cong: option.case_cong)

lemma wt_price [simp]: "updatecpu (wt t s) p = updatecpu s p"
  by (simp add: updatecpu_def Let_def)

lemma wt_get [simp]:
  "get_port (wt t s) a = get_port s a" "get_proc (wt t s) i = get_proc s i"
  "get_waiter (wt t s) w = get_waiter s w" "ipc_assert_any (wt t s) = ipc_assert_any s"
  "ipc_assert_locked (wt t s) = ipc_assert_locked s" "ipc_assert_port a (wt t s) = ipc_assert_port a s"
  "sched_assert_locked (wt t s) = sched_assert_locked s" "count_runnable (wt t s) = count_runnable s"
  "wake_idle_cpu (wt t s) = wake_idle_cpu s" "reprioritize (wt t s) p n = reprioritize s p n"
  "total_refs (wt t s) = total_refs s"
  by (simp_all add: get_port_def get_proc_def get_waiter_def ipc_assert_any_def ipc_assert_locked_def
      ipc_assert_port_def ipcheld_any_iff ipcheld_iff ipcheld_one_def ipcheld_one_port_def
      sched_assert_locked_def count_runnable_def wake_idle_cpu_def reprioritize_def total_refs_def
      refs_at_def port_at_def)

lemma wt_set [simp]:
  "set_port (wt t s) a p = wt t (set_port s a p)" "set_proc (wt t s) i q = wt t (set_proc s i q)"
  "set_waiter (wt t s) w x = wt t (set_waiter s w x)" "set_rq (wt t s) n r = wt t (set_rq s n r)"
  "sched_unlock (wt t s) = wt t (sched_unlock s)"
  "(wt t s)\<lparr>k_wakes := ws\<rparr> = wt t (s\<lparr>k_wakes := ws\<rparr>)"
  "(wt t s)\<lparr>k_claim_won := m\<rparr> = wt t (s\<lparr>k_claim_won := m\<rparr>)"
  "(wt t s)\<lparr>k_claim_lost := m\<rparr> = wt t (s\<lparr>k_claim_lost := m\<rparr>)"
  "(wt t s)\<lparr>k_hangup_gen := m\<rparr> = wt t (s\<lparr>k_hangup_gen := m\<rparr>)"
  "(wt t s)\<lparr>k_schedlock := l\<rparr> = wt t (s\<lparr>k_schedlock := l\<rparr>)"
  "(wt t s)\<lparr>k_chunks := c\<rparr> = wt t (s\<lparr>k_chunks := c\<rparr>)"
  by (simp_all add: wt_def set_port_def set_proc_def set_waiter_def set_rq_def sched_unlock_def)

lemma mapr_case [simp]:
  "mapr f (case x of None \<Rightarrow> a | Some y \<Rightarrow> b y) = (case x of None \<Rightarrow> mapr f a | Some y \<Rightarrow> mapr f (b y))"
  "mapr f (case z of (u, v) \<Rightarrow> c u v) = (case z of (u, v) \<Rightarrow> mapr f (c u v))"
  by (simp_all split: option.split prod.split)

lemma wt_sched [simp]:
  "sched_lock (wt t s) = mapr (wt t) (sched_lock s)" "rq_add q i (wt t s) = mapr (wt t) (rq_add q i s)"
  "rq_del i (wt t s) = mapr (wt t) (rq_del i s)" "price i (wt t s) = mapr (wt t) (price i s)"
  by (simp_all add: sched_lock_def rq_add_def rq_del_def price_def Let_def
      cong: option.case_cong prod.case_cong if_cong)

lemma bnd_if: "bnd (if c then a else b) f = (if c then bnd a f else bnd b f)"
  by simp

lemma wt_ready_enqueue [simp]: "ready_enqueue i keep (wt t s) = mapr (wt t) (ready_enqueue i keep s)"
  by (simp add: ready_enqueue_def bnd_if option.case_distrib [of "wt t"] cong: option.case_cong if_cong)

lemma wt_make_ready [simp]: "make_ready i (wt t s) = mapr (wt t) (make_ready i s)"
  by (simp add: make_ready_def cong: if_cong)

lemma wt_wake_steps [simp]:
  "port_waiters_del w a (wt t s) = mapr (wt t) (port_waiters_del w a s)"
  "wake_claim i (wt t s) = mapr (\<lambda>(b, s). (b, wt t s)) (wake_claim i s)"
  "chunk_free c (wt t s) = mapr (wt t) (chunk_free c s)"
  by (simp_all add: wake_claim_def port_waiters_del_def chunk_free_def cong: if_cong option.case_cong)

lemma wt_wake_one [simp]: "wake_one send a w (wt t s) = mapr (wt t) (wake_one send a w s)"
  by (simp add: wake_one_def case_prod_unfold cong: if_cong)

lemma wt_wake_loop [simp]: "wake_loop send a ws (wt t s) = mapr (wt t) (wake_loop send a ws s)"
  by (induction ws arbitrary: s) simp_all

lemma wt_wake_all [simp]:
  "wake_receivers a (wt t s) = mapr (wt t) (wake_receivers a s)"
  "wake_senders a (wt t s) = mapr (wt t) (wake_senders a s)"
  by (simp_all add: wake_receivers_def wake_senders_def)

lemma wt_hangup [simp]: "port_hangup a (wt t s) = mapr (wt t) (port_hangup a s)"
  by (simp add: port_hangup_def)

lemma wt_msgbufs [simp]: "msgbufs_free b (wt t s) = mapr (wt t) (msgbufs_free b s)"
proof (induction b s rule: msgbufs_free.induct)
  case (3 c n b s)
  then show ?case by (cases "chunk_free c s") simp_all
qed simp_all

lemma wt_port_free [simp]: "port_free a (wt t s) = mapr (wt t) (port_free a s)"
  by (cases "k_pheap s a") (simp_all add: port_free_def wt_def get_port_def)

text \<open>A function that drops a reference and leaves the timers alone, and what is built on it.\<close>

locale timer_blind =
  fixes unref :: "addr \<Rightarrow> kstate \<Rightarrow> fault + kstate"
  assumes blind: "unref a (wt t s) = mapr (wt t) (unref a s)"
begin

lemma wt_release: "release_inflight_with unref refs (wt t s) = mapr (wt t) (release_inflight_with unref refs s)"
proof (induction refs arbitrary: s)
  case (Cons r refs)
  obtain i b where r: "r = (i, b)" by fastforce
  show ?case
    by (cases b) (simp_all add: r blind Cons.IH bnd_assoc cong: option.case_cong)
qed simp

lemma wt_msgs: "msgs_free_by unref ms (wt t s) = mapr (wt t) (msgs_free_by unref ms s)"
proof (induction ms arbitrary: s)
  case (Cons m ms)
  have "msg_free_by unref m (wt t s) = mapr (wt t) (msg_free_by unref m s)" for s
    by (simp add: msg_free_by_def release_inflight_by_def wt_release bnd_assoc)
  then show ?case by (simp add: Cons.IH)
qed simp

lemma wt_flush: "port_flush_by unref a (wt t s) = mapr (wt t) (port_flush_by unref a s)"
  by (simp add: port_flush_by_def wt_msgs)

end

lemma timer_blind_all: "timer_blind (port_unref_f n)"
proof (induction n)
  case 0
  show ?case by unfold_locales simp
next
  case (Suc n)
  note flush = timer_blind.wt_flush [OF Suc]
  show ?case by unfold_locales (simp add: Let_def flush bnd_if cong: if_cong)
qed

interpretation tb: timer_blind "port_unref_f n" for n
  by (rule timer_blind_all)

lemma wt_unref [simp]: "port_unref a (wt t s) = mapr (wt t) (port_unref a s)"
  by (simp add: port_unref_def tb.blind)

section \<open>Timers keep the references accounted for\<close>

lemma timed_upd:
  assumes "i < MAXTIMERS"
  shows "timed (s\<lparr>k_timers := (k_timers s)(i := t)\<rparr>) a + of_bool (t_port (k_timers s i) = Some a)
    = timed s a + of_bool (t_port t = Some a)"
  using sum_one_change [OF assms, of "\<lambda>j. of_bool (t_port (((k_timers s)(i := t)) j) = Some a)"
      "\<lambda>j. of_bool (t_port (k_timers s j) = Some a)"]
  by (simp add: timed_def)

lemma timer_live:
  assumes "port_inv G C s" and "i < MAXTIMERS" and "t_port (k_timers s i) = Some a"
  obtains p where "k_pheap s a = Some p"
proof -
  have "(of_bool (t_port (k_timers s i) = Some a) :: nat) \<le> timed s a"
    unfolding timed_def by (rule sum_ge_one [OF assms(2)])
  then have "k_pheap s a \<noteq> None"
    using assms(3) counts_okD(4) [OF port_invD(2) [OF assms(1)], of a True] by auto
  then show ?thesis using that by blast
qed

text \<open>Moving a reference between the timer table and the code's hands.\<close>

lemma pinv_timers:
  assumes inv: "pinv G C s" and i: "i < MAXTIMERS" and p: "k_pheap s a = Some p"
    and G: "\<And>x. x \<noteq> (pt_idx p, False) \<Longrightarrow> G' x = G x"
    and t: "G' (pt_idx p, False) + of_bool (t_port t = Some a)
      = G (pt_idx p, False) + of_bool (t_port (k_timers s i) = Some a)"
    and other: "\<And>b. b \<noteq> a \<Longrightarrow> t_port t \<noteq> Some b \<and> t_port (k_timers s i) \<noteq> Some b"
  shows "pinv G' C (s\<lparr>k_timers := (k_timers s)(i := t)\<rparr>)"
proof -
  let ?s = "s\<lparr>k_timers := (k_timers s)(i := t)\<rparr>"
  have pi: "port_inv G C s" and wi: "wake_inv s" using inv by (auto simp: pinv_def)
  note D = port_invD [OF pi]
  note cD = counts_okD [OF D(2)]
  have v: "k_portv s (pt_idx p) = Some a" using ptable_okD(1) [OF D(1) p] .
  have uniq: "k_portv s j = Some a \<Longrightarrow> j = pt_idx p" for j using ptable_okD(3) [OF D(1), of j a] p by auto
  have sq: "slot_queue ?s = slot_queue s" by (simp add: slot_queue_def port_at_def fun_eq_iff)
  have cnt: "infl ?s x = infl s x" "held ?s b r = held s b r" "chunk_infl ?s c = chunk_infl s c" for x b r c
    by (simp_all add: infl_def chunk_infl_def held_def sq)
  note tm = timed_upd [OF i, of s t]
  have "counts_ok G' ?s"
    unfolding counts_ok_def
  proof (intro conjI allI impI)
    fix j b q
    assume vb: "k_portv ?s j = Some b" and q: "k_pheap ?s b = Some q"
    show "pt_nrecv q = int (refs_of G' ?s j b True)"
      using cD(1) [of j b q] vb q G [of "(j, True)"] by (simp add: refs_of_def cnt)
    show "pt_nrights q = int (refs_of G' ?s j b True + refs_of G' ?s j b False + timed ?s b)"
    proof (cases "b = a")
      case True
      then have "j = pt_idx p" using uniq vb by simp
      then show ?thesis
        using cD(2) [of j b q] vb q G [of "(j, True)"] t tm [of a] True by (simp add: refs_of_def cnt)
    next
      case False
      then have "j \<noteq> pt_idx p" using v vb by auto
      then show ?thesis
        using cD(2) [of j b q] vb q G [of "(j, True)"] G [of "(j, False)"] tm [of b] other [OF False]
        by (simp add: refs_of_def cnt)
    qed
  next
    fix j r
    assume "k_portv ?s j = None"
    then have "j \<noteq> pt_idx p" "infl s (j, r) = 0 \<and> G (j, r) = 0" using v cD(3) [of j r] by auto
    then show "infl ?s (j, r) = 0" and "G' (j, r) = 0" using G [of "(j, r)"] by (auto simp: cnt)
  next
    fix b r
    assume b: "k_pheap ?s b = None"
    then have "b \<noteq> a" using p by auto
    then show "held ?s b r = 0" and "timed ?s b = 0"
      using cD(4) [of b r] b tm [of b] other [of b] by (auto simp: cnt)
  qed
  moreover have "chunks_ok C ?s" "ptable_ok ?s" "tables_ok ?s"
    using D(1,3,4) by (simp_all add: chunks_ok_def cnt ptable_ok_def tables_ok_def)
  moreover have "wake_inv ?s" by (rule wake_inv_ports [OF wi]) auto
  ultimately show ?thesis using pi by (simp add: pinv_def port_inv_def)
qed

lemma wt_kinv [simp]: "ipcheld (wt t s) = ipcheld s"
  by (simp add: ipcheld_iff ipcheld_one_def)

lemma wt_slots [simp]: "slot_queue (wt t s) = slot_queue s" "acyc rank (wt t s) = acyc rank s"
  by (simp_all add: slot_queue_def port_at_def fun_eq_iff acyc_def)

lemma unref_timers: "port_unref a s = Inr s' \<Longrightarrow> k_timers s' = k_timers s"
proof -
  assume u: "port_unref a s = Inr s'"
  have "wt (k_timers s) s = s" by (simp add: wt_def)
  with wt_unref [of a "k_timers s" s] u have "s' = wt (k_timers s) s'" by simp
  then show ?thesis by (metis wt_sel(20))
qed

lemma drop_timer_ok:
  assumes inv: "kinv G C s" and ac: "acyc rank s" and i: "i < MAXTIMERS"
    and a: "t_port (k_timers s i) = Some a"
  shows "\<exists>s'. port_unref a s = Inr s' \<and> kinv G C (clear_timer i s') \<and> eased {} s (clear_timer i s')
    \<and> k_timers (clear_timer i s') = (k_timers s)(i := (k_timers s i)\<lparr>t_port := None\<rparr>)"
proof -
  have pi: "pinv G C s" and held: "ipcheld s" using inv by (auto simp: pinv_kinv)
  obtain p where p: "k_pheap s a = Some p" using timer_live [of G C s i a] pi i a by (auto simp: pinv_def)
  define T where "T = (k_timers s)(i := (k_timers s i)\<lparr>t_port := None\<rparr>)"
  define G1 where "G1 = G((pt_idx p, False) := G (pt_idx p, False) + 1)"
  have "pinv G1 C (s\<lparr>k_timers := (k_timers s)(i := (k_timers s i)\<lparr>t_port := None\<rparr>)\<rparr>)"
    by (rule pinv_timers [OF pi i p]) (use a in \<open>auto simp: G1_def\<close>)
  then have k: "kinv G1 C (wt T s)" using held by (simp add: pinv_kinv wt_def [of T] T_def [symmetric])
      (simp add: wt_def [symmetric])
  have "k_pheap (wt T s) a = Some p" "0 < G1 (pt_idx p, False)" using p by (simp_all add: G1_def)
  from port_unref_ok [OF k _ this, of rank] ac obtain u where
    u: "port_unref a (wt T s) = Inr u" "kinv (drop1 G1 (pt_idx p, False)) C u" "shrunk (wt T s) u"
    by auto
  then obtain s' where s': "port_unref a s = Inr s'" "u = wt T s'"
    by (cases "port_unref a s") auto
  have c: "clear_timer i s' = u"
    using unref_timers [OF s'(1)] by (simp add: clear_timer_def s'(2) wt_def T_def)
  have "drop1 G1 (pt_idx p, False) = G" by (simp add: drop1_def G1_def)
  moreover have "eased {} s (wt T s)" by (simp add: eased_def)
  then have "eased {} s u" using eased_trans eased_shrunk [OF u(3)] by blast
  ultimately show ?thesis using s'(1) u(2) c by (auto simp: s'(2) T_def)
qed

definition disarmed :: "(nat \<Rightarrow> ktimer) \<Rightarrow> nat \<Rightarrow> nat \<Rightarrow> ktimer" where
  "disarmed t i = t(i := (t i)\<lparr>t_port := None\<rparr>)"

lemma fire_timer_ok:
  assumes inv: "kinv G C s" and ac: "acyc rank s" and i: "i < MAXTIMERS"
    and a: "t_port (k_timers s i) = Some a"
  shows "\<exists>s'. fire_timer i a s = Inr s' \<and> kinv G C s' \<and> eased {} s s' \<and> k_timers s' = disarmed (k_timers s) i"
proof -
  obtain p where p: "k_pheap s a = Some p"
    using timer_live [of G C s i a] inv i a by (auto simp: kinv_def)
  from port_push_ok [of G "[]" C s rank a p tick_msg] inv ac p obtain rc t where
    t: "port_push a tick_msg [] s = Inr (rc, t)" "kinv G C t" "eased {} s t" "k_timers t = k_timers s" by auto
  have "t_port (k_timers t i) = Some a" using t(4) a by simp
  from drop_timer_ok [OF t(2) eased_acyc [OF ac t(3)] i this] obtain u where
    "port_unref a t = Inr u" "kinv G C (clear_timer i u)" "eased {} t (clear_timer i u)"
    "k_timers (clear_timer i u) = (k_timers t)(i := (k_timers t i)\<lparr>t_port := None\<rparr>)" by blast
  then show ?thesis using t(1,4) eased_trans [OF t(3)] by (simp add: fire_timer_def disarmed_def)
qed

lemma expire_loop_ok:
  assumes "kinv G C s" and "acyc rank s" and "set is \<subseteq> {..<MAXTIMERS}" and "distinct is"
  shows "\<exists>s'. expire_loop now is s = Inr s' \<and> kinv G C s' \<and> eased {} s s'
    \<and> (\<forall>i. k_timers s' i = (if i \<in> set is \<and> t_port (k_timers s i) \<noteq> None \<and> now \<ge> t_due_ms (k_timers s i)
          then (k_timers s i)\<lparr>t_port := None\<rparr> else k_timers s i))"
  using assms
proof (induction "is" arbitrary: s)
  case Nil
  then show ?case by simp
next
  case (Cons i "is")
  show ?case
  proof (cases "t_port (k_timers s i) \<noteq> None \<and> now \<ge> t_due_ms (k_timers s i)")
    case False
    then have "expire_loop now (i # is) s = expire_loop now is s"
      by (cases "t_port (k_timers s i)") auto
    then show ?thesis using Cons.IH [OF Cons.prems(1,2)] Cons.prems(3,4) False by (auto simp: fun_eq_iff)
  next
    case True
    then obtain a where a: "t_port (k_timers s i) = Some a" by auto
    from fire_timer_ok [OF Cons.prems(1,2) _ a] Cons.prems(3) obtain t where
      t: "fire_timer i a s = Inr t" "kinv G C t" "eased {} s t" "k_timers t = disarmed (k_timers s) i" by auto
    from Cons.IH [OF t(2) eased_acyc [OF Cons.prems(2) t(3)]] Cons.prems(3,4) obtain s' where
      s': "expire_loop now is t = Inr s'" "kinv G C s'" "eased {} t s'"
      "\<forall>j. k_timers s' j = (if j \<in> set is \<and> t_port (k_timers t j) \<noteq> None \<and> now \<ge> t_due_ms (k_timers t j)
          then (k_timers t j)\<lparr>t_port := None\<rparr> else k_timers t j)" by auto
    have "expire_loop now (i # is) s = Inr s'" using True a t(1) s'(1) by simp
    moreover have "k_timers s' j = (if j \<in> set (i # is) \<and> t_port (k_timers s j) \<noteq> None
        \<and> now \<ge> t_due_ms (k_timers s j) then (k_timers s j)\<lparr>t_port := None\<rparr> else k_timers s j)" for j
      using s'(4) t(4) True Cons.prems(4) by (cases "j = i") (auto simp: disarmed_def)
    ultimately show ?thesis using s'(2) eased_trans [OF t(3) s'(3)] by auto
  qed
qed

lemma reap_loop_ok:
  assumes "kinv G C s" and "acyc rank s" and "set is \<subseteq> {..<MAXTIMERS}" and "distinct is"
  shows "\<exists>s'. reap_timers_loop is s = Inr s' \<and> kinv G C s' \<and> eased {} s s'
    \<and> (\<forall>i. k_timers s' i = k_timers s i \<or> k_timers s' i = (k_timers s i)\<lparr>t_port := None\<rparr>)"
  using assms
proof (induction "is" arbitrary: s)
  case Nil
  then show ?case by simp
next
  case (Cons i "is")
  have keep: ?case if "reap_timers_loop (i # is) s = reap_timers_loop is s"
    using Cons.IH [OF Cons.prems(1,2)] Cons.prems(3,4) that by auto
  show ?case
  proof (cases "t_port (k_timers s i)")
    case None
    then show ?thesis using keep by simp
  next
    case (Some a)
    obtain p where p: "k_pheap s a = Some p"
      using timer_live [of G C s i a] Cons.prems Some by (auto simp: kinv_def)
    show ?thesis
    proof (cases "pt_dead p")
      case False
      then show ?thesis using keep Some p by (simp add: get_Some)
    next
      case True
      from drop_timer_ok [OF Cons.prems(1,2) _ Some] Cons.prems(3) obtain t where
        t: "port_unref a s = Inr t" "kinv G C (clear_timer i t)" "eased {} s (clear_timer i t)"
        "k_timers (clear_timer i t) = (k_timers s)(i := (k_timers s i)\<lparr>t_port := None\<rparr>)" by auto
      from Cons.IH [OF t(2) eased_acyc [OF Cons.prems(2) t(3)]] Cons.prems(3,4) obtain s' where
        s': "reap_timers_loop is (clear_timer i t) = Inr s'" "kinv G C s'" "eased {} (clear_timer i t) s'"
        "\<forall>j. k_timers s' j = k_timers (clear_timer i t) j
          \<or> k_timers s' j = (k_timers (clear_timer i t) j)\<lparr>t_port := None\<rparr>" by auto
      have "k_timers s' j = k_timers s j \<or> k_timers s' j = (k_timers s j)\<lparr>t_port := None\<rparr>" for j
        using s'(4) [rule_format, of j] unfolding t(4) by (cases "j = i") auto
      then show ?thesis using True Some p t(1) s'(1,2) eased_trans [OF t(3) s'(3)] by (auto simp: get_Some)
    qed
  qed
qed

lemma reap_dead_timers_ok:
  assumes "kinv G C s" and "acyc rank s"
  shows "\<exists>s'. reap_dead_timers s = Inr s' \<and> kinv G C s' \<and> eased {} s s'
    \<and> (\<forall>i. k_timers s' i = k_timers s i \<or> k_timers s' i = (k_timers s i)\<lparr>t_port := None\<rparr>)"
  unfolding reap_dead_timers_def by (rule reap_loop_ok [OF assms]) auto

lemma uptime_nolocks: "uptime_ms (nolocks s) = uptime_ms s"
  by (simp add: uptime_ms_def nolocks_def)

lemma timer_set_ok:
  assumes k: "kinv G C s" and p: "k_pheap s a = Some p" and i: "i < MAXTIMERS" and n: "t_port (k_timers s i) = None"
  shows "\<exists>s'. timer_set i a ms s = Inr s' \<and> kinv G C s' \<and> eased {} s s'
    \<and> k_timers s' = (k_timers s)(i := \<lparr>t_port = Some a, t_due_ms = uptime_ms s + ms\<rparr>)"
proof -
  let ?p = "p\<lparr>pt_nrights := pt_nrights p + 1\<rparr>" and ?G = "G((pt_idx p, False) := G (pt_idx p, False) + 1)"
  let ?u = "set_port s a ?p" and ?t = "\<lparr>t_port = Some a, t_due_ms = uptime_ms s + ms\<rparr>"
  let ?v = "?u\<lparr>k_timers := (k_timers ?u)(i := ?t)\<rparr>"
  have pi: "port_inv G C s" and wi: "wake_inv s" and held: "ipcheld s" using k by (auto simp: kinv_def)
  have "port_inv ?G C ?u"
    by (rule port_inv_set_port [OF pi p]) (use port_invD(5) [OF pi p] in \<open>auto simp: queue_ok_def\<close>)
  moreover have "wake_inv ?u" by (rule wake_inv_set_port [OF wi p]) simp
  ultimately have "pinv ?G C ?u" by (simp add: pinv_def)
  then have "pinv G C ?v" by (rule pinv_timers [OF _ i, where a = a and p = ?p]) (use n in auto)
  moreover have "ipcheld ?v" using held by (simp add: ipcheld_iff ipcheld_one_def)
  moreover have sq: "slot_queue ?v = slot_queue s" by (rule slot_queue_cong) (use p in auto)
  then have "eased {} s ?v" by (intro eased_same) (simp_all add: uptime_ms_def)
  moreover have "uptime_ms ?u = uptime_ms s" by (simp add: uptime_ms_def)
  ultimately show ?thesis using p by (simp add: timer_set_def get_Some Let_def pinv_kinv)
qed

lemma timer_arm_ok:
  assumes k: "kinv G C s" and ac: "acyc rank s" and q: "k_procs s j = Some q" "holds q a"
  shows "\<exists>ok s'. timer_arm a ms s = Inr (ok, s') \<and> kinv G C s' \<and> eased {} s s'
    \<and> (ok \<longrightarrow> (\<exists>i<MAXTIMERS. k_timers s' i = \<lparr>t_port = Some a, t_due_ms = uptime_ms s + ms\<rparr>))"
proof -
  have arm: "\<exists>s'. timer_set i a ms t = Inr s' \<and> kinv G C s' \<and> eased {} s s'
      \<and> k_timers s' = (k_timers t)(i := \<lparr>t_port = Some a, t_due_ms = uptime_ms t + ms\<rparr>) \<and> i < MAXTIMERS"
    if t: "kinv G C t" "eased {} s t" "free_timer t = Some i" for t i
  proof -
    have i: "i < MAXTIMERS" "t_port (k_timers t i) = None"
      using find_upt_Some [OF t(3) [unfolded free_timer_def]] by auto
    have "map_option core_proc (k_procs t j) = map_option core_proc (k_procs s j)" using t(2) by (simp add: eased_def)
    then obtain q' where q': "k_procs t j = Some q'" "core_proc q' = core_proc q" using q(1) by auto
    have "pr_rights q' = pr_rights q" "pr_xrights q' = pr_xrights q" using q'(2) by (metis core_proc_sel)+
    then have "holds q' a" using q(2) holds_cong by blast
    then obtain p where "k_pheap t a = Some p" using holds_live [of G C t j q' a] t(1) q'(1) by (auto simp: kinv_def)
    from timer_set_ok [OF t(1) this i, of ms] show ?thesis using i(1) eased_trans [OF t(2)] by blast
  qed
  show ?thesis
  proof (cases "free_timer s")
    case (Some i)
    from arm [OF k eased_refl Some] obtain s' where
      "timer_set i a ms s = Inr s'" "kinv G C s'" "eased {} s s'" "i < MAXTIMERS"
      "k_timers s' = (k_timers s)(i := \<lparr>t_port = Some a, t_due_ms = uptime_ms s + ms\<rparr>)" by blast
    then show ?thesis using Some by (intro exI [of _ True] exI [of _ s']) (auto simp: timer_arm_def)
  next
    case None
    from reap_dead_timers_ok [OF k ac] obtain t where t: "reap_dead_timers s = Inr t" "kinv G C t" "eased {} s t" by blast
    show ?thesis
    proof (cases "free_timer t")
      case (Some i)
      have "uptime_ms t = uptime_ms s" using t(3) by (simp add: eased_def)
      moreover from arm [OF t(2,3) Some] obtain s' where
        "timer_set i a ms t = Inr s'" "kinv G C s'" "eased {} s s'" "i < MAXTIMERS"
        "k_timers s' = (k_timers t)(i := \<lparr>t_port = Some a, t_due_ms = uptime_ms t + ms\<rparr>)" by blast
      ultimately show ?thesis using None t(1) Some by (intro exI [of _ True] exI [of _ s']) (auto simp: timer_arm_def)
    qed (use None t in \<open>auto simp: timer_arm_def\<close>)
  qed
qed

lemma expire_timers_ok:
  assumes inv: "pinv G C s" and ac: "acyc rank s" and lk: "locks_ok s"
    and fr: "\<forall>b<NIPCLOCK. bucket_free s b"
  shows "\<exists>s'. expire_timers s = Inr s' \<and> pinv G C s' \<and> locks_ok s' \<and> depth_of s' = depth_of s
    \<and> (\<forall>i<MAXTIMERS. t_port (k_timers s' i) = None
        \<or> (k_timers s' i = k_timers s i \<and> uptime_ms s < t_due_ms (k_timers s i)))
    \<and> (\<exists>t v. ipclock_enter s = Inr t \<and> kinv G C v \<and> eased {} t v \<and> s' = ipclock_leave v)"
proof -
  obtain t where t: "ipclock_enter s = Inr t" using enter_returns [OF lk fr] .
  note h = enter_held [OF lk t]
  note e = nolocks_sel [OF h(3)]
  have kt: "kinv G C t" using pinv_nolocks [OF h(3) inv] h(2) by (simp add: pinv_kinv)
  have at: "acyc rank t" using ac slots_nolocks(3) [OF h(3)] by simp
  have now: "uptime_ms t = uptime_ms s"
    using arg_cong [OF h(3), of uptime_ms] by (simp only: uptime_nolocks)
  from reap_dead_timers_ok [OF kt at] obtain u where u: "reap_dead_timers t = Inr u" "kinv G C u"
    "eased {} t u" "\<forall>i. k_timers u i = k_timers t i \<or> k_timers u i = (k_timers t i)\<lparr>t_port := None\<rparr>"
 by auto
  have sub: "set [0..<MAXTIMERS] \<subseteq> {..<MAXTIMERS}" by auto
  from expire_loop_ok [OF u(2) eased_acyc [OF at u(3)] sub distinct_upt, of "uptime_ms s"] obtain v where
    v: "expire_loop (uptime_ms s) [0..<MAXTIMERS] u = Inr v" "kinv G C v"
    "\<forall>i. k_timers v i = (if i \<in> set [0..<MAXTIMERS] \<and> t_port (k_timers u i) \<noteq> None
        \<and> uptime_ms s \<ge> t_due_ms (k_timers u i) then (k_timers u i)\<lparr>t_port := None\<rparr> else k_timers u i)"
    "eased {} u v" by auto
  have ev: "eased {} t v" by (rule eased_trans [OF u(3) v(4)])
  then have b: "k_buckets v = k_buckets t" "k_self v = k_self t" by (simp_all add: eased_def)
  have hv: "ipcheld v" and lv: "locks_ok v" using v(2) h(1) locks_ok_cong [OF b(1)] by (auto simp: kinv_def)
  note l = leave_ok [OF lv hv]
  have "expire_timers s = Inr (ipclock_leave v)"
    using t u(1) v(1) by (simp add: expire_timers_def now Let_def)
  moreover have "pinv G C (ipclock_leave v)"
    using pinv_nolocks [OF leave_nolocks] v(2) by (simp add: pinv_kinv)
  moreover have "depth_of (ipclock_leave v) = depth_of s"
    using l(2) h(4) depth_of_cong [OF b] by (simp add: fun_eq_iff)
  moreover have "t_port (k_timers (ipclock_leave v) i) = None
      \<or> (k_timers (ipclock_leave v) i = k_timers s i \<and> uptime_ms s < t_due_ms (k_timers s i))"
    if "i < MAXTIMERS" for i
    using v(3) [rule_format, of i] u(4) [rule_format, of i] that
    unfolding nolocks_sel(4) [OF leave_nolocks, of v] e(4)
    by (cases "t_port (k_timers s i) = None") (auto simp: not_le split: if_splits)
  ultimately show ?thesis using l(1) t v(2) ev by blast
qed

end
