(* ===== verification/Samples.thy ===== *)
theory Samples
  imports Timer
begin

text \<open>
  Concrete kernel states the witnesses of the other theories evaluate on: the state before anything
  has run, two ports, the same with every bucket held, and a proc that holds a right.
\<close>

section \<open>States to try them on\<close>

lemma pinv_kzero: "pinv (\<lambda>_. 0) (\<lambda>_. 0) (kzero mp mq nc ok)"
proof -
  have q: "slot_queue (kzero mp mq nc ok) j = []" for j
    by (simp add: slot_queue_def port_at_def kzero_def)
  have "port_inv (\<lambda>_. 0) (\<lambda>_. 0) (kzero mp mq nc ok)"
    by (simp add: port_inv_def ptable_ok_def counts_ok_def refs_of_def infl_def chunk_infl_def
        held_def timed_def q qrefs_def qchunks_def chunks_ok_def tables_ok_def)
      (simp add: kzero_def)
  moreover have "wake_inv (kzero mp mq nc ok)"
    by (simp add: wake_inv_def waits_ok_def port_waits_ok_def proc_waits_ok_def claims_ok_def rq_ok_def
        on_bucket_def rqset_ok_def kzero_def klock0_def)
  ultimately show ?thesis by (simp add: pinv_def)
qed

lemma locks_kzero: "locks_ok (kzero mp mq nc ok)" "bucket_free (kzero mp mq nc ok) b"
  by (simp_all add: locks_ok_def bucket_ok_def bucket_free_def kzero_def klock0_def)

text \<open>
  A port the kernel keeps a reference to, the way the boot code makes its capability ports: the
  reference belongs to the code, not to any table.
\<close>

definition port_keep :: "addr \<Rightarrow> kstate \<Rightarrow> kstate" where
  "port_keep a s = (case k_pheap s a of None \<Rightarrow> s
     | Some p \<Rightarrow> set_port s a (p\<lparr>pt_nrights := pt_nrights p + 1\<rparr>))"

lemma port_keep_inv:
  assumes "pinv G C s" and "k_pheap s a = Some p"
  shows "pinv (G((pt_idx p, False) := G (pt_idx p, False) + 1)) C (port_keep a s)"
proof -
  have pi: "port_inv G C s" and wi: "wake_inv s" using assms(1) by (auto simp: pinv_def)
  let ?p = "p\<lparr>pt_nrights := pt_nrights p + 1\<rparr>"
  have "port_inv (G((pt_idx p, False) := G (pt_idx p, False) + 1)) C (set_port s a ?p)"
    by (rule port_inv_set_port [OF pi assms(2)])
      (use port_invD(5) [OF pi assms(2)] in \<open>auto simp: queue_ok_def\<close>)
  moreover have "wake_inv (set_port s a ?p)" by (rule wake_inv_set_port [OF wi assms(2)]) simp
  ultimately show ?thesis using assms(2) by (simp add: port_keep_def pinv_def)
qed

text \<open>Two ports, both kept; the first has index 0 and address 1, the second index 1 and address 2.\<close>

definition demo2 :: kstate where
  "demo2 = snd (port_new (snd (port_new (kzero 4 2 1 (\<lambda>_. True)))))"

definition demo0 :: kstate where
  "demo0 = port_keep 2 (port_keep 1 demo2)"

definition demo_owned :: owned where
  "demo_owned = (\<lambda>_. 0)((0, False) := 1, (1, False) := 1)"

lemma demo2_eval:
  "k_portv demo2 = [0 \<mapsto> 1, 1 \<mapsto> 2]"
  "k_pheap demo2 = [1 \<mapsto> new_kport 0 1, 2 \<mapsto> new_kport 1 2]"
  "k_buckets demo2 = k_buckets (kzero 4 2 1 (\<lambda>_. True))" "k_self demo2 = 0"
  "k_procs demo2 = Map.empty" "k_maxprocs demo2 = 2" "k_maxports demo2 = 4" "k_memok demo2 = (\<lambda>_. True)"
  "k_timers demo2 = (\<lambda>_. \<lparr>t_port = None, t_due_ms = 0\<rparr>)"
  by (simp_all add: demo2_def port_new_def kmalloc_def kzero_def port_install_def upt_rec
      numeral_2_eq_2)

lemma demo2_inv: "pinv (\<lambda>_. 0) (\<lambda>_. 0) demo2"
proof -
  have "pinv (\<lambda>_. 0) (\<lambda>_. 0) (snd (port_new (kzero 4 2 1 (\<lambda>_. True))))"
    by (rule port_new_ok(1) [OF pinv_kzero surjective_pairing])
  then show ?thesis
    unfolding demo2_def by (rule port_new_ok(1) [OF _ surjective_pairing])
qed

lemma demo0_eval:
  "k_portv demo0 = [0 \<mapsto> 1, 1 \<mapsto> 2]"
  "k_pheap demo0 = [1 \<mapsto> (new_kport 0 1)\<lparr>pt_nrights := 1\<rparr>, 2 \<mapsto> (new_kport 1 2)\<lparr>pt_nrights := 1\<rparr>]"
  "k_buckets demo0 = k_buckets (kzero 4 2 1 (\<lambda>_. True))" "k_self demo0 = 0"
  "k_procs demo0 = Map.empty" "k_maxprocs demo0 = 2" "k_maxports demo0 = 4" "k_memok demo0 = (\<lambda>_. True)"
  "k_timers demo0 = (\<lambda>_. \<lparr>t_port = None, t_due_ms = 0\<rparr>)"
  by (simp_all add: demo0_def port_keep_def demo2_eval fun_upd_twist)

lemma demo0_inv: "pinv demo_owned (\<lambda>_. 0) demo0"
proof -
  have p1: "k_pheap demo2 1 = Some (new_kport 0 1)" and p2: "k_pheap (port_keep 1 demo2) 2 = Some (new_kport 1 2)"
    by (simp_all add: port_keep_def demo2_eval)
  from port_keep_inv [OF port_keep_inv [OF demo2_inv p1] p2] show ?thesis
    by (simp add: demo0_def demo_owned_def)
qed

lemma demo0_locks: "locks_ok demo0" "bucket_free demo0 b"
  using locks_kzero [of 4 2 1 "\<lambda>_. True"]
  by (simp_all add: locks_ok_def bucket_free_def demo0_eval) (simp add: kzero_def)

text \<open>The same with every bucket taken.\<close>

definition demo1 :: kstate where
  "demo1 = projr (ipclock_enter demo0)"

lemma demo1_inv: "kinv demo_owned (\<lambda>_. 0) demo1" "acyc rank demo1" "nolocks demo1 = nolocks demo0"
proof -
  obtain s where s: "ipclock_enter demo0 = Inr s"
    using enter_returns [OF demo0_locks(1)] demo0_locks(2) by blast
  then have d: "demo1 = s" by (simp add: demo1_def)
  note h = enter_held [OF demo0_locks(1) s]
  show "kinv demo_owned (\<lambda>_. 0) demo1" "nolocks demo1 = nolocks demo0"
    unfolding d using h pinv_nolocks [OF h(3) demo0_inv] by (simp_all add: pinv_kinv)
  have "slot_queue demo0 j = []" for j by (simp add: slot_queue_def port_at_def demo0_eval)
  then show "acyc rank demo1"
    unfolding d using slots_nolocks(1) [OF h(3)] by (simp add: acyc_def qrefs_def)
qed

section \<open>A proc with a right\<close>

text \<open>A slot nobody uses may be given a proc that holds nothing and waits for nothing.\<close>

lemma held_new_proc:
  assumes "k_procs s i = None" "\<And>a r. held_by p a r = 0"
  shows "held (set_proc s i p) a r = held s a r"
  unfolding held_def by (rule sum.cong) (use assms in auto)

lemma pinv_new_proc:
  assumes inv: "pinv G C s" and n: "k_procs s i = None" "i < k_maxprocs s"
    and p: "\<And>a r. held_by p a r = 0" "pr_waiters p = []" "pr_onq p = None" "pr_status p \<noteq> BLOCKED"
  shows "pinv G C (set_proc s i p)"
proof -
  have pi: "port_inv G C s" and wi: "wake_inv s" using inv by (auto simp: pinv_def)
  have w: "waiting (set_proc s i p) v j = waiting s v j" for v j using n p by (auto simp: waiting_def)
  have "port_inv G C (set_proc s i p)"
    using pi n held_new_proc [OF n(1) p(1)]
    by (simp add: port_inv_def counts_ok_def refs_of_def chunks_ok_def tables_ok_def)
  moreover have "rq_ok (set_proc s i p)"
    using wi n p by (auto simp: wake_inv_def rq_ok_def on_bucket_def)
  then have "wake_inv (set_proc s i p)"
    using wi n p by (auto simp: wake_inv_def waits_ok_def port_waits_ok_def proc_waits_ok_def w wait_ok_def claims_ok_def)
  ultimately show ?thesis by (simp add: pinv_def)
qed

text \<open>The proc in slot 0 is running and holds a send right to the first port as its handle 0.\<close>

definition demo_proc :: kproc where
  "demo_proc = kproc0\<lparr>pr_status := READY, pr_id := 1, pr_oncpu := 1\<rparr>"

definition demo3 :: kstate where
  "demo3 = set_port (set_proc (set_proc demo0 0 demo_proc) 0 (right_fill demo_proc 0 1 False)) 1
     (port_ref_inc False ((new_kport 0 1)\<lparr>pt_nrights := 1\<rparr>))"

lemma demo_proc_slot: "right_slot demo_proc h = (if 0 \<le> h \<and> h < int NRIGHTS_INLINE
    then Some \<lparr>r_port = 0, r_recv = False, r_used = False\<rparr> else None)"
  by (auto simp: right_slot_def demo_proc_def kproc0_def)

lemma demo3_inv: "pinv demo_owned (\<lambda>_. 0) demo3"
proof -
  have "pinv demo_owned (\<lambda>_. 0) (set_proc demo0 0 demo_proc)"
    by (rule pinv_new_proc [OF demo0_inv])
      (simp_all add: demo0_eval demo_proc_slot held_by_def right_is_def, simp_all add: demo_proc_def kproc0_def)
  then show ?thesis unfolding demo3_def
    by (rule right_fill_inv [where r = "\<lparr>r_port = 0, r_recv = False, r_used = False\<rparr>"])
      (simp_all add: demo0_eval demo_proc_slot)
qed

lemma demo3_locks: "locks_ok demo3" "bucket_free demo3 b"
  using demo0_locks by (simp_all add: demo3_def locks_ok_def bucket_free_def bucket_ok_def)

lemma demo3_eval:
  "k_procs demo3 = [0 \<mapsto> right_fill demo_proc 0 1 False]" "k_maxports demo3 = 4"
  "k_pheap demo3 = [1 \<mapsto> (new_kport 0 1)\<lparr>pt_nrights := 2\<rparr>, 2 \<mapsto> (new_kport 1 2)\<lparr>pt_nrights := 1\<rparr>]"
  "k_portv demo3 = [0 \<mapsto> 1, 1 \<mapsto> 2]" "k_memok demo3 = (\<lambda>_. True)" "k_self demo3 = 0"
  by (auto simp: demo3_def demo0_eval port_ref_inc_def new_kport_def)

end
