(* ===== verification/IpcProps.thy ===== *)
theory IpcProps
  imports Samples
begin

text \<open>
  The properties of \<open>src/src/port.c\<close>: what the lemmas of the theories before this one come to,
  stated for the code's own functions.
\<close>

section \<open>Dropping a reference\<close>

text \<open>
  C3: dropping a reference is safe. In a state where every reference is accounted for, with all
  buckets held and no right in flight that leads back to a port above it, \<open>port_unref\<close> on a
  reference the code owns returns without touching a freed port, freeing anything twice or
  failing an assertion; afterwards every reference is accounted for again, one fewer, and no
  other port of the same or a higher rank has changed.
\<close>

theorem port_unref_safe:
  assumes "kinv G C s" and "acyc rank s" and "k_pheap s a = Some p" and "0 < G (pt_idx p, False)"
  shows "\<exists>s'. port_unref a s = Inr s' \<and> kinv (drop1 G (pt_idx p, False)) C s'
    \<and> (\<forall>j. j \<noteq> pt_idx p \<longrightarrow> rank (pt_idx p) \<le> rank j \<longrightarrow> same_slot s s' j)"
  using port_unref_ok [OF assms] by blast

theorem port_unref_safe_witness:
  "kinv demo_owned (\<lambda>_. 0) demo1 \<and> acyc (\<lambda>_. 0) demo1
   \<and> k_pheap demo1 1 = Some ((new_kport 0 1)\<lparr>pt_nrights := 1\<rparr>) \<and> 0 < demo_owned (0, False)
   \<and> (\<exists>s'. port_unref 1 demo1 = Inr s' \<and> kinv (drop1 demo_owned (0, False)) (\<lambda>_. 0) s'
       \<and> (\<forall>j. j \<noteq> 0 \<longrightarrow> same_slot demo1 s' j))"
proof -
  have p: "k_pheap demo1 1 = Some ((new_kport 0 1)\<lparr>pt_nrights := 1\<rparr>)"
    using nolocks_sel(2) [OF demo1_inv(3)] by (simp add: demo0_eval)
  have g: "0 < demo_owned (0, False)" by (simp add: demo_owned_def)
  show ?thesis
    using port_unref_safe [OF demo1_inv(1) demo1_inv(2) [of "\<lambda>_. 0"] p] p g demo1_inv by simp
qed

text \<open>
  C20: dropping a reference ends. \<open>port_unref\<close> flushes queues and drops the references it finds
  there in turn; as many steps as there are rights in flight, and one more, are always enough,
  whatever the queues hold and however they point at each other.
\<close>

theorem port_unref_ends:
  assumes "ptable_ok s"
  shows "port_unref a s \<noteq> Inl OutOfFuel"
  using settles_port_unref [OF assms, of a] by (auto simp: settles_def)

theorem port_unref_ends_witness: "ptable_ok demo1 \<and> port_unref 1 demo1 \<noteq> Inl OutOfFuel"
  using port_unref_ends [of demo1 1] demo1_inv(1) by (simp add: kinv_def port_inv_def)

section \<open>Why no right may lead back\<close>

text \<open>
  The hypothesis on the rights in flight is needed. A port that waits in its own queue, as a send of a
  right to the port it names leaves it, has two references when the last handle is dropped: this one and
  the one in the message. The flush then drops the second, which frees the port, and the first call goes
  on with it (\<open>port_hangup\<close>, port.c:363 to 380).
\<close>

lemma self_queued_uaf:
  assumes k: "kinv G C s" and p: "k_pheap s a = Some p" and n: "pt_nrights p = 2" "pt_nrecv p = 0" "\<not> pt_dead p"
    and q: "pt_queue p = [m]" "m_refs m = [(pt_idx p, False)]" "m_bufs m = []"
  shows "port_unref a s = Inl UseAfterFree"
proof -
  have pt: "ptable_ok s" and h: "ipcheld s" using k by (auto simp: kinv_def port_inv_def)
  have v: "k_portv s (pt_idx p) = Some a" and i: "pt_idx p < k_maxports s" using ptable_okD(1,2) pt p by blast+
  have "refs_at s (pt_idx p) \<le> total_refs s" unfolding total_refs_def by (rule sum_ge_one [OF i])
  moreover have "refs_at s (pt_idx p) = 1" using v p q by (simp add: refs_at_def port_at_def queue_refs_def)
  ultimately obtain f where f: "total_refs s = Suc f" by (cases "total_refs s") auto
  have [simp]: "ipc_assert_locked t = Inr ()" if "k_buckets t = k_buckets s" "k_self t = k_self s" for t
    using h that by (simp add: ipc_assert_locked_def ipcheld_iff ipcheld_one_def)
  show ?thesis unfolding port_unref_def f
    using v p n q by (simp add: Let_def get_Some port_flush_by_def msg_free_by_def release_inflight_by_def port_free_def port_hangup_def
        wake_receivers_def ipc_assert_port_def get_port_def)
qed

end
