(* ===== verification/Bytes.thy ===== *)
theory Bytes
  imports Prelude
begin

text \<open>
  Words as bits and as bytes, shared by the components that read or write wire formats and by
  the checksums: exclusive or, shifts that lose nothing, the little-endian and big-endian
  encodings, and that each decoding inverts its encoding.
\<close>

unbundle bit_operations_syntax

section \<open>Bits\<close>

lemma word_xor_eq_0 [simp]: "(a :: 'a::len word) XOR b = 0 \<longleftrightarrow> a = b"
proof
  assume "a XOR b = 0"
  then have "(a XOR b) XOR b = b" by simp
  then show "a = b" by (simp add: xor.assoc)
qed simp

lemma word_xor_cancel [simp]:
  fixes a b c :: "'a::len word"
  shows "a XOR b = a XOR c \<longleftrightarrow> b = c" and "b XOR a = c XOR a \<longleftrightarrow> b = c"
proof -
  show "a XOR b = a XOR c \<longleftrightarrow> b = c" by (metis xor.assoc bit.xor_left_self)
  then show "b XOR a = c XOR a \<longleftrightarrow> b = c" by (simp add: xor.commute)
qed

text \<open>Two words agree when all their bits do; the bits beyond the width are no obligation.\<close>

lemma word_bitI: "(\<And>n. n < LENGTH('a) \<Longrightarrow> bit a n = bit b n) \<Longrightarrow> a = (b :: 'a::len word)"
  by (rule bit_word_eqI)

lemmas word_bits = bit_push_bit_iff bit_drop_bit_eq bit_and_iff bit_or_iff bit_xor_iff bit_not_iff
  bit_unsigned_iff bit_mask_iff bit_take_bit_iff

lemma and_bit_ne_0: "(x :: 'a::len word) AND 2 ^ n \<noteq> 0 \<longleftrightarrow> bit x n"
  by (simp add: and_exp_eq_0_iff_not_bit)

lemma and_ff: "(x :: 'a::len word) AND 0xff = take_bit 8 x" "(x :: 'a::len word) AND 0xffff = take_bit 16 x"
  by (simp_all add: take_bit_eq_mask mask_eq_exp_minus_1)

lemma bit_ff: "bit (0xff :: u32) n \<longleftrightarrow> n < 8"
proof -
  have "(0xff :: u32) = mask 8" by (simp add: mask_eq_exp_minus_1)
  then show ?thesis by (auto simp only: bit_mask_iff possible_bit_word) simp
qed

lemma take_bit_small: "unat x < 2 ^ n \<Longrightarrow> take_bit n x = (x :: 'a::len word)"
  by (simp add: word_unat_eq_iff unsigned_take_bit_eq take_bit_nat_eq_self)

lemma unat_bounds:
  "unat (a :: byte) < 256" "unat (b :: u16) < 65536" "unat (c :: u32) < 4294967296"
  "unat (d :: u64) < 18446744073709551616"
proof -
  have "unat a < 2 ^ LENGTH(8)" "unat b < 2 ^ LENGTH(16)" "unat c < 2 ^ LENGTH(32)" "unat d < 2 ^ LENGTH(64)"
    by (rule unsigned_less)+
  then show "unat a < 256" "unat b < 65536" "unat c < 4294967296" "unat d < 18446744073709551616"
    by simp_all
qed

lemma unat_drop_bit: "unat (drop_bit n x) = unat x div 2 ^ n" for x :: "'a::len word"
proof -
  have "take_bit LENGTH('a) (unat x) = unat x" by (rule take_bit_nat_eq_self) (rule unsigned_less)
  then show ?thesis unfolding unsigned_drop_bit_eq by (simp add: drop_bit_eq_div)
qed

lemma unat_take_bit: "unat (take_bit n x) = unat x mod 2 ^ n" for x :: "'a::len word"
  unfolding unsigned_take_bit_eq by (simp add: take_bit_eq_mod)

lemma unat_ucast: "unat (ucast x :: 'b::len word) = unat x mod 2 ^ LENGTH('b)" for x :: "'a::len word"
  by (simp add: unsigned_ucast_eq take_bit_eq_mod)

lemma uint_byte: "0 \<le> uint (a :: byte)" "uint (a :: byte) < 256"
proof -
  have "uint a < 2 ^ LENGTH(8)" by (rule unsigned_less)
  then show "0 \<le> uint a" "uint a < 256" by simp_all
qed

section \<open>Little-endian numbers\<close>

fun le_val :: "byte list \<Rightarrow> nat" where
  "le_val [] = 0"
| "le_val (b # bs) = unat b + 256 * le_val bs"

fun le_bytes :: "nat \<Rightarrow> nat \<Rightarrow> byte list" where
  "le_bytes 0 v = []"
| "le_bytes (Suc n) v = of_nat v # le_bytes n (v div 256)"

lemma length_le_bytes [simp]: "length (le_bytes n v) = n"
  by (induction n arbitrary: v) auto

lemma nth_le_bytes: "i < n \<Longrightarrow> le_bytes n v ! i = of_nat (v div 256 ^ i)"
proof (induction n arbitrary: v i)
  case (Suc n)
  then show ?case by (cases i) (simp_all add: div_mult2_eq)
qed simp

lemma le_val_le_bytes: "le_val (le_bytes n v) = v mod 256 ^ n"
proof (induction n arbitrary: v)
  case (Suc n)
  have "unat (of_nat v :: byte) = v mod 256" by (simp add: unat_of_nat)
  then show ?case using Suc by (simp add: mod_mult2_eq)
qed simp

lemma le_val_bound: "le_val bs < 256 ^ length bs"
proof (induction bs)
  case (Cons b bs)
  then show ?case using unat_bounds(1) [of b] by simp
qed simp

lemma le_val_append: "le_val (xs @ ys) = le_val xs + 256 ^ length xs * le_val ys"
  by (induction xs) (simp_all add: algebra_simps)

lemma le_bytes_le_val: "length bs = n \<Longrightarrow> le_bytes n (le_val bs) = bs"
proof (induction bs arbitrary: n)
  case (Cons b bs)
  have "(unat b + 256 * le_val bs) div 256 = le_val bs" using unat_bounds(1) [of b] by simp
  moreover have "(of_nat (unat b + 256 * le_val bs) :: byte) = b" 
  proof -
    have "(256 :: byte) = 0" by simp
    then show ?thesis by (simp only: of_nat_add of_nat_mult of_nat_numeral) simp
  qed
  ultimately show ?case using Cons by auto
qed simp

end
