(* ===== verification/Buf.thy ===== *)
theory Buf
  imports Bytes Kstate
begin

text \<open>
  \<open>los.buf\<close>, mutable bytes outside the lua heap: \<open>src/src/buf.c\<close>, and the accounting it is charged
  to in \<open>src/src/proc.c\<close> (\<open>kbuf_charge\<close>, \<open>kbuf_uncharge\<close>, \<open>kbuf_step_due\<close>).

  \<^item> \<open>bs_obj\<close> holds the userdata of one lua state by number, \<open>bs_mem\<close> the chunks behind them. A
    \<open>struct luabuf\<close> points into a chunk at an offset; a view has its parent as user value.
  \<^item> What lua raises is \<open>LuaError\<close>. \<open>Dangling\<close> is a read or write through a pointer to a chunk that
    was freed, or past its end: undefined behaviour in the source.
  \<^item> Whether the chunk source and \<open>lua_newuserdatauv\<close> have memory is decided by the two oracles
    in the state; the second raises out of its caller when it has none.
  \<^item> Optional lua arguments are options. \<open>lua_gc\<close> runs finalizers: a run of the collector is a
    sequence of \<open>buf_gc\<close> steps on unreachable objects.
\<close>

unbundle bit_operations_syntax

record luabuf =
  lb_p :: "(addr \<times> nat) option"
  lb_len :: nat
  lb_ro :: bool
  lb_owned :: bool
  lb_views :: nat
  lb_uv :: "nat option"

record bufs =
  bs_obj :: "nat \<rightharpoonup> luabuf"
  bs_nobj :: nat
  bs_udok :: "nat \<Rightarrow> bool"
  bs_mem :: "addr \<rightharpoonup> byte list"
  bs_nchunk :: nat
  bs_chunkok :: "nat \<Rightarrow> bool"
  bs_nallocs :: nat
  bs_debt :: nat

datatype berr = LuaError string | Dangling

abbreviation (input) GCDEBT :: nat where "GCDEBT \<equiv> 65536"

definition notbuf :: berr where "notbuf = LuaError ''los.buf expected''"
definition gone :: berr where "gone = LuaError ''buffer has been given away''"
definition nomem :: berr where "nomem = LuaError ''not enough memory''"

section \<open>Accounting\<close>

definition kbuf_charge :: "nat \<Rightarrow> kproc \<Rightarrow> bool \<times> kproc" where
  "kbuf_charge n p =
    (let used = (pr_mem_used p + n) mod 2 ^ 64 in
     if pr_mem_limit p \<noteq> 0 \<and> used > pr_mem_limit p then (False, p)
     else (True, p\<lparr>pr_mem_used := used, pr_mem_peak := max used (pr_mem_peak p),
                   pr_buf_used := (pr_buf_used p + n) mod 2 ^ 64,
                   pr_gc_owed := (pr_gc_owed p + n) mod 2 ^ 64\<rparr>))"

definition kbuf_uncharge :: "nat \<Rightarrow> kproc \<Rightarrow> kproc" where
  "kbuf_uncharge n p =
    p\<lparr>pr_mem_used := sz_sub (pr_mem_used p) n, pr_buf_used := sz_sub (pr_buf_used p) n\<rparr>"

definition kbuf_step_due :: "nat \<Rightarrow> bufs \<Rightarrow> bool \<times> bufs" where
  "kbuf_step_due n s =
    (let d = (bs_debt s + n) mod 2 ^ 64 in
     if d < GCDEBT then (False, s\<lparr>bs_debt := d\<rparr>) else (True, s\<lparr>bs_debt := 0\<rparr>))"

section \<open>Memory and objects\<close>

definition bytes_at :: "bufs \<Rightarrow> addr \<times> nat \<Rightarrow> nat \<Rightarrow> berr + byte list" where
  "bytes_at s a n =
    (case bs_mem s (fst a) of
       None \<Rightarrow> Inl Dangling
     | Some bs \<Rightarrow> if snd a + n \<le> length bs then Inr (take n (drop (snd a) bs)) else Inl Dangling)"

definition put_at :: "addr \<times> nat \<Rightarrow> byte list \<Rightarrow> bufs \<Rightarrow> berr + bufs" where
  "put_at a xs s =
    (case bs_mem s (fst a) of
       None \<Rightarrow> Inl Dangling
     | Some bs \<Rightarrow>
         if snd a + length xs \<le> length bs then
           Inr (s\<lparr>bs_mem := (bs_mem s)(fst a \<mapsto>
                   take (snd a) bs @ xs @ drop (snd a + length xs) bs)\<rparr>)
         else Inl Dangling)"

text \<open>
  \<open>platform_chunk_alloc\<close> is \<open>malloc\<close>, which asks for the size and a header of 16 bytes: from \<open>2 ^ 64 - 16\<close> on that sum
  wraps, and what is handed out has no room behind its header.
\<close>

definition granted :: "nat \<Rightarrow> nat" where
  "granted n = (if n < 2 ^ 64 - 16 then n else 0)"

definition chunk_alloc :: "nat \<Rightarrow> bufs \<Rightarrow> addr option \<times> bufs" where
  "chunk_alloc n s =
    (let k = bs_nchunk s in
     if bs_chunkok s k then
       (Some k, s\<lparr>bs_nchunk := Suc k, bs_mem := (bs_mem s)(k \<mapsto> replicate (granted n) 0)\<rparr>)
     else (None, s\<lparr>bs_nchunk := Suc k\<rparr>))"

definition chunk_drop :: "addr \<times> nat \<Rightarrow> bufs \<Rightarrow> berr + bufs" where
  "chunk_drop a s =
    (if bs_mem s (fst a) = None then Inl Dangling
     else Inr (s\<lparr>bs_mem := (bs_mem s)(fst a := None)\<rparr>))"

definition new_object :: "luabuf \<Rightarrow> bufs \<Rightarrow> nat option \<times> bufs" where
  "new_object b s =
    (let k = bs_nobj s in
     if bs_udok s k then (Some k, s\<lparr>bs_nobj := Suc k, bs_obj := (bs_obj s)(k \<mapsto> b)\<rparr>)
     else (None, s\<lparr>bs_nobj := Suc k\<rparr>))"

definition testudata :: "nat \<Rightarrow> bufs \<Rightarrow> luabuf option" where
  "testudata h s = bs_obj s h"

definition shift :: "luabuf \<Rightarrow> nat \<Rightarrow> addr \<times> nat" where
  "shift b off = (case lb_p b of Some (c, o1) \<Rightarrow> (c, o1 + off) | None \<Rightarrow> (0, off))"

definition checkbuf :: "nat \<Rightarrow> bufs \<Rightarrow> berr + luabuf" where
  "checkbuf h s =
    (case bs_obj s h of
       None \<Rightarrow> Inl notbuf
     | Some b \<Rightarrow> if lb_p b = None then Inl gone else Inr b)"

definition checkwritable :: "nat \<Rightarrow> bufs \<Rightarrow> berr + luabuf" where
  "checkwritable h s =
    bnd (checkbuf h s) (\<lambda>b. if lb_ro b then Inl (LuaError ''buffer is read-only'') else Inr b)"

text \<open>A lua value where a payload is expected.\<close>

datatype payload = PStr "byte list" | PBuf nat | POther

definition luabuf_bytes :: "payload \<Rightarrow> bufs \<Rightarrow> berr + byte list option" where
  "luabuf_bytes v s =
    (case v of
       PStr xs \<Rightarrow> Inr (Some xs)
     | POther \<Rightarrow> Inr None
     | PBuf h \<Rightarrow>
         (case testudata h s of
            None \<Rightarrow> Inr None
          | Some b \<Rightarrow>
              if lb_p b = None then Inl gone
              else bnd (bytes_at s (shift b 0) (lb_len b)) (\<lambda>xs. Inr (Some xs))))"

definition luabuf_check :: "payload \<Rightarrow> bufs \<Rightarrow> berr + byte list" where
  "luabuf_check v s =
    bnd (luabuf_bytes v s) (\<lambda>r. case r of
      None \<Rightarrow> Inl (LuaError ''string or buffer expected'') | Some xs \<Rightarrow> Inr xs)"

section \<open>Ranges\<close>

definition clamp_range :: "nat \<Rightarrow> int option \<Rightarrow> int option \<Rightarrow> int \<times> int" where
  "clamp_range len i j =
    (let i = (case i of None \<Rightarrow> 1 | Some i \<Rightarrow> i);
         j = (case j of None \<Rightarrow> -1 | Some j \<Rightarrow> j);
         i = (if i < 0 then int len + i + 1 else i);
         j = (if j < 0 then int len + j + 1 else j);
         i = (if i < 1 then 1 else i);
         j = (if j > int len then int len else j)
     in (i, j))"

definition buf_range :: "nat \<Rightarrow> int option \<Rightarrow> int option \<Rightarrow> nat \<times> nat" where
  "buf_range len i j =
    (let (i, j) = clamp_range len i j in
     if i > j then (0, 0) else (nat (i - 1), nat (j - i + 1)))"

section \<open>Making and freeing\<close>

text \<open>A result with the state it leaves, and the raise of an error that leaves the state.\<close>

type_synonym 'a eff = "(berr + 'a) \<times> bufs"

definition orraise :: "berr + 'a \<Rightarrow> bufs \<Rightarrow> ('a \<Rightarrow> 'b eff) \<Rightarrow> 'b eff" where
  "orraise r s f = (case r of Inl e \<Rightarrow> (Inl e, s) | Inr x \<Rightarrow> f x)"

definition owner_of :: "addr \<Rightarrow> nat \<Rightarrow> luabuf" where
  "owner_of c n = \<lparr>lb_p = Some (c, 0), lb_len = n, lb_ro = False, lb_owned = True, lb_views = 0, lb_uv = None\<rparr>"

definition byte_of :: "int \<Rightarrow> byte" where "byte_of v = word_of_int v"

definition buf_new :: "int \<Rightarrow> int option \<Rightarrow> kproc \<Rightarrow> bufs \<Rightarrow> (berr + nat) \<times> kproc \<times> bufs" where
  "buf_new arg fill p s =
    (let n = nat (arg mod 2 ^ 64);
         fill = (case fill of None \<Rightarrow> 0 | Some f \<Rightarrow> f) in
     if n = 0 then (Inl (LuaError ''a buffer of no bytes''), p, s)
     else case kbuf_charge n p of
       (False, p) \<Rightarrow> (Inl nomem, p, s)
     | (True, p) \<Rightarrow>
         (case chunk_alloc n s of
            (None, s) \<Rightarrow> (Inl nomem, kbuf_uncharge n p, s)
          | (Some c, s) \<Rightarrow>
              (case put_at (c, 0) (replicate n (byte_of fill)) s of
                 Inl e \<Rightarrow> (Inl e, p, s)
               | Inr s \<Rightarrow>
                   (case new_object (owner_of c n) s of
                      (None, s) \<Rightarrow> (Inl nomem, p, s)
                    | (Some h, s) \<Rightarrow>
                        (let s = s\<lparr>bs_nallocs := bs_nallocs s + 1\<rparr> in
                         (Inr h, p, snd (kbuf_step_due n s)))))))"

text \<open>Dropping the count of views of a parent, where it still is a buffer.\<close>

definition drop_view :: "nat option \<Rightarrow> bufs \<Rightarrow> bufs" where
  "drop_view uv s =
    (case uv of
       None \<Rightarrow> s
     | Some q \<Rightarrow>
         (case testudata q s of
            None \<Rightarrow> s
          | Some b \<Rightarrow> if lb_views b > 0 then s\<lparr>bs_obj := (bs_obj s)(q \<mapsto> b\<lparr>lb_views := lb_views b - 1\<rparr>)\<rparr> else s))"

definition clear_p :: "nat \<Rightarrow> bufs \<Rightarrow> bufs" where
  "clear_p h s =
    (case bs_obj s h of None \<Rightarrow> s | Some b \<Rightarrow> s\<lparr>bs_obj := (bs_obj s)(h \<mapsto> b\<lparr>lb_p := None\<rparr>)\<rparr>)"

definition buf_gc :: "nat \<Rightarrow> kproc \<Rightarrow> bufs \<Rightarrow> (berr + unit) \<times> kproc \<times> bufs" where
  "buf_gc h p s =
    (case bs_obj s h of
       None \<Rightarrow> (Inl notbuf, p, s)
     | Some b \<Rightarrow>
         if lb_p b \<noteq> None \<and> lb_owned b then
           (case chunk_drop (shift b 0) s of
              Inl e \<Rightarrow> (Inl e, p, s)
            | Inr s \<Rightarrow> (Inr (), kbuf_uncharge (lb_len b) p, clear_p h s))
         else if \<not> lb_owned b then (Inr (), p, clear_p h (drop_view (lb_uv b) s))
         else (Inr (), p, clear_p h s))"

section \<open>Reading and writing\<close>

definition buf_len :: "nat \<Rightarrow> bufs \<Rightarrow> berr + nat" where
  "buf_len h s = bnd (checkbuf h s) (\<lambda>b. Inr (lb_len b))"

definition buf_sub :: "nat \<Rightarrow> int option \<Rightarrow> int option \<Rightarrow> bufs \<Rightarrow> berr + byte list" where
  "buf_sub h i j s =
    bnd (checkbuf h s) (\<lambda>b. let (off, n) = buf_range (lb_len b) i j in bytes_at s (shift b off) n)"

definition buf_byte :: "nat \<Rightarrow> int option \<Rightarrow> int option \<Rightarrow> bufs \<Rightarrow> berr + int list" where
  "buf_byte h i j s =
    bnd (checkbuf h s) (\<lambda>b. let (off, n) = buf_range (lb_len b) i j in
      if n = 0 then Inr []
      else if n > 250 then Inl (LuaError ''byte: too many at once'')
      else bnd (bytes_at s (shift b off) n) (\<lambda>xs. Inr (map uint xs)))"

text \<open>The arguments of \<open>set\<close> from the third on; \<open>None\<close> is one that is no integer.\<close>

fun set_loop :: "luabuf \<Rightarrow> nat \<Rightarrow> int option list \<Rightarrow> bufs \<Rightarrow> unit eff" where
  "set_loop b off [] s = (Inr (), s)"
| "set_loop b off (None # vs) s = (Inl (LuaError ''number expected''), s)"
| "set_loop b off (Some v # vs) s =
    orraise (put_at (shift b off) [byte_of v] s) s (\<lambda>s. set_loop b (Suc off) vs s)"

definition buf_set :: "nat \<Rightarrow> int \<Rightarrow> int option list \<Rightarrow> bufs \<Rightarrow> unit eff" where
  "buf_set h i vs s =
    orraise (checkwritable h s) s (\<lambda>b.
      if i < 1 \<or> nat (i - 1) + length vs > lb_len b then (Inl (LuaError ''set: outside the buffer''), s)
      else set_loop b (nat (i - 1)) vs s)"

definition buf_copy ::
  "nat \<Rightarrow> int \<Rightarrow> payload \<Rightarrow> int option \<Rightarrow> int option \<Rightarrow> bufs \<Rightarrow> nat option eff" where
  "buf_copy h i v from to s =
    orraise (checkwritable h s) s (\<lambda>b. orraise (luabuf_bytes v s) s (\<lambda>src.
      case src of
        None \<Rightarrow> (Inl (LuaError ''copy: a string or a buffer''), s)
      | Some xs \<Rightarrow>
          (let (from, to) = clamp_range (length xs) from to in
           if from > to then (Inr None, s)
           else (let n = nat (to - from + 1) in
             if i < 1 \<or> nat (i - 1) + n > lb_len b then (Inl (LuaError ''copy: outside the buffer''), s)
             else orraise (put_at (shift b (nat (i - 1))) (take n (drop (nat (from - 1)) xs)) s) s
                    (\<lambda>s. (Inr (Some n), s))))))"

definition buf_fill :: "nat \<Rightarrow> int \<Rightarrow> int option \<Rightarrow> int option \<Rightarrow> bufs \<Rightarrow> unit eff" where
  "buf_fill h v i j s =
    orraise (checkwritable h s) s (\<lambda>b.
      let (off, n) = buf_range (lb_len b) i j in
      orraise (put_at (shift b off) (replicate n (byte_of v)) s) s (\<lambda>s. (Inr (), s)))"

definition getint :: "nat \<Rightarrow> bool \<Rightarrow> nat \<Rightarrow> int \<Rightarrow> bufs \<Rightarrow> berr + u64" where
  "getint nbytes be h i s =
    bnd (checkbuf h s) (\<lambda>b.
      if i < 1 \<or> nat (i - 1) + nbytes > lb_len b then Inl (LuaError ''outside the buffer'')
      else bnd (bytes_at s (shift b (nat (i - 1))) nbytes) (\<lambda>xs.
        Inr (foldl (\<lambda>v k. push_bit 8 v OR ucast (xs ! (if be then k else nbytes - 1 - k))) 0 [0..<nbytes])))"

definition setint_bytes :: "nat \<Rightarrow> bool \<Rightarrow> u64 \<Rightarrow> byte list" where
  "setint_bytes nbytes be v =
    (let le = map (\<lambda>k. ucast (drop_bit (8 * k) v)) [0..<nbytes] in if be then rev le else le)"

definition setint :: "nat \<Rightarrow> bool \<Rightarrow> nat \<Rightarrow> int \<Rightarrow> int \<Rightarrow> bufs \<Rightarrow> unit eff" where
  "setint nbytes be h i v s =
    orraise (checkwritable h s) s (\<lambda>b.
      if i < 1 \<or> nat (i - 1) + nbytes > lb_len b then (Inl (LuaError ''outside the buffer''), s)
      else orraise (put_at (shift b (nat (i - 1))) (setint_bytes nbytes be (word_of_int v)) s) s
             (\<lambda>s. (Inr (), s)))"

section \<open>Views, copies and comparison\<close>

definition view_of :: "nat \<Rightarrow> luabuf \<Rightarrow> nat \<Rightarrow> nat \<Rightarrow> bool \<Rightarrow> bufs \<Rightarrow> nat eff" where
  "view_of h b off n ro s =
    (case new_object \<lparr>lb_p = Some (shift b off), lb_len = n, lb_ro = ro, lb_owned = False,
                      lb_views = 0, lb_uv = Some h\<rparr> s of
       (None, s) \<Rightarrow> (Inl nomem, s)
     | (Some v, s) \<Rightarrow> (Inr v, s\<lparr>bs_obj := (bs_obj s)(h \<mapsto> b\<lparr>lb_views := lb_views b + 1\<rparr>)\<rparr>))"

definition buf_view :: "nat \<Rightarrow> int option \<Rightarrow> int option \<Rightarrow> bufs \<Rightarrow> nat eff" where
  "buf_view h i j s =
    orraise (checkbuf h s) s (\<lambda>b. let (off, n) = buf_range (lb_len b) i j in view_of h b off n (lb_ro b) s)"

definition buf_ro :: "nat \<Rightarrow> bufs \<Rightarrow> nat eff" where
  "buf_ro h s = orraise (checkbuf h s) s (\<lambda>b. view_of h b 0 (lb_len b) True s)"

definition buf_is :: "nat \<Rightarrow> bufs \<Rightarrow> bool" where
  "buf_is h s = (testudata h s \<noteq> None)"

definition movable :: "luabuf \<Rightarrow> bool" where
  "movable b = (lb_p b \<noteq> None \<and> lb_owned b \<and> \<not> lb_ro b \<and> lb_views b = 0)"

definition buf_movable :: "nat \<Rightarrow> bufs \<Rightarrow> berr + bool" where
  "buf_movable h s = (case bs_obj s h of None \<Rightarrow> Inl notbuf | Some b \<Rightarrow> Inr (movable b))"

definition buf_clone :: "nat \<Rightarrow> kproc \<Rightarrow> bufs \<Rightarrow> (berr + nat) \<times> kproc \<times> bufs" where
  "buf_clone h p s =
    (case checkbuf h s of
       Inl e \<Rightarrow> (Inl e, p, s)
     | Inr b \<Rightarrow>
         (case buf_new (int (lb_len b)) None p s of
            (Inl e, p, s) \<Rightarrow> (Inl e, p, s)
          | (Inr k, p, s) \<Rightarrow>
              (case bnd (bytes_at s (shift b 0) (lb_len b)) (\<lambda>xs.
                    bnd (checkbuf k s) (\<lambda>c. put_at (shift c 0) xs s)) of
                 Inl e \<Rightarrow> (Inl e, p, s)
               | Inr s \<Rightarrow> (Inr k, p, s))))"

definition buf_eq :: "nat \<Rightarrow> nat \<Rightarrow> bufs \<Rightarrow> berr + bool" where
  "buf_eq g h s =
    (case (testudata g s, testudata h s) of
       (Some a, Some b) \<Rightarrow>
         if lb_p a = None \<or> lb_p b = None \<or> lb_len a \<noteq> lb_len b then Inr False
         else bnd (bytes_at s (shift a 0) (lb_len a)) (\<lambda>xs.
              bnd (bytes_at s (shift b 0) (lb_len a)) (\<lambda>ys. Inr (xs = ys)))
     | _ \<Rightarrow> Inr False)"

section \<open>Transfer\<close>

definition luabuf_borrow :: "payload \<Rightarrow> bufs \<Rightarrow> (addr \<times> nat \<times> nat) option" where
  "luabuf_borrow v s =
    (case v of
       PBuf h \<Rightarrow>
         (case testudata h s of
            Some b \<Rightarrow> if movable b then Some (fst (shift b 0), lb_len b, h) else None
          | None \<Rightarrow> None)
     | _ \<Rightarrow> None)"

definition luabuf_detach :: "nat \<Rightarrow> kproc \<Rightarrow> bufs \<Rightarrow> kproc \<times> bufs" where
  "luabuf_detach h p s =
    (case bs_obj s h of
       None \<Rightarrow> (p, s)
     | Some b \<Rightarrow> (kbuf_uncharge (lb_len b) p, clear_p h s))"

definition luabuf_isbuf :: "payload \<Rightarrow> bufs \<Rightarrow> bool" where
  "luabuf_isbuf v s = (case v of PBuf h \<Rightarrow> testudata h s \<noteq> None | _ \<Rightarrow> False)"

definition luabuf_pushview :: "nat \<Rightarrow> nat \<Rightarrow> nat \<Rightarrow> bufs \<Rightarrow> nat eff" where
  "luabuf_pushview h off len s =
    orraise (checkbuf h s) s (\<lambda>b.
      if off > lb_len b \<or> (off + len) mod 2 ^ 64 > lb_len b then (Inl (LuaError ''view outside the buffer''), s)
      else view_of h b off len (lb_ro b) s)"

definition luabuf_alloc :: "nat \<Rightarrow> bufs \<Rightarrow> addr option \<times> bufs" where
  "luabuf_alloc n s = (if n \<noteq> 0 then chunk_alloc n s else (None, s))"

definition luabuf_free :: "addr option \<Rightarrow> bufs \<Rightarrow> berr + bufs" where
  "luabuf_free p s = (case p of None \<Rightarrow> Inr s | Some c \<Rightarrow> chunk_drop (c, 0) s)"

datatype given = Given nat | Denied | Raised

definition luabuf_give :: "addr \<Rightarrow> nat \<Rightarrow> kproc \<Rightarrow> bufs \<Rightarrow> given \<times> kproc \<times> bufs" where
  "luabuf_give c len p s =
    (case kbuf_charge len p of
       (False, p) \<Rightarrow> (Denied, p, s)
     | (True, p) \<Rightarrow>
         (case new_object (owner_of c len) s of
            (None, s) \<Rightarrow> (Raised, p, s)
          | (Some h, s) \<Rightarrow> (Given h, p, s)))"

definition luabuf_push :: "nat \<Rightarrow> kproc \<Rightarrow> bufs \<Rightarrow> (berr + (addr \<times> nat) option) \<times> kproc \<times> bufs" where
  "luabuf_push n p s =
    (if n = 0 then (Inr None, p, s)
     else case chunk_alloc n s of
       (None, s) \<Rightarrow> (Inr None, p, s)
     | (Some c, s) \<Rightarrow>
         (case luabuf_give c n p s of
            (Given h, p, s) \<Rightarrow> (Inr (Some (c, h)), p, s\<lparr>bs_nallocs := bs_nallocs s + 1\<rparr>)
          | (Denied, p, s) \<Rightarrow>
              (case chunk_drop (c, 0) s of Inl e \<Rightarrow> (Inl e, p, s) | Inr s \<Rightarrow> (Inr None, p, s))
          | (Raised, p, s) \<Rightarrow> (Inl nomem, p, s)))"

definition luabuf_writable :: "payload \<Rightarrow> bufs \<Rightarrow> berr + (addr \<times> nat \<times> nat) option" where
  "luabuf_writable v s =
    (case v of
       PBuf h \<Rightarrow>
         (case testudata h s of
            None \<Rightarrow> Inr None
          | Some b \<Rightarrow>
              if lb_ro b then Inr None
              else (case lb_p b of
                      None \<Rightarrow> Inl gone
                    | Some (c, off) \<Rightarrow> Inr (Some (c, off, lb_len b))))
     | _ \<Rightarrow> Inr None)"

section \<open>The invariant\<close>

text \<open>
  An owner holds one whole chunk and no other owner holds it. A live view lies in its chunk, was
  made after its parent, and its parent is live on the same chunk; a buffer counts its live
  views.
\<close>

definition kids :: "bufs \<Rightarrow> nat \<Rightarrow> nat set" where
  "kids s h = {v. \<exists>b. bs_obj s v = Some b \<and> lb_p b \<noteq> None \<and> \<not> lb_owned b \<and> lb_uv b = Some h}"

definition placed :: "bufs \<Rightarrow> luabuf \<Rightarrow> bool" where
  "placed s b \<longleftrightarrow> (\<forall>c off. lb_p b = Some (c, off) \<longrightarrow>
     (\<exists>bs. bs_mem s c = Some bs \<and> off + lb_len b \<le> length bs \<and>
           (lb_owned b \<longrightarrow> off = 0 \<and> lb_len b = length bs)))"

definition rooted :: "bufs \<Rightarrow> nat \<Rightarrow> luabuf \<Rightarrow> bool" where
  "rooted s h b \<longleftrightarrow> (\<forall>c off. lb_p b = Some (c, off) \<and> \<not> lb_owned b \<longrightarrow>
     (\<exists>q pb o1. lb_uv b = Some q \<and> q < h \<and> bs_obj s q = Some pb \<and> lb_p pb = Some (c, o1) \<and>
               (lb_ro pb \<longrightarrow> lb_ro b)))"

definition buf_wf :: "bufs \<Rightarrow> bool" where
  "buf_wf s \<longleftrightarrow>
     (\<forall>h. bs_obj s h \<noteq> None \<longrightarrow> h < bs_nobj s) \<and> (\<forall>c bs. bs_mem s c = Some bs \<longrightarrow> c < bs_nchunk s \<and> length bs < 2 ^ 64 - 16) \<and>
     (\<forall>h b. bs_obj s h = Some b \<longrightarrow> placed s b \<and> rooted s h b \<and> lb_views b = card (kids s h)) \<and>
     (\<forall>g h a b c o1 o2. bs_obj s g = Some a \<and> bs_obj s h = Some b \<and> lb_owned a \<and> lb_owned b \<and>
        lb_p a = Some (c, o1) \<and> lb_p b = Some (c, o2) \<longrightarrow> g = h)"

lemma buf_wfD:
  assumes "buf_wf s" "bs_obj s h = Some b"
  shows "h < bs_nobj s" "placed s b" "rooted s h b" "lb_views b = card (kids s h)"
  using assms unfolding buf_wf_def by blast+

lemma owners_eq:
  assumes "buf_wf s" "bs_obj s g = Some a" "bs_obj s h = Some b" "lb_owned a" "lb_owned b"
    "lb_p a = Some (c, o1)" "lb_p b = Some (c, o2)"
  shows "g = h"
  using assms unfolding buf_wf_def by blast

lemma chunk_bound: "buf_wf s \<Longrightarrow> bs_mem s c = Some bs \<Longrightarrow> c < bs_nchunk s \<and> length bs < 2 ^ 64 - 16"
  unfolding buf_wf_def by blast

lemma buf_wfI:
  assumes "\<And>h b. bs_obj s h = Some b \<Longrightarrow> h < bs_nobj s" "\<And>c bs. bs_mem s c = Some bs \<Longrightarrow> c < bs_nchunk s \<and> length bs < 2 ^ 64 - 16"
    "\<And>h b. bs_obj s h = Some b \<Longrightarrow> placed s b" "\<And>h b. bs_obj s h = Some b \<Longrightarrow> rooted s h b"
    "\<And>h b. bs_obj s h = Some b \<Longrightarrow> lb_views b = card (kids s h)"
    "\<And>g h a b c o1 o2. bs_obj s g = Some a \<Longrightarrow> bs_obj s h = Some b \<Longrightarrow> lb_owned a \<Longrightarrow> lb_owned b \<Longrightarrow>
        lb_p a = Some (c, o1) \<Longrightarrow> lb_p b = Some (c, o2) \<Longrightarrow> g = h"
  shows "buf_wf s"
  unfolding buf_wf_def by (intro conjI allI impI) (auto intro: assms(1,3-5) dest: assms(2,6))

lemma kids_bound: "buf_wf s \<Longrightarrow> kids s h \<subseteq> {..<bs_nobj s}"
  unfolding kids_def using buf_wfD(1) by blast

lemma finite_kids: "buf_wf s \<Longrightarrow> finite (kids s h)"
  using kids_bound finite_subset by blast

text \<open>Above every live buffer there is an owner of its chunk; if it is not that owner, that owner has a live view.\<close>

lemma owner_above:
  assumes "buf_wf s" "bs_obj s h = Some b" "lb_p b = Some (c, off)"
  shows "\<exists>g a. bs_obj s g = Some a \<and> lb_owned a \<and> lb_p a = Some (c, 0) \<and> (g = h \<or> kids s g \<noteq> {})"
  using assms(2,3)
proof (induction h arbitrary: b off rule: less_induct)
  case (less h)
  show ?case
  proof (cases "lb_owned b")
    case True
    then have "off = 0" using buf_wfD(2) [OF assms(1) less.prems(1)] less.prems(2) by (auto simp: placed_def)
    then show ?thesis using less.prems True by blast
  next
    case False
    then obtain q pb o1 where q: "lb_uv b = Some q" "q < h" "bs_obj s q = Some pb" "lb_p pb = Some (c, o1)"
      using buf_wfD(3) [OF assms(1) less.prems(1)] less.prems(2) by (auto simp: rooted_def)
    have k: "h \<in> kids s q" using False q(1) less.prems by (auto simp: kids_def)
    show ?thesis using less.IH [OF q(2,3,4)] k by blast
  qed
qed

lemma placed_bytes:
  assumes "placed s b" "lb_p b \<noteq> None" "off + n \<le> lb_len b"
  obtains bs c o1 where "lb_p b = Some (c, o1)" "bs_mem s c = Some bs" "o1 + lb_len b \<le> length bs"
    "bytes_at s (shift b off) n = Inr (take n (drop (o1 + off) bs))"
proof -
  obtain c o1 where p: "lb_p b = Some (c, o1)" using assms(2) by auto
  then obtain bs where bs: "bs_mem s c = Some bs" "o1 + lb_len b \<le> length bs" using assms(1) by (auto simp: placed_def)
  then have "bytes_at s (shift b off) n = Inr (take n (drop (o1 + off) bs))"
    using p assms(3) by (simp add: bytes_at_def shift_def)
  with p bs show thesis using that by blast
qed

lemma bytes_len:
  assumes "placed s b" "lb_p b \<noteq> None" "off + n \<le> lb_len b"
  shows "\<exists>xs. bytes_at s (shift b off) n = Inr xs \<and> length xs = n"
  by (rule placed_bytes [OF assms]) (use assms(3) in auto)

lemma bytes_ok: "placed s b \<Longrightarrow> lb_p b \<noteq> None \<Longrightarrow> off + n \<le> lb_len b \<Longrightarrow> bytes_at s (shift b off) n \<noteq> Inl e"
  by (metis Inl_Inr_False placed_bytes)

lemma checkbuf_ok:
  "checkbuf h s = Inr b \<longleftrightarrow> bs_obj s h = Some b \<and> lb_p b \<noteq> None"
  "checkbuf h s \<noteq> Inl Dangling"
  by (auto simp: checkbuf_def notbuf_def gone_def split: option.splits if_splits)

lemmas checkbuf_okD = checkbuf_ok(1) [THEN iffD1]

lemma checkwritable_ok:
  "checkwritable h s = Inr b \<longleftrightarrow> bs_obj s h = Some b \<and> lb_p b \<noteq> None \<and> \<not> lb_ro b"
  "checkwritable h s \<noteq> Inl Dangling"
  using checkbuf_ok(2) [of h s]
  by (auto simp: checkwritable_def ret_iff checkbuf_ok split: if_splits)

lemma buf_range_ok: "buf_range len i j = (off, n) \<Longrightarrow> off + n \<le> len"
  by (auto simp: buf_range_def clamp_range_def Let_def split: if_splits)

section \<open>Every operation keeps it\<close>

lemma buf_wf_mem:
  assumes "buf_wf s" "bs_obj t = bs_obj s" "bs_nobj s \<le> bs_nobj t" "bs_nchunk s \<le> bs_nchunk t"
    "\<And>c bs. bs_mem t c = Some bs \<Longrightarrow> c < bs_nchunk t \<and> length bs < 2 ^ 64 - 16"
    "\<And>c bs. bs_mem s c = Some bs \<Longrightarrow> \<exists>bs'. bs_mem t c = Some bs' \<and> length bs' = length bs"
  shows "buf_wf t"
proof -
  have k: "kids t h = kids s h" for h using assms(2) by (simp add: kids_def)
  have "placed t b" if "placed s b" for b
    using that assms(6) unfolding placed_def by metis
  then show ?thesis
    using buf_wfD [OF assms(1)] owners_eq [OF assms(1)] assms(2,3,5)
    by (intro buf_wfI) (auto simp: rooted_def k intro: order_less_le_trans)
qed

lemma put_at_ok:
  assumes "buf_wf s" "bs_obj s h = Some b" "lb_p b \<noteq> None" "off + length xs \<le> lb_len b"
  shows "\<exists>s'. put_at (shift b off) xs s = Inr s' \<and> buf_wf s' \<and> bs_obj s' = bs_obj s \<and>
              bytes_at s' (shift b off) (length xs) = Inr xs"
proof -
  obtain bs c o1 where p: "lb_p b = Some (c, o1)" "bs_mem s c = Some bs" "o1 + lb_len b \<le> length bs"
    using placed_bytes [OF buf_wfD(2) [OF assms(1,2)] assms(3), of 0 0] by (metis add_0 le0)
  define s' where "s' = s\<lparr>bs_mem := (bs_mem s)(c \<mapsto> take (o1 + off) bs @ xs @ drop (o1 + off + length xs) bs)\<rparr>"
  have put: "put_at (shift b off) xs s = Inr s'"
    using p assms(4) by (simp add: put_at_def shift_def s'_def)
  have "buf_wf s'"
  proof (rule buf_wf_mem [OF assms(1)])
    show "c' < bs_nchunk s' \<and> length cs < 2 ^ 64 - 16" if "bs_mem s' c' = Some cs" for c' cs
      using that p assms(4) chunk_bound [OF assms(1), of c' bs] chunk_bound [OF assms(1), of c' cs]
      by (auto simp: s'_def split: if_splits)
    show "\<exists>bs'. bs_mem s' c' = Some bs' \<and> length bs' = length cs" if "bs_mem s c' = Some cs" for c' cs
      using that p assms(4) by (auto simp: s'_def)
  qed (simp_all add: s'_def)
  moreover have "bytes_at s' (shift b off) (length xs) = Inr xs"
    using p assms(4) by (simp add: bytes_at_def shift_def s'_def)
  ultimately show ?thesis using put by (auto simp: s'_def)
qed

lemma set_loop_ok:
  assumes "buf_wf s" "bs_obj s h = Some b" "lb_p b \<noteq> None" "off + length vs \<le> lb_len b"
  shows "fst (set_loop b off vs s) \<noteq> Inl Dangling \<and> buf_wf (snd (set_loop b off vs s))"
  using assms
proof (induction b off vs s rule: set_loop.induct)
  case (3 b off v vs s)
  obtain s' where s': "put_at (shift b off) [byte_of v] s = Inr s'" "buf_wf s'" "bs_obj s' = bs_obj s"
    using put_at_ok [OF 3(2,3,4), of off "[byte_of v]"] 3(5) by auto
  show ?case using 3(1) [of s'] s' 3(3,4,5) by (simp add: orraise_def)
qed auto

lemma orraise_simps [simp]: "orraise (Inr x) s f = f x" "orraise (Inl e) s f = (Inl e, s)"
  by (simp_all add: orraise_def)

lemmas eff_simps = orraise_def Let_def split_beta

lemma buf_set_ok: "buf_wf s \<Longrightarrow> fst (buf_set h i vs s) \<noteq> Inl Dangling \<and> buf_wf (snd (buf_set h i vs s))"
proof (cases "checkwritable h s")
  case (Inr b)
  assume "buf_wf s"
  then show ?thesis
    using set_loop_ok [of s h b "nat (i - 1)" vs] Inr checkwritable_ok(1) [of h s b]
    by (auto simp: buf_set_def eff_simps)
qed (use checkwritable_ok(2) [of h s] in \<open>auto simp: buf_set_def eff_simps\<close>)

lemma write_ok:
  assumes "buf_wf s" "bs_obj s h = Some b" "lb_p b \<noteq> None" "off + length xs \<le> lb_len b"
    "\<And>s. fst (k s) \<noteq> Inl Dangling \<and> snd (k s) = s"
  shows "fst (orraise (put_at (shift b off) xs s) s k) \<noteq> Inl Dangling \<and>
         buf_wf (snd (orraise (put_at (shift b off) xs s) s k))"
  using put_at_ok [OF assms(1-4)] assms(5) by (auto simp: orraise_def)

lemma buf_fill_ok: "buf_wf s \<Longrightarrow> fst (buf_fill h v i j s) \<noteq> Inl Dangling \<and> buf_wf (snd (buf_fill h v i j s))"
proof (cases "checkwritable h s")
  case (Inr b)
  assume wf: "buf_wf s"
  obtain off n where r: "buf_range (lb_len b) i j = (off, n)" by fastforce
  then have "buf_fill h v i j s = orraise (put_at (shift b off) (replicate n (byte_of v)) s) s (\<lambda>s. (Inr (), s))"
    using Inr by (simp add: buf_fill_def)
  then show ?thesis
    using write_ok [OF wf, of h b off "replicate n (byte_of v)" "\<lambda>s. (Inr (), s)"]
      Inr checkwritable_ok(1) [of h s b] buf_range_ok [OF r] by simp
qed (use checkwritable_ok(2) [of h s] in \<open>auto simp: buf_fill_def eff_simps\<close>)

lemma luabuf_bytes_ok: "buf_wf s \<Longrightarrow> luabuf_bytes v s \<noteq> Inl Dangling"
proof (cases v)
  case (PBuf h)
  assume wf: "buf_wf s"
  show ?thesis
  proof (cases "bs_obj s h")
    case (Some b)
    then show ?thesis
      using PBuf bytes_ok [OF buf_wfD(2) [OF wf Some], of 0 "lb_len b"]
      by (cases "lb_p b") (simp_all add: luabuf_bytes_def testudata_def gone_def ret_iff)
  qed (simp add: PBuf luabuf_bytes_def testudata_def)
qed (simp_all add: luabuf_bytes_def)

lemma setint_length [simp]: "length (setint_bytes n be v) = n"
  by (simp add: setint_bytes_def Let_def)

lemma setint_ok: "buf_wf s \<Longrightarrow> fst (setint n be h i v s) \<noteq> Inl Dangling \<and> buf_wf (snd (setint n be h i v s))"
proof (cases "checkwritable h s")
  case (Inr b)
  assume wf: "buf_wf s"
  show ?thesis
    using write_ok [OF wf, of h b "nat (i - 1)" "setint_bytes n be (word_of_int v)" "\<lambda>s. (Inr (), s)"]
      Inr checkwritable_ok(1) [of h s b] wf
    by (auto simp: setint_def)
qed (use checkwritable_ok(2) [of h s] in \<open>auto simp: setint_def eff_simps\<close>)

lemma clamp_range_ok: "clamp_range len i j = (a, b) \<Longrightarrow> a \<le> b \<Longrightarrow> 1 \<le> a \<and> b \<le> int len"
  by (auto simp: clamp_range_def Let_def split: if_splits)

lemma buf_copy_ok:
  assumes wf: "buf_wf s"
  shows "fst (buf_copy h i v x y s) \<noteq> Inl Dangling \<and> buf_wf (snd (buf_copy h i v x y s))"
proof (cases "checkwritable h s")
  case (Inr b)
  note b = checkwritable_ok(1) [of h s b, unfolded Inr, simplified]
  show ?thesis
  proof (cases "luabuf_bytes v s")
    case (Inl e)
    then show ?thesis using Inr luabuf_bytes_ok [OF wf, of v] wf by (auto simp: buf_copy_def eff_simps)
  next
    case bytes: (Inr r)
    show ?thesis
    proof (cases r)
      case None
      then show ?thesis using Inr bytes wf by (simp add: buf_copy_def eff_simps)
    next
      case (Some xs)
      obtain f t where ft: "clamp_range (length xs) x y = (f, t)" by fastforce
      let ?n = "nat (t - f + 1)"
      show ?thesis
      proof (cases "f > t \<or> i < 1 \<or> nat (i - 1) + ?n > lb_len b")
        case True
        then show ?thesis using Inr bytes Some ft wf by (auto simp: buf_copy_def eff_simps)
      next
        case False
        have "length (take ?n (drop (nat (f - 1)) xs)) = ?n"
          using clamp_range_ok [OF ft] False by (simp add: min_def) linarith
        moreover have "buf_copy h i v x y s =
            orraise (put_at (shift b (nat (i - 1))) (take ?n (drop (nat (f - 1)) xs)) s) s (\<lambda>s. (Inr (Some ?n), s))"
          using False Inr bytes Some ft unfolding buf_copy_def by (simp add: Let_def)
        ultimately show ?thesis
          using write_ok [OF wf, of h b "nat (i - 1)" "take ?n (drop (nat (f - 1)) xs)" "\<lambda>s. (Inr (Some ?n), s)"]
            b False by simp
      qed
    qed
  qed
qed (use checkwritable_ok(2) [of h s] wf in \<open>auto simp: buf_copy_def eff_simps\<close>)

lemma kids_upd_other:
  assumes "\<And>v. v \<noteq> g \<Longrightarrow> bs_obj t v = bs_obj s v" "g \<notin> kids s h" "g \<notin> kids t h"
  shows "kids t h = kids s h"
proof -
  have "v \<in> kids t h \<longleftrightarrow> v \<in> kids s h" for v
    using assms by (cases "v = g") (auto simp: kids_def)
  then show ?thesis by blast
qed

text \<open>A new owner of a chunk nobody holds.\<close>

lemma add_owner_wf:
  assumes wf: "buf_wf s" and k: "bs_obj s (bs_nobj s) = None" and m: "bs_mem s c = Some bs"
    and free: "\<And>h b off. bs_obj s h = Some b \<Longrightarrow> lb_p b \<noteq> Some (c, off)"
  shows "buf_wf (s\<lparr>bs_nobj := Suc (bs_nobj s), bs_obj := (bs_obj s)(bs_nobj s \<mapsto> owner_of c (length bs))\<rparr>)" (is "buf_wf ?t")
proof (rule buf_wfI)
  have kids: "kids ?t h = kids s h" for h
    by (rule kids_upd_other [of "bs_nobj s"]) (use k in \<open>auto simp: kids_def owner_of_def\<close>)
  have none: "kids s (bs_nobj s) = {}"
  proof -
    have "lb_uv b \<noteq> Some (bs_nobj s)" if "bs_obj s v = Some b" "lb_p b \<noteq> None" "\<not> lb_owned b" for v b
      using buf_wfD(1,3) [OF wf that(1)] that(2,3) by (auto simp: rooted_def)
    then show ?thesis by (auto simp: kids_def)
  qed
  fix h b assume h: "bs_obj ?t h = Some b"
  show "h < bs_nobj ?t" using h buf_wfD(1) [OF wf, of h] by (auto split: if_splits intro: less_SucI)
  show "placed ?t b" using h m buf_wfD(2) [OF wf, of h] by (auto simp: placed_def owner_of_def split: if_splits)
  show "rooted ?t h b"
  proof (cases "h = bs_nobj s")
    case False
    then have "rooted s h b" using h buf_wfD(3) [OF wf, of h] by simp
    then show ?thesis using k unfolding rooted_def by (fastforce split: if_splits)
  qed (use h in \<open>auto simp: rooted_def owner_of_def\<close>)
  show "lb_views b = card (kids ?t h)"
    using h none buf_wfD(4) [OF wf, of h] unfolding kids by (auto simp: owner_of_def split: if_splits)
next
  fix g h a b c' o1 o2 assume "bs_obj ?t g = Some a" "bs_obj ?t h = Some b" "lb_owned a" "lb_owned b"
    "lb_p a = Some (c', o1)" "lb_p b = Some (c', o2)"
  then show "g = h"
    using owners_eq [OF wf, of g a h b c' o1 o2] free [of g a o1] free [of h b o2] by (auto simp: owner_of_def split: if_splits)
qed (use wf in \<open>auto dest: chunk_bound\<close>)

lemma no_kids_new: "buf_wf s \<Longrightarrow> bs_nobj s \<le> h \<Longrightarrow> kids s h = {}"
proof -
  assume wf: "buf_wf s" and h: "bs_nobj s \<le> h"
  have "lb_uv b \<noteq> Some h" if "bs_obj s v = Some b" "lb_p b \<noteq> None" "\<not> lb_owned b" for v b
    using buf_wfD(1,3) [OF wf that(1)] that(2,3) h by (auto simp: rooted_def)
  then show ?thesis by (auto simp: kids_def)
qed

lemma obj_new: "buf_wf s \<Longrightarrow> bs_obj s (bs_nobj s) = None"
  using buf_wfD(1) by fastforce

lemma add_view_wf:
  assumes wf: "buf_wf s" and b: "bs_obj s h = Some b" "lb_p b \<noteq> None" and fit: "off + n \<le> lb_len b"
    and ro: "lb_ro b \<Longrightarrow> r"
  shows "buf_wf (s\<lparr>bs_nobj := Suc (bs_nobj s),
      bs_obj := (bs_obj s)(bs_nobj s \<mapsto> \<lparr>lb_p = Some (shift b off), lb_len = n, lb_ro = r, lb_owned = False,
                                          lb_views = 0, lb_uv = Some h\<rparr>,
                           h \<mapsto> b\<lparr>lb_views := lb_views b + 1\<rparr>)\<rparr>)" (is "buf_wf ?t")
proof (rule buf_wfI)
  note new = obj_new [OF wf] and lt = buf_wfD(1) [OF wf b(1)]
  let ?k = "bs_nobj s"
  obtain c o1 where p: "lb_p b = Some (c, o1)" using b(2) by auto
  have kids: "kids ?t g = (if g = h then insert ?k (kids s h) else kids s g)" for g
    using new b lt p by (auto simp: kids_def split: if_splits)
  have kn: "?k \<notin> kids s h" using new by (auto simp: kids_def)
  fix g a assume g: "bs_obj ?t g = Some a"
  show "g < bs_nobj ?t" using g lt buf_wfD(1) [OF wf, of g] by (auto split: if_splits intro: less_SucI)
  show "placed ?t a"
    using g b(1) fit p buf_wfD(2) [OF wf, of g] buf_wfD(2) [OF wf b(1)]
    by (auto simp: placed_def shift_def split: if_splits)
  show "rooted ?t g a"
  proof (cases "g = ?k")
    case True
    then show ?thesis using g lt p ro by (auto simp: rooted_def shift_def split: if_splits intro!: exI [of _ h])
  next
    case False
    then have "rooted s g (if g = h then b else a)" using g b(1) buf_wfD(3) [OF wf, of g] by (auto split: if_splits)
    then have "rooted s g a" using g False by (auto simp: rooted_def split: if_splits)
    then show ?thesis using new b(1) unfolding rooted_def by (fastforce split: if_splits)
  qed
  show "lb_views a = card (kids ?t g)"
  proof (cases "g = h")
    case True
    have "card (kids ?t h) = Suc (card (kids s h))" unfolding kids using finite_kids [OF wf, of h] kn by simp
    moreover have "lb_views a = Suc (card (kids s h))" using g True buf_wfD(4) [OF wf b(1)] by auto
    ultimately show ?thesis using True by simp
  next
    case False
    then have "kids ?t g = kids s g" unfolding kids by simp
    moreover have "lb_views a = card (kids s g)"
      using g False buf_wfD(4) [OF wf, of g] no_kids_new [OF wf, of g] by (auto split: if_splits)
    ultimately show ?thesis by simp
  qed
next
  fix g g' a a' c o1 o2 assume "bs_obj ?t g = Some a" "bs_obj ?t g' = Some a'" "lb_owned a" "lb_owned a'"
    "lb_p a = Some (c, o1)" "lb_p a' = Some (c, o2)"
  then show "g = g'"
    using owners_eq [OF wf, of g "if g = h then b else a" g' "if g' = h then b else a'" c o1 o2] b(1)
    by (auto split: if_splits)
qed (use wf in \<open>auto dest: chunk_bound\<close>)

text \<open>An owner without live views is the only way to its chunk.\<close>

lemma sole_holder:
  assumes wf: "buf_wf s" and b: "bs_obj s h = Some b" "lb_owned b" "lb_p b = Some (c, off)" and k: "kids s h = {}"
    and v: "bs_obj s v = Some a" "lb_p a = Some (c, o2)"
  shows "v = h"
proof -
  obtain g d where g: "bs_obj s g = Some d" "lb_owned d" "lb_p d = Some (c, 0)" "g = v \<or> kids s g \<noteq> {}"
    using owner_above [OF wf v] by blast
  have "g = h" using owners_eq [OF wf g(1) b(1) g(2) b(2) g(3) b(3)] .
  then show ?thesis using g(4) k by blast
qed

lemma clear_owner_wf:
  assumes wf: "buf_wf s" and b: "bs_obj s h = Some b" "lb_owned b" "lb_p b = Some (c, off)" and k: "kids s h = {}"
    and m: "\<And>d. d \<noteq> c \<Longrightarrow> mem d = bs_mem s d" "mem c = None \<or> mem c = bs_mem s c"
  shows "buf_wf (s\<lparr>bs_mem := mem, bs_obj := (bs_obj s)(h \<mapsto> b\<lparr>lb_p := None\<rparr>)\<rparr>)" (is "buf_wf ?t")
proof (rule buf_wfI)
  have kids: "kids ?t g = kids s g" for g
    by (rule kids_upd_other [of h]) (use b in \<open>auto simp: kids_def\<close>)
  fix g a assume g: "bs_obj ?t g = Some a"
  show "g < bs_nobj ?t" using g b(1) buf_wfD(1) [OF wf] by (auto split: if_splits)
  show "placed ?t a"
  proof (cases "g = h")
    case False
    then have "placed s a" "\<And>o2. lb_p a \<noteq> Some (c, o2)"
      using g buf_wfD(2) [OF wf, of g] sole_holder [OF wf b k, of g a] by auto
    then show ?thesis using m(1) unfolding placed_def by force
  qed (use g in \<open>auto simp: placed_def\<close>)
  show "rooted ?t g a"
  proof (cases "g = h")
    case False
    have r: "rooted s g a" using False g buf_wfD(3) [OF wf, of g] by auto
    have "lb_uv a \<noteq> Some h" if "lb_p a \<noteq> None" "\<not> lb_owned a" using False g that k by (auto simp: kids_def)
    then show ?thesis using r unfolding rooted_def by (fastforce split: if_splits)
  qed (use g b(2) in \<open>auto simp: rooted_def\<close>)
  show "lb_views a = card (kids ?t g)"
    using g b(1) buf_wfD(4) [OF wf] unfolding kids by (auto split: if_splits)
next
  fix d bs assume "bs_mem ?t d = Some bs"
  then show "d < bs_nchunk ?t \<and> length bs < 2 ^ 64 - 16" using m(1) [of d] m(2) chunk_bound [OF wf, of d bs] by (cases "d = c") auto
next
  fix g g' a a' c o1 o2 assume "bs_obj ?t g = Some a" "bs_obj ?t g' = Some a'" "lb_owned a" "lb_owned a'"
    "lb_p a = Some (c, o1)" "lb_p a' = Some (c, o2)"
  then show "g = g'" using owners_eq [OF wf, of g _ g' _ c o1 o2] by (auto split: if_splits)
qed

lemma clear_view_wf:
  assumes wf: "buf_wf s" and b: "bs_obj s h = Some b" "\<not> lb_owned b" "lb_p b = Some (c, off)" and k: "kids s h = {}"
  shows "\<exists>q pb. lb_uv b = Some q \<and> q \<noteq> h \<and> bs_obj s q = Some pb \<and> lb_views pb > 0 \<and>
    buf_wf (s\<lparr>bs_obj := (bs_obj s)(q \<mapsto> pb\<lparr>lb_views := lb_views pb - 1\<rparr>, h \<mapsto> b\<lparr>lb_p := None\<rparr>)\<rparr>)"
proof -
  obtain q pb where q: "lb_uv b = Some q" "q < h" "bs_obj s q = Some pb"
    using buf_wfD(3) [OF wf b(1)] b(2,3) by (auto simp: rooted_def)
  have hq: "h \<in> kids s q" using b q(1) by (auto simp: kids_def)
  have pos: "lb_views pb > 0"
    using hq buf_wfD(4) [OF wf q(3)] finite_kids [OF wf, of q] by (auto simp: card_gt_0_iff)
  define t where "t = s\<lparr>bs_obj := (bs_obj s)(q \<mapsto> pb\<lparr>lb_views := lb_views pb - 1\<rparr>, h \<mapsto> b\<lparr>lb_p := None\<rparr>)\<rparr>"
  have obj: "bs_obj t g = (if g = h then Some (b\<lparr>lb_p := None\<rparr>)
      else if g = q then Some (pb\<lparr>lb_views := lb_views pb - 1\<rparr>) else bs_obj s g)" for g
    by (simp add: t_def)
  have kids: "kids t g = kids s g - {h}" for g
    using q(3) by (auto simp: kids_def obj split: if_splits)
  have kidsq: "g \<noteq> q \<Longrightarrow> h \<notin> kids s g" for g using b(1) q(1) by (auto simp: kids_def)
  have old: "\<exists>a'. bs_obj s g = Some a' \<and> lb_len a' = lb_len a \<and> lb_owned a' = lb_owned a \<and> lb_ro a' = lb_ro a \<and>
      lb_uv a' = lb_uv a \<and> (lb_p a = lb_p a' \<or> lb_p a = None)" if "bs_obj t g = Some a" for g a
    using that b(1) q(3) by (auto simp: obj split: if_splits)
  have "buf_wf t"
  proof (rule buf_wfI)
    fix g a assume g: "bs_obj t g = Some a"
    obtain a' where a': "bs_obj s g = Some a'" "lb_len a' = lb_len a" "lb_owned a' = lb_owned a" "lb_ro a' = lb_ro a"
      "lb_uv a' = lb_uv a" "lb_p a = lb_p a' \<or> lb_p a = None" using old [OF g] by blast
    show "g < bs_nobj t" using buf_wfD(1) [OF wf a'(1)] by (simp add: t_def)
    show "placed t a" using buf_wfD(2) [OF wf a'(1)] a'(2,3,6) by (auto simp: placed_def t_def)
    show "rooted t g a"
    proof (cases "lb_p a = None \<or> lb_owned a")
      case False
      have "rooted s g a'" using buf_wfD(3) [OF wf a'(1)] .
      moreover have "g \<in> kids s h" if "lb_uv a = Some h" using that False a' unfolding kids_def by auto
      then have "lb_uv a \<noteq> Some h" using k by blast
      ultimately show ?thesis using a' q(3) False unfolding rooted_def obj by (fastforce split: if_splits)
    qed (auto simp: rooted_def)
    show "lb_views a = card (kids t g)"
    proof (cases "g = q")
      case True
      then have "lb_views a = card (kids s q) - 1" using g q buf_wfD(4) [OF wf q(3)] by (auto simp: obj split: if_splits)
      then show ?thesis using hq finite_kids [OF wf, of q] unfolding kids True by simp
    next
      case False
      then have "kids t g = kids s g" using kidsq kids by auto
      then show ?thesis using g False b(1) buf_wfD(4) [OF wf] by (auto simp: obj split: if_splits)
    qed
  next
    fix g g' a a' c o1 o2 assume h: "bs_obj t g = Some a" "bs_obj t g' = Some a'" "lb_owned a" "lb_owned a'"
      "lb_p a = Some (c, o1)" "lb_p a' = Some (c, o2)"
    then show "g = g'" using old [OF h(1)] old [OF h(2)] owners_eq [OF wf, of g _ g' _ c o1 o2] by (metis option.distinct(1))
  qed (use wf in \<open>auto simp: t_def dest: chunk_bound\<close>)
  then show ?thesis using q pos unfolding t_def by blast
qed

lemma wf_counters [simp]:
  "buf_wf (s\<lparr>bs_nallocs := n\<rparr>) = buf_wf s" "buf_wf (s\<lparr>bs_debt := n\<rparr>) = buf_wf s"
  by (simp_all add: buf_wf_def placed_def rooted_def kids_def)

lemma step_due_wf [simp]: "buf_wf (snd (kbuf_step_due n s)) = buf_wf s" "bs_obj (snd (kbuf_step_due n s)) = bs_obj s"
  "bs_mem (snd (kbuf_step_due n s)) = bs_mem s"
  by (simp_all add: kbuf_step_due_def Let_def)

lemma wf_bump:
  "buf_wf s \<Longrightarrow> buf_wf (s\<lparr>bs_nobj := Suc (bs_nobj s)\<rparr>)" "buf_wf s \<Longrightarrow> buf_wf (s\<lparr>bs_nchunk := Suc (bs_nchunk s)\<rparr>)"
  by (auto intro!: buf_wf_mem [of s] dest: chunk_bound intro: less_SucI)

lemma fresh_chunk: "buf_wf s \<Longrightarrow> bs_obj s h = Some b \<Longrightarrow> lb_p b \<noteq> Some (bs_nchunk s, off)"
  using buf_wfD(2) chunk_bound by (fastforce simp: placed_def)

text \<open>A chunk nobody points at yet, as \<open>platform_chunk_alloc\<close> hands it out.\<close>

lemma add_chunk_wf:
  assumes wf: "buf_wf s" and n: "length bs < 2 ^ 64 - 16"
  shows "buf_wf (s\<lparr>bs_nchunk := Suc (bs_nchunk s), bs_mem := (bs_mem s)(bs_nchunk s \<mapsto> bs)\<rparr>)" (is "buf_wf ?t")
proof (rule buf_wf_mem [OF wf])
  fix c cs assume "bs_mem ?t c = Some cs"
  then show "c < bs_nchunk ?t \<and> length cs < 2 ^ 64 - 16"
    using n chunk_bound [OF wf, of c cs] by (cases "c = bs_nchunk s") auto
next
  fix c cs assume "bs_mem s c = Some cs"
  then show "\<exists>bs'. bs_mem ?t c = Some bs' \<and> length bs' = length cs"
    using chunk_bound [OF wf, of c cs] by auto
qed auto

definition pointed :: "bufs \<Rightarrow> addr \<Rightarrow> bool" where
  "pointed s c \<longleftrightarrow> (\<exists>h b off. bs_obj s h = Some b \<and> lb_p b = Some (c, off))"

lemma new_owner_ok:
  assumes wf: "buf_wf s" and m: "bs_mem s c = Some bs" "\<not> pointed s c" "length bs = n"
  shows "buf_wf (snd (new_object (owner_of c n) s))"
  using add_owner_wf [OF wf obj_new [OF wf] m(1)] m wf_bump(1) [OF wf]
  by (auto simp: new_object_def Let_def pointed_def)

text \<open>Clearing a chunk that was just handed out.\<close>

lemma put_granted:
  assumes "n < 2 ^ 64 - 16" "bs_chunkok s (bs_nchunk s)"
  shows "put_at (bs_nchunk s, 0) (replicate n x) (snd (chunk_alloc n s)) =
    Inr (s\<lparr>bs_nchunk := Suc (bs_nchunk s), bs_mem := (bs_mem s)(bs_nchunk s \<mapsto> replicate n x)\<rparr>)"
  using assms by (simp add: put_at_def chunk_alloc_def granted_def Let_def)

lemma buf_new_ok:
  assumes wf: "buf_wf s" and a: "nat (a mod 2 ^ 64) < 2 ^ 64 - 16" and r: "buf_new a f p s = (r, p', s')"
  shows "r \<noteq> Inl Dangling \<and> buf_wf s'"
proof (cases "nat (a mod 2 ^ 64) = 0 \<or> \<not> bs_chunkok s (bs_nchunk s)")
  case True
  then show ?thesis using r wf wf_bump(2) [OF wf]
    by (auto simp: buf_new_def Let_def chunk_alloc_def nomem_def split: prod.splits bool.splits if_splits)
next
  case False
  define n where "n = nat (a mod 2 ^ 64)"
  define fill where "fill = byte_of (case f of None \<Rightarrow> 0 | Some f \<Rightarrow> f)"
  define c where "c = bs_nchunk s"
  define t where "t = s\<lparr>bs_nchunk := Suc c, bs_mem := (bs_mem s)(c \<mapsto> replicate n fill)\<rparr>"
  have n: "n < 2 ^ 64 - 16" using a by (simp add: n_def)
  have t: "buf_wf t" "bs_mem t c = Some (replicate n fill)" "\<not> pointed t c"
    using add_chunk_wf [OF wf] n fresh_chunk [OF wf] by (auto simp: t_def c_def pointed_def)
  have o: "buf_wf (snd (new_object (owner_of c n) t))" using new_owner_ok [OF t] by simp
  obtain u where u: "chunk_alloc n s = (Some c, u)" "put_at (c, 0) (replicate n fill) u = Inr t"
    using put_granted [OF n, of s fill] False by (auto simp: chunk_alloc_def Let_def c_def t_def)
  show ?thesis
    using r wf False o unfolding buf_new_def n_def [symmetric]
    by (auto simp: Let_def nomem_def u fill_def [symmetric] split: prod.splits bool.splits option.splits if_splits)
qed

lemma buf_new_gives:
  assumes "buf_new a f p s = (Inr h, p', s')" "nat (a mod 2 ^ 64) < 2 ^ 64 - 16"
  shows "h = bs_nobj s" "bs_obj s' = (bs_obj s)(bs_nobj s \<mapsto> owner_of (bs_nchunk s) (nat (a mod 2 ^ 64)))"
proof -
  define n where "n = nat (a mod 2 ^ 64)"
  define fill where "fill = byte_of (case f of None \<Rightarrow> 0 | Some f \<Rightarrow> f)"
  have n: "n < 2 ^ 64 - 16" using assms(2) by (simp add: n_def)
  obtain q where q: "n \<noteq> 0" "kbuf_charge n p = (True, q)" "bs_chunkok s (bs_nchunk s)"
    using assms(1) unfolding buf_new_def n_def [symmetric]
    by (auto simp: Let_def chunk_alloc_def split: prod.splits bool.splits if_splits)
  obtain u t where u: "chunk_alloc n s = (Some (bs_nchunk s), u)" "put_at (bs_nchunk s, 0) (replicate n fill) u = Inr t"
    "bs_obj t = bs_obj s" "bs_nobj t = bs_nobj s"
    using put_granted [OF n q(3), of fill] q(3) by (auto simp: chunk_alloc_def Let_def)
  show "h = bs_nobj s" "bs_obj s' = (bs_obj s)(bs_nobj s \<mapsto> owner_of (bs_nchunk s) (nat (a mod 2 ^ 64)))"
    using assms(1) q(1,2) u unfolding buf_new_def n_def [symmetric] kbuf_step_due_def
    by (auto simp: Let_def fill_def [symmetric] new_object_def split: if_splits)
qed

text \<open>
  The size is taken modulo \<open>2 ^ 64\<close>, so \<open>buf.new(-1)\<close> asks for the largest one. Whenever the charge goes
  through, which wraps as well, and there is a chunk to be had, the clearing runs past its end.
\<close>

lemma buf_new_overruns:
  assumes "fst (kbuf_charge (2 ^ 64 - 1) p)" "bs_chunkok s (bs_nchunk s)"
  shows "fst (buf_new (-1) f p s) = Inl Dangling"
proof -
  obtain q where q: "kbuf_charge (2 ^ 64 - 1) p = (True, q)" using assms(1) by (cases "kbuf_charge (2 ^ 64 - 1) p") auto
  have n: "nat (- 1 mod 2 ^ 64) = 2 ^ 64 - 1" by simp
  obtain u where u: "chunk_alloc (2 ^ 64 - 1) s = (Some (bs_nchunk s), u)" "bs_mem u (bs_nchunk s) = Some []"
    using assms(2) by (simp add: chunk_alloc_def Let_def granted_def)
  have "put_at (bs_nchunk s, 0) (replicate (2 ^ 64 - 1) x) u = Inl Dangling" for x
    using u(2) unfolding put_at_def by simp
  then show ?thesis unfolding buf_new_def n Let_def q u(1) prod.case by simp
qed

lemma buf_clone_ok:
  assumes wf: "buf_wf s" and r: "buf_clone h p s = (r, p', s')"
  shows "r \<noteq> Inl Dangling \<and> buf_wf s'"
proof (cases "checkbuf h s")
  case (Inl e)
  then show ?thesis using r wf checkbuf_ok(2) [of h s] by (auto simp: buf_clone_def)
next
  case (Inr b)
  then have b: "bs_obj s h = Some b" "lb_p b \<noteq> None" by (simp_all add: checkbuf_ok)
  have l: "lb_len b < 2 ^ 64 - 16"
    using buf_wfD(2) [OF wf b(1)] b(2) chunk_bound [OF wf] by (fastforce simp: placed_def)
  then have n: "nat (int (lb_len b) mod 2 ^ 64) = lb_len b" by simp
  note new_ok = buf_new_ok [OF wf, of "int (lb_len b)", unfolded n, OF l]
  show ?thesis
  proof (cases "buf_new (int (lb_len b)) None p s")
    case (fields q p1 t)
    then show ?thesis
    proof (cases q)
      case (Inl e)
      then show ?thesis using r \<open>checkbuf h s = Inr b\<close> fields new_ok [OF fields] by (auto simp: buf_clone_def)
    next
      case (Inr k)
      note new = buf_new_gives [OF fields [unfolded Inr], unfolded n, OF l]
      have wt: "buf_wf t" using new_ok [OF fields] by simp
      have bt: "bs_obj t h = Some b" using new b buf_wfD(1) [OF wf b(1)] by auto
      obtain xs where xs: "bytes_at t (shift b 0) (lb_len b) = Inr xs" "length xs = lb_len b"
        using bytes_len [OF buf_wfD(2) [OF wt bt] b(2), of 0 "lb_len b"] by auto
      have kt: "bs_obj t k = Some (owner_of (bs_nchunk s) (lb_len b))" using new by simp
      then have ck: "checkbuf k t = Inr (owner_of (bs_nchunk s) (lb_len b))" by (simp add: checkbuf_ok owner_of_def)
      obtain u where "put_at (shift (owner_of (bs_nchunk s) (lb_len b)) 0) xs t = Inr u" "buf_wf u"
        using put_at_ok [OF wt kt, of 0 xs] xs(2) by (auto simp: owner_of_def)
      then show ?thesis using r \<open>checkbuf h s = Inr b\<close> fields Inr xs ck by (auto simp: buf_clone_def)
    qed
  qed
qed

lemma view_of_ok:
  assumes "buf_wf s" "bs_obj s h = Some b" "lb_p b \<noteq> None" "off + n \<le> lb_len b" "lb_ro b \<Longrightarrow> r"
  shows "fst (view_of h b off n r s) \<noteq> Inl Dangling \<and> buf_wf (snd (view_of h b off n r s))"
proof -
  have "h \<noteq> bs_nobj s" using buf_wfD(1) [OF assms(1,2)] by simp
  then show ?thesis
    using add_view_wf [OF assms] wf_bump(1) [OF assms(1)]
    by (auto simp: view_of_def new_object_def Let_def nomem_def)
qed

lemma buf_view_ok: "buf_wf s \<Longrightarrow> fst (buf_view h i j s) \<noteq> Inl Dangling \<and> buf_wf (snd (buf_view h i j s))"
proof (cases "checkbuf h s")
  case (Inr b)
  assume wf: "buf_wf s"
  obtain off n where r: "buf_range (lb_len b) i j = (off, n)" by fastforce
  show ?thesis using view_of_ok [OF wf, of h b off n "lb_ro b"] buf_range_ok [OF r] checkbuf_okD [OF Inr] r
    by (simp add: buf_view_def Inr)
qed (use checkbuf_ok(2) [of h s] in \<open>auto simp: buf_view_def\<close>)

lemma buf_ro_ok: "buf_wf s \<Longrightarrow> fst (buf_ro h s) \<noteq> Inl Dangling \<and> buf_wf (snd (buf_ro h s))"
proof (cases "checkbuf h s")
  case (Inr b)
  then show "buf_wf s \<Longrightarrow> ?thesis" using view_of_ok [of s h b 0 "lb_len b" True] checkbuf_okD [OF Inr]
    by (simp add: buf_ro_def)
qed (use checkbuf_ok(2) [of h s] in \<open>auto simp: buf_ro_def\<close>)

lemma pushview_ok:
  assumes "buf_wf s" "off + n < 2 ^ 64"
  shows "fst (luabuf_pushview h off n s) \<noteq> Inl Dangling \<and> buf_wf (snd (luabuf_pushview h off n s))"
proof (cases "checkbuf h s")
  case (Inr b)
  then show ?thesis using view_of_ok [OF assms(1), of h b off n "lb_ro b"] checkbuf_okD [OF Inr] assms
    by (auto simp: luabuf_pushview_def)
qed (use assms checkbuf_ok(2) [of h s] in \<open>auto simp: luabuf_pushview_def\<close>)

lemma buf_gc_live:
  assumes wf: "buf_wf s" and h: "bs_obj s h = Some b" "lb_p b \<noteq> None" and k: "kids s h = {}"
    and r: "buf_gc h p s = (r, p', s')"
  shows "r \<noteq> Inl Dangling \<and> buf_wf s'"
proof -
  obtain c off where p: "lb_p b = Some (c, off)" using h(2) by auto
  show ?thesis
  proof (cases "lb_owned b")
    case True
    obtain bs where m: "bs_mem s c = Some bs" using buf_wfD(2) [OF wf h(1)] p by (auto simp: placed_def)
    have "buf_wf (s\<lparr>bs_mem := (bs_mem s)(c := None), bs_obj := (bs_obj s)(h \<mapsto> b\<lparr>lb_p := None\<rparr>)\<rparr>)"
      by (rule clear_owner_wf [OF wf h(1) True p k]) auto
    then show ?thesis using r h(1) p True m by (auto simp: buf_gc_def chunk_drop_def shift_def clear_p_def)
  next
    case False
    obtain q pb where q: "lb_uv b = Some q" "q \<noteq> h" "bs_obj s q = Some pb" "lb_views pb > 0"
      "buf_wf (s\<lparr>bs_obj := (bs_obj s)(q \<mapsto> pb\<lparr>lb_views := lb_views pb - 1\<rparr>, h \<mapsto> b\<lparr>lb_p := None\<rparr>)\<rparr>)"
      using clear_view_wf [OF wf h(1) False p k] by blast
    then show ?thesis using r h(1) p False by (auto simp: buf_gc_def drop_view_def testudata_def clear_p_def)
  qed
qed

text \<open>The finalizer of a buffer that was given away finds nothing to do.\<close>

lemma buf_gc_ok:
  assumes wf: "buf_wf s" and h: "bs_obj s h = Some b" "lb_p b \<noteq> None \<or> lb_owned b" and k: "kids s h = {}"
    and r: "buf_gc h p s = (r, p', s')"
  shows "r \<noteq> Inl Dangling \<and> buf_wf s'"
proof (cases "lb_p b")
  case None
  then have "b\<lparr>lb_p := None\<rparr> = b" by simp
  then show ?thesis using r h wf None by (auto simp: buf_gc_def clear_p_def fun_upd_idem)
qed (use buf_gc_live [OF wf h(1) _ k r] in simp)

lemma detach_ok:
  assumes wf: "buf_wf s" and h: "bs_obj s h = Some b" "movable b"
  shows "buf_wf (snd (luabuf_detach h p s))"
proof -
  obtain c off where p: "lb_p b = Some (c, off)" and o: "lb_owned b" "lb_views b = 0" using h(2) by (auto simp: movable_def)
  have "kids s h = {}" using o(2) buf_wfD(4) [OF wf h(1)] finite_kids [OF wf, of h] by simp
  then have "buf_wf (s\<lparr>bs_mem := bs_mem s, bs_obj := (bs_obj s)(h \<mapsto> b\<lparr>lb_p := None\<rparr>)\<rparr>)"
    by (intro clear_owner_wf [OF wf h(1) o(1) p]) auto
  then show ?thesis using h(1) by (simp add: luabuf_detach_def clear_p_def)
qed

lemma give_ok:
  assumes wf: "buf_wf s" and m: "bs_mem s c = Some bs" "\<not> pointed s c" "length bs = n" and r: "luabuf_give c n p s = (r, p', s')"
  shows "buf_wf s'"
  using new_owner_ok [OF wf m] r wf
  by (auto simp: luabuf_give_def split: prod.splits bool.splits option.splits)

lemma push_ok:
  assumes wf: "buf_wf s" and n: "n < 2 ^ 64 - 16" and r: "luabuf_push n p s = (r, p', s')"
  shows "r \<noteq> Inl Dangling \<and> buf_wf s'"
proof -
  define c where "c = bs_nchunk s"
  define t where "t = s\<lparr>bs_nchunk := Suc c, bs_mem := (bs_mem s)(c \<mapsto> replicate n 0)\<rparr>"
  have t: "buf_wf t" "bs_mem t c = Some (replicate n 0)" "\<not> pointed t c"
    using add_chunk_wf [OF wf] n fresh_chunk [OF wf] by (auto simp: t_def c_def pointed_def)
  have o: "buf_wf (snd (new_object (owner_of c n) t))" using new_owner_ok [OF t] by simp
  have "t\<lparr>bs_mem := (bs_mem t)(c := None)\<rparr> = s\<lparr>bs_nchunk := Suc (bs_nchunk s)\<rparr>"
    using chunk_bound [OF wf, of c] by (cases "bs_mem s c") (auto simp: t_def c_def fun_upd_idem)
  then have d: "buf_wf (t\<lparr>bs_mem := (bs_mem t)(c := None)\<rparr>)" using wf_bump(2) [OF wf] by simp
  show ?thesis
    using r wf o d t(2) wf_bump(2) [OF wf] unfolding luabuf_push_def chunk_alloc_def c_def [symmetric] luabuf_give_def
    by (auto simp: Let_def nomem_def granted_def [of n] n [simplified] chunk_drop_def t_def [symmetric] split: prod.splits bool.splits option.splits if_splits given.splits)
qed

section \<open>Programs over buffers\<close>

text \<open>
  One call, with the error it raised and whether it is an ordinary one. A call is not ordinary in three cases,
  which lua programs and C callers can produce but the library does not defend against: a buffer of \<open>2 ^ 64 - 16\<close>
  bytes or more is asked for (the allocator wraps), a view is pushed at an offset and length whose sum
  wraps, or a finalizer runs as a call by hand can make it, on a buffer with live views or twice on a view.
  The collector does neither of the latter: it finalizes an object once, and a view, which keeps its parent
  and was made later, before its parent. The kernel detaches a buffer only after \<open>luabuf_borrow\<close> accepted
  it, and a buffer that arrives is a chunk no object points at.
\<close>

definition raised :: "berr + 'a \<Rightarrow> berr option" where
  "raised r = (case r of Inl e \<Rightarrow> Some e | Inr _ \<Rightarrow> None)"

definition collectable :: "nat \<Rightarrow> bufs \<Rightarrow> bool" where
  "collectable h s \<longleftrightarrow> (\<exists>b. bs_obj s h = Some b \<and> (lb_p b \<noteq> None \<or> lb_owned b) \<and> kids s h = {})"

inductive bstep :: "kproc \<times> bufs \<Rightarrow> bool \<Rightarrow> berr option \<Rightarrow> kproc \<times> bufs \<Rightarrow> bool" where
  b_new: "buf_new a f p s = (r, p', s') \<Longrightarrow> bstep (p, s) (nat (a mod 2 ^ 64) < 2 ^ 64 - 16) (raised r) (p', s')"
| b_clone: "buf_clone h p s = (r, p', s') \<Longrightarrow> bstep (p, s) True (raised r) (p', s')"
| b_push: "luabuf_push n p s = (r, p', s') \<Longrightarrow> n < 2 ^ 64 \<Longrightarrow> bstep (p, s) (n < 2 ^ 64 - 16) (raised r) (p', s')"
| b_set: "buf_set h i vs s = (r, s') \<Longrightarrow> bstep (p, s) True (raised r) (p, s')"
| b_copy: "buf_copy h i v x y s = (r', s') \<Longrightarrow> bstep (p, s) True (raised r') (p, s')"
| b_fill: "buf_fill h w i' j s = (r, s') \<Longrightarrow> bstep (p, s) True (raised r) (p, s')"
| b_setint: "setint n be h i w s = (r, s') \<Longrightarrow> bstep (p, s) True (raised r) (p, s')"
| b_view: "buf_view h i' j s = (r', s') \<Longrightarrow> bstep (p, s) True (raised r') (p, s')"
| b_ro: "buf_ro h s = (r', s') \<Longrightarrow> bstep (p, s) True (raised r') (p, s')"
| b_pushview: "luabuf_pushview h off n s = (r', s') \<Longrightarrow> off < 2 ^ 64 \<Longrightarrow> n < 2 ^ 64 \<Longrightarrow>
    bstep (p, s) (off + n < 2 ^ 64) (raised r') (p, s')"
| b_gc: "buf_gc h p s = (r, p', s') \<Longrightarrow> bstep (p, s) (collectable h s) (raised r) (p', s')"
| b_detach: "luabuf_borrow (PBuf h) s \<noteq> None \<Longrightarrow> luabuf_detach h p s = (p', s') \<Longrightarrow> bstep (p, s) True None (p', s')"
| b_give: "luabuf_give c n p s = (g, p', s') \<Longrightarrow> bs_mem s c = Some bs \<Longrightarrow> length bs = n \<Longrightarrow> \<not> pointed s c \<Longrightarrow>
    bstep (p, s) True None (p', s')"

lemma raised_Dangling [simp]: "raised r = Some Dangling \<longleftrightarrow> r = Inl Dangling"
  by (cases r) (auto simp: raised_def)

lemma bstep_ok: "bstep x ok e y \<Longrightarrow> ok \<Longrightarrow> buf_wf (snd x) \<Longrightarrow> e \<noteq> Some Dangling \<and> buf_wf (snd y)"
proof (induction rule: bstep.induct)
  case (b_set h i vs s r s' p)
  then show ?case using buf_set_ok [of s h i vs] by auto
next
  case (b_copy h i v x y s r s' p)
  then show ?case using buf_copy_ok [of s h i v x y] by auto
next
  case (b_fill h w i j s r s' p)
  then show ?case using buf_fill_ok [of s h w i j] by auto
next
  case (b_setint n be h i w s r s' p)
  then show ?case using setint_ok [of s n be h i w] by auto
next
  case (b_view h i j s r s' p)
  then show ?case using buf_view_ok [of s h i j] by auto
next
  case (b_ro h s r s' p)
  then show ?case using buf_ro_ok [of s h] by auto
next
  case (b_pushview h off n s r s' p)
  then show ?case using pushview_ok [of s off n h] by auto
next
  case (b_detach h s p p' s')
  then show ?case using detach_ok [of s h _ p]
    by (auto simp: luabuf_borrow_def testudata_def split: option.splits if_splits)
next
  case (b_give c n p s g p' s' bs)
  then show ?case using give_ok [of s c bs n p g p' s'] by simp
next
  case (b_new a f p s r p' s')
  then show ?case using buf_new_ok [of s a f p r p' s'] by simp
next
  case (b_clone h p s r p' s')
  then show ?case using buf_clone_ok [of s h p r p' s'] by simp
next
  case (b_push n p s r p' s')
  then show ?case using push_ok [of s n p r p' s'] by simp
next
  case (b_gc h p s r p' s')
  then show ?case using buf_gc_ok [of s h _ p r p' s'] by (auto simp: collectable_def)
qed

text \<open>An ordinary call.\<close>

definition bstep1 :: "kproc \<times> bufs \<Rightarrow> kproc \<times> bufs \<Rightarrow> bool" where
  "bstep1 x y \<longleftrightarrow> (\<exists>e. bstep x True e y)"

lemma bstep_reach: "bstep1\<^sup>*\<^sup>* x y \<Longrightarrow> buf_wf (snd x) \<Longrightarrow> buf_wf (snd y)"
  by (induction rule: rtranclp_induct) (auto simp: bstep1_def dest: bstep_ok)

lemma reads_ok:
  assumes wf: "buf_wf s"
  shows "buf_sub h i j s \<noteq> Inl Dangling" "buf_byte h i j s \<noteq> Inl Dangling" "getint n be h k s \<noteq> Inl Dangling"
    "buf_eq g h s \<noteq> Inl Dangling"
proof -
  have *: "bnd (checkbuf h s) f \<noteq> Inl (Dangling :: berr)"
    if "\<And>b. bs_obj s h = Some b \<Longrightarrow> lb_p b \<noteq> None \<Longrightarrow> placed s b \<Longrightarrow> f b \<noteq> Inl Dangling" for f :: "luabuf \<Rightarrow> berr + 'z"
    using that buf_wfD(2) [OF wf] checkbuf_ok(2) [of h s] by (auto simp: ret_iff checkbuf_ok)
  have **: "buf_range (lb_len b) i j = (off, n) \<Longrightarrow> placed s b \<Longrightarrow> lb_p b \<noteq> None \<Longrightarrow> bytes_at s (shift b off) n \<noteq> Inl Dangling"
    for b off n using bytes_ok buf_range_ok by blast
  show "buf_sub h i j s \<noteq> Inl Dangling" unfolding buf_sub_def
    by (rule *) (auto simp: Let_def split: prod.split dest: **)
  show "buf_byte h i j s \<noteq> Inl Dangling" unfolding buf_byte_def
    by (rule *) (auto simp: Let_def ret_iff split: prod.split dest: **)
  show "getint n be h k s \<noteq> Inl Dangling" unfolding getint_def
    by (rule *) (auto simp: ret_iff bytes_ok)
  show "buf_eq g h s \<noteq> Inl Dangling"
    using buf_wfD(2) [OF wf] by (auto simp: buf_eq_def testudata_def ret_iff bytes_ok split: option.split)
qed

lemma getint_fold:
  fixes v :: u64
  assumes "m \<le> n"
  shows "foldl (\<lambda>w k. push_bit 8 w OR ucast (ucast (drop_bit (8 * (n - 1 - k)) v) :: byte)) 0 [0..<m]
         = take_bit (8 * m) (drop_bit (8 * (n - m)) v)"
  using assms
proof (induction m)
  case (Suc m)
  have e: "8 * (n - 1 - m) = 8 * (n - Suc m)" "8 * (n - m) = 8 * (n - Suc m) + 8" using Suc.prems by auto
  have "push_bit 8 (take_bit (8 * m) (drop_bit (8 * (n - m)) v)) OR ucast (ucast (drop_bit (8 * (n - 1 - m)) v) :: byte)
      = take_bit (8 * Suc m) (drop_bit (8 * (n - Suc m)) v)"
    unfolding e by (rule word_bitI)
      (auto simp: bit_simps not_less le_add_diff_inverse2 add.commute add.left_commute)
  then show ?case using Suc by simp
qed simp

lemma setint_nth:
  assumes "k < n"
  shows "setint_bytes n be v ! (if be then k else n - 1 - k) = ucast (drop_bit (8 * (n - 1 - k)) v)"
  using assms by (simp add: setint_bytes_def Let_def rev_nth)

section \<open>Properties\<close>



text \<open>
  C37: a field written is the field read back, in either byte order and at every width the library
  has, cut to that width.
\<close>

theorem setint_getint:
  assumes wf: "buf_wf s" and w: "setint n be h i v s = (Inr (), s')"
  shows "getint n be h i s' = Inr (take_bit (8 * n) (word_of_int v))"
proof -
  obtain b where b: "checkwritable h s = Inr b" using w by (cases "checkwritable h s") (auto simp: setint_def)
  then have bw: "bs_obj s h = Some b" "lb_p b \<noteq> None" by (simp_all add: checkwritable_ok)
  have i: "\<not> i < 1" "nat (i - 1) + n \<le> lb_len b" using w b by (auto simp: setint_def split: if_splits)
  let ?xs = "setint_bytes n be (word_of_int v)"
  obtain t where t: "put_at (shift b (nat (i - 1))) ?xs s = Inr t" "bs_obj t = bs_obj s"
      "bytes_at t (shift b (nat (i - 1))) n = Inr ?xs"
    using put_at_ok [OF wf bw, of "nat (i - 1)" ?xs] i by auto
  then have s': "s' = t" using w b i by (simp add: setint_def)
  have "foldl (\<lambda>w k. push_bit 8 w OR ucast (?xs ! (if be then k else n - 1 - k))) 0 [0..<n]
      = foldl (\<lambda>w k. push_bit 8 w OR ucast (ucast (drop_bit (8 * (n - 1 - k)) (word_of_int v :: u64)) :: byte)) (0 :: u64) [0..<n]"
    by (intro foldl_cong) (auto simp: setint_nth)
  also have "\<dots> = take_bit (8 * n) (word_of_int v)" using getint_fold [of n n "word_of_int v"] by simp
  finally have f: "foldl (\<lambda>w k. push_bit 8 w OR ucast (?xs ! (if be then k else n - 1 - k))) 0 [0..<n] =
      take_bit (8 * n) (word_of_int v :: u64)" .
  have "getint n be h i s' = Inr (foldl (\<lambda>w k. push_bit 8 w OR ucast (?xs ! (if be then k else n - 1 - k))) 0 [0..<n])"
    using t bw i unfolding s' by (auto simp: getint_def checkbuf_def)
  then show ?thesis unfolding f .
qed

text \<open>
  C38: \<open>__gc\<close> is reachable from lua as a method, since the metatable is its own \<open>__index\<close>. Called by
  hand on a buffer with a live view it frees the chunk under the view: reading the view is then a
  read of freed memory.
\<close>

theorem gc_by_hand:
  assumes wf: "buf_wf s" and b: "bs_obj s h = Some b" "lb_owned b" "lb_p b \<noteq> None" and v: "v \<in> kids s h"
  shows "\<exists>p' s'. buf_gc h p s = (Inr (), p', s') \<and> buf_sub v None None s' = Inl Dangling"
proof -
  obtain c off where p: "lb_p b = Some (c, off)" using b(3) by auto
  then obtain bs where m: "bs_mem s c = Some bs" using buf_wfD(2) [OF wf b(1)] by (auto simp: placed_def)
  obtain a o2 where a: "bs_obj s v = Some a" "\<not> lb_owned a" "lb_p a = Some (c, o2)"
    using v b(1) p buf_wfD(3) [OF wf] by (fastforce simp: kids_def rooted_def)
  then have ne: "v \<noteq> h" using b by auto
  define s' where "s' = clear_p h (s\<lparr>bs_mem := (bs_mem s)(c := None)\<rparr>)"
  have "buf_gc h p s = (Inr (), kbuf_uncharge (lb_len b) p, s')" for p
    using b p m by (auto simp: buf_gc_def chunk_drop_def shift_def s'_def)
  moreover have "checkbuf v s' = Inr a" "bs_mem s' c = None"
    using a ne b(1) by (auto simp: checkbuf_def s'_def clear_p_def)
  then have "buf_sub v None None s' = Inl Dangling"
    using a(3) by (auto simp: buf_sub_def bytes_at_def shift_def split: prod.splits)
  ultimately show ?thesis by blast
qed

text \<open>
  When the userdata cannot be made, \<open>buf_new\<close> raises with the chunk allocated and charged:
  nothing points at it, so it is never freed nor given back to the proc's budget.
\<close>

lemma buf_new_leaks:
  assumes "n \<noteq> 0" "n < 2 ^ 64 - 16" "fst (kbuf_charge n p)" "bs_chunkok s (bs_nchunk s)" "\<not> bs_udok s (bs_nobj s)"
    "buf_wf s"
  shows "\<exists>s'. buf_new (int n) f p s = (Inl nomem, snd (kbuf_charge n p), s') \<and>
    bs_mem s' (bs_nchunk s) \<noteq> None \<and> \<not> pointed s' (bs_nchunk s)"
proof -
  obtain q where q: "kbuf_charge n p = (True, q)" using assms(3) by (cases "kbuf_charge n p") auto
  have n: "nat (int n mod 2 ^ 64) = n" using assms(2) by simp
  show ?thesis
    using assms(1,4,5) q fresh_chunk [OF assms(6)] unfolding buf_new_def n
    by (auto simp: Let_def chunk_alloc_def granted_def put_at_def assms(2) [simplified] new_object_def pointed_def)
qed

section \<open>A buffer and a view of it\<close>

definition bufs0 :: bufs where
  "bufs0 = \<lparr>bs_obj = Map.empty, bs_nobj = 0, bs_udok = \<lambda>k. k < 7, bs_mem = Map.empty, bs_nchunk = 0,
            bs_chunkok = \<lambda>_. True, bs_nallocs = 0, bs_debt = 0\<rparr>"

definition bufs1 :: bufs where
  "bufs1 = snd (snd (buf_new 4 None kproc0 bufs0))"

definition bufs2 :: bufs where
  "bufs2 = snd (buf_view 0 (Some 2) (Some 3) bufs1)"

lemma bufs0_wf: "buf_wf bufs0"
  by (rule buf_wfI) (simp_all add: bufs0_def)

lemma bufs1_wf: "buf_wf bufs1"
  unfolding bufs1_def using buf_new_ok [OF bufs0_wf, of 4 None kproc0] by (cases "buf_new 4 None kproc0 bufs0") auto

lemma bufs2_wf: "buf_wf bufs2"
  unfolding bufs2_def using buf_view_ok [OF bufs1_wf] by blast

lemma bufs1_eq:
  "bs_obj bufs1 = [0 \<mapsto> owner_of 0 4]" "bs_nobj bufs1 = 1" "bs_mem bufs1 = [0 \<mapsto> replicate 4 0]"
  by (simp_all add: bufs1_def buf_new_def Let_def bufs0_def kproc0_def kbuf_charge_def chunk_alloc_def granted_def put_at_def
      new_object_def kbuf_step_due_def byte_of_def)

lemma bufs2_view: "1 \<in> kids bufs2 0 \<and> bs_obj bufs2 0 = Some (owner_of 0 4\<lparr>lb_views := 1\<rparr>)"
proof -
  have u: "bs_udok bufs1 1" by (simp add: bufs1_def buf_new_def Let_def bufs0_def kproc0_def kbuf_charge_def
      chunk_alloc_def granted_def put_at_def new_object_def kbuf_step_due_def)
  show ?thesis
    using u by (simp add: bufs2_def buf_view_def checkbuf_def bufs1_eq view_of_def new_object_def Let_def owner_of_def
        buf_range_def clamp_range_def kids_def)
qed



theorem setint_getint_witness:
  "\<exists>s'. setint 2 True 0 2 0x12345 bufs1 = (Inr (), s') \<and> getint 2 True 0 2 s' = Inr 0x2345"
proof -
  obtain s' where s: "setint 2 True 0 2 0x12345 bufs1 = (Inr (), s')"
    by (simp add: setint_def checkwritable_def checkbuf_def bufs1_eq owner_of_def put_at_def shift_def)
  show ?thesis using setint_getint [OF bufs1_wf s] s by simp
qed

theorem gc_by_hand_witness:
  "\<exists>p' s'. buf_gc 0 kproc0 bufs2 = (Inr (), p', s') \<and> buf_sub 1 None None s' = Inl Dangling"
  using gc_by_hand [OF bufs2_wf, of 0 "owner_of 0 4\<lparr>lb_views := 1\<rparr>" 1] bufs2_view by (simp add: owner_of_def)

end
