(* ===== verification/Serialize.thy ===== *)
theory Serialize
  imports Samples Buf
begin

text \<open>
  The serializer, \<open>src/src/serialize.c\<close>: lua values to bytes and back, and the one place a right
  crosses from one proc to another.

  \<^item> \<open>lval\<close> is a lua value as the serializer sees it: numbers as their 64 bits, a table as its pairs
    in the order \<open>lua_next\<close> gives them, userdata by its number in \<open>bufs\<close>; functions and threads are
    \<open>LOther\<close>.
  \<^item> \<open>serialize\<close> and \<open>deserialize\<close> take what is lua's own as arguments: \<open>chk\<close> says whether
    \<open>lua_checkstack\<close> grants a level its slots, \<open>normkey\<close> is the key \<open>lua_settable\<close> files a value
    under.
  \<^item> \<open>SRaise\<close> and \<open>DRaise\<close> are a lua error thrown through the function, which its caller does not see.
  \<^item> Results are \<open>fault + _\<close>: \<open>Inl\<close> is a dangling port pointer.
\<close>

datatype lval = LNil | LBool bool | LInt u64 | LNum u64 | LStr "byte list"
  | LTable "(lval \<times> lval) list" | LUser nat | LOther

definition bstr :: "string \<Rightarrow> byte list" where "bstr s = map of_char s"

definition payload_of :: "lval \<Rightarrow> payload" where
  "payload_of v = (case v of LStr xs \<Rightarrow> PStr xs | LUser h \<Rightarrow> PBuf h | _ \<Rightarrow> POther)"

definition rawget :: "(lval \<times> lval) list \<Rightarrow> string \<Rightarrow> lval" where
  "rawget ps k = (case find (\<lambda>x. fst x = LStr (bstr k)) ps of None \<Rightarrow> LNil | Some x \<Rightarrow> snd x)"

section \<open>The byte writer\<close>

record wbuf =
  wb_buf :: "byte list"
  wb_cap :: nat
  wb_refs :: "(nat \<times> bool) list"
  wb_bufs :: msgbufs
  wb_own :: "nat list"

definition wbuf0 :: wbuf where
  "wbuf0 = \<lparr>wb_buf = [], wb_cap = 0, wb_refs = [], wb_bufs = [], wb_own = []\<rparr>"

text \<open>The doubling loop; \<open>ncap\<close> is never zero where \<open>wput\<close> enters it.\<close>

function wgrow :: "nat \<Rightarrow> nat \<Rightarrow> nat" where
  "wgrow ncap need = (if ncap < need \<and> ncap \<noteq> 0 then wgrow (ncap * 2) need else ncap)"
  by auto
termination by (relation "measure (\<lambda>(ncap, need). need - ncap)") auto

declare wgrow.simps [simp del]

definition wput :: "byte list \<Rightarrow> wbuf \<Rightarrow> kstate \<Rightarrow> bool \<times> wbuf \<times> kstate" where
  "wput src w s =
    (let need = length (wb_buf w) + length src in
     if need > wb_cap w then
       (if need > MAXMSG then (False, w, s)
        else (let ncap = wgrow (if wb_cap w \<noteq> 0 then wb_cap w * 2 else 256) need;
                  ncap = (if ncap > MAXMSG then MAXMSG else ncap) in
              case kmalloc s of
                (None, s) \<Rightarrow> (False, w, s)
              | (Some _, s) \<Rightarrow> (True, w\<lparr>wb_cap := ncap, wb_buf := wb_buf w @ src\<rparr>, s)))
     else (True, w\<lparr>wb_buf := wb_buf w @ src\<rparr>, s))"

definition wbyte :: "byte \<Rightarrow> wbuf \<Rightarrow> kstate \<Rightarrow> bool \<times> wbuf \<times> kstate" where
  "wbyte c w s = wput [c] w s"

definition sizehint_one :: "lval \<Rightarrow> nat" where
  "sizehint_one v = (case v of LStr xs \<Rightarrow> length xs + 8 | _ \<Rightarrow> 16)"

definition sizehint :: "lval \<Rightarrow> nat" where
  "sizehint v =
    (case v of
       LStr xs \<Rightarrow> length xs + 16
     | LTable ps \<Rightarrow> fold (\<lambda>(k, x) n. n + sizehint_one x + sizehint_one k) ps 16
     | _ \<Rightarrow> 0)"

definition wreserve :: "nat \<Rightarrow> wbuf \<Rightarrow> kstate \<Rightarrow> wbuf \<times> kstate" where
  "wreserve n w s =
    (if n < 256 \<or> n > MAXMSG \<or> wb_cap w \<ge> n then (w, s)
     else case kmalloc s of
            (None, s) \<Rightarrow> (w, s)
          | (Some _, s) \<Rightarrow> (w\<lparr>wb_cap := n\<rparr>, s))"

section \<open>Writing a value\<close>

datatype src = SOk | SFail | SRaise

type_synonym wst = "wbuf \<times> kstate"

definition sthen :: "fault + src \<times> wst \<Rightarrow> (wst \<Rightarrow> fault + src \<times> wst) \<Rightarrow> fault + src \<times> wst" where
  "sthen m f = bnd m (\<lambda>(r, x). if r = SOk then f x else Inr (r, x))"

definition put :: "byte list \<Rightarrow> wst \<Rightarrow> fault + src \<times> wst" where
  "put xs x = (case wput xs (fst x) (snd x) of (ok, y) \<Rightarrow> Inr (if ok then SOk else SFail, y))"

definition ser_str :: "byte list \<Rightarrow> wst \<Rightarrow> fault + src \<times> wst" where
  "ser_str xs x = sthen (put (bstr ''S'') x) (\<lambda>x. sthen (put (le_bytes 4 (length xs)) x) (put xs))"

definition ser_right :: "nat \<Rightarrow> lval \<Rightarrow> wst \<Rightarrow> fault + src \<times> wst" where
  "ser_right sender h x =
    (case h of
       LInt h \<Rightarrow>
         bnd (get_proc (snd x) sender) (\<lambda>p.
         case right_get p (sint h) of
           None \<Rightarrow> Inr (SFail, x)
         | Some (_, r) \<Rightarrow>
             if length (wb_refs (fst x)) \<ge> MAXMSGRIGHTS then Inr (SFail, x)
             else bnd (get_port (snd x) (r_port r)) (\<lambda>q.
               let pi = pt_idx q mod 65536 in
               sthen (put (bstr ''R'') x) (\<lambda>x.
               sthen (put (le_bytes 2 pi) x) (\<lambda>x.
               sthen (put [of_bool (r_recv r)] x) (\<lambda>(w, s).
               bnd (get_port s (r_port r)) (\<lambda>q.
               Inr (SOk, w\<lparr>wb_refs := wb_refs w @ [(pi, r_recv r)]\<rparr>,
                    set_port s (r_port r) (port_ref_inc (r_recv r) q))))))))
     | _ \<Rightarrow> Inr (SFail, x))"

definition ser_buf :: "bufs \<Rightarrow> lval \<Rightarrow> wst \<Rightarrow> fault + src \<times> wst" where
  "ser_buf b v x =
    (case luabuf_borrow (payload_of v) b of
       None \<Rightarrow> Inr (SFail, x)
     | Some (c, n, h) \<Rightarrow>
         if length (wb_bufs (fst x)) \<ge> MAXMSGBUFS \<or> h \<in> set (wb_own (fst x)) then Inr (SFail, x)
         else (let i = length (wb_bufs (fst x)) in
           sthen (put (bstr ''M'') x) (\<lambda>x.
           sthen (put [of_nat i] x) (\<lambda>(w, s).
           Inr (SOk, w\<lparr>wb_bufs := wb_bufs w @ [(Some c, n)], wb_own := wb_own w @ [h]\<rparr>, s)))))"

definition patch_count :: "nat \<Rightarrow> nat \<Rightarrow> wst \<Rightarrow> fault + src \<times> wst" where
  "patch_count pos n x =
    (case x of (w, s) \<Rightarrow> Inr (SOk, w\<lparr>wb_buf :=
       take (pos + 1) (wb_buf w) @ le_bytes 4 n @ drop (pos + 5) (wb_buf w)\<rparr>, s))"

function serialize :: "(nat \<Rightarrow> bool) \<Rightarrow> bufs \<Rightarrow> nat \<Rightarrow> nat \<Rightarrow> lval \<Rightarrow> wst \<Rightarrow> fault + src \<times> wst"
  and serialize_pairs ::
    "(nat \<Rightarrow> bool) \<Rightarrow> bufs \<Rightarrow> nat \<Rightarrow> nat \<Rightarrow> (lval \<times> lval) list \<Rightarrow> wst \<Rightarrow> fault + src \<times> wst" where
  "serialize chk b sender depth v x =
    (if depth > MAXDEPTH \<or> \<not> chk depth then Inr (SFail, x)
     else case v of
       LNil \<Rightarrow> put (bstr ''N'') x
     | LBool t \<Rightarrow> put (if t then bstr ''T'' else bstr ''F'') x
     | LInt i \<Rightarrow> sthen (put (bstr ''I'') x) (put (le_bytes 8 (unat i)))
     | LNum d \<Rightarrow> sthen (put (bstr ''D'') x) (put (le_bytes 8 (unat d)))
     | LStr xs \<Rightarrow> ser_str xs x
     | LTable ps \<Rightarrow>
         if rawget ps ''__right'' \<noteq> LNil then ser_right sender (rawget ps ''__right'') x
         else if rawget ps ''__buf'' \<noteq> LNil then ser_buf b (rawget ps ''__buf'') x
         else sthen (put (bstr ''B'') x) (\<lambda>y.
              sthen (put (le_bytes 4 0) y) (\<lambda>y.
              sthen (serialize_pairs chk b sender (depth + 1) ps y) (\<lambda>y.
              patch_count (length (wb_buf (fst x))) (length ps) y)))
     | LUser h \<Rightarrow>
         (case luabuf_bytes (PBuf h) b of
            Inl _ \<Rightarrow> Inr (SRaise, x)
          | Inr None \<Rightarrow> Inr (SFail, x)
          | Inr (Some xs) \<Rightarrow> ser_str xs x)
     | LOther \<Rightarrow> Inr (SFail, x))"
| "serialize_pairs chk b sender depth [] x = Inr (SOk, x)"
| "serialize_pairs chk b sender depth (kv # ps) x =
    sthen (serialize chk b sender depth (fst kv) x) (\<lambda>x.
    sthen (serialize chk b sender depth (snd kv) x) (\<lambda>x.
    serialize_pairs chk b sender depth ps x))"
  by pat_completeness auto
termination
  by (relation "measure (case_sum (\<lambda>(_, _, _, _, v, _). size v)
        (\<lambda>(_, _, _, _, ps, _). size_list (\<lambda>x. Suc (size (fst x) + size (snd x))) ps))")
    (auto simp: size_prod_simp)

declare serialize.simps [simp del] serialize_pairs.simps [simp del]

section \<open>Reading a value\<close>

datatype drc = DOk lval | DBad | DLimit | DRaise

record dst =
  d_off :: nat
  d_bufs :: msgbufs
  d_k :: kstate
  d_b :: bufs
  d_mt :: "nat list"

text \<open>The keys \<open>lua_settable\<close> refuses, and what it does with the rest.\<close>

definition is_nan :: "u64 \<Rightarrow> bool" where
  "is_nan d = (take_bit 63 d > 0x7FF0000000000000)"

definition bad_key :: "lval \<Rightarrow> bool" where
  "bad_key k = (case k of LNil \<Rightarrow> True | LNum d \<Rightarrow> is_nan d | _ \<Rightarrow> False)"

definition settable :: "(lval \<Rightarrow> lval) \<Rightarrow> (lval \<times> lval) list \<Rightarrow> lval \<Rightarrow> lval \<Rightarrow> (lval \<times> lval) list" where
  "settable normkey ps k v =
    (let ps = filter (\<lambda>x. fst x \<noteq> normkey k) ps in if v = LNil then ps else ps @ [(normkey k, v)])"

definition msg_int :: "byte list \<Rightarrow> nat \<Rightarrow> nat \<Rightarrow> nat" where
  "msg_int p off n = le_val (take n (drop off p))"

fun deser_pairs ::
  "(lval \<Rightarrow> lval) \<Rightarrow> (dst \<Rightarrow> fault + drc \<times> dst) \<Rightarrow> nat \<Rightarrow> (lval \<times> lval) list \<Rightarrow> dst \<Rightarrow> fault + drc \<times> dst" where
  "deser_pairs normkey rd 0 ps x = Inr (DOk (LTable ps), x)"
| "deser_pairs normkey rd (Suc n) ps x =
    bnd (rd x) (\<lambda>(r, x). case r of
      DOk k \<Rightarrow>
        bnd (rd x) (\<lambda>(r, x). case r of
          DOk v \<Rightarrow>
            if bad_key k then Inr (DRaise, x)
            else deser_pairs normkey rd n (settable normkey ps k v) x
        | _ \<Rightarrow> Inr (r, x))
    | _ \<Rightarrow> Inr (r, x))"

definition deser_buf :: "nat \<Rightarrow> byte list \<Rightarrow> dst \<Rightarrow> fault + drc \<times> dst" where
  "deser_buf receiver p x =
    (if d_off x \<ge> length p then Inr (DBad, x)
     else (let i = unat (p ! d_off x); x = x\<lparr>d_off := d_off x + 1\<rparr> in
       if i \<ge> length (d_bufs x) then Inr (DBad, x)
       else case d_bufs x ! i of
         (None, _) \<Rightarrow> Inr (DBad, x)
       | (Some c, n) \<Rightarrow>
           bnd (get_proc (d_k x) receiver) (\<lambda>q.
           case luabuf_give c n q (d_b x) of
             (Given h, q, b) \<Rightarrow>
               Inr (DOk (LUser h), x\<lparr>d_k := set_proc (d_k x) receiver q, d_b := b,
                                     d_bufs := (d_bufs x)[i := (None, n)]\<rparr>)
           | (Denied, q, b) \<Rightarrow>
               Inr (DLimit, x\<lparr>d_k := set_proc (d_k x) receiver (q\<lparr>pr_bufdenied := True\<rparr>), d_b := b\<rparr>)
           | (Raised, q, b) \<Rightarrow> Inr (DRaise, x\<lparr>d_k := set_proc (d_k x) receiver q, d_b := b\<rparr>))))"

definition right_table :: "nat \<Rightarrow> lval" where
  "right_table h = LTable [(LStr (bstr ''__right''), LInt (of_nat h))]"

definition deser_right :: "nat \<Rightarrow> byte list \<Rightarrow> dst \<Rightarrow> fault + drc \<times> dst" where
  "deser_right receiver p x =
    (if d_off x + 3 > length p then Inr (DBad, x)
     else (let pi = msg_int p (d_off x) 2; recv = (p ! (d_off x + 2) \<noteq> 0); x = x\<lparr>d_off := d_off x + 3\<rparr> in
       if pi \<ge> k_maxports (d_k x) then Inr (DBad, x)
       else case k_portv (d_k x) pi of
         None \<Rightarrow> Inr (DBad, x)
       | Some a \<Rightarrow>
           if length (d_mt x) \<ge> MAXMSGRIGHTS then Inr (DBad, x)
           else bnd (right_new receiver a recv (d_k x)) (\<lambda>(h, s).
             case h of
               None \<Rightarrow> Inr (DLimit, x\<lparr>d_k := s\<rparr>)
             | Some h \<Rightarrow> Inr (DOk (right_table h), x\<lparr>d_k := s, d_mt := d_mt x @ [h]\<rparr>))))"

text \<open>The switch on the tag; \<open>rd\<close> is the call one level down.\<close>

definition deser_tagged ::
  "(lval \<Rightarrow> lval) \<Rightarrow> (dst \<Rightarrow> fault + drc \<times> dst) \<Rightarrow> nat \<Rightarrow> byte list \<Rightarrow> byte \<Rightarrow> dst \<Rightarrow> fault + drc \<times> dst" where
  "deser_tagged normkey rd receiver p tag x =
    (let off = d_off x; len = length p in
     if [tag] = bstr ''N'' then Inr (DOk LNil, x)
     else if [tag] = bstr ''T'' then Inr (DOk (LBool True), x)
     else if [tag] = bstr ''F'' then Inr (DOk (LBool False), x)
     else if [tag] = bstr ''I'' then
       (if off + 8 > len then Inr (DBad, x)
        else Inr (DOk (LInt (of_nat (msg_int p off 8))), x\<lparr>d_off := off + 8\<rparr>))
     else if [tag] = bstr ''D'' then
       (if off + 8 > len then Inr (DBad, x)
        else Inr (DOk (LNum (of_nat (msg_int p off 8))), x\<lparr>d_off := off + 8\<rparr>))
     else if [tag] = bstr ''S'' then
       (if off + 4 > len then Inr (DBad, x)
        else (let n = msg_int p off 4; off = off + 4; x = x\<lparr>d_off := off\<rparr> in
          if off + n > len then Inr (DBad, x)
          else Inr (DOk (LStr (take n (drop off p))), x\<lparr>d_off := off + n\<rparr>)))
     else if [tag] = bstr ''B'' then
       (if off + 4 > len then Inr (DBad, x)
        else (let n = msg_int p off 4; x = x\<lparr>d_off := off + 4\<rparr> in
          if n > (len - (off + 4)) div 2 then Inr (DBad, x)
          else deser_pairs normkey rd n [] x))
     else if [tag] = bstr ''M'' then deser_buf receiver p x
     else if [tag] = bstr ''R'' then deser_right receiver p x
     else Inr (DBad, x))"

text \<open>
  \<open>deser d\<close> is \<open>deserialize\<close> at depth \<open>MAXDEPTH + 1 - d\<close>.
\<close>

fun deser :: "(nat \<Rightarrow> bool) \<Rightarrow> (lval \<Rightarrow> lval) \<Rightarrow> nat \<Rightarrow> byte list \<Rightarrow> nat \<Rightarrow> dst \<Rightarrow> fault + drc \<times> dst" where
  "deser chk normkey receiver p 0 x = Inr (DBad, x)"
| "deser chk normkey receiver p (Suc d) x =
    (if \<not> chk (MAXDEPTH - d) then Inr (DLimit, x)
     else if d_off x \<ge> length p then Inr (DBad, x)
     else deser_tagged normkey (deser chk normkey receiver p d) receiver p (p ! d_off x)
            (x\<lparr>d_off := d_off x + 1\<rparr>))"

declare deser.simps [simp del]

definition deserialize ::
  "(nat \<Rightarrow> bool) \<Rightarrow> (lval \<Rightarrow> lval) \<Rightarrow> nat \<Rightarrow> byte list \<Rightarrow> nat \<Rightarrow> dst \<Rightarrow> fault + drc \<times> dst" where
  "deserialize chk normkey receiver p depth = deser chk normkey receiver p (MAXDEPTH + 1 - depth)"

section \<open>Giving back what a failed walk minted\<close>

fun minted_loop :: "nat \<Rightarrow> nat list \<Rightarrow> kstate \<Rightarrow> fault + kstate" where
  "minted_loop i [] s = Inr s"
| "minted_loop i (h # hs) s =
    bnd (get_proc s i) (\<lambda>p.
    bnd (case right_slot p (int h) of
           None \<Rightarrow> Inr s
         | Some r \<Rightarrow> if r_used r then right_drop i h s else Inr s) (\<lambda>s.
    bnd (get_proc s i) (\<lambda>p.
    minted_loop i hs (set_proc s i (p\<lparr>pr_rhint := (if h < pr_rhint p then h else pr_rhint p)\<rparr>)))))"

definition minted_undo :: "nat \<Rightarrow> nat list \<Rightarrow> kstate \<Rightarrow> fault + kstate" where
  "minted_undo i mt s =
    (if mt = [] then Inr s
     else bnd (ipclock_enter s) (\<lambda>s. bnd (minted_loop i mt s) (\<lambda>s. Inr (ipclock_leave s))))"

section \<open>What a walk keeps\<close>

definition wb_ok :: "wbuf \<Rightarrow> bool" where
  "wb_ok w \<longleftrightarrow> length (wb_buf w) \<le> wb_cap w \<and> wb_cap w \<le> MAXMSG \<and> length (wb_refs w) \<le> MAXMSGRIGHTS \<and>
     length (wb_bufs w) \<le> MAXMSGBUFS \<and> length (wb_own w) = length (wb_bufs w) \<and> distinct (wb_own w)"

lemma wgrow_ge: "ncap \<noteq> 0 \<Longrightarrow> need \<le> wgrow ncap need"
proof (induction ncap need rule: wgrow.induct)
  case (1 ncap need)
  have w: "wgrow ncap need = (if ncap < need \<and> ncap \<noteq> 0 then wgrow (ncap * 2) need else ncap)" by (rule wgrow.simps)
  show ?case unfolding w using 1 by (simp split: if_split)
qed

text \<open>A write: all of it or nothing, and of the kernel only the allocator moves.\<close>

lemma wput_ok:
  assumes "wb_ok w" and "wput xs w s = (ok, w', s')"
  shows "wb_ok w' \<and> (if ok then wb_buf w' = wb_buf w @ xs else w' = w) \<and> wb_refs w' = wb_refs w \<and>
    wb_bufs w' = wb_bufs w \<and> wb_own w' = wb_own w \<and> (s' = s \<or> s' = s\<lparr>k_mcount := Suc (k_mcount s)\<rparr>)"
proof -
  let ?need = "length (wb_buf w) + length xs"
  define g where "g = wgrow (if wb_cap w \<noteq> 0 then wb_cap w * 2 else 256) ?need"
  have g: "?need \<le> g" unfolding g_def by (rule wgrow_ge) auto
  note wput = assms(2) [unfolded wput_def Let_def, folded g_def]
  consider "?need \<le> wb_cap w" | "?need > wb_cap w" "?need > MAXMSG" | "?need > wb_cap w" "?need \<le> MAXMSG" by linarith
  then show ?thesis
  proof cases
    case 3
    then show ?thesis using wput g assms(1) by (cases "k_memok s (k_mcount s)") (auto simp: kmalloc_def wb_ok_def)
  qed (use wput assms(1) in \<open>auto simp: wb_ok_def\<close>)
qed

lemma wput_succeeds:
  "\<forall>k. k_memok s k \<Longrightarrow> length (wb_buf w) + length xs \<le> MAXMSG \<Longrightarrow> fst (wput xs w s)"
  by (simp add: wput_def kmalloc_def Let_def)

definition keeps :: "(wst \<Rightarrow> bool) \<Rightarrow> (wst \<Rightarrow> bool) \<Rightarrow> fault + src \<times> wst \<Rightarrow> bool" where
  "keeps P Q m \<longleftrightarrow> (\<exists>r y. m = Inr (r, y) \<and> P y \<and> (r = SOk \<longrightarrow> Q y))"

lemma keepsI: "m = Inr (r, y) \<Longrightarrow> P y \<Longrightarrow> (r = SOk \<Longrightarrow> Q y) \<Longrightarrow> keeps P Q m"
  by (auto simp: keeps_def)

lemma keeps_sthen:
  assumes "keeps P Q m" and "\<And>y. Q y \<Longrightarrow> keeps P R (f y)"
  shows "keeps P R (sthen m f)"
proof -
  obtain r y where m: "m = Inr (r, y)" "P y" "r = SOk \<longrightarrow> Q y" using assms(1) by (auto simp: keeps_def)
  show ?thesis
  proof (cases "r = SOk")
    case True
    then show ?thesis using m assms(2) by (simp add: sthen_def)
  next
    case False
    then show ?thesis using m by (auto simp: sthen_def keeps_def)
  qed
qed

text \<open>
  Every reference in the message is one the counts of its port know about; the sender is there;
  the buffer has reached length \<open>n\<close>.
\<close>

definition borrowed :: "bufs \<Rightarrow> wbuf \<Rightarrow> bool" where
  "borrowed b w \<longleftrightarrow>
     list_all2 (\<lambda>h e. luabuf_borrow (PBuf h) b = Some (the (fst e), snd e, h) \<and> fst e \<noteq> None) (wb_own w) (wb_bufs w)"

definition ser_inv :: "bufs \<times> kstate \<Rightarrow> owned \<Rightarrow> (addr \<Rightarrow> nat) \<Rightarrow> nat \<Rightarrow> nat \<Rightarrow> wst \<Rightarrow> bool" where
  "ser_inv E G C sender n x \<longleftrightarrow> wb_ok (fst x) \<and> pinv (with_refs G (wb_refs (fst x))) C (snd x) \<and>
     k_procs (snd x) = k_procs (snd E) \<and> k_procs (snd x) sender \<noteq> None \<and> k_maxports (snd x) \<le> 65536 \<and>
     n \<le> length (wb_buf (fst x)) \<and> ports_kept (snd E) (snd x) \<and> borrowed (fst E) (fst x)"

lemma ports_kept_mcount [simp]: "ports_kept s (t\<lparr>k_mcount := k\<rparr>) = ports_kept s t"
  by (simp add: ports_kept_def slot_queue_def port_at_def fun_eq_iff)

lemma ports_kept_ref:
  assumes "ports_kept s t" "k_pheap t a = Some q"
  shows "ports_kept s (set_port t a (port_ref_inc recv q))"
proof -
  have "slot_queue (set_port t a (port_ref_inc recv q)) = slot_queue t"
    by (rule slot_queue_cong) (use assms(2) in \<open>auto simp: port_ref_inc_def\<close>)
  moreover have "map_option (\<lambda>p. (pt_idx p, pt_dead p, pt_gen p, pt_queue p, pt_qbytes p, pt_waiters p)) (k_pheap s a)
      = Some (pt_idx q, pt_dead q, pt_gen q, pt_queue q, pt_qbytes q, pt_waiters q)"
    using assms(2) ports_kept_port [OF assms(1), of a] by simp
  ultimately show ?thesis using assms by (auto simp: ports_kept_def port_ref_inc_def)
qed

lemma pinv_mcount: "pinv G C s \<Longrightarrow> pinv G C (s\<lparr>k_mcount := Suc (k_mcount s)\<rparr>)"
  by (auto simp: pinv_def port_inv_mcount wake_inv_mcount)

lemma put_keeps:
  assumes "ser_inv E G C i n x"
  shows "keeps (ser_inv E G C i n) (ser_inv E G C i (n + length xs)) (put xs x)"
proof -
  obtain ok w s where e: "wput xs (fst x) (snd x) = (ok, w, s)" using prod_cases3 by blast
  have "ser_inv E G C i n (w, s) \<and> (ok \<longrightarrow> ser_inv E G C i (n + length xs) (w, s))"
    using wput_ok [OF _ e] assms pinv_mcount by (auto simp: ser_inv_def borrowed_def split: if_splits)
  then show ?thesis using e by (auto simp: put_def keeps_def)
qed

lemma ser_inv_mono: "ser_inv E G C i n x \<Longrightarrow> m \<le> n \<Longrightarrow> ser_inv E G C i m x"
  by (auto simp: ser_inv_def)

lemma keeps_mono:
  "keeps P Q m \<Longrightarrow> (\<And>y. P y \<Longrightarrow> P' y) \<Longrightarrow> (\<And>y. Q y \<Longrightarrow> Q' y) \<Longrightarrow> keeps P' Q' m"
  unfolding keeps_def by blast

lemma put_keeps_n: "ser_inv E G C i n x \<Longrightarrow> keeps (ser_inv E G C i n) (ser_inv E G C i n) (put xs x)"
  using keeps_mono [OF put_keeps] ser_inv_mono by (metis le_add1)

lemma put_grows: "ser_inv E G C i m x \<Longrightarrow> n \<le> m \<Longrightarrow> keeps (ser_inv E G C i n) (ser_inv E G C i (m + length xs)) (put xs x)"
  using keeps_mono [OF put_keeps] ser_inv_mono by metis

lemmas keeps_seq = keeps_sthen [where Q = "ser_inv E G C i n" and P = "ser_inv E G C i n" for E G C i n]

lemma ser_str_keeps: "ser_inv E G C i n x \<Longrightarrow> keeps (ser_inv E G C i n) (ser_inv E G C i n) (ser_str xs x)"
  unfolding ser_str_def by (intro keeps_seq put_keeps_n)

text \<open>One more reference in flight, counted by the port it names.\<close>

lemma take_ref_inv:
  assumes "pinv G C s" and q: "k_pheap s a = Some q"
  shows "pinv (G((pt_idx q, recv) := G (pt_idx q, recv) + 1)) C (set_port s a (port_ref_inc recv q))"
proof -
  have pi: "port_inv G C s" and wi: "wake_inv s" using assms(1) by (auto simp: pinv_def)
  have "port_inv (G((pt_idx q, recv) := G (pt_idx q, recv) + 1)) C (set_port s a (port_ref_inc recv q))"
    by (rule port_inv_set_port [OF pi q])
      (use port_invD(5) [OF pi q] in \<open>auto simp: port_ref_inc_def queue_ok_def\<close>)
  moreover have "wake_inv (set_port s a (port_ref_inc recv q))"
    by (rule wake_inv_set_port [OF wi q]) (simp add: port_ref_inc_def)
  ultimately show ?thesis by (simp add: pinv_def)
qed

lemma with_refs_snoc: "with_refs G (refs @ [x]) = (with_refs G refs)(x := with_refs G refs x + 1)"
  by (auto simp: with_refs_def)

lemma right_get_live:
  assumes "port_inv G C s" and "k_procs s i = Some p" and "right_get p h = Some (k, r)"
  obtains q where "k_pheap s (r_port r) = Some q" "pt_idx q < k_maxports s" "k < MAXRIGHTS" "right_slot p (int k) = Some r" "r_used r"
proof -
  have g: "right_slot p (c_int h) = Some r" "r_used r" "k = nat (c_int h)"
    using assms(3) by (auto simp: right_get_def split: option.splits if_splits)
  then have k: "k < MAXRIGHTS" "int k = c_int h" by (auto simp: right_slot_def split: if_splits)
  obtain q where "k_pheap s (r_port r) = Some q" "k_portv s (pt_idx q) = Some (r_port r)"
    using right_live [OF assms(1,2), of k r] g k by auto
  moreover then have "pt_idx q < k_maxports s" using ptable_okD(2) [OF port_invD(1) [OF assms(1)]] by blast
  ultimately show thesis using that g k by simp
qed

lemma put_frame:
  assumes "put xs x = Inr (r, y)" "wb_ok (fst x)"
  shows "k_pheap (snd y) = k_pheap (snd x) \<and> wb_refs (fst y) = wb_refs (fst x) \<and> wb_bufs (fst y) = wb_bufs (fst x) \<and>
         wb_own (fst y) = wb_own (fst x)"
proof -
  obtain ok w s where e: "wput xs (fst x) (snd x) = (ok, w, s)" using prod_cases3 by blast
  show ?thesis using assms(1) wput_ok [OF assms(2) e] e by (auto simp: put_def)
qed

definition same_front :: "wst \<Rightarrow> wst \<Rightarrow> bool" where
  "same_front x y \<longleftrightarrow> k_pheap (snd y) = k_pheap (snd x) \<and> wb_refs (fst y) = wb_refs (fst x) \<and>
     wb_bufs (fst y) = wb_bufs (fst x) \<and> wb_own (fst y) = wb_own (fst x)"

lemma put_same:
  assumes "ser_inv E G C i n y" "same_front x y"
  shows "keeps (ser_inv E G C i n) (\<lambda>z. ser_inv E G C i n z \<and> same_front x z) (put xs y)"
  using put_keeps_n [OF assms(1), of xs] put_frame [of xs y] assms
  unfolding keeps_def same_front_def ser_inv_def by fastforce

lemma ser_right_keeps:
  assumes inv: "ser_inv E G C i n x"
  shows "keeps (ser_inv E G C i n) (ser_inv E G C i n) (ser_right i h x)"
proof (cases h)
  case (LInt k)
  obtain p where p: "k_procs (snd x) i = Some p" using inv by (auto simp: ser_inv_def)
  have pi: "port_inv (with_refs G (wb_refs (fst x))) C (snd x)" using inv by (auto simp: ser_inv_def pinv_def)
  show ?thesis
  proof (cases "right_get p (sint k)")
    case None
    then show ?thesis using LInt p inv by (auto simp: ser_right_def get_Some keeps_def)
  next
    case (Some kr)
    obtain j r where kr: "kr = (j, r)" by fastforce
    obtain q where q: "k_pheap (snd x) (r_port r) = Some q" "pt_idx q < k_maxports (snd x)"
      using right_get_live [OF pi p, of "sint k"] Some kr by metis
    have idx: "pt_idx q mod 65536 = pt_idx q" using q(2) inv by (auto simp: ser_inv_def)
    show ?thesis
    proof (cases "length (wb_refs (fst x)) \<ge> MAXMSGRIGHTS")
      case True
      then show ?thesis using LInt p Some kr inv by (auto simp: ser_right_def get_Some keeps_def)
    next
      case room: False
      have last: "keeps (ser_inv E G C i n) (ser_inv E G C i n) (case y of (w, s) \<Rightarrow> bnd (get_port s (r_port r)) (\<lambda>q'.
          Inr (SOk, w\<lparr>wb_refs := wb_refs w @ [(pt_idx q, r_recv r)]\<rparr>, set_port s (r_port r) (port_ref_inc (r_recv r) q'))))"
        if "ser_inv E G C i n y" "same_front x y" for y
      proof -
        obtain w s where y: "y = (w, s)" by fastforce
        have "k_pheap s (r_port r) = Some q" using q(1) that(2) y by (simp add: same_front_def)
        moreover have "ser_inv E G C i n (w\<lparr>wb_refs := wb_refs w @ [(pt_idx q, r_recv r)]\<rparr>, set_port s (r_port r) (port_ref_inc (r_recv r) q))"
          using that room take_ref_inv [of "with_refs G (wb_refs w)" C s "r_port r" q "r_recv r"] calculation
          unfolding y ser_inv_def by (auto simp: wb_ok_def borrowed_def with_refs_snoc same_front_def intro: ports_kept_ref)
        ultimately show ?thesis by (auto simp: y get_Some keeps_def)
      qed
      have sf: "ser_inv E G C i n x \<and> same_front x x" using inv by (simp add: same_front_def)
      have "ser_right i h x = sthen (put (bstr ''R'') x) (\<lambda>x. sthen (put (le_bytes 2 (pt_idx q)) x) (\<lambda>x.
          sthen (put [of_bool (r_recv r)] x) (\<lambda>(w, s). bnd (get_port s (r_port r)) (\<lambda>q'.
          Inr (SOk, w\<lparr>wb_refs := wb_refs w @ [(pt_idx q, r_recv r)]\<rparr>, set_port s (r_port r) (port_ref_inc (r_recv r) q'))))))"
        unfolding ser_right_def LInt using p Some kr room q(1)
        by (simp add: get_Some Let_def idx split del: split_of_bool)
      then show ?thesis
        by (simp only:) (rule keeps_sthen [OF put_same], use sf in blast, use sf in blast,
           rule keeps_sthen [OF put_same], blast, blast,
           rule keeps_sthen [OF put_same], blast, blast, use last in blast)
    qed
  qed
qed (use inv in \<open>auto simp: ser_right_def keeps_def\<close>)

lemma borrow_self: "luabuf_borrow x b = Some (c, m, h) \<Longrightarrow> luabuf_borrow (PBuf h) b = Some (c, m, h)"
  by (auto simp: luabuf_borrow_def split: payload.splits option.splits if_splits)

lemma ser_buf_keeps:
  assumes inv: "ser_inv (b, s0) G C i n x"
  shows "keeps (ser_inv (b, s0) G C i n) (ser_inv (b, s0) G C i n) (ser_buf b v x)"
proof (cases "luabuf_borrow (payload_of v) b")
  case None
  then show ?thesis using inv by (auto simp: ser_buf_def keeps_def)
next
  case (Some e)
  obtain c m h where e: "e = (c, m, h)" using prod_cases3 by blast
  show ?thesis
  proof (cases "length (wb_bufs (fst x)) \<ge> MAXMSGBUFS \<or> h \<in> set (wb_own (fst x))")
    case True
    then show ?thesis using Some e inv by (auto simp: ser_buf_def keeps_def)
  next
    case room: False
    have last: "keeps (ser_inv (b, s0) G C i n) (ser_inv (b, s0) G C i n) (case y of (w, s) \<Rightarrow>
        Inr (SOk, w\<lparr>wb_bufs := wb_bufs w @ [(Some c, m)], wb_own := wb_own w @ [h]\<rparr>, s))"
      if "ser_inv (b, s0) G C i n y" "same_front x y" for y
      using that room borrow_self [OF Some [unfolded e]]
      by (cases y) (auto simp: ser_inv_def wb_ok_def borrowed_def same_front_def keeps_def intro!: list_all2_appendI)
    have sf: "ser_inv (b, s0) G C i n x" "same_front x x" using inv by (simp_all add: same_front_def)
    show ?thesis
      unfolding ser_buf_def Some e option.case prod.case if_not_P [OF room] Let_def
      by (rule keeps_sthen [OF put_same [OF sf]], rule keeps_sthen [OF put_same], blast, blast, use last in blast)
  qed
qed

lemma patch_keeps:
  assumes "ser_inv E G C i (m + 5) y" "n \<le> m"
  shows "keeps (ser_inv E G C i n) (ser_inv E G C i n) (patch_count m k y)"
  using assms by (cases y) (auto simp: patch_count_def ser_inv_def wb_ok_def borrowed_def keeps_def)

lemma serialize_table_keeps:
  assumes inv: "ser_inv E G C i n x"
    and ih: "\<And>y m. ser_inv E G C i m y \<Longrightarrow> keeps (ser_inv E G C i m) (ser_inv E G C i m) (pairs y)"
  shows "keeps (ser_inv E G C i n) (ser_inv E G C i n)
    (sthen (put (bstr ''B'') x) (\<lambda>y. sthen (put (le_bytes 4 0) y) (\<lambda>y. sthen (pairs y) (\<lambda>y.
      patch_count (length (wb_buf (fst x))) k y))))"
proof -
  let ?L = "length (wb_buf (fst x))"
  have L: "ser_inv E G C i ?L x" "n \<le> ?L" using inv by (auto simp: ser_inv_def)
  have 1: "keeps (ser_inv E G C i n) (ser_inv E G C i (?L + 1)) (put (bstr ''B'') x)"
    using put_grows [OF L, of "bstr ''B''"] by (simp add: bstr_def)
  have 2: "keeps (ser_inv E G C i n) (ser_inv E G C i (?L + 5)) (put (le_bytes 4 0) y)" if "ser_inv E G C i (?L + 1) y" for y
    using put_grows [OF that, of n "le_bytes 4 0"] L(2) by (simp add: add.commute)
  have 3: "keeps (ser_inv E G C i n) (ser_inv E G C i (?L + 5)) (pairs y)" if "ser_inv E G C i (?L + 5) y" for y
    by (rule keeps_mono [OF ih [OF that]]) (use L(2) in \<open>auto intro: ser_inv_mono\<close>)
  show ?thesis
    by (rule keeps_sthen [OF 1], rule keeps_sthen [OF 2], assumption, rule keeps_sthen [OF 3], assumption,
        rule patch_keeps, assumption, rule L(2))
qed

lemma serialize_keeps:
  "\<And>n. ser_inv (b, s0) G C i n x \<Longrightarrow> keeps (ser_inv (b, s0) G C i n) (ser_inv (b, s0) G C i n) (serialize chk b i depth v x)"
  "\<And>n. ser_inv (b, s0) G C i n x \<Longrightarrow> keeps (ser_inv (b, s0) G C i n) (ser_inv (b, s0) G C i n) (serialize_pairs chk b i depth ps x)"
proof (induction chk b i depth v x and chk b i depth ps x rule: serialize_serialize_pairs.induct)
  case (1 chk b i depth v x)
  have fail: "keeps (ser_inv (b, s0) G C i n) (ser_inv (b, s0) G C i n) (Inr (r, x))" for r using 1(2) by (auto simp: keeps_def)
  show ?case
  proof (cases "depth > MAXDEPTH \<or> \<not> chk depth")
    case True
    then show ?thesis using fail by (simp add: serialize.simps)
  next
    case ok: False
    note simps = serialize.simps [of chk b i depth v x, unfolded if_not_P [OF ok]]
    show ?thesis
    proof (cases v)
      case (LTable ps)
      show ?thesis
      proof (cases "rawget ps ''__right'' = LNil \<and> rawget ps ''__buf'' = LNil")
        case True
        note ih = 1(1) [OF ok LTable]
        have "keeps (ser_inv (b, s0) G C i m) (ser_inv (b, s0) G C i m) (serialize_pairs chk b i (depth + 1) ps y)"
          if "ser_inv (b, s0) G C i m y" for m y
          using ih that True by blast
        note t = serialize_table_keeps [OF 1(2) this]
        have "serialize chk b i depth v x = sthen (put (bstr ''B'') x) (\<lambda>y. sthen (put (le_bytes 4 0) y) (\<lambda>y.
            sthen (serialize_pairs chk b i (depth + 1) ps y) (\<lambda>y. patch_count (length (wb_buf (fst x))) (length ps) y)))"
          unfolding simps unfolding LTable using True by simp
        then show ?thesis using t by simp
      next
        case False
        then show ?thesis unfolding simps using ser_right_keeps [OF 1(2)] ser_buf_keeps [OF 1(2)] by (auto simp: LTable)
      qed
    next
      case (LUser h)
      then show ?thesis unfolding simps using ser_str_keeps [OF 1(2)] fail by (auto split: sum.split option.split)
    qed (unfold simps, use 1(2) fail in \<open>auto intro: put_keeps_n keeps_seq ser_str_keeps\<close>)
  qed
next
  case (2 chk b i depth x)
  then show ?case by (auto simp: serialize_pairs.simps keeps_def)
next
  case (3 chk b i depth kv ps x)
  show ?case unfolding serialize_pairs.simps
    by (rule keeps_seq, rule 3(1) [OF 3(4)], rule keeps_seq, erule 3(2), erule 3(3))
qed

lemma ser_inv_start:
  "pinv G C s \<Longrightarrow> k_procs s i = Some p \<Longrightarrow> k_maxports s \<le> 65536 \<Longrightarrow> ser_inv (b, s) G C i 0 (wbuf0, s)"
  by (simp add: ser_inv_def wbuf0_def wb_ok_def borrowed_def with_refs_def ports_kept_def)

text \<open>
  C15: serializing any value returns, whatever it meets. The message never passes \<open>MAXMSG\<close> bytes,
  \<open>MAXMSGRIGHTS\<close> rights or \<open>MAXMSGBUFS\<close> buffers, no buffer is taken twice, every buffer in it is one
  its owner could lend, and every right in it holds one reference of the port it names, which the
  caller owns whether the walk succeeded or not. No queue, lock or timer moves.
\<close>

theorem serialize_accounts:
  assumes "pinv G C s" "k_procs s i = Some p" "k_maxports s \<le> 65536"
  shows "\<exists>r w s'. serialize chk b i depth v (wbuf0, s) = Inr (r, w, s') \<and>
    pinv (with_refs G (wb_refs w)) C s' \<and> ports_kept s s' \<and> length (wb_buf w) \<le> MAXMSG \<and>
    length (wb_refs w) \<le> MAXMSGRIGHTS \<and> length (wb_bufs w) \<le> MAXMSGBUFS \<and> distinct (wb_own w) \<and> borrowed b w"
  using serialize_keeps(1) [OF ser_inv_start [OF assms, of b], of chk depth v]
  by (fastforce simp: keeps_def ser_inv_def wb_ok_def)

theorem serialize_accounts_witness:
  "pinv demo_owned (\<lambda>_. 0) demo3 \<and> k_procs demo3 0 = Some (right_fill demo_proc 0 1 False) \<and> k_maxports demo3 \<le> 65536 \<and>
   (\<exists>r w s'. serialize (\<lambda>_. True) bufs0 0 0 (LTable [(LStr (bstr ''__right''), LInt 0)]) (wbuf0, demo3) = Inr (r, w, s') \<and>
    pinv (with_refs demo_owned (wb_refs w)) (\<lambda>_. 0) s' \<and> ports_kept demo3 s' \<and> length (wb_buf w) \<le> MAXMSG \<and>
    length (wb_refs w) \<le> MAXMSGRIGHTS \<and> length (wb_bufs w) \<le> MAXMSGBUFS \<and> distinct (wb_own w) \<and> borrowed bufs0 w)"
proof -
  have p: "k_procs demo3 0 = Some (right_fill demo_proc 0 1 False)" and m: "k_maxports demo3 \<le> 65536"
    by (simp_all add: demo3_eval)
  show ?thesis using demo3_inv p m serialize_accounts [OF demo3_inv p m] by blast
qed

end
