(* ===== verification/SerialTrip.thy ===== *)
theory SerialTrip
  imports Serialize
begin

text \<open>
  What a message says: the bytes \<open>serialize\<close> writes for a value that carries no right and no moved
  buffer, that \<open>deserialize\<close> reads them back as that value, and that no message, however made,
  takes it past its end.
\<close>

section \<open>The wire format\<close>

text \<open>What a value looks like on the wire, and what its reader gets: a buffer arrives as a string.\<close>

definition user_bytes :: "bufs \<Rightarrow> nat \<Rightarrow> byte list option" where
  "user_bytes b h = (case luabuf_bytes (PBuf h) b of Inr (Some xs) \<Rightarrow> Some xs | _ \<Rightarrow> None)"

definition enc_str :: "byte list \<Rightarrow> byte list" where
  "enc_str xs = bstr ''S'' @ le_bytes 4 (length xs) @ xs"

primrec enc :: "bufs \<Rightarrow> lval \<Rightarrow> byte list" where
  "enc b LNil = bstr ''N''"
| "enc b (LBool t) = (if t then bstr ''T'' else bstr ''F'')"
| "enc b (LInt i) = bstr ''I'' @ le_bytes 8 (unat i)"
| "enc b (LNum d) = bstr ''D'' @ le_bytes 8 (unat d)"
| "enc b (LStr xs) = enc_str xs"
| "enc b (LTable ps) = bstr ''B'' @ le_bytes 4 (length ps) @
     concat (map (\<lambda>x. fst x @ snd x) (map (map_prod (enc b) (enc b)) ps))"
| "enc b (LUser h) = enc_str (the (user_bytes b h))"
| "enc b LOther = []"

primrec normv :: "bufs \<Rightarrow> lval \<Rightarrow> lval" where
  "normv b LNil = LNil"
| "normv b (LBool t) = LBool t"
| "normv b (LInt i) = LInt i"
| "normv b (LNum d) = LNum d"
| "normv b (LStr xs) = LStr xs"
| "normv b (LTable ps) = LTable (map (map_prod (normv b) (normv b)) ps)"
| "normv b (LUser h) = LStr (the (user_bytes b h))"
| "normv b LOther = LOther"

primrec ldepth :: "lval \<Rightarrow> nat" where
  "ldepth LNil = 0"
| "ldepth (LBool t) = 0"
| "ldepth (LInt i) = 0"
| "ldepth (LNum d) = 0"
| "ldepth (LStr xs) = 0"
| "ldepth (LTable ps) = fold max (map (\<lambda>x. Suc (max (fst x) (snd x))) (map (map_prod ldepth ldepth) ps)) 0"
| "ldepth (LUser h) = 0"
| "ldepth LOther = 0"

text \<open>
  Values without rights and moved buffers, with tables as lua has them: no nil in a pair, and keys
  that \<open>lua_settable\<close> files under themselves, also once they have arrived.
\<close>

definition table_ok :: "(lval \<Rightarrow> lval) \<Rightarrow> (lval \<times> lval) list \<Rightarrow> bool" where
  "table_ok normkey qs \<longleftrightarrow> distinct (map fst qs) \<and>
     list_all (\<lambda>x. \<not> bad_key (fst x) \<and> normkey (fst x) = fst x \<and> snd x \<noteq> LNil) qs"

primrec plain :: "(lval \<Rightarrow> lval) \<Rightarrow> bufs \<Rightarrow> lval \<Rightarrow> bool" where
  "plain normkey b LNil = True"
| "plain normkey b (LBool t) = True"
| "plain normkey b (LInt i) = True"
| "plain normkey b (LNum d) = True"
| "plain normkey b (LStr xs) = True"
| "plain normkey b (LTable ps) = (rawget ps ''__right'' = LNil \<and> rawget ps ''__buf'' = LNil \<and>
     table_ok normkey (map (map_prod (normv b) (normv b)) ps) \<and>
     list_all (\<lambda>x. fst x \<and> snd x) (map (map_prod (plain normkey b) (plain normkey b)) ps))"
| "plain normkey b (LUser h) = (user_bytes b h \<noteq> None)"
| "plain normkey b LOther = False"

lemma fold_max_le: "fold max xs a \<le> n \<longleftrightarrow> a \<le> n \<and> (\<forall>x\<in>set xs. x \<le> n)" for a n :: nat
  by (induction xs arbitrary: a) auto

definition ready :: "wst \<Rightarrow> nat \<Rightarrow> bool" where
  "ready x n \<longleftrightarrow> wb_ok (fst x) \<and> (\<forall>k. k_memok (snd x) k) \<and> length (wb_buf (fst x)) + n \<le> MAXMSG"

definition emits :: "wst \<Rightarrow> byte list \<Rightarrow> fault + src \<times> wst \<Rightarrow> bool" where
  "emits x xs m \<longleftrightarrow> (\<exists>y. m = Inr (SOk, y) \<and> wb_ok (fst y) \<and> (\<forall>k. k_memok (snd y) k) \<and>
     wb_buf (fst y) = wb_buf (fst x) @ xs \<and> wb_refs (fst y) = wb_refs (fst x) \<and> wb_bufs (fst y) = wb_bufs (fst x))"

lemma put_emits: "ready x (length xs) \<Longrightarrow> emits x xs (put xs x)"
proof -
  assume r: "ready x (length xs)"
  obtain ok w s where e: "wput xs (fst x) (snd x) = (ok, w, s)" using prod_cases3 by blast
  have "ok" using wput_succeeds [of "snd x" "fst x" xs] r e by (simp add: ready_def)
  then show ?thesis using wput_ok [OF _ e] r e by (auto simp: put_def emits_def ready_def)
qed

lemma emits_sthen:
  assumes "ready x (length xs + length ys)" "emits x xs m"
    "\<And>y. ready y (length ys) \<Longrightarrow> wb_buf (fst y) = wb_buf (fst x) @ xs \<Longrightarrow> emits y ys (f y)"
  shows "emits x (xs @ ys) (sthen m f)"
proof -
  obtain y where y: "m = Inr (SOk, y)" "wb_ok (fst y)" "\<forall>k. k_memok (snd y) k" "wb_buf (fst y) = wb_buf (fst x) @ xs"
    "wb_refs (fst y) = wb_refs (fst x)" "wb_bufs (fst y) = wb_bufs (fst x)"
    using assms(2) by (auto simp: emits_def)
  then have "emits y ys (f y)" using assms by (auto simp: ready_def)
  then show ?thesis using y by (auto simp: emits_def sthen_def)
qed

lemma ready_le: "ready x n \<Longrightarrow> m \<le> n \<Longrightarrow> ready x m" by (auto simp: ready_def)

lemma put2_emits: "ready x (length xs + length ys) \<Longrightarrow> emits x (xs @ ys) (sthen (put xs x) (put ys))"
  by (rule emits_sthen, assumption, rule put_emits, erule ready_le, simp, erule put_emits)

lemma ser_str_emits: "ready x (length (enc_str xs)) \<Longrightarrow> emits x (enc_str xs) (ser_str xs x)"
  unfolding enc_str_def ser_str_def
  by (rule emits_sthen, simp, rule put_emits, erule ready_le, simp,
      rule emits_sthen, simp, rule put_emits, erule ready_le, simp, erule put_emits)

definition enc_pairs :: "bufs \<Rightarrow> (lval \<times> lval) list \<Rightarrow> byte list" where
  "enc_pairs b ps = concat (map (\<lambda>x. enc b (fst x) @ enc b (snd x)) ps)"

lemma enc_table: "enc b (LTable ps) = bstr ''B'' @ le_bytes 4 (length ps) @ enc_pairs b ps"
  by (simp add: enc_pairs_def comp_def)

declare enc.simps(6) [simp del]

lemma pairs_emits:
  assumes "\<And>k v. (k, v) \<in> set ps \<Longrightarrow>
      (\<forall>x. ready x (length (enc b k)) \<longrightarrow> emits x (enc b k) (serialize chk b i depth k x)) \<and>
      (\<forall>x. ready x (length (enc b v)) \<longrightarrow> emits x (enc b v) (serialize chk b i depth v x))"
    "ready x (length (enc_pairs b ps))"
  shows "emits x (enc_pairs b ps) (serialize_pairs chk b i depth ps x)"
  using assms
proof (induction ps arbitrary: x)
  case Nil
  then show ?case by (auto simp: serialize_pairs.simps enc_pairs_def emits_def ready_def)
next
  case (Cons kv ps)
  obtain k v where kv: "kv = (k, v)" by fastforce
  have e: "enc_pairs b (kv # ps) = enc b k @ enc b v @ enc_pairs b ps" by (simp add: enc_pairs_def kv)
  have kv_emits: "emits x (enc b k) (serialize chk b i depth k x)" if "ready x (length (enc b k))" for x
    using Cons.prems(1) [of k v] that kv by (metis list.set_intros(1))
  have v_emits: "emits x (enc b v) (serialize chk b i depth v x)" if "ready x (length (enc b v))" for x
    using Cons.prems(1) [of k v] that kv by (metis list.set_intros(1))
  have rest: "emits x (enc_pairs b ps) (serialize_pairs chk b i depth ps x)" if "ready x (length (enc_pairs b ps))" for x
    by (rule Cons.IH [OF Cons.prems(1) [OF list.set_intros(2)] that])
  have r: "ready x (length (enc b k) + length (enc b v @ enc_pairs b ps))" using Cons.prems(2) by (simp add: e)
  show ?case unfolding e serialize_pairs.simps unfolding kv fst_conv snd_conv
  proof (rule emits_sthen [OF r kv_emits [OF ready_le [OF r]]])
    fix y assume y: "ready y (length (enc b v @ enc_pairs b ps))"
    then have ry: "ready y (length (enc b v) + length (enc_pairs b ps))" by simp
    show "emits y (enc b v @ enc_pairs b ps) (sthen (serialize chk b i depth v y) (serialize_pairs chk b i depth ps))"
      by (rule emits_sthen [OF ry v_emits [OF ready_le [OF ry]] rest]) simp
  qed simp
qed

lemma table_emits:
  assumes r: "ready x (length (enc b (LTable ps)))"
    and pairs: "\<And>y. ready y (length (enc_pairs b ps)) \<Longrightarrow> emits y (enc_pairs b ps) (pr y)"
  shows "emits x (enc b (LTable ps)) (sthen (put (bstr ''B'') x) (\<lambda>y. sthen (put (le_bytes 4 0) y) (\<lambda>y.
      sthen (pr y) (\<lambda>y. patch_count (length (wb_buf (fst x))) (length ps) y))))"
proof -
  let ?E = "enc_pairs b ps" and ?B = "bstr ''B''"
  have lB: "length ?B = 1" by (simp add: bstr_def)
  have r1: "ready x (length ?B + length (le_bytes 4 0 @ ?E))" using r by (simp add: enc_table)
  obtain y1 where y1: "put ?B x = Inr (SOk, y1)" "ready y1 (length (le_bytes 4 0) + length ?E)" "wb_buf (fst y1) = wb_buf (fst x) @ ?B"
    "wb_refs (fst y1) = wb_refs (fst x)" "wb_bufs (fst y1) = wb_bufs (fst x)"
    using put_emits [of x ?B, OF ready_le [OF r1]] r1 by (auto simp: emits_def ready_def)
  obtain y2 where y2: "put (le_bytes 4 0) y1 = Inr (SOk, y2)" "ready y2 (length ?E)" "wb_buf (fst y2) = wb_buf (fst y1) @ le_bytes 4 0"
    "wb_refs (fst y2) = wb_refs (fst y1)" "wb_bufs (fst y2) = wb_bufs (fst y1)"
    using put_emits [of y1 "le_bytes 4 0", OF ready_le [OF y1(2)]] y1(2) by (auto simp: emits_def ready_def)
  obtain y3 where y3: "pr y2 = Inr (SOk, y3)" "wb_ok (fst y3)" "\<forall>k. k_memok (snd y3) k" "wb_buf (fst y3) = wb_buf (fst y2) @ ?E"
    "wb_refs (fst y3) = wb_refs (fst y2)" "wb_bufs (fst y3) = wb_bufs (fst y2)"
    using pairs [OF y2(2)] by (auto simp: emits_def)
  have buf: "wb_buf (fst y3) = (wb_buf (fst x) @ ?B) @ le_bytes 4 0 @ ?E" using y1 y2 y3 by simp
  have "take (length (wb_buf (fst x)) + 1) (wb_buf (fst y3)) @ le_bytes 4 (length ps) @ drop (length (wb_buf (fst x)) + 5) (wb_buf (fst y3))
      = wb_buf (fst x) @ enc b (LTable ps)"
    unfolding buf enc_table using lB by simp
  moreover have "length (enc b (LTable ps)) = 5 + length ?E" by (simp add: enc_table lB)
  ultimately show ?thesis
    using y1(1,4,5) y2(1,4,5) y3 buf lB by (cases y3) (auto simp: emits_def sthen_def patch_count_def wb_ok_def)
qed
lemma plain_table:
  "plain nk b (LTable ps) \<longleftrightarrow> rawget ps ''__right'' = LNil \<and> rawget ps ''__buf'' = LNil \<and>
     table_ok nk (map (map_prod (normv b) (normv b)) ps) \<and> (\<forall>(k, v)\<in>set ps. plain nk b k \<and> plain nk b v)"
  by (auto simp: list_all_iff)

lemma ldepth_table: "ldepth (LTable ps) \<le> n \<longleftrightarrow> (\<forall>(k, v)\<in>set ps. Suc (ldepth k) \<le> n \<and> Suc (ldepth v) \<le> n)"
  by (auto simp: fold_max_le)

declare plain.simps(6) [simp del] ldepth.simps(6) [simp del]

lemma serialize_emits:
  assumes chk: "\<forall>d. chk d"
  shows "plain nk b v \<Longrightarrow> depth + ldepth v \<le> MAXDEPTH \<Longrightarrow> ready x (length (enc b v)) \<Longrightarrow>
    emits x (enc b v) (serialize chk b i depth v x)"
proof (induction v arbitrary: depth x)
  case (LTable ps)
  have r: "rawget ps ''__right'' = LNil" "rawget ps ''__buf'' = LNil" using LTable.prems(1) by (auto simp: plain_table)
  have el: "plain nk b k \<and> plain nk b v \<and> depth + 1 + ldepth k \<le> MAXDEPTH \<and> depth + 1 + ldepth v \<le> MAXDEPTH"
    if "(k, v) \<in> set ps" for k v
  proof -
    have "ldepth (LTable ps) \<le> MAXDEPTH - depth" using LTable.prems(2) by simp
    then have "Suc (ldepth k) \<le> MAXDEPTH - depth" "Suc (ldepth v) \<le> MAXDEPTH - depth" using that ldepth_table by blast+
    then show ?thesis using that LTable.prems(1) by (auto simp: plain_table)
  qed
  have "emits y (enc_pairs b ps) (serialize_pairs chk b i (depth + 1) ps y)" if "ready y (length (enc_pairs b ps))" for y
  proof (rule pairs_emits [OF _ that])
    fix k v assume kv: "(k, v) \<in> set ps"
    then show "(\<forall>x. ready x (length (enc b k)) \<longrightarrow> emits x (enc b k) (serialize chk b i (depth + 1) k x)) \<and>
      (\<forall>x. ready x (length (enc b v)) \<longrightarrow> emits x (enc b v) (serialize chk b i (depth + 1) v x))"
      using LTable.IH [OF kv, of k "depth + 1"] LTable.IH [OF kv, of v "depth + 1"] el [OF kv] by simp
  qed
  from table_emits [OF LTable.prems(3) this] show ?case
    using r chk [rule_format, of depth] LTable.prems(2) by (simp add: serialize.simps)
next
  case (LUser h)
  then obtain xs where "luabuf_bytes (PBuf h) b = Inr (Some xs)" "user_bytes b h = Some xs"
    by (auto simp: user_bytes_def split: sum.splits option.splits)
  then show ?case using LUser.prems chk ser_str_emits by (simp add: serialize.simps)
qed (use chk in \<open>auto simp: serialize.simps intro: ser_str_emits put_emits put2_emits\<close>)

section \<open>Reading it back\<close>

lemma bstr_ch [simp]: "length (bstr [c]) = 1" "[t] = bstr [c] \<longleftrightarrow> t = of_char c" "bstr [c] = [of_char c]"
  by (auto simp: bstr_def)

lemma msg_int_at:
  assumes "p = pre @ le_bytes n k @ post" "length pre = off" "k < 256 ^ n"
  shows "msg_int p off n = k"
  using assms by (simp add: msg_int_def le_val_le_bytes)

lemma settable_new:
  "normkey k = k \<Longrightarrow> k \<notin> fst ` set ps \<Longrightarrow> v \<noteq> LNil \<Longrightarrow> settable normkey ps k v = ps @ [(k, v)]"
  by (auto simp: settable_def filter_id_conv)

lemma deser_pairs_enc:
  assumes "\<And>k v. (k, v) \<in> set ps \<Longrightarrow>
      (\<forall>pre post x. p = pre @ enc b k @ post \<longrightarrow> length pre = d_off x \<longrightarrow>
         rd x = Inr (DOk (normv b k), x\<lparr>d_off := d_off x + length (enc b k)\<rparr>)) \<and>
      (\<forall>pre post x. p = pre @ enc b v @ post \<longrightarrow> length pre = d_off x \<longrightarrow>
         rd x = Inr (DOk (normv b v), x\<lparr>d_off := d_off x + length (enc b v)\<rparr>))"
    "table_ok nk (acc @ map (map_prod (normv b) (normv b)) ps)"
    "p = pre @ enc_pairs b ps @ post" "length pre = d_off x"
  shows "deser_pairs nk rd (length ps) acc x =
    Inr (DOk (LTable (acc @ map (map_prod (normv b) (normv b)) ps)), x\<lparr>d_off := d_off x + length (enc_pairs b ps)\<rparr>)"
  using assms
proof (induction ps arbitrary: acc pre x)
  case Nil
  then show ?case by (simp add: enc_pairs_def)
next
  case (Cons kv ps)
  obtain k v where kv: "kv = (k, v)" by fastforce
  have e: "enc_pairs b (kv # ps) = enc b k @ enc b v @ enc_pairs b ps" by (simp add: enc_pairs_def kv)
  let ?x1 = "x\<lparr>d_off := d_off x + length (enc b k)\<rparr>"
  let ?x2 = "?x1\<lparr>d_off := d_off ?x1 + length (enc b v)\<rparr>"
  have p: "p = pre @ enc b k @ (enc b v @ enc_pairs b ps @ post)"
    "p = (pre @ enc b k) @ enc b v @ (enc_pairs b ps @ post)"
    "p = ((pre @ enc b k) @ enc b v) @ enc_pairs b ps @ post" using Cons.prems(3) e by simp_all
  note el = Cons.prems(1) [of k v, unfolded kv, OF list.set_intros(1)]
  have 1: "rd x = Inr (DOk (normv b k), ?x1)" using el p(1) Cons.prems(4) by blast
  have "length (pre @ enc b k) = d_off ?x1" using Cons.prems(4) by simp
  then have 2: "rd ?x1 = Inr (DOk (normv b v), ?x2)" using el p(2) by blast
  have t: "\<not> bad_key (normv b k)" "nk (normv b k) = normv b k" "normv b v \<noteq> LNil" "normv b k \<notin> fst ` set acc"
    using Cons.prems(2) kv by (auto simp: table_ok_def)
  have s: "settable nk acc (normv b k) (normv b v) = acc @ [(normv b k, normv b v)]"
    using t(2,4,3) by (rule settable_new)
  have "deser_pairs nk rd (length ps) (acc @ [(normv b k, normv b v)]) ?x2 =
      Inr (DOk (LTable ((acc @ [(normv b k, normv b v)]) @ map (map_prod (normv b) (normv b)) ps)), ?x2\<lparr>d_off := d_off ?x2 + length (enc_pairs b ps)\<rparr>)"
    by (rule Cons.IH [OF Cons.prems(1) [OF list.set_intros(2)] _ p(3)]) (use Cons.prems(2,4) kv in auto)
  then show ?case using 1 2 t(1) s by (simp add: kv e [unfolded kv] add.assoc)
qed

lemma enc_pos: "plain nk b v \<Longrightarrow> 1 \<le> length (enc b v)"
  by (cases v) (auto simp: enc_table enc_str_def)

lemma enc_pairs_len: "(\<forall>(k, v)\<in>set ps. plain nk b k \<and> plain nk b v) \<Longrightarrow> 2 * length ps \<le> length (enc_pairs b ps)"
proof (induction ps)
  case (Cons kv ps)
  then show ?case using enc_pos [of nk b "fst kv"] enc_pos [of nk b "snd kv"] by (force simp: enc_pairs_def)
qed simp

lemma deser_tag:
  assumes "p = pre @ t # post" "length pre = d_off x" "chk (MAXDEPTH - d)"
  shows "deser chk nk i p (Suc d) x = deser_tagged nk (deser chk nk i p d) i p t (x\<lparr>d_off := d_off x + 1\<rparr>)"
proof -
  have "p ! d_off x = t" "d_off x < length p" using assms(1,2) by (auto simp: nth_append)
  then show ?thesis using assms(3) by (simp add: deser.simps)
qed

lemma deser_str:
  assumes p: "p = pre @ enc_str xs @ post" "length pre = d_off x" and n: "length p \<le> MAXMSG" and c: "chk (MAXDEPTH - d)"
  shows "deser chk nk i p (Suc d) x = Inr (DOk (LStr xs), x\<lparr>d_off := d_off x + length (enc_str xs)\<rparr>)"
proof -
  have l: "length xs < 256 ^ 4" using n p(1) by (simp add: enc_str_def)
  have p1: "p = pre @ of_char CHR ''S'' # (le_bytes 4 (length xs) @ xs @ post)" using p(1) by (simp add: enc_str_def)
  have "msg_int p (d_off x + 1) 4 = length xs"
    by (rule msg_int_at [where pre = "pre @ [of_char CHR ''S'']" and post = "xs @ post"]) (use p1 p(2) l in auto)
  moreover have "take (length xs) (drop (d_off x + 1 + 4) p) = xs" using p(2) unfolding p1 by simp
  moreover have "d_off x + 1 + 4 + length xs \<le> length p" using p by (simp add: enc_str_def)
  ultimately show ?thesis
    unfolding deser_tag [where chk = chk and d = d, OF p1 p(2) c] by (simp add: deser_tagged_def Let_def enc_str_def)
qed

lemma deser_num:
  assumes p: "p = pre @ of_char t # le_bytes 8 (unat v) @ post" "length pre = d_off x" and c: "chk (MAXDEPTH - d)"
    and t: "t = CHR ''I'' \<or> t = CHR ''D''"
  shows "deser chk nk i p (Suc d) x = Inr (DOk ((if t = CHR ''I'' then LInt else LNum) v), x\<lparr>d_off := d_off x + 9\<rparr>)"
proof -
  have "msg_int p (d_off x + 1) 8 = unat v"
    by (rule msg_int_at [where pre = "pre @ [of_char t]" and post = post]) (use p unat_bounds(4) [of v] in auto)
  moreover have "d_off x + 1 + 8 \<le> length p" using p by simp
  ultimately show ?thesis using t unfolding deser_tag [where chk = chk and d = d, OF p(1,2) c] by (auto simp: deser_tagged_def Let_def)
qed

lemma deser_enc:
  assumes chk: "\<forall>d. chk d" and n: "length p \<le> MAXMSG"
  shows "plain nk b v \<Longrightarrow> ldepth v < d \<Longrightarrow> p = pre @ enc b v @ post \<Longrightarrow> length pre = d_off x \<Longrightarrow>
    deser chk nk i p d x = Inr (DOk (normv b v), x\<lparr>d_off := d_off x + length (enc b v)\<rparr>)"
proof (induction v arbitrary: d pre post x)
  case (LTable ps)
  obtain e where d: "d = Suc e" using LTable.prems(2) by (cases d) auto
  have el: "plain nk b k \<and> plain nk b v \<and> ldepth k < e \<and> ldepth v < e" if "(k, v) \<in> set ps" for k v
    using that LTable.prems(1,2) ldepth_table [of ps e] unfolding d plain_table by fastforce
  have pl: "\<forall>(k, v)\<in>set ps. plain nk b k \<and> plain nk b v" using el by blast
  have p1: "p = pre @ of_char CHR ''B'' # (le_bytes 4 (length ps) @ enc_pairs b ps @ post)"
    using LTable.prems(3) by (simp add: enc_table)
  have p2: "p = (pre @ of_char CHR ''B'' # le_bytes 4 (length ps)) @ enc_pairs b ps @ post" using p1 by simp
  have two: "2 * length ps \<le> length (enc_pairs b ps)" by (rule enc_pairs_len [OF pl])
  have l: "length ps < 256 ^ 4" using two n p1 by simp
  let ?x = "x\<lparr>d_off := d_off x + 1 + 4\<rparr>"
  have m: "msg_int p (d_off x + 1) 4 = length ps"
    by (rule msg_int_at [where pre = "pre @ [of_char CHR ''B'']" and post = "enc_pairs b ps @ post"])
      (use p1 LTable.prems(4) l in auto)
  have "deser_pairs nk (deser chk nk i p e) (length ps) [] ?x =
      Inr (DOk (LTable ([] @ map (map_prod (normv b) (normv b)) ps)), ?x\<lparr>d_off := d_off ?x + length (enc_pairs b ps)\<rparr>)"
  proof (rule deser_pairs_enc [OF _ _ p2])
    fix k v assume kv: "(k, v) \<in> set ps"
    then show "(\<forall>pre post x. p = pre @ enc b k @ post \<longrightarrow> length pre = d_off x \<longrightarrow>
         deser chk nk i p e x = Inr (DOk (normv b k), x\<lparr>d_off := d_off x + length (enc b k)\<rparr>)) \<and>
      (\<forall>pre post x. p = pre @ enc b v @ post \<longrightarrow> length pre = d_off x \<longrightarrow>
         deser chk nk i p e x = Inr (DOk (normv b v), x\<lparr>d_off := d_off x + length (enc b v)\<rparr>))"
      using LTable.IH [OF kv, of k] LTable.IH [OF kv, of v] el [OF kv] by simp
  qed (use LTable.prems(1,4) in \<open>auto simp: plain_table\<close>)
  moreover have "length ps \<le> (length p - (d_off x + 1 + 4)) div 2" "d_off x + 1 + 4 \<le> length p"
    using two p1 LTable.prems(4) by auto
  ultimately show ?case
    using m LTable.prems(4) unfolding d deser_tag [where chk = chk and d = e, OF p1 LTable.prems(4) chk [rule_format]]
    by (simp add: deser_tagged_def Let_def enc_table)
next
  case (LUser h)
  then show ?case using deser_str [where chk = chk, OF _ LUser.prems(4) n, of _ post "d - 1" nk i] chk [rule_format, of "MAXDEPTH - (d - 1)"] by (cases d) auto
next
  case (LStr xs)
  then show ?case using deser_str [where chk = chk, OF _ LStr.prems(4) n, of _ post "d - 1" nk i] chk [rule_format, of "MAXDEPTH - (d - 1)"] by (cases d) auto
next
  case (LInt v)
  then show ?case using deser_num [where chk = chk, OF _ LInt.prems(4), of p "CHR ''I''" v post "d - 1" nk i] chk [rule_format, of "MAXDEPTH - (d - 1)"] by (cases d) auto
next
  case (LNum v)
  then show ?case using deser_num [where chk = chk, OF _ LNum.prems(4), of p "CHR ''D''" v post "d - 1" nk i] chk [rule_format, of "MAXDEPTH - (d - 1)"] by (cases d) auto
next
  case (LBool t)
  then show ?case using deser_tag [where chk = chk, OF _ LBool.prems(4), of p _ post "d - 1" nk i] chk [rule_format, of "MAXDEPTH - (d - 1)"] by (cases d) (auto simp: deser_tagged_def Let_def split: if_splits)
next
  case LNil
  then show ?case using deser_tag [where chk = chk, OF _ LNil.prems(4), of p _ post "d - 1" nk i] chk [rule_format, of "MAXDEPTH - (d - 1)"] by (cases d) (auto simp: deser_tagged_def Let_def)
qed simp

text \<open>
  C12: a value that carries no right and no moved buffer arrives as it was sent: with memory and
  within the depth and size limits \<open>serialize\<close> succeeds, and \<open>deserialize\<close> of its bytes, followed
  by anything, gives the value back and stops where its bytes end. A buffer sent bare arrives as a
  string of its bytes.
\<close>

theorem message_roundtrip:
  assumes chk: "\<forall>d. chk d" and v: "plain normkey b v" "ldepth v \<le> MAXDEPTH" "length (enc b v @ rest) \<le> MAXMSG"
    and mem: "\<forall>k. k_memok s k" and x0: "d_off x0 = 0"
  shows "\<exists>w s'. serialize chk b i 0 v (wbuf0, s) = Inr (SOk, w, s') \<and>
    deserialize chk normkey j (wb_buf w @ rest) 0 x0 = Inr (DOk (normv b v), x0\<lparr>d_off := length (wb_buf w)\<rparr>)"
proof -
  have r: "ready (wbuf0, s) (length (enc b v))" using mem v(3) by (simp add: ready_def wbuf0_def wb_ok_def)
  have "0 + ldepth v \<le> MAXDEPTH" using v(2) by simp
  from serialize_emits [OF chk v(1) this r, of i] obtain w s' where
    w: "serialize chk b i 0 v (wbuf0, s) = Inr (SOk, w, s')" "wb_buf w = enc b v"
    by (auto simp: emits_def wbuf0_def)
  have "deser chk normkey j (wb_buf w @ rest) (MAXDEPTH + 1 - 0) x0 =
      Inr (DOk (normv b v), x0\<lparr>d_off := d_off x0 + length (enc b v)\<rparr>)"
    by (rule deser_enc [OF chk _ v(1), where pre = "[]" and post = rest]) (use v x0 w in auto)
  then show ?thesis using w x0 by (auto simp: deserialize_def)
qed

definition demo_value :: lval where
  "demo_value = LTable [(LStr (bstr ''a''), LInt 5), (LInt 1, LTable [(LBool True, LStr [])])]"

definition demo_reader :: dst where
  "demo_reader = \<lparr>d_off = 0, d_bufs = [], d_k = kzero 4 4 1 (\<lambda>_. True), d_b = bufs0, d_mt = []\<rparr>"

theorem message_roundtrip_witness:
  "\<exists>w s'. serialize (\<lambda>_. True) bufs0 0 0 demo_value (wbuf0, kzero 4 4 1 (\<lambda>_. True)) = Inr (SOk, w, s') \<and>
    deserialize (\<lambda>_. True) id 1 (wb_buf w @ [7]) 0 demo_reader =
      Inr (DOk demo_value, demo_reader\<lparr>d_off := length (wb_buf w)\<rparr>)"
proof -
  have "plain id bufs0 demo_value" "normv bufs0 demo_value = demo_value"
    by (simp_all add: demo_value_def plain_table table_ok_def rawget_def bstr_def bad_key_def)
  moreover have "ldepth demo_value \<le> 16" by (simp add: demo_value_def ldepth_table)
  moreover have "length (enc bufs0 demo_value @ [7]) \<le> 65536" by (simp add: demo_value_def enc_table enc_pairs_def enc_str_def bstr_def)
  moreover have "\<forall>k. k_memok (kzero 4 4 1 (\<lambda>_. True)) k" "d_off demo_reader = 0" by (simp_all add: kzero_def demo_reader_def)
  ultimately show ?thesis
    using message_roundtrip [of "\<lambda>_. True" id bufs0 demo_value "[7]" "kzero 4 4 1 (\<lambda>_. True)" demo_reader 0 1] by simp
qed

end
