(* ===== verification/Receive.thy ===== *)
theory Receive
  imports SerialTrip
begin

text \<open>
  Receiving: \<open>msg_to_lua\<close>, \<open>popfail\<close> and \<open>api_tryrecv\<close> of \<open>src/src/sysapi.c\<close>, on top of \<open>port_pop\<close>,
  \<open>deserialize\<close> and \<open>msg_dispose\<close>. A message may be any bytes: whatever they are, reading them stays
  inside the message, mints at most \<open>MAXMSGRIGHTS\<close> rights, gives every buffer to at most one owner,
  and a read that fails leaves the receiver's handles as they were.

  The userdata of all lua states are numbered together in one \<open>bufs\<close>. The chunks behind them are
  seen from two sides: \<open>bs_mem\<close> has their bytes, \<open>k_chunks\<close> their sizes; \<open>reclaim\<close> carries over
  what the kernel freed.
\<close>

section \<open>The calls\<close>

text \<open>The errors the calls of this kernel raise, one constructor per message.\<close>

datatype lerr = LuaRaised | BadReceiveRight | BadRight | SelfPort | Unserializable | NoMemQueueing
  | Corrupt | NoRoomForBuffer | OutOfRightsUsed nat | PortLimit int int | OutOfPorts | OutOfRights
  | BlockedTwice | OutOfWaiters | IllegalParking | NegativeSize

definition reclaim :: "kstate \<Rightarrow> bufs \<Rightarrow> bufs" where
  "reclaim s b = b\<lparr>bs_mem := \<lambda>c. if k_chunks s c = None then None else bs_mem b c\<rparr>"

definition msg_to_lua ::
  "(nat \<Rightarrow> bool) \<Rightarrow> (lval \<Rightarrow> lval) \<Rightarrow> nat \<Rightarrow> kmsg \<Rightarrow> kstate \<Rightarrow> bufs \<Rightarrow> fault + drc \<times> kstate \<times> bufs" where
  "msg_to_lua chk normkey i m s b =
    bnd (deserialize chk normkey i (take (m_len m) (m_data m)) 0
          \<lparr>d_off = 0, d_bufs = m_bufs m, d_k = s, d_b = b, d_mt = []\<rparr>) (\<lambda>(rc, x).
    case rc of
      DRaise \<Rightarrow> Inr (rc, d_k x, d_b x)
    | _ \<Rightarrow>
        bnd (case rc of DOk _ \<Rightarrow> Inr (d_k x) | _ \<Rightarrow> minted_undo i (d_mt x) (d_k x)) (\<lambda>s.
        bnd (msg_dispose (m\<lparr>m_bufs := d_bufs x\<rparr>) s) (\<lambda>s.
        Inr (rc, s, reclaim s (d_b x)))))"

definition popfail :: "nat \<Rightarrow> drc \<Rightarrow> kstate \<Rightarrow> fault + lerr \<times> kstate" where
  "popfail i rc s =
    bnd (get_proc s i) (\<lambda>p.
    if rc = DLimit then
      (if pr_bufdenied p then Inr (NoRoomForBuffer, set_proc s i (p\<lparr>pr_bufdenied := False\<rparr>))
       else Inr (OutOfRightsUsed (pr_rhigh p), s))
    else Inr (Corrupt, s))"

definition api_tryrecv ::
  "(nat \<Rightarrow> bool) \<Rightarrow> (lval \<Rightarrow> lval) \<Rightarrow> nat \<Rightarrow> int \<Rightarrow> kstate \<Rightarrow> bufs \<Rightarrow> fault + (lerr + lval option) \<times> kstate \<times> bufs" where
  "api_tryrecv chk normkey i h s b =
    bnd (get_proc s i) (\<lambda>p.
    case right_get p h of
      None \<Rightarrow> Inr (Inl BadReceiveRight, s, b)
    | Some (_, r) \<Rightarrow>
        if \<not> r_recv r then Inr (Inl BadReceiveRight, s, b)
        else bnd (port_pop (r_port r) s) (\<lambda>(m, s).
          case m of
            None \<Rightarrow> Inr (Inr None, s, b)
          | Some m \<Rightarrow>
              bnd (msg_to_lua chk normkey i m s b) (\<lambda>(rc, s, b).
              case rc of
                DOk v \<Rightarrow> Inr (Inr (Some v), s, b)
              | DRaise \<Rightarrow> Inr (Inl LuaRaised, s, b)
              | _ \<Rightarrow> bnd (popfail i rc s) (\<lambda>(e, s). Inr (Inl e, s, b)))))"

section \<open>What a walk over any bytes keeps\<close>

text \<open>
  \<open>minted\<close>: the handles of \<open>q0\<close> and, besides them, those listed. \<open>carried\<close>: the chunks of the message
  and the chunks lua objects point at are different chunks, each owned once.
\<close>

definition minted :: "kproc \<Rightarrow> kproc \<Rightarrow> nat list \<Rightarrow> bool" where
  "minted q0 q mt \<longleftrightarrow> distinct mt \<and> length mt \<le> MAXMSGRIGHTS \<and>
     (\<forall>h\<in>set mt. h < MAXRIGHTS \<and> rtable q0 h = None \<and> rtable q h \<noteq> None) \<and> (\<forall>k. k \<notin> set mt \<longrightarrow> rtable q k = rtable q0 k)"

definition shared :: "kstate \<Rightarrow> bufs \<Rightarrow> bool" where
  "shared s b \<longleftrightarrow> (\<forall>c. k_chunks s c = map_option length (bs_mem b c))"

definition sized :: "kstate \<Rightarrow> msgbufs \<Rightarrow> bool" where
  "sized s bf \<longleftrightarrow> (\<forall>c n. (Some c, n) \<in> set bf \<longrightarrow> k_chunks s c = Some n)"

definition carried :: "(addr \<Rightarrow> nat) \<Rightarrow> msgbufs \<Rightarrow> kstate \<Rightarrow> bufs \<Rightarrow> bool" where
  "carried C bf s b \<longleftrightarrow> buf_wf b \<and> shared s b \<and> sized s bf \<and>
     (\<forall>c. count_list (map fst bf) (Some c) + of_bool (pointed b c) \<le> C c)"

text \<open>
  \<open>tally\<close>: who owns a chunk, the message or an object. \<open>unowned\<close>: the chunks that are accounted for but
  that no object points at, which are those a lua error left behind.
\<close>

definition tally :: "msgbufs \<Rightarrow> bufs \<Rightarrow> addr \<Rightarrow> nat" where
  "tally bf b = (\<lambda>c. count_list (map fst bf) (Some c) + of_bool (pointed b c))"

definition unowned :: "(addr \<Rightarrow> nat) \<Rightarrow> bufs \<Rightarrow> addr \<Rightarrow> nat" where
  "unowned C b = (\<lambda>c. C c - of_bool (pointed b c))"

definition dinv :: "nat \<Rightarrow> kproc \<Rightarrow> kstate \<Rightarrow> owned \<Rightarrow> (addr \<Rightarrow> nat) \<Rightarrow> (addr \<Rightarrow> nat) \<Rightarrow> byte list \<Rightarrow> dst \<Rightarrow> bool" where
  "dinv i q0 s0 G C D p x \<longleftrightarrow> tally (d_bufs x) (d_b x) = D \<and> pinv G C (d_k x) \<and> ports_kept s0 (d_k x) \<and>
     (\<forall>j. j \<noteq> i \<longrightarrow> k_procs (d_k x) j = k_procs s0 j) \<and>
     (\<exists>q. k_procs (d_k x) i = Some q \<and> same_waits q0 q \<and> minted q0 q (d_mt x)) \<and>
     d_off x \<le> length p \<and> carried C (d_bufs x) (d_k x) (d_b x)"

lemma carried_cong: "k_chunks t = k_chunks s \<Longrightarrow> carried C bf t b = carried C bf s b"
  unfolding carried_def shared_def sized_def by simp

lemma same_waits_trans: "same_waits p q \<Longrightarrow> same_waits q r \<Longrightarrow> same_waits p r"
  by (auto simp: same_waits_def)

lemma same_waits_rights:
  assumes "same_waits p p'" "rtable p'' = rtable p'" "pr_waiters p'' = pr_waiters p'" "pr_w0used p'' = pr_w0used p'"
    "pr_status p'' = pr_status p'" "pr_woken p'' = pr_woken p'" "pr_onq p'' = pr_onq p'" "pr_pri p'' = pr_pri p'"
    "pr_oncpu p'' = pr_oncpu p'" "pr_rights p'' = pr_rights p'" "pr_xrights p'' = pr_xrights p'"
  shows "same_waits p p''"
  using assms holds_cong [of p'' p'] by (simp add: same_waits_def)

text \<open>A change to a proc's accounts.\<close>

lemma pinv_proc_upd:
  assumes "pinv G C s" "k_procs s i = Some p" "same_waits p p'" "pr_rights p' = pr_rights p" "pr_xrights p' = pr_xrights p"
  shows "pinv G C (set_proc s i p')"
proof -
  have "held_by p' a r = held_by p a r" for a r by (rule held_by_cong) (use assms in auto)
  then show ?thesis
    using port_inv_set_proc [of G C s i p G p'] wake_inv_set_proc [of s i p p'] assms by (simp add: pinv_def)
qed

lemma ports_kept_set_proc [simp]: "ports_kept s (set_proc t i p) = ports_kept s t"
  by (simp add: ports_kept_def fun_eq_iff)

lemma give_fields:
  assumes "luabuf_give c n q b = (g, q', b')"
  shows "pr_rights q' = pr_rights q" "pr_xrights q' = pr_xrights q" "same_waits q q'" "bs_mem b' = bs_mem b"
proof -
  have "q' = q \<or> q' = snd (kbuf_charge n q)" "bs_mem b' = bs_mem b"
    using assms by (auto simp: luabuf_give_def new_object_def Let_def split: prod.splits bool.splits if_splits)
  moreover have "same_waits q (snd (kbuf_charge n q))"
    using holds_cong [of "snd (kbuf_charge n q)" q] by (auto simp: kbuf_charge_def Let_def same_waits_def)
  moreover have "same_waits q q" by (simp add: same_waits_def)
  ultimately show "pr_rights q' = pr_rights q" "pr_xrights q' = pr_xrights q" "same_waits q q'" "bs_mem b' = bs_mem b"
    by (auto simp: kbuf_charge_def Let_def)
qed

lemma pointed_insert:
  assumes "bs_obj b k = None"
  shows "pointed (b\<lparr>bs_nobj := m, bs_obj := (bs_obj b)(k \<mapsto> x)\<rparr>) d \<longleftrightarrow> pointed b d \<or> (\<exists>off. lb_p x = Some (d, off))"
proof
  assume "pointed (b\<lparr>bs_nobj := m, bs_obj := (bs_obj b)(k \<mapsto> x)\<rparr>) d"
  then show "pointed b d \<or> (\<exists>off. lb_p x = Some (d, off))" by (auto simp: pointed_def split: if_splits)
next
  assume "pointed b d \<or> (\<exists>off. lb_p x = Some (d, off))"
  then show "pointed (b\<lparr>bs_nobj := m, bs_obj := (bs_obj b)(k \<mapsto> x)\<rparr>) d"
    unfolding pointed_def using assms by simp (metis option.distinct(1))
qed

lemma give_points:
  assumes "luabuf_give c n q b = (g, q', b')" "buf_wf b"
  shows "pointed b' d \<longleftrightarrow> pointed b d \<or> (\<exists>h. g = Given h) \<and> d = c"
proof -
  have n: "bs_obj b (bs_nobj b) = None" using obj_new [OF assms(2)] .
  have "pointed (b\<lparr>bs_nobj := Suc (bs_nobj b)\<rparr>) d = pointed b d" by (simp add: pointed_def)
  then show ?thesis
    using assms(1) pointed_insert [OF n, where m = "Suc (bs_nobj b)" and x = "owner_of c n" and d = d]
    by (auto simp: luabuf_give_def new_object_def Let_def owner_of_def split: prod.splits bool.splits if_splits)
qed

definition dkeeps :: "(dst \<Rightarrow> bool) \<Rightarrow> fault + drc \<times> dst \<Rightarrow> bool" where
  "dkeeps P m \<longleftrightarrow> (\<exists>r y. m = Inr (r, y) \<and> P y)"

lemma dkeepsI [intro]: "P y \<Longrightarrow> dkeeps P (Inr (r, y))"
  by (auto simp: dkeeps_def)

lemma dinv_off: "dinv i q0 s0 G C D p x \<Longrightarrow> n \<le> length p \<Longrightarrow> dinv i q0 s0 G C D p (x\<lparr>d_off := n\<rparr>)"
  by (simp add: dinv_def)

lemma count_list_clear:
  assumes "k < length bf" "bf ! k = (Some c, n)"
  shows "count_list (map fst (bf[k := (None, n)])) (Some d) + of_bool (d = c) = count_list (map fst bf) (Some d)"
  using assms
proof (induction bf arbitrary: k)
  case (Cons a bf)
  then show ?case by (cases k) (auto simp: map_update)
qed simp

lemma carried_give:
  assumes c: "carried C bf s b" and k: "k < length bf" "bf ! k = (Some c, n)" and g: "luabuf_give c n q b = (g, q', b')"
    and t: "k_chunks t = k_chunks s" and C: "C c \<le> 1"
  shows "carried C (if \<exists>h. g = Given h then bf[k := (None, n)] else bf) t b'"
proof -
  have wf: "buf_wf b" and sh: "shared s b" and sz: "sized s bf"
    and own: "count_list (map fst bf) (Some d) + of_bool (pointed b d) \<le> C d" for d
    using c by (auto simp: carried_def)
  have "(Some c, n) \<in> set bf" using k by (metis nth_mem)
  then have "k_chunks s c = Some n" using sz by (simp add: sized_def)
  then obtain bs where bs: "bs_mem b c = Some bs" "length bs = n" using sh by (auto simp: shared_def)
  note cl = count_list_clear [OF k]
  have np: "\<not> pointed b c" using own [of c] cl [of c] C by auto
  have "buf_wf b'" by (rule give_ok [OF wf bs(1) np bs(2) g])
  moreover have "shared t b'" using sh t give_fields(4) [OF g] by (simp add: shared_def)
  moreover have "sized t (if \<exists>h. g = Given h then bf[k := (None, n)] else bf)"
    using sz t set_update_subset_insert [of bf k "(None, n)"] by (auto simp: sized_def)
  moreover have "count_list (map fst (if \<exists>h. g = Given h then bf[k := (None, n)] else bf)) (Some d) + of_bool (pointed b' d) \<le> C d" for d
    using own [of d] cl [of d] np give_points [OF g wf, of d] by (cases "d = c") (auto split: if_splits)
  ultimately show ?thesis by (simp add: carried_def)
qed

lemma tally_give:
  assumes c: "carried C bf s b" and k: "k < length bf" "bf ! k = (Some c, n)" and g: "luabuf_give c n q b = (g, q', b')"
    and C: "C c \<le> 1"
  shows "tally (if \<exists>h. g = Given h then bf[k := (None, n)] else bf) b' = tally bf b"
proof
  fix d
  have wf: "buf_wf b" and own: "count_list (map fst bf) (Some c) + of_bool (pointed b c) \<le> C c"
    using c by (auto simp: carried_def)
  note cl = count_list_clear [OF k]
  have np: "\<not> pointed b c" using own cl [of c] C by auto
  then show "tally (if \<exists>h. g = Given h then bf[k := (None, n)] else bf) b' d = tally bf b d"
    using cl [of d] give_points [OF g wf, of d] by (cases "d = c") (auto simp: tally_def split: if_splits)
qed

lemma chunk_once: "pinv G C s \<Longrightarrow> C c \<le> 1"
proof -
  assume "pinv G C s"
  then have "chunk_infl s c + C c = (if k_chunks s c = None then 0 else 1)"
    using port_invD(3) [of G C s] by (simp add: pinv_def chunks_ok_def)
  then show ?thesis by (auto split: if_splits)
qed

lemma deser_buf_keeps:
  assumes x: "dinv i q0 s0 G C D p x"
  shows "dkeeps (dinv i q0 s0 G C D p) (deser_buf i p x)"
proof (cases "d_off x < length p")
  case False
  then show ?thesis using x by (auto simp: deser_buf_def)
next
  case off: True
  let ?k = "unat (p ! d_off x)"
  define y where "y = x\<lparr>d_off := d_off x + 1\<rparr>"
  have y: "dinv i q0 s0 G C D p y" unfolding y_def by (rule dinv_off [OF x]) (use off in simp)
  have d: "deser_buf i p x = (if ?k \<ge> length (d_bufs y) then Inr (DBad, y) else case d_bufs y ! ?k of
         (None, _) \<Rightarrow> Inr (DBad, y)
       | (Some c, n) \<Rightarrow> bnd (get_proc (d_k y) i) (\<lambda>q. case luabuf_give c n q (d_b y) of
             (Given h, q, b) \<Rightarrow> Inr (DOk (LUser h), y\<lparr>d_k := set_proc (d_k y) i q, d_b := b, d_bufs := (d_bufs y)[?k := (None, n)]\<rparr>)
           | (Denied, q, b) \<Rightarrow> Inr (DLimit, y\<lparr>d_k := set_proc (d_k y) i (q\<lparr>pr_bufdenied := True\<rparr>), d_b := b\<rparr>)
           | (Raised, q, b) \<Rightarrow> Inr (DRaise, y\<lparr>d_k := set_proc (d_k y) i q, d_b := b\<rparr>)))"
    unfolding deser_buf_def Let_def y_def [symmetric] using off by simp
  show ?thesis
  proof (cases "\<exists>c n. ?k < length (d_bufs y) \<and> d_bufs y ! ?k = (Some c, n)")
    case False
    then show ?thesis using y unfolding d by (cases "d_bufs y ! ?k") (auto split: option.splits)
  next
    case True
    then obtain c n where k: "?k < length (d_bufs y)" "d_bufs y ! ?k = (Some c, n)" by blast
    obtain q where q: "k_procs (d_k y) i = Some q" "same_waits q0 q" "minted q0 q (d_mt y)" using y by (auto simp: dinv_def)
    obtain g q' b' where g: "luabuf_give c n q (d_b y) = (g, q', b')" using prod_cases3 by blast
    note f = give_fields [OF g]
    have pi: "pinv G C (d_k y)" using y by (simp add: dinv_def)
    have inv: "dinv i q0 s0 G C D p (y\<lparr>d_k := set_proc (d_k y) i q'', d_b := b', d_bufs := (if \<exists>h. g = Given h then (d_bufs y)[?k := (None, n)] else d_bufs y)\<rparr>)"
      if "q'' = q' \<or> q'' = q'\<lparr>pr_bufdenied := True\<rparr>" for q''
    proof -
      have e: "pr_rights q'' = pr_rights q" "pr_xrights q'' = pr_xrights q" "same_waits q q''"
        using that f holds_cong [of q'' q'] by (auto simp: same_waits_def)
      have "pinv G C (set_proc (d_k y) i q'')" by (rule pinv_proc_upd [OF pi q(1) e(3,1,2)])
      moreover have "minted q0 q'' (d_mt y)" using q(3) rtable_cong [OF e(1,2)] by (simp add: minted_def)
      moreover have "carried C (d_bufs y) (d_k y) (d_b y)" using y by (simp add: dinv_def)
      then have "carried C (if \<exists>h. g = Given h then (d_bufs y)[?k := (None, n)] else d_bufs y) (set_proc (d_k y) i q'') b'"
        by (rule carried_give [OF _ k g]) (use chunk_once [OF pi, of c] in simp_all)
      moreover have "tally (if \<exists>h. g = Given h then (d_bufs y)[?k := (None, n)] else d_bufs y) b' = D"
        using tally_give [OF \<open>carried C (d_bufs y) (d_k y) (d_b y)\<close> k g chunk_once [OF pi, of c]] y by (simp add: dinv_def)
      ultimately show ?thesis using y same_waits_trans [OF q(2) e(3)] by (auto simp: dinv_def)
    qed
    have nd: "d_bufs y = d_bufs x" by (simp add: y_def)
    show ?thesis
      unfolding d using k q(1) g inv [of q'] inv [of "q'\<lparr>pr_bufdenied := True\<rparr>"]
      by (cases g) (auto simp: get_Some)
  qed
qed

lemma deser_right_keeps:
  assumes x: "dinv i q0 s0 G C D p x"
  shows "dkeeps (dinv i q0 s0 G C D p) (deser_right i p x)"
proof (cases "d_off x + 3 \<le> length p")
  case False
  then show ?thesis using x by (auto simp: deser_right_def)
next
  case off: True
  let ?pi = "msg_int p (d_off x) 2" and ?recv = "p ! (d_off x + 2) \<noteq> 0"
  define y where "y = x\<lparr>d_off := d_off x + 3\<rparr>"
  have y: "dinv i q0 s0 G C D p y" unfolding y_def by (rule dinv_off [OF x]) (use off in simp)
  have d: "deser_right i p x = (if ?pi \<ge> k_maxports (d_k y) then Inr (DBad, y) else case k_portv (d_k y) ?pi of
         None \<Rightarrow> Inr (DBad, y)
       | Some a \<Rightarrow> if length (d_mt y) \<ge> MAXMSGRIGHTS then Inr (DBad, y)
           else bnd (right_new i a ?recv (d_k y)) (\<lambda>(h, s). case h of
               None \<Rightarrow> Inr (DLimit, y\<lparr>d_k := s\<rparr>)
             | Some h \<Rightarrow> Inr (DOk (right_table h), y\<lparr>d_k := s, d_mt := d_mt y @ [h]\<rparr>)))"
    unfolding deser_right_def Let_def y_def [symmetric] using off by simp
  obtain q where q: "k_procs (d_k y) i = Some q" "same_waits q0 q" "minted q0 q (d_mt y)" using y by (auto simp: dinv_def)
  have pi: "pinv G C (d_k y)" using y by (simp add: dinv_def)
  show ?thesis
  proof (cases "k_portv (d_k y) ?pi")
    case None
    then show ?thesis using y unfolding d by auto
  next
    case (Some a)
    obtain po where po: "k_pheap (d_k y) a = Some po"
      using ptable_okD(3) [OF port_invD(1) Some] pi by (auto simp: pinv_def)
    from right_new_ok [OF pi q(1) po, of ?recv] obtain h s' q' where
      r: "right_new i a ?recv (d_k y) = Inr (h, s')" "pinv G C s'" "k_procs s' = (k_procs (d_k y))(i \<mapsto> q')"
      "took_right (pr_rhint q) a ?recv q q' h" "ports_kept (d_k y) s'" "same_waits q q'" by blast
    have base: "dinv i q0 s0 G C D p (y\<lparr>d_k := s', d_mt := mt\<rparr>)" if "minted q0 q' mt" for mt
    proof -
      have "k_chunks s' = k_chunks (d_k y)" using r(5) by (simp add: ports_kept_def)
      then have "carried C (d_bufs y) s' (d_b y)" using y carried_cong [of s' "d_k y"] by (simp add: dinv_def)
      then show ?thesis
        using y r(2,3) that same_waits_trans [OF q(2) r(6)] ports_kept_trans [OF _ r(5)] by (auto simp: dinv_def)
    qed
    show ?thesis
    proof (cases h)
      case None
      then have "minted q0 q' (d_mt y)" using q(3) r(4) by (simp add: minted_def took_right_def)
      then show ?thesis unfolding d using y Some r(1) None base [of "d_mt y"] by auto
    next
      case h: (Some k)
      have "minted q0 q' (d_mt y @ [k])" if "length (d_mt y) < MAXMSGRIGHTS"
        using q(3) r(4) h that by (auto simp: minted_def took_right_def fun_upd_def)
      then show ?thesis unfolding d using y Some r(1) h base [of "d_mt y @ [k]"] by auto
    qed
  qed
qed

lemma deser_pairs_keeps:
  assumes "\<And>x. P x \<Longrightarrow> dkeeps P (rd x)"
  shows "P x \<Longrightarrow> dkeeps P (deser_pairs nk rd n ps x)"
proof (induction n arbitrary: ps x)
  case (Suc n)
  obtain r y where y: "rd x = Inr (r, y)" "P y" using assms [OF Suc.prems] by (auto simp: dkeeps_def)
  obtain r' z where z: "rd y = Inr (r', z)" "P z" using assms [OF y(2)] by (auto simp: dkeeps_def)
  show ?case using y z Suc.IH [OF z(2)] by (cases r; cases r') auto
qed auto

lemma deser_tagged_keeps:
  assumes x: "dinv i q0 s0 G C D p x" and rd: "\<And>x. dinv i q0 s0 G C D p x \<Longrightarrow> dkeeps (dinv i q0 s0 G C D p) (rd x)"
  shows "dkeeps (dinv i q0 s0 G C D p) (deser_tagged nk rd i p tag x)"
proof -
  have o: "dkeeps (dinv i q0 s0 G C D p) (Inr (r, x\<lparr>d_off := n\<rparr>))" if "n \<le> length p" for r n
    using dinv_off [OF x that] by auto
  have o1: "dkeeps (dinv i q0 s0 G C D p) (Inr (r, x))" for r using x by auto
  have pr: "dkeeps (dinv i q0 s0 G C D p) (deser_pairs nk rd n ps (x\<lparr>d_off := m\<rparr>))" if "m \<le> length p" for n ps m
    by (rule deser_pairs_keeps [OF rd dinv_off [OF x that]])
  show ?thesis
    unfolding deser_tagged_def Let_def
    by (auto simp: o o1 pr deser_buf_keeps [OF x] deser_right_keeps [OF x] simp del: dkeepsI)
qed

lemma deser_keeps:
  "dinv i q0 s0 G C D p x \<Longrightarrow> dkeeps (dinv i q0 s0 G C D p) (deser chk nk i p d x)"
proof (induction d arbitrary: x)
  case 0
  then show ?case by (auto simp: deser.simps)
next
  case (Suc d)
  have "dkeeps (dinv i q0 s0 G C D p) (deser_tagged nk (deser chk nk i p d) i p (p ! d_off x) (x\<lparr>d_off := d_off x + 1\<rparr>))"
    if "d_off x < length p"
    by (rule deser_tagged_keeps [OF dinv_off [OF Suc.prems] Suc.IH]) (use that in auto)
  then show ?case using Suc.prems by (auto simp: deser.simps)
qed

section \<open>Giving back what a failed walk minted\<close>

lemma rtable_cleared:
  assumes "h < MAXRIGHTS" "right_slot p (int h) = Some r"
  shows "rtable (right_cleared p h r) = (rtable p)(h := None)"
proof -
  have "right_slot (right_cleared p h r) (int k) = right_slot (set_right p h (r\<lparr>r_used := False\<rparr>)) (int k)" for k
    by (simp add: right_cleared_def Let_def right_slot_def)
  then show ?thesis using right_slot_set_right [OF assms(1), of p] assms(2) by (auto simp: rtable_def fun_eq_iff)
qed

lemma core_rtable: "core_proc p' = core_proc p \<Longrightarrow> rtable p' = rtable p \<and> pr_waiters p' = pr_waiters p \<and> pr_rhint p' = pr_rhint p"
  using rtable_cong [of "core_proc p" p] rtable_cong [of "core_proc p'" p'] by (metis core_proc_sel)

lemma calm_set_proc: "calm {i} s (set_proc s i p)"
  by (simp add: calm_def bucket_free_def)

lemma kinv_hint:
  assumes "kinv G C s" "k_procs s i = Some p"
  shows "kinv G C (set_proc s i (p\<lparr>pr_rhint := n\<rparr>))"
proof -
  have "same_waits p (p\<lparr>pr_rhint := n\<rparr>)" using holds_cong [of "p\<lparr>pr_rhint := n\<rparr>" p] by (simp add: same_waits_def)
  then have "pinv G C (set_proc s i (p\<lparr>pr_rhint := n\<rparr>))"
    using pinv_proc_upd [OF _ assms(2)] assms(1) by (simp add: pinv_kinv)
  then show ?thesis using assms(1) by (simp add: pinv_kinv ipcheld_iff ipcheld_one_def)
qed

lemma minted_loop_ok:
  assumes "kinv G C s" "acyc rank s" "k_procs s i = Some p" "pr_waiters p = []" "\<forall>h\<in>set hs. h < MAXRIGHTS"
  shows "\<exists>s' p'. minted_loop i hs s = Inr s' \<and> kinv G C s' \<and> k_procs s' i = Some p' \<and> pr_waiters p' = [] \<and>
    rtable p' = rtable p |` (- set hs) \<and> calm {i} s s' \<and> k_buckets s' = k_buckets s \<and> pr_rhint p' \<le> pr_rhint p \<and> (\<forall>h\<in>set hs. pr_rhint p' \<le> h)"
  using assms
proof (induction hs arbitrary: s p)
  case Nil
  then show ?case by (auto simp: restrict_map_def)
next
  case (Cons h hs)
  obtain t pt where t: "(case right_slot p (int h) of None \<Rightarrow> Inr s | Some r \<Rightarrow> if r_used r then right_drop i h s else Inr s) = Inr t"
    "kinv G C t" "calm {i} s t" "k_buckets t = k_buckets s" "k_procs t i = Some pt" "rtable pt = (rtable p)(h := None)" "pr_waiters pt = []"
    "pr_rhint pt = pr_rhint p"
  proof (cases "rtable p h")
    case None
    then have "(rtable p)(h := None) = rtable p" by auto
    then show ?thesis using that [of s p] Cons.prems None by (auto simp: rtable_def split: option.splits if_splits)
  next
    case (Some r)
    then have r: "right_slot p (int h) = Some r" "r_used r" by (auto simp: rtable_Some)
    have h: "h < MAXRIGHTS" using Cons.prems(5) by simp
    from right_drop_ok [OF Cons.prems(1-3) h r Cons.prems(4)] obtain t where
      t: "right_drop i h s = Inr t" "kinv G C t" "shrunk (set_proc s i (right_cleared p h r)) t" by blast
    have o: "outer t = outer (set_proc s i (right_cleared p h r))" using t(3) by (simp add: shrunk_def)
    obtain pt where pt: "k_procs t i = Some pt" "core_proc pt = core_proc (right_cleared p h r)"
      using outer_eqD(7) [OF o, of i] by auto
    have "pr_waiters (right_cleared p h r) = []" using right_cleared_waits [OF Cons.prems(4)] Cons.prems(4) by (simp add: same_waits_def)
    moreover have "pr_rhint (right_cleared p h r) = pr_rhint p" by (simp add: right_cleared_def set_right_def Let_def)
    ultimately show ?thesis
      using that [of t pt] t r pt core_rtable [OF pt(2)] rtable_cleared [OF h r(1)] outer_eqD(1) [OF o]
        calm_trans [OF calm_set_proc calm_shrunk [OF t(3)]] by auto
  qed
  let ?n = "if h < pr_rhint pt then h else pr_rhint pt"
  let ?u = "set_proc t i (pt\<lparr>pr_rhint := ?n\<rparr>)"
  have ku: "kinv G C ?u" by (rule kinv_hint [OF t(2,5)])
  have cu: "calm {i} s ?u" using calm_trans [OF t(3) calm_set_proc] .
  have "\<exists>s' p'. minted_loop i hs ?u = Inr s' \<and> kinv G C s' \<and> k_procs s' i = Some p' \<and> pr_waiters p' = [] \<and>
      rtable p' = rtable (pt\<lparr>pr_rhint := ?n\<rparr>) |` (- set hs) \<and> calm {i} ?u s' \<and> k_buckets s' = k_buckets ?u \<and> pr_rhint p' \<le> pr_rhint (pt\<lparr>pr_rhint := ?n\<rparr>) \<and> (\<forall>h\<in>set hs. pr_rhint p' \<le> h)"
    by (rule Cons.IH [OF ku calm_acyc [OF Cons.prems(2) cu]]) (use t(7) Cons.prems(5) in auto)
  then obtain s' p' where s': "minted_loop i hs ?u = Inr s'" "kinv G C s'" "k_procs s' i = Some p'" "pr_waiters p' = []"
      "rtable p' = rtable (pt\<lparr>pr_rhint := ?n\<rparr>) |` (- set hs)" "calm {i} ?u s'" "k_buckets s' = k_buckets ?u"
      "pr_rhint p' \<le> pr_rhint (pt\<lparr>pr_rhint := ?n\<rparr>)" "\<forall>h\<in>set hs. pr_rhint p' \<le> h"
    by blast
  have "rtable (pt\<lparr>pr_rhint := ?n\<rparr>) = rtable pt" by (rule rtable_cong) auto
  then have "rtable p' = rtable p |` (- set (h # hs))" using s'(5) t(6) by (auto simp: restrict_map_def fun_eq_iff)
  moreover have "minted_loop i (h # hs) s = Inr s'"
    using t(1,5) s'(1) Cons.prems(3) by (simp add: get_Some)
  ultimately show ?case
    using s' t(4,8) calm_trans [OF cu s'(6)] by (auto split: if_splits)
qed

definition idle :: "kstate \<Rightarrow> bool" where
  "idle s \<longleftrightarrow> locks_ok s \<and> (\<forall>b. b_owner (k_buckets s b) = None)"

lemma idle_free: "idle s \<Longrightarrow> bucket_free s b"
  by (simp add: idle_def bucket_free_def)

text \<open>A cpu that has left every bucket it entered, while nobody else was in one, leaves the locks idle.\<close>

lemma idle_back:
  assumes "idle s" "locks_ok s'" "depth_of s' = depth_of s" "\<And>b. bucket_free s' b"
  shows "idle s'"
proof -
  have "b_owner (k_buckets s' b) = None" for b
  proof (rule ccontr)
    assume o: "b_owner (k_buckets s' b) \<noteq> None"
    then have "ipcheld_one s' b" using assms(4) [of b] by (auto simp: bucket_free_def ipcheld_one_def)
    then have "depth_of s' b > 0" using depth_held [OF assms(2)] by simp
    moreover have "depth_of s b = 0" using assms(1) by (simp add: depth_of_def ipcheld_one_def idle_def)
    ultimately show False using assms(3) by simp
  qed
  then show ?thesis using assms(2) by (simp add: idle_def)
qed

lemma idle_again:
  assumes "idle s" "locks_ok s'" "depth_of s' = depth_of s" "calm X s s'"
  shows "idle s'"
  by (rule idle_back [OF assms(1-3)]) (use assms(4) idle_free [OF assms(1)] in \<open>simp add: calm_def\<close>)

lemma minted_undo_ok:
  assumes inv: "pinv G C s" and ac: "acyc rank s" and id: "idle s" and p: "k_procs s i = Some p" "pr_waiters p = []"
    and hs: "\<forall>h\<in>set hs. h < MAXRIGHTS"
  shows "\<exists>s' p'. minted_undo i hs s = Inr s' \<and> pinv G C s' \<and> idle s' \<and> calm {i} s s' \<and> k_procs s' i = Some p' \<and>
    pr_waiters p' = [] \<and> rtable p' = rtable p |` (- set hs)"
proof (cases "hs = []")
  case True
  then show ?thesis using assms by (auto simp: minted_undo_def restrict_map_def)
next
  case False
  have lk: "locks_ok s" using id by (simp add: idle_def)
  obtain t where t: "ipclock_enter s = Inr t" using enter_returns [OF lk] idle_free [OF id] by blast
  note h = enter_held [OF lk t]
  have kt: "kinv G C t" using pinv_nolocks [OF h(3) inv] h(2) by (simp add: pinv_kinv)
  have at: "acyc rank t" using ac slots_nolocks(3) [OF h(3)] by simp
  from minted_loop_ok [OF kt at, of i p hs] nolocks_sel(3) [OF h(3)] p hs obtain u p' where
    u: "minted_loop i hs t = Inr u" "kinv G C u" "k_procs u i = Some p'" "pr_waiters p' = []"
    "rtable p' = rtable p |` (- set hs)" "calm {i} t u" "k_buckets u = k_buckets t" by auto
  have hu: "ipcheld u" and lu: "locks_ok u" using u(2) h(1) locks_ok_cong [OF u(7)] by (simp_all add: kinv_def)
  note l = leave_ok [OF lu hu]
  have su: "k_self u = k_self t" using u(6) by (simp add: calm_def)
  have c: "calm {i} s (ipclock_leave u)"
    by (rule calm_trans [OF calm_trans [OF calm_enter [OF lk t] u(6)] calm_leave])
  have "depth_of (ipclock_leave u) = depth_of s"
    using l(2) h(4) depth_of_cong [OF u(7) su] by (simp add: fun_eq_iff)
  then have "idle (ipclock_leave u)" by (rule idle_again [OF id l(1) _ c])
  moreover have "pinv G C (ipclock_leave u)" using pinv_nolocks [OF leave_nolocks] u(2) by (simp add: pinv_kinv)
  moreover have "k_procs (ipclock_leave u) = k_procs u" using nolocks_sel(3) [OF leave_nolocks] .
  ultimately show ?thesis using False t u c by (auto simp: minted_undo_def)
qed

section \<open>Receiving\<close>

text \<open>
  The kernel and the lua buffers between two calls: every reference and chunk accounted for, no
  right in flight leading back up, no lock held, and every chunk in a queue there at its size.
\<close>

definition queues_sized :: "kstate \<Rightarrow> bool" where
  "queues_sized s \<longleftrightarrow> (\<forall>j. \<forall>m\<in>set (slot_queue s j). sized s (m_bufs m))"

definition callable :: "(nat \<Rightarrow> nat) \<Rightarrow> owned \<Rightarrow> (addr \<Rightarrow> nat) \<Rightarrow> kstate \<Rightarrow> bufs \<Rightarrow> bool" where
  "callable rank G C s b \<longleftrightarrow> pinv G C s \<and> acyc rank s \<and> idle s \<and> carried C [] s b \<and> queues_sized s"

lemma inflight_chunk:
  assumes "pinv G C s" "m \<in> set (slot_queue s j)" "(Some c, n) \<in> set (m_bufs m)"
  shows "k_chunks s c \<noteq> None"
proof -
  have pt: "ptable_ok s" and ck: "chunks_ok C s" using assms(1) by (auto simp: pinv_def port_inv_def)
  have "k_portv s j \<noteq> None" using assms(2) by (cases "k_portv s j") (auto simp: slot_queue_def port_at_def)
  then have j: "j < k_maxports s" using ptable_okD(3) [OF pt, of j] ptable_okD(2) [OF pt] by fastforce
  have "Some c \<in> set (qchunks (slot_queue s j))" using assms(2,3) by (force simp: qchunks_def)
  then have "1 \<le> count_list (qchunks (slot_queue s j)) (Some c)" using count_list_0_iff by (metis less_one not_le)
  also have "\<dots> \<le> chunk_infl s c" unfolding chunk_infl_def by (rule sum_ge_one [OF j])
  finally show ?thesis using spec [OF ck [unfolded chunks_ok_def], of c] by (auto split: if_splits)
qed

lemma queues_sized_calm:
  assumes "pinv G C s'" "calm X s s'" "queues_sized s"
  shows "queues_sized s'"
  unfolding queues_sized_def sized_def
proof (intro allI ballI impI)
  fix j m c n
  assume m: "m \<in> set (slot_queue s' j)" and c: "(Some c, n) \<in> set (m_bufs m)"
  have "m \<in> set (slot_queue s j)" using m assms(2) by (auto simp: calm_def)
  then have "k_chunks s c = Some n" using assms(3) c by (auto simp: queues_sized_def sized_def)
  moreover have "k_chunks s' c \<noteq> None" by (rule inflight_chunk [OF assms(1) m c])
  ultimately show "k_chunks s' c = Some n" using assms(2) by (auto simp: calm_def map_le_def dom_def)
qed

lemma reclaim_wf:
  assumes "buf_wf b" "\<And>c. pointed b c \<Longrightarrow> k_chunks s c \<noteq> None"
  shows "buf_wf (reclaim s b)"
proof (rule buf_wfI)
  have k: "kids (reclaim s b) h = kids b h" for h by (simp add: kids_def reclaim_def)
  fix h x
  assume h: "bs_obj (reclaim s b) h = Some x"
  then have x: "bs_obj b h = Some x" by (simp add: reclaim_def)
  note D = buf_wfD [OF assms(1) x]
  show "h < bs_nobj (reclaim s b)" "lb_views x = card (kids (reclaim s b) h)" "rooted (reclaim s b) h x"
    using D k by (auto simp: reclaim_def rooted_def)
  have "k_chunks s c \<noteq> None" if "lb_p x = Some (c, off)" for c off
    using that x by (intro assms(2)) (auto simp: pointed_def)
  then show "placed (reclaim s b) x" using D(2) by (auto simp: placed_def reclaim_def)
next
  show "c < bs_nchunk (reclaim s b) \<and> length bs < 2 ^ 64 - 16" if "bs_mem (reclaim s b) c = Some bs" for c bs
    using that chunk_bound [OF assms(1), of c bs] by (auto simp: reclaim_def split: if_splits)
qed (use owners_eq [OF assms(1)] in \<open>auto simp: reclaim_def\<close>)

lemma reclaim_carried:
  assumes "carried C [] s b" "pinv G C t" "k_chunks t \<subseteq>\<^sub>m k_chunks s"
  shows "carried C [] t (reclaim t b)"
proof -
  have wf: "buf_wf b" and sh: "shared s b" and own: "of_bool (pointed b c) \<le> C c" for c
    using assms(1) by (auto simp: carried_def)
  have live: "k_chunks t c \<noteq> None" if "pointed b c" for c
    using own [of c] that spec [of _ c, OF port_invD(3) [of G C t, unfolded chunks_ok_def]] assms(2)
    by (auto simp: pinv_def split: if_splits)
  have "shared t (reclaim t b)"
    using sh assms(3) by (auto simp: shared_def reclaim_def map_le_def dom_def)
  moreover have "pointed (reclaim t b) c = pointed b c" for c by (simp add: pointed_def reclaim_def)
  ultimately show ?thesis using reclaim_wf [OF wf live] own by (simp add: carried_def sized_def)
qed

lemma calm_kept:
  assumes "ports_kept s t" "\<forall>j. j \<noteq> i \<longrightarrow> k_procs t j = k_procs s j"
  shows "calm {i} s t"
  using assms by (auto simp: calm_def ports_kept_def bucket_free_def)

lemma idle_kept: "ports_kept s t \<Longrightarrow> idle s \<Longrightarrow> idle t"
  by (simp add: ports_kept_def idle_def locks_ok_def)

lemma deserialize_start:
  assumes "pinv G C s" "carried C bf s b" "k_procs s i = Some q"
  shows "dinv i q s G C (tally bf b) p \<lparr>d_off = 0, d_bufs = bf, d_k = s, d_b = b, d_mt = []\<rparr>"
  using assms by (auto simp: dinv_def ports_kept_def same_waits_def minted_def)

lemma deserialize_ok:
  assumes "pinv G C s" "carried C bf s b" "k_procs s i = Some q"
  obtains rc x q' where
    "deserialize chk nk i p 0 \<lparr>d_off = 0, d_bufs = bf, d_k = s, d_b = b, d_mt = []\<rparr> = Inr (rc, x)"
    "pinv G C (d_k x)" "calm {i} s (d_k x)" "idle s \<Longrightarrow> idle (d_k x)" "k_procs (d_k x) i = Some q'" "same_waits q q'"
    "minted q q' (d_mt x)" "d_off x \<le> length p" "carried C (d_bufs x) (d_k x) (d_b x)"
    "tally (d_bufs x) (d_b x) = tally bf b"
proof -
  from deser_keeps [OF deserialize_start [OF assms, where p = p], where chk = chk and nk = nk and d = 17] obtain rc x where
    x: "deser chk nk i p 17 \<lparr>d_off = 0, d_bufs = bf, d_k = s, d_b = b, d_mt = []\<rparr> = Inr (rc, x)" "dinv i q s G C (tally bf b) p x"
    by (auto simp: dkeeps_def)
  then show ?thesis
    using that [of rc x] calm_kept [of s "d_k x" i] idle_kept [of s "d_k x"] by (auto simp: dinv_def deserialize_def)
qed

text \<open>Taking the chunks still in the message out of what is owned.\<close>

definition less_bufs :: "(addr \<Rightarrow> nat) \<Rightarrow> msgbufs \<Rightarrow> addr \<Rightarrow> nat" where
  "less_bufs C bf = (\<lambda>c. C c - count_list (map fst bf) (Some c))"

lemma less_bufs_ok:
  assumes "carried C bf s b"
  shows "with_bufs (less_bufs C bf) bf = C" "carried (less_bufs C bf) [] s b" "carried C [] s b"
proof -
  have own: "count_list (map fst bf) (Some c) + of_bool (pointed b c) \<le> C c" for c using assms by (simp add: carried_def)
  show "with_bufs (less_bufs C bf) bf = C"
    using add_leD1 [OF own] by (auto simp: with_bufs_def less_bufs_def fun_eq_iff)
  have "of_bool (pointed b c) \<le> less_bufs C bf c" for c using own [of c] by (simp add: less_bufs_def)
  then show "carried (less_bufs C bf) [] s b" using assms by (simp add: carried_def sized_def)
  show "carried C [] s b" using assms add_leD2 [OF own] by (simp add: carried_def sized_def)
qed

lemma unowned_reclaim [simp]: "unowned C (reclaim s b) = unowned C b"
  by (simp add: unowned_def pointed_def reclaim_def)

text \<open>What reading a message does to the chunks nobody points at: a walk that is given up leaves what it has not handed on.\<close>

lemma unowned_tally:
  assumes "carried (with_bufs C bf) bf s b" "carried (with_bufs C bf) bf' s' b'" "tally bf' b' = tally bf b"
  shows "unowned C b \<le> unowned (with_bufs C bf) b'" "unowned (less_bufs (with_bufs C bf) bf') b' = unowned C b"
proof -
  have e: "count_list (map fst bf') (Some c) + of_bool (pointed b' c) = count_list (map fst bf) (Some c) + of_bool (pointed b c)" for c
    using fun_cong [OF assms(3), of c] by (simp add: tally_def)
  have o: "count_list (map fst bf) (Some c) + of_bool (pointed b c) \<le> C c + count_list (map fst bf) (Some c)"
    "count_list (map fst bf') (Some c) + of_bool (pointed b' c) \<le> C c + count_list (map fst bf) (Some c)" for c
    using assms(1,2) by (simp_all add: carried_def with_bufs_def)
  have "unowned C b c \<le> unowned (with_bufs C bf) b' c" "unowned (less_bufs (with_bufs C bf) bf') b' c = unowned C b c" for c
    using e [of c] o [of c] by (simp_all add: unowned_def with_bufs_def less_bufs_def)
  then show "unowned C b \<le> unowned (with_bufs C bf) b'" "unowned (less_bufs (with_bufs C bf) bf') b' = unowned C b"
    by (simp_all add: le_fun_def fun_eq_iff)
qed

lemma msg_to_lua_ok:
  assumes inv: "pinv (with_refs G (m_refs m)) (with_bufs C (m_bufs m)) s" and ac: "acyc rank s" and id: "idle s"
    and ca: "carried (with_bufs C (m_bufs m)) (m_bufs m) s b" and sz: "queues_sized s"
    and q: "k_procs s i = Some q" "pr_waiters q = []"
  shows "\<exists>rc s' b' G' C' q'. msg_to_lua chk nk i m s b = Inr (rc, s', b') \<and> callable rank G' C' s' b' \<and>
    (rc \<noteq> DRaise \<longrightarrow> G' = G \<and> unowned C' b' = unowned C b) \<and> G \<le> G' \<and> unowned C b \<le> unowned C' b' \<and>
    calm {i} s s' \<and> k_procs s' i = Some q' \<and> pr_waiters q' = [] \<and>
    (rc \<in> {DBad, DLimit} \<longrightarrow> rtable q' = rtable q) \<and> (rc \<notin> {DBad, DLimit} \<longrightarrow> (\<exists>mt. minted q q' mt))"
proof -
  let ?p = "take (m_len m) (m_data m)"
  obtain rc x q1 where x: "deserialize chk nk i ?p 0 \<lparr>d_off = 0, d_bufs = m_bufs m, d_k = s, d_b = b, d_mt = []\<rparr> = Inr (rc, x)"
    "pinv (with_refs G (m_refs m)) (with_bufs C (m_bufs m)) (d_k x)" "calm {i} s (d_k x)" "idle (d_k x)"
    "k_procs (d_k x) i = Some q1" "same_waits q q1"
    "minted q q1 (d_mt x)" "carried (with_bufs C (m_bufs m)) (d_bufs x) (d_k x) (d_b x)"
    "tally (d_bufs x) (d_b x) = tally (m_bufs m) b"
    using deserialize_ok [OF inv ca q(1)] id by metis
  let ?C = "less_bufs (with_bufs C (m_bufs m)) (d_bufs x)"
  note lb = less_bufs_ok [OF x(8)]
  note un = unowned_tally [OF ca x(8,9)]
  have w1: "pr_waiters q1 = []" using x(6) q(2) by (simp add: same_waits_def)
  show ?thesis
  proof (cases "rc = DRaise")
    case True
    have "callable rank (with_refs G (m_refs m)) (with_bufs C (m_bufs m)) (d_k x) (d_b x)"
      using x calm_acyc [OF ac x(3)] lb(3) queues_sized_calm [OF x(2,3) sz] by (simp add: callable_def)
    moreover have "G \<le> with_refs G (m_refs m)" by (simp add: le_fun_def with_refs_def)
    ultimately show ?thesis using True x w1 un(1) by (auto simp: msg_to_lua_def)
  next
    case False
    define fails where "fails = (rc \<in> {DBad, DLimit})"
    obtain t q2 where t: "(case rc of DOk _ \<Rightarrow> Inr (d_k x) | _ \<Rightarrow> minted_undo i (d_mt x) (d_k x)) = Inr t"
      "pinv (with_refs G (m_refs m)) (with_bufs C (m_bufs m)) t" "idle t" "calm {i} (d_k x) t" "k_procs t i = Some q2"
      "pr_waiters q2 = []" "rtable q2 = (if fails then rtable q else rtable q1)"
    proof (cases fails)
      case True
      have "\<forall>h\<in>set (d_mt x). h < MAXRIGHTS" using x(7) by (simp add: minted_def)
      from minted_undo_ok [OF x(2) calm_acyc [OF ac x(3)] x(4,5) w1 this] obtain t q2 where
        "minted_undo i (d_mt x) (d_k x) = Inr t" "pinv (with_refs G (m_refs m)) (with_bufs C (m_bufs m)) t" "idle t"
        "calm {i} (d_k x) t" "k_procs t i = Some q2" "pr_waiters q2 = []" "rtable q2 = rtable q1 |` (- set (d_mt x))" by blast
      moreover have "rtable q1 |` (- set (d_mt x)) = rtable q"
        using x(7) by (auto simp: minted_def restrict_map_def fun_eq_iff)
      ultimately show ?thesis using that [of t q2] True by (auto simp: fails_def)
    next
      case no: False
      then show ?thesis using that [of "d_k x" q1] False x w1 by (cases rc) (auto simp: fails_def)
    qed
    let ?m = "m\<lparr>m_bufs := d_bufs x\<rparr>"
    have ct: "calm {i} s t" by (rule calm_trans [OF x(3) t(4)])
    have "pinv (with_refs G (m_refs ?m)) (with_bufs ?C (m_bufs ?m)) t" using t(2) lb(1) by simp
    from msg_dispose_ok [OF this calm_acyc [OF ac ct]] t(3) idle_free [OF t(3)] obtain u where
      u: "msg_dispose ?m t = Inr u" "pinv G ?C u" "locks_ok u" "depth_of u = depth_of t" "calm {} t u" by (auto simp: idle_def)
    have cu: "calm {i} s u" using calm_trans [OF ct calm_mono [OF u(5)]] by simp
    have "k_chunks u \<subseteq>\<^sub>m k_chunks (d_k x)" using t(4) u(5) map_le_trans by (auto simp: calm_def)
    then have "carried ?C [] u (reclaim u (d_b x))" by (rule reclaim_carried [OF lb(2) u(2)])
    then have "callable rank G ?C u (reclaim u (d_b x))"
      using u(2) calm_acyc [OF ac cu] idle_again [OF t(3) u(3-5)] queues_sized_calm [OF u(2) cu sz] by (simp add: callable_def)
    moreover have "map_option core_proc (k_procs u i) = map_option core_proc (k_procs t i)" using u(5) by (simp add: calm_def)
    then obtain q3 where q3: "k_procs u i = Some q3" "core_proc q3 = core_proc q2" using t(5) by auto
    moreover have "msg_to_lua chk nk i m s b = Inr (rc, u, reclaim u (d_b x))"
      using x(1) t(1) u(1) False by (cases rc) (auto simp: msg_to_lua_def)
    moreover have "rc \<notin> {DBad, DLimit} \<longrightarrow> (\<exists>mt. minted q q3 mt)" "rc \<in> {DBad, DLimit} \<longrightarrow> rtable q3 = rtable q"
      using x(7) t(7) core_rtable [OF q3(2)] by (auto simp: minted_def fails_def)
    moreover have "pr_waiters q3 = []" using core_rtable [OF q3(2)] t(6) by simp
    moreover have "unowned ?C (reclaim u (d_b x)) = unowned C b" using un(2) by simp
    ultimately show ?thesis
      using cu
      by (intro exI [of _ rc] exI [of _ u] exI [of _ "reclaim u (d_b x)"] exI [of _ G] exI [of _ ?C] exI [of _ q3]) simp
  qed
qed

lemma port_pop_call:
  assumes c: "callable rank G C s b" and p: "k_pheap s a = Some p"
  shows "\<exists>m s'. port_pop a s = Inr (m, s') \<and> acyc rank s' \<and> idle s' \<and> queues_sized s' \<and> calm {} s s' \<and> k_portv s' = k_portv s \<and>
    (case m of None \<Rightarrow> pt_queue p = [] \<and> callable rank G C s' b
     | Some x \<Rightarrow> pt_queue p \<noteq> [] \<and> x = hd (pt_queue p) \<and> slot_queue s' = (slot_queue s)(pt_idx p := tl (pt_queue p)) \<and> roused True p s s' \<and>
        pinv (with_refs G (m_refs x)) (with_bufs C (m_bufs x)) s' \<and> carried (with_bufs C (m_bufs x)) (m_bufs x) s' b)"
proof -
  have inv: "pinv G C s" and ac: "acyc rank s" and id: "idle s" and ca: "carried C [] s b" and sz: "queues_sized s"
    using c by (auto simp: callable_def)
  have lk: "locks_ok s" using id by (simp add: idle_def)
  from port_pop_ok [OF inv p lk idle_free [OF id]] obtain m s' p' where
    r: "port_pop a s = Inr (m, s')" "locks_ok s'" "depth_of s' = depth_of s" "calm {} s s'" "k_chunks s' = k_chunks s"
    "k_pheap s' a = Some p'" "slot_queue s' = (slot_queue s)(pt_idx p := pt_queue p')" "k_portv s' = k_portv s"
    and m: "case m of None \<Rightarrow> pt_queue p = [] \<and> pt_queue p' = [] \<and> pinv G C s'
       | Some x \<Rightarrow> pt_queue p = x # pt_queue p' \<and> pinv (with_refs G (m_refs x)) (with_bufs C (m_bufs x)) s'
           \<and> (\<forall>w\<in>set (pt_waiters p'). \<not> asleep True s' w) \<and> roused True p s s'" by (elim exE conjE) (rule that)
  have id': "idle s'" by (rule idle_again [OF id r(2-4)])
  have ac': "acyc rank s'" by (rule calm_acyc [OF ac r(4)])
  obtain G' C' where i': "pinv G' C' s'" using m by (auto split: option.splits)
  have sz': "queues_sized s'" by (rule queues_sized_calm [OF i' r(4) sz])
  have ca': "carried C [] s' b" using ca carried_cong [OF r(5)] by simp
  show ?thesis
  proof (cases m)
    case None
    then show ?thesis using r m id' ac' sz' ca' by (auto simp: callable_def)
  next
    case (Some x)
    have sq: "slot_queue s (pt_idx p) = pt_queue p" using slot_queue_set_port(2) [OF _ p] inv by (simp add: pinv_def port_inv_def)
    then have "x \<in> set (slot_queue s (pt_idx p))" using Some m by simp
    then have "sized s (m_bufs x)" using sz unfolding queues_sized_def by blast
    then have "sized s' (m_bufs x)" using r(5) by (simp add: sized_def)
    then have "carried (with_bufs C (m_bufs x)) (m_bufs x) s' b" using ca' by (simp add: carried_def with_bufs_def)
    then show ?thesis using Some r m id' ac' sz' by auto
  qed
qed

lemma callable_proc_upd:
  assumes c: "callable rank G C s b" and p: "k_procs s i = Some p" "same_waits p p'" "pr_rights p' = pr_rights p" "pr_xrights p' = pr_xrights p"
  shows "callable rank G C (set_proc s i p') b"
proof -
  have "pinv G C (set_proc s i p')" using pinv_proc_upd [OF _ p] c by (simp add: callable_def)
  moreover have "carried C [] (set_proc s i p') b" using c carried_cong [of "set_proc s i p'" s] by (simp add: callable_def)
  ultimately show ?thesis
    using c by (simp add: callable_def acyc_def idle_def locks_ok_def queues_sized_def sized_def)
qed

lemma popfail_ok:
  assumes c: "callable rank G C s b" and q: "k_procs s i = Some q" "pr_waiters q = []"
  shows "\<exists>e s' q'. popfail i rc s = Inr (e, s') \<and> e \<noteq> LuaRaised \<and> callable rank G C s' b \<and> k_procs s' i = Some q' \<and>
    pr_waiters q' = [] \<and> rtable q' = rtable q \<and> slot_queue s' = slot_queue s \<and> k_maxports s' = k_maxports s"
proof (cases "rc = DLimit \<and> pr_bufdenied q")
  case True
  let ?q = "q\<lparr>pr_bufdenied := False\<rparr>"
  have "callable rank G C (set_proc s i ?q) b"
    by (rule callable_proc_upd [OF c q(1)]) (use holds_cong [of ?q q] in \<open>simp_all add: same_waits_def\<close>)
  moreover have "rtable ?q = rtable q" by (rule rtable_cong) auto
  moreover have "popfail i rc s = Inr (NoRoomForBuffer, set_proc s i ?q)" using True q by (simp add: popfail_def get_Some)
  ultimately show ?thesis using q by (auto simp: fun_eq_iff)
next
  case False
  then show ?thesis using c q by (auto simp: popfail_def get_Some)
qed

lemma tryrecv_ok:
  assumes c: "callable rank G C s b" and q: "k_procs s i = Some q" "pr_waiters q = []"
  shows "\<exists>r s' b' G' C' q'. api_tryrecv chk nk i h s b = Inr (r, s', b') \<and> callable rank G' C' s' b' \<and>
    (r \<noteq> Inl LuaRaised \<longrightarrow> G' = G \<and> unowned C' b' = unowned C b) \<and> G \<le> G' \<and> unowned C b \<le> unowned C' b' \<and> k_procs s' i = Some q' \<and> pr_waiters q' = [] \<and>
    (\<exists>mt. minted q q' mt) \<and> ((\<forall>v. r \<noteq> Inr (Some v)) \<and> r \<noteq> Inl LuaRaised \<longrightarrow> rtable q' = rtable q) \<and> k_maxports s' = k_maxports s"
proof -
  have m0: "minted q q' []" if "rtable q' = rtable q" for q' using that by (simp add: minted_def)
  show ?thesis
  proof (cases "\<exists>k r. right_get q h = Some (k, r) \<and> r_recv r")
    case False
    then have "api_tryrecv chk nk i h s b = Inr (Inl BadReceiveRight, s, b)"
      using q by (auto simp: api_tryrecv_def get_Some split: option.splits)
    then show ?thesis using c q m0 [of q] by auto
  next
    case True
    then obtain k r where r: "right_get q h = Some (k, r)" "r_recv r" by blast
    have pi: "port_inv G C s" using c by (simp add: callable_def pinv_def)
    obtain p where p: "k_pheap s (r_port r) = Some p" by (rule right_get_live [OF pi q(1) r(1)])
    from port_pop_call [OF c p] obtain m s1 where m: "port_pop (r_port r) s = Inr (m, s1)" "acyc rank s1" "idle s1"
      "queues_sized s1" "calm {} s s1"
      "case m of None \<Rightarrow> pt_queue p = [] \<and> callable rank G C s1 b
       | Some x \<Rightarrow> pt_queue p \<noteq> [] \<and> x = hd (pt_queue p) \<and> slot_queue s1 = (slot_queue s)(pt_idx p := tl (pt_queue p)) \<and> roused True p s s1 \<and>
          pinv (with_refs G (m_refs x)) (with_bufs C (m_bufs x)) s1 \<and> carried (with_bufs C (m_bufs x)) (m_bufs x) s1 b"
      by (elim exE conjE) (rule that)
    have "map_option core_proc (k_procs s1 i) = map_option core_proc (k_procs s i)" using m(5) by (simp add: calm_def)
    then obtain q1 where q1: "k_procs s1 i = Some q1" "core_proc q1 = core_proc q" using q(1) by auto
    note cr = core_rtable [OF q1(2)]
    have mx: "k_maxports s1 = k_maxports s" using m(5) by (simp add: calm_def)
    show ?thesis
    proof (cases m)
      case None
      then have "api_tryrecv chk nk i h s b = Inr (Inr None, s1, b)" using q r m(1) by (simp add: api_tryrecv_def get_Some)
      then show ?thesis using None m q1 cr q(2) mx m0 [of q1] by auto
    next
      case (Some x)
      have w1: "pr_waiters q1 = []" using cr q(2) by simp
      have x: "pinv (with_refs G (m_refs x)) (with_bufs C (m_bufs x)) s1" "carried (with_bufs C (m_bufs x)) (m_bufs x) s1 b"
        using m(6) Some by auto
      from msg_to_lua_ok [OF x(1) m(2,3) x(2) m(4) q1(1) w1, of chk nk] obtain rc s2 b2 G2 C2 q2 where
        l: "msg_to_lua chk nk i x s1 b = Inr (rc, s2, b2)" "callable rank G2 C2 s2 b2" "rc \<noteq> DRaise \<longrightarrow> G2 = G \<and> unowned C2 b2 = unowned C b"
        "k_procs s2 i = Some q2" "pr_waiters q2 = []" "rc \<in> {DBad, DLimit} \<longrightarrow> rtable q2 = rtable q1"
        "rc \<notin> {DBad, DLimit} \<longrightarrow> (\<exists>mt. minted q1 q2 mt)" "k_maxports s2 = k_maxports s1" "G \<le> G2" "unowned C b \<le> unowned C2 b2" unfolding calm_def by blast
      have a: "api_tryrecv chk nk i h s b = (case rc of DOk v \<Rightarrow> Inr (Inr (Some v), s2, b2) | DRaise \<Rightarrow> Inr (Inl LuaRaised, s2, b2)
          | _ \<Rightarrow> bnd (popfail i rc s2) (\<lambda>(e, s). Inr (Inl e, s, b2)))"
        using q r m(1) Some l(1) by (simp add: api_tryrecv_def get_Some)
      have mm: "minted q q2 mt" if "minted q1 q2 mt" for mt using that cr by (simp add: minted_def)
      show ?thesis
      proof (cases "rc \<in> {DBad, DLimit}")
        case False
        then have "\<exists>mt. minted q q2 mt" using l(7) mm by blast
        with False show ?thesis using a l mx by (cases rc) (auto intro!: exI [of _ C2])
      next
        case True
        from popfail_ok [OF l(2,4,5), of rc] obtain e s3 q3 where
          f: "popfail i rc s2 = Inr (e, s3)" "e \<noteq> LuaRaised" "callable rank G2 C2 s3 b2" "k_procs s3 i = Some q3"
          "pr_waiters q3 = []" "rtable q3 = rtable q2" "k_maxports s3 = k_maxports s2" by blast
        have "rtable q3 = rtable q" using f(6) l(6) True cr by auto
        moreover from this have "\<exists>mt. minted q q3 mt" using m0 [of q3] by blast
        moreover have "api_tryrecv chk nk i h s b = Inr (Inl e, s3, b2)" using a f(1) True by auto
        moreover have "rc \<noteq> DRaise" using True by auto
        ultimately show ?thesis using f l mx
          by (intro exI [of _ "Inl e"] exI [of _ s3] exI [of _ b2] exI [of _ G2] exI [of _ C2] exI [of _ q3]) simp
      qed
    qed
  qed
qed

end
