(* ===== verification/Block.thy ===== *)
theory Block
  imports Receive
begin

text \<open>
  Going to sleep on a port: \<open>api_block\<close>, \<open>api_sendblock\<close> and \<open>nopark\<close> of \<open>src/src/sysapi.c\<close>. The test
  that decides to sleep and the join of the port's list are one region under the port's bucket, so
  a proc that yields is on the list of a port whose queue is empty (or has no room), and the next
  push (or pop) finds it there.
\<close>

section \<open>The calls\<close>

text \<open>How a call leaves: with an error, with its results, or parked until the next resume.\<close>

datatype parks = Raises lerr | Returns | Yields

definition nopark :: "bool \<Rightarrow> lerr + unit" where
  "nopark onco = (if onco then Inr () else Inl IllegalParking)"

definition park_on :: "nat \<Rightarrow> addr \<Rightarrow> bool \<Rightarrow> kstate \<Rightarrow> fault + parks \<times> kstate" where
  "park_on i a send s =
    bnd (wait_add i a send s) (\<lambda>(ok, s).
    if \<not> ok then Inr (Raises OutOfWaiters, s) else bnd (proc_block i s) (\<lambda>s. Inr (Yields, s)))"

definition api_block :: "bool \<Rightarrow> nat \<Rightarrow> int \<Rightarrow> kstate \<Rightarrow> fault + parks \<times> kstate" where
  "api_block onco i h s =
    (case nopark onco of
       Inl e \<Rightarrow> Inr (Raises e, s)
     | Inr _ \<Rightarrow>
         bnd (get_proc s i) (\<lambda>p.
         case right_get p h of
           None \<Rightarrow> Inr (Raises BadReceiveRight, s)
         | Some (_, r) \<Rightarrow>
             if \<not> r_recv r then Inr (Raises BadReceiveRight, s)
             else bnd (ipclock_enter_port (r_port r) s) (\<lambda>s. bnd (get_port s (r_port r)) (\<lambda>q.
               bnd (if pt_queue q \<noteq> [] then Inr (Returns, s)
                    else if pr_waiters p \<noteq> [] then Inr (Raises BlockedTwice, s)
                    else park_on i (r_port r) False s) (\<lambda>(rc, s).
               bnd (ipclock_leave_port (r_port r) s) (\<lambda>s. Inr (rc, s)))))))"

definition api_sendblock :: "bool \<Rightarrow> nat \<Rightarrow> int \<Rightarrow> int \<Rightarrow> kstate \<Rightarrow> fault + parks \<times> kstate" where
  "api_sendblock onco i h need s =
    (if need < 0 then Inr (Raises NegativeSize, s)
     else case nopark onco of
       Inl e \<Rightarrow> Inr (Raises e, s)
     | Inr _ \<Rightarrow>
         bnd (get_proc s i) (\<lambda>p.
         case right_get p h of
           None \<Rightarrow> Inr (Raises BadRight, s)
         | Some (_, r) \<Rightarrow>
             bnd (ipclock_enter_port (r_port r) s) (\<lambda>s. bnd (get_port s (r_port r)) (\<lambda>q.
             bnd (if pr_waiters p \<noteq> [] then Inr (Raises BlockedTwice, s)
                  else if pt_dead q then Inr (Returns, s)
                  else if nat need > MAXQUEUE then Inr (Returns, s)
                  else if pt_qbytes q + nat need \<le> MAXQUEUE then Inr (Returns, s)
                  else park_on i (r_port r) True s) (\<lambda>(rc, s).
             bnd (ipclock_leave_port (r_port r) s) (\<lambda>s. Inr (rc, s)))))))"

section \<open>Joining a port's list\<close>

text \<open>A record nobody uses: not on any list, and no list of any proc names it.\<close>

lemma wait_fresh:
  assumes "waits_ok s" and "\<forall>j q. k_procs s j = Some q \<longrightarrow> \<not> record_ok (k_mcount s) j q w"
  shows "\<not> waiting s w j"
  using waits_okD(4) [OF assms(1)] assms(2) unfolding waiting_def wait_ok_def by blast

definition joined :: "nat \<Rightarrow> addr \<Rightarrow> bool \<Rightarrow> waddr \<Rightarrow> kproc \<Rightarrow> kport \<Rightarrow> kstate \<Rightarrow> kstate" where
  "joined i a send w q p s = set_proc (set_port (set_waiter s w \<lparr>w_proc = i, w_port = a, w_send = send, w_onport = True\<rparr>)
     a (p\<lparr>pt_waiters := pt_waiters p @ [w]\<rparr>)) i (q\<lparr>pr_waiters := [w]\<rparr>)"

lemma joined_waits:
  assumes wok: "waits_ok s" and q: "k_procs s i = Some q" "pr_waiters q = []" and p: "k_pheap s a = Some p" and h: "holds q a"
    and w: "\<forall>j. \<not> waiting s w j"
    and q': "record_ok (k_mcount s) i q' w" "pr_rights q' = pr_rights q" "pr_xrights q' = pr_xrights q"
  shows "waits_ok (joined i a send w q' p s)"
proof -
  let ?s = "joined i a send w q' p s" and ?x = "\<lparr>w_proc = i, w_port = a, w_send = send, w_onport = True\<rparr>"
  have fresh: "w \<notin> set (pt_waiters p')" if "k_pheap s a' = Some p'" for a' p'
    using waits_okD(2) [OF wok that, of w] w by auto
  have wt: "waiting ?s v j \<longleftrightarrow> (if v = w then j = i else waiting s v j)" for v j
    using w q by (auto simp: waiting_def joined_def)
  have kw: "k_waits ?s = (k_waits s)(w \<mapsto> ?x)" by (simp add: joined_def)
  have "port_waits_ok ?s"
    unfolding port_waits_ok_def
  proof (intro allI impI conjI)
    fix b r v
    assume r: "k_pheap ?s b = Some r"
    then obtain r0 where r0: "k_pheap s b = Some r0" "pt_waiters r = (if b = a then pt_waiters r0 @ [w] else pt_waiters r0)"
      using p by (auto simp: joined_def split: if_splits)
    show "distinct (pt_waiters r)" using r0 waits_okD(1) [OF wok r0(1)] fresh [OF r0(1)] by auto
    show "v \<in> set (pt_waiters r) \<longleftrightarrow> (\<exists>x. k_waits ?s v = Some x \<and> w_onport x \<and> w_port x = b \<and> waiting ?s v (w_proc x))"
      unfolding kw using r0(2) waits_okD(2) [OF wok r0(1), of v] fresh [OF r0(1)] by (auto simp: wt)
  qed
  moreover have "proc_waits_ok ?s"
    unfolding proc_waits_ok_def
  proof (intro allI impI conjI ballI)
    fix j r v
    assume r: "k_procs ?s j = Some r"
    show "distinct (pr_waiters r)" using r waits_okD(3) [OF wok] by (auto simp: joined_def split: if_splits)
    assume v: "v \<in> set (pr_waiters r)"
    show "wait_ok ?s j r v"
    proof (cases "j = i")
      case True
      then have "r = q'\<lparr>pr_waiters := [w]\<rparr>" "v = w" using r v by (auto simp: joined_def)
      moreover have "holds (q'\<lparr>pr_waiters := [w]\<rparr>) a" using h holds_cong [of "q'\<lparr>pr_waiters := [w]\<rparr>" q] q'(2,3) by simp
      moreover have "record_ok (k_mcount s) i (q'\<lparr>pr_waiters := [w]\<rparr>) w" using q'(1) record_ok_cong [of "q'\<lparr>pr_waiters := [w]\<rparr>" q'] by simp
      ultimately show ?thesis using True by (simp add: wait_ok_def joined_def)
    next
      case False
      then have s: "k_procs s j = Some r" using r by (simp add: joined_def)
      then have "wait_ok s j r v" using waits_okD(4) [OF wok] v by blast
      moreover have "v \<noteq> w" using w s v by (auto simp: waiting_def)
      ultimately show ?thesis by (simp add: wait_ok_def joined_def)
    qed
  qed
  ultimately show ?thesis by (simp add: waits_ok_def)
qed

lemma joined_sel [simp]:
  "k_pheap (joined i a send w q p s) = (k_pheap s)(a \<mapsto> p\<lparr>pt_waiters := pt_waiters p @ [w]\<rparr>)"
  "k_procs (joined i a send w q p s) = (k_procs s)(i \<mapsto> q\<lparr>pr_waiters := [w]\<rparr>)"
  "k_waits (joined i a send w q p s) = (k_waits s)(w \<mapsto> \<lparr>w_proc = i, w_port = a, w_send = send, w_onport = True\<rparr>)"
  "k_buckets (joined i a send w q p s) = k_buckets s" "k_self (joined i a send w q p s) = k_self s"
  "k_portv (joined i a send w q p s) = k_portv s" "k_chunks (joined i a send w q p s) = k_chunks s"
  "k_timers (joined i a send w q p s) = k_timers s" "k_maxports (joined i a send w q p s) = k_maxports s"
  "k_maxprocs (joined i a send w q p s) = k_maxprocs s" "k_schedlock (joined i a send w q p s) = k_schedlock s"
  "k_schedq (joined i a send w q p s) = k_schedq s" "k_runq (joined i a send w q p s) = k_runq s"
  "k_memok (joined i a send w q p s) = k_memok s" "k_donq (joined i a send w q p s) = k_donq s" "k_mcount (joined i a send w q p s) = k_mcount s"
  by (simp_all add: joined_def)

lemma joined_queue:
  assumes "k_pheap s a = Some p"
  shows "slot_queue (joined i a send w q p s) = slot_queue s"
  by (rule slot_queue_cong) (use assms in auto)

lemma joined_inv:
  assumes inv: "pinv G C s" and q: "k_procs s i = Some q" "pr_waiters q = []" and p: "k_pheap s a = Some p" and h: "holds q a"
    and w: "\<forall>j. \<not> waiting s w j"
    and q': "record_ok (k_mcount s) i q' w" "pr_rights q' = pr_rights q" "pr_xrights q' = pr_xrights q"
      "pr_status q' = pr_status q" "pr_woken q' = pr_woken q" "pr_onq q' = pr_onq q" "pr_pri q' = pr_pri q" "pr_oncpu q' = pr_oncpu q"
  shows "pinv G C (joined i a send w q' p s)"
proof -
  let ?s = "joined i a send w q' p s" and ?p = "p\<lparr>pt_waiters := pt_waiters p @ [w]\<rparr>"
  have pi: "port_inv G C s" and wi: "wake_inv s" using inv by (auto simp: pinv_def)
  let ?t = "set_port (set_waiter s w \<lparr>w_proc = i, w_port = a, w_send = send, w_onport = True\<rparr>) a ?p"
  have "core ?t = core s" using core_waiters [of "set_waiter s w x" a p for x] p by simp
  then have t: "port_inv G C ?t" using pi port_inv_core_eq by blast
  have "held_by (q'\<lparr>pr_waiters := [w]\<rparr>) x r = held_by q x r" for x r by (rule held_by_cong) (use q' in auto)
  then have "port_inv G C ?s"
    unfolding joined_def by (intro port_inv_set_proc [OF t]) (use q in auto)
  moreover have "waits_ok ?s" using joined_waits [OF _ q p h w q'(1-3)] wi by (simp add: wake_inv_def)
  moreover have "claims_ok ?s" using wi q q' by (auto simp: wake_inv_def claims_ok_def)
  moreover have "rq_ok ?s" using wi q q' by (subst rq_ok_cong [of ?s s]) (auto simp: wake_inv_def)
  ultimately show ?thesis using wi by (simp add: pinv_def wake_inv_def)
qed

lemma wait_add_ok:
  assumes inv: "pinv G C s" and q: "k_procs s i = Some q" "pr_waiters q = []" and p: "k_pheap s a = Some p"
    and b: "ipcheld_one_port s p" and h: "holds q a"
  obtains (no) "wait_add i a send s = Inr (False, s\<lparr>k_mcount := Suc (k_mcount s)\<rparr>)" "pr_w0used q"
  | (yes) w q' s0 where "wait_add i a send s = Inr (True, joined i a send w q' p s0)" "pinv G C (joined i a send w q' p s0)"
      "s0 = set_proc s i q' \<or> s0 = s\<lparr>k_mcount := Suc (k_mcount s)\<rparr> \<and> q' = q" "pr_status q' = pr_status q" "pr_woken q' = pr_woken q"
proof -
  have wok: "waits_ok s" using inv by (simp add: pinv_def wake_inv_def)
  show ?thesis
  proof (cases "pr_w0used q")
    case False
    let ?q = "q\<lparr>pr_w0used := True\<rparr>"
    let ?j = "joined i a send (W0 i) ?q p (set_proc s i ?q)"
    have add: "wait_add i a send s = Inr (True, ?j)"
      using q p b False by (simp add: wait_add_def get_Some ipc_assert_port_def joined_def Let_def)
    have eq: "?j = joined i a send (W0 i) ?q p s" by (simp add: joined_def set_proc_def set_port_def set_waiter_def)
    have "\<not> waiting s (W0 i) j" for j by (rule wait_fresh [OF wok]) (use False q(1) in auto)
    then have "pinv G C (joined i a send (W0 i) ?q p s)" by (intro joined_inv [OF inv q p h]) auto
    then have "pinv G C ?j" by (simp only: eq)
    then show ?thesis by (rule yes [OF add]) simp_all
  next
    case True
    let ?s = "s\<lparr>k_mcount := Suc (k_mcount s)\<rparr>" and ?w = "WH (Suc (k_mcount s))"
    show ?thesis
    proof (cases "k_memok s (k_mcount s)")
      case False
      then show ?thesis using no q p b True by (simp add: wait_add_def get_Some ipc_assert_port_def kmalloc_def)
    next
      case ok: True
      have add: "wait_add i a send s = Inr (True, joined i a send ?w q p ?s)"
        using q p b True ok by (simp add: wait_add_def get_Some ipc_assert_port_def joined_def Let_def kmalloc_def)
      have "\<not> waiting s ?w j" for j by (rule wait_fresh [OF wok]) auto
      then have "\<not> waiting ?s ?w j" for j by (simp add: waiting_def)
      then have "pinv G C (joined i a send ?w q p ?s)"
        using q p h by (intro joined_inv [OF pinv_mcount [OF inv]]) auto
      then show ?thesis by (rule yes [OF add]) simp_all
    qed
  qed
qed

section \<open>Parking\<close>

definition parked :: "nat \<Rightarrow> addr \<Rightarrow> bool \<Rightarrow> kstate \<Rightarrow> bool" where
  "parked i a send s \<longleftrightarrow> (\<exists>q p w x. k_procs s i = Some q \<and> pr_status q = BLOCKED \<and> k_pheap s a = Some p \<and>
     w \<in> set (pt_waiters p) \<and> k_waits s w = Some x \<and> w_proc x = i \<and> w_send x = send)"

lemma proc_block_ok:
  assumes inv: "pinv G C s" and q: "k_procs s i = Some q" "\<not> pr_woken q" and any: "ipcheld_any s"
  obtains s' q' where "proc_block i s = Inr s'" "pinv G C s'" "nosched s' = nosched s"
    "k_procs s' = (k_procs s)(i \<mapsto> q')" "pr_status q' = BLOCKED" "nosched_proc q' = nosched_proc q"
proof -
  have pi: "port_inv G C s" and wi: "wake_inv s" using inv by (auto simp: pinv_def)
  have sl: "\<not> l_held (k_schedlock s)" and rq: "rq_ok s" and wok: "waits_ok s" and cl: "claims_ok s" using wi by (auto simp: wake_inv_def)
  let ?l = "(k_schedlock s)\<lparr>l_held := True, l_nlock := l_nlock (k_schedlock s) + 1\<rparr>"
  let ?t = "set_proc (s\<lparr>k_schedlock := ?l\<rparr>) i (q\<lparr>pr_status := BLOCKED\<rparr>)"
  have lk: "sched_lock s = Inr (s\<lparr>k_schedlock := ?l\<rparr>)" using sl by (simp add: sched_lock_def lock_def)
  have "rq_ok ?t" by (rule rq_ok_set_proc [where p = q]) (use rq q in auto)
  then obtain u where u: "rq_del i ?t = Inr u" "rq_ok u" "nosched u = nosched ?t"
    "k_procs u = (k_procs ?t)(i \<mapsto> q\<lparr>pr_status := BLOCKED, pr_onq := None\<rparr>)"
    using rq_del_ok [of ?t i "q\<lparr>pr_status := BLOCKED\<rparr>"] by auto
  let ?q = "q\<lparr>pr_status := BLOCKED, pr_onq := None\<rparr>"
  have n: "nosched (sched_unlock u) = nosched s"
    using u(3) nosched_set_proc [of "s\<lparr>k_schedlock := ?l\<rparr>" i q "q\<lparr>pr_status := BLOCKED\<rparr>"] q
    by (simp add: nosched_proc_def) (simp add: nosched_def)
  have pr: "k_procs (sched_unlock u) = (k_procs s)(i \<mapsto> ?q)" using u(4) by simp
  have "waits_ok (sched_unlock u)" by (rule waits_ok_nosched [OF n wok])
  moreover have "claims_ok (sched_unlock u)" using cl q(2) unfolding claims_ok_def pr by auto
  ultimately have "wake_inv (sched_unlock u)" using u(2) by (simp add: wake_inv_def)
  moreover have "port_inv G C (sched_unlock u)" using pi port_inv_core_eq [OF core_nosched [OF n]] by blast
  moreover have "proc_block i s = Inr (sched_unlock u)"
    using any lk q u(1) by (simp add: proc_block_def ipc_assert_any_def get_Some)
  ultimately show ?thesis using that [of "sched_unlock u" ?q] n pr by (simp add: pinv_def nosched_proc_def)
qed

text \<open>Of the ports only their lists of waits move.\<close>

definition listed :: "kstate \<Rightarrow> kstate \<Rightarrow> bool" where
  "listed s s' \<longleftrightarrow> k_memok s' = k_memok s \<and> (\<forall>a. map_option core_port (k_pheap s' a) = map_option core_port (k_pheap s a))"

lemma park_ok:
  assumes inv: "pinv G C s" and q: "k_procs s i = Some q" "pr_waiters q = []" "\<not> pr_woken q" and p: "k_pheap s a = Some p"
    and b: "ipcheld_one_port s p" and h: "holds q a"
  shows "\<exists>rc s' p'. park_on i a send s = Inr (rc, s') \<and> pinv G C s' \<and> calm {i} s s' \<and> k_buckets s' = k_buckets s \<and>
    slot_queue s' = slot_queue s \<and> k_chunks s' = k_chunks s \<and> k_pheap s' a = Some p' \<and> pt_idx p' = pt_idx p \<and> listed s s' \<and>
    (rc = Yields \<and> parked i a send s' \<or> rc = Raises OutOfWaiters \<and> k_procs s' = k_procs s \<and> pr_w0used q)"
proof (rule wait_add_ok [OF inv q(1,2) p b h, of send])
  assume no: "wait_add i a send s = Inr (False, s\<lparr>k_mcount := Suc (k_mcount s)\<rparr>)" "pr_w0used q"
  have "slot_queue (s\<lparr>k_mcount := Suc (k_mcount s)\<rparr>) = slot_queue s" by (simp add: slot_queue_def port_at_def fun_eq_iff)
  then show ?thesis using no pinv_mcount [OF inv] p by (simp add: park_on_def calm_def bucket_free_def listed_def)
next
  fix w q' s0
  let ?j = "joined i a send w q' p s0"
  assume add: "wait_add i a send s = Inr (True, ?j)" "pinv G C ?j"
    and s0: "s0 = set_proc s i q' \<or> s0 = s\<lparr>k_mcount := Suc (k_mcount s)\<rparr> \<and> q' = q" and q': "pr_status q' = pr_status q" "pr_woken q' = pr_woken q"
  have e: "k_pheap s0 = k_pheap s" "k_buckets s0 = k_buckets s" "k_self s0 = k_self s" "k_chunks s0 = k_chunks s" "k_timers s0 = k_timers s"
    "k_maxports s0 = k_maxports s" "k_maxprocs s0 = k_maxprocs s" "\<And>j. j \<noteq> i \<Longrightarrow> k_procs s0 j = k_procs s j" "k_portv s0 = k_portv s"
    using s0 by auto
  have sq: "slot_queue ?j = slot_queue s"
    by (rule slot_queue_cong) (use e p in auto)
  have any: "ipcheld_any ?j" using ipcheld_one_any [OF b] e by (simp add: ipcheld_any_iff ipcheld_one_def)
  have jq: "k_procs ?j i = Some (q'\<lparr>pr_waiters := [w]\<rparr>)" "\<not> pr_woken (q'\<lparr>pr_waiters := [w]\<rparr>)" using q(3) q'(2) by auto
  obtain s' r where r: "proc_block i ?j = Inr s'" "pinv G C s'" "nosched s' = nosched ?j"
    "k_procs s' = (k_procs ?j)(i \<mapsto> r)" "pr_status r = BLOCKED" by (rule proc_block_ok [OF add(2) jq any])
  note n = nosched_sel [OF r(3)]
  have c: "core s' = core ?j" by (rule core_nosched [OF r(3)])
  note cc = core_eqD [OF c]
  have "slot_queue s' = slot_queue s" using sq c by (metis slot_queue_core ext)
  moreover have "calm {i} s s'"
    using calculation cc n e r(4) by (simp add: calm_def bucket_free_def)
  moreover have "parked i a send s'"
    unfolding parked_def n using r(4,5) by auto
  moreover have "listed s s'"
  proof -
    have "k_memok (nosched s') = k_memok (nosched ?j)" by (simp only: r(3))
    moreover have "k_memok s0 = k_memok s" using s0 by auto
    moreover have "map_option core_port (k_pheap ?j x) = map_option core_port (k_pheap s x)" for x
      using e(1) p by (simp add: core_port_def)
    ultimately show ?thesis using n(1) by (simp add: listed_def nosched_def)
  qed
  ultimately show ?thesis
    using add(1) r(1,2) n(1,4) cc(6) e by (simp add: park_on_def)
qed

lemma right_get_holds:
  assumes "right_get q h = Some (k, r)"
  shows "holds q (r_port r)"
proof -
  have "right_slot q (c_int h) = Some r" "r_used r" using assms by (auto simp: right_get_def split: option.splits if_splits)
  then have "nat (c_int h) < MAXRIGHTS" "names q (nat (c_int h)) (r_port r)"
    by (auto simp: right_slot_def names_def split: if_splits)
  then show ?thesis by (auto simp: holds_def)
qed

text \<open>Both calls, from the region's test to its end.\<close>

lemma park_region:
  assumes c: "callable rank G C s b" and q: "k_procs s i = Some q" "\<not> pr_woken q" and r: "right_get q h = Some (k, r)"
    and t: "\<And>p t. k_pheap s (r_port r) = Some p \<Longrightarrow> k_pheap t (r_port r) = Some p \<Longrightarrow>
      if P p then test p t = park_on i (r_port r) send t \<and> pr_waiters q = [] else test p t = Inr (rc0, t) \<and> rc0 \<noteq> Yields"
  shows "\<exists>rc s'. bnd (ipclock_enter_port (r_port r) s) (\<lambda>s. bnd (get_port s (r_port r)) (\<lambda>p.
      bnd (test p s) (\<lambda>(rc, s). bnd (ipclock_leave_port (r_port r) s) (\<lambda>s. Inr (rc, s))))) = Inr (rc, s') \<and>
    callable rank G C s' b \<and> slot_queue s' = slot_queue s \<and> k_maxports s' = k_maxports s \<and> listed s s' \<and> calm {i} s s' \<and>
    (rc = Yields \<and> parked i (r_port r) send s' \<and> (\<exists>p. k_pheap s (r_port r) = Some p \<and> P p) \<or>
     rc \<noteq> Yields \<and> k_procs s' = k_procs s \<and> (\<forall>p. k_pheap s (r_port r) = Some p \<and> P p \<longrightarrow> pr_w0used q))"
proof -
  let ?a = "r_port r"
  have inv: "pinv G C s" and ac: "acyc rank s" and id: "idle s" and ca: "carried C [] s b" and sz: "queues_sized s"
    using c by (auto simp: callable_def)
  have pi: "port_inv G C s" using inv by (simp add: pinv_def)
  obtain p where p: "k_pheap s ?a = Some p" by (rule right_get_live [OF pi q(1) r])
  have lk: "locks_ok s" using id by (simp add: idle_def)
  obtain t where e: "ipclock_enter_port ?a s = Inr t" "locks_ok t" "nolocks t = nolocks s" "ipcheld_one_port t p"
    "depth_of t = (\<lambda>b. depth_of s b + (if b = ipcbucket_of (pt_idx p) then 1 else 0))"
    using enter_port_ok [OF lk p idle_free [OF id]] .
  note n = nolocks_sel [OF e(3)]
  have it: "pinv G C t" by (rule pinv_nolocks [OF e(3) inv])
  have pt: "k_pheap t ?a = Some p" and qt: "k_procs t i = Some q" using p q n by simp_all
  obtain rc u p' where u: "test p t = Inr (rc, u)" "pinv G C u" "calm {i} t u" "k_buckets u = k_buckets t" "slot_queue u = slot_queue t"
    "k_chunks u = k_chunks t" "k_pheap u ?a = Some p'" "pt_idx p' = pt_idx p" "listed t u"
    "rc = Yields \<and> parked i ?a send u \<and> P p \<or> rc \<noteq> Yields \<and> k_procs u = k_procs t \<and> (P p \<longrightarrow> pr_w0used q)"
  proof (cases "P p")
    case False
    then have "test p t = Inr (rc0, t)" "rc0 \<noteq> Yields" using t [OF p pt] by simp_all
    then show ?thesis using that [of rc0 t p] it pt False by (simp add: listed_def)
  next
    case True
    then have te: "test p t = park_on i ?a send t" "pr_waiters q = []" "P p" using t [OF p pt] by simp_all
    from park_ok [OF it qt te(2) q(2) pt e(4) right_get_holds [OF r], of send] obtain rc u p' where
      "park_on i ?a send t = Inr (rc, u)" "pinv G C u" "calm {i} t u" "k_buckets u = k_buckets t" "slot_queue u = slot_queue t"
      "k_chunks u = k_chunks t" "k_pheap u ?a = Some p'" "pt_idx p' = pt_idx p" "listed t u"
      "rc = Yields \<and> parked i ?a send u \<or> rc = Raises OutOfWaiters \<and> k_procs u = k_procs t \<and> pr_w0used q" by blast
    then show ?thesis using that [of rc u p'] te by auto
  qed
  have su: "k_self u = k_self t" using u(3) by (simp add: calm_def)
  have lu: "locks_ok u" using e(2) locks_ok_cong [OF u(4)] by simp
  have hu: "ipcheld_one_port u p'" using e(4) u(4,8) su by (simp add: ipcheld_one_port_def ipcheld_one_def)
  obtain v where v: "ipclock_leave_port ?a u = Inr v" "locks_ok v" "nolocks v = nolocks u"
    "depth_of v = (\<lambda>b. depth_of u b - (if b = ipcbucket_of (pt_idx p') then 1 else 0))"
    using leave_port_ok [OF lu u(7) hu] .
  note nv = nolocks_sel [OF v(3)]
  have cv: "calm {i} s v"
    by (rule calm_trans [OF calm_trans [OF calm_enter_port [OF e(1)] u(3)] calm_leave_port [OF v(1)]])
  have "depth_of v = depth_of s" using v(4) e(5) depth_of_cong [OF u(4) su] u(8) by (simp add: fun_eq_iff)
  then have "idle v" by (rule idle_again [OF id v(2) _ cv])
  moreover have "pinv G C v" by (rule pinv_nolocks [OF v(3) u(2)])
  moreover have "carried C [] v b" using ca carried_cong [of v s] nv(5) u(6) n(5) by simp
  ultimately have "callable rank G C v b"
    using calm_acyc [OF ac cv] queues_sized_calm [OF _ cv sz] by (simp add: callable_def)
  moreover have "slot_queue v = slot_queue s" using slots_nolocks(1) [OF v(3)] slots_nolocks(1) [OF e(3)] u(5) by simp
  moreover have "parked i ?a send v = parked i ?a send u" by (simp add: parked_def nv)
  moreover have "k_maxports v = k_maxports s" using cv by (simp add: calm_def)
  moreover have "listed s v" using u(9) n(2,16) nv(2,16) by (simp add: listed_def)
  ultimately show ?thesis using e(1) pt u(1,10) v(1) nv(3) n(3) p cv by (auto simp: get_Some)
qed

text \<open>Every way the two calls end, and that the one who sleeps had nothing to wake for.\<close>

lemma api_block_ok:
  assumes c: "callable rank G C s b" and q: "k_procs s i = Some q" "\<not> pr_woken q"
  shows "\<exists>rc s'. api_block onco i h s = Inr (rc, s') \<and> callable rank G C s' b \<and> slot_queue s' = slot_queue s \<and> k_maxports s' = k_maxports s \<and> listed s s' \<and> calm {i} s s' \<and>
    (rc = Yields \<and> (\<exists>k r p. right_get q h = Some (k, r) \<and> parked i (r_port r) False s' \<and> k_pheap s (r_port r) = Some p \<and> pt_queue p = [])
     \<or> rc \<noteq> Yields \<and> k_procs s' = k_procs s \<and> (\<forall>k r p. onco \<and> right_get q h = Some (k, r) \<and> r_recv r \<and> k_pheap s (r_port r) = Some p \<and>
       pt_queue p = [] \<and> pr_waiters q = [] \<longrightarrow> pr_w0used q))"
proof (cases "onco \<and> (\<exists>k r. right_get q h = Some (k, r) \<and> r_recv r)")
  case False
  then show ?thesis using c q by (auto simp: api_block_def nopark_def get_Some listed_def split: option.split)
next
  case True
  then obtain k r where r: "right_get q h = Some (k, r)" "r_recv r" and co: "onco" by blast
  have inv: "port_inv G C s" using c by (simp add: callable_def pinv_def)
  obtain p where p: "k_pheap s (r_port r) = Some p" by (rule right_get_live [OF inv q(1) r(1)])
  let ?t = "\<lambda>p' s. if pt_queue p' \<noteq> [] then Inr (Returns, s) else if pr_waiters q \<noteq> [] then Inr (Raises BlockedTwice, s)
    else park_on i (r_port r) False s"
  let ?rc = "if pt_queue p \<noteq> [] then Returns else Raises BlockedTwice"
  have "\<exists>rc s'. bnd (ipclock_enter_port (r_port r) s) (\<lambda>s. bnd (get_port s (r_port r)) (\<lambda>p.
      bnd (?t p s) (\<lambda>(rc, s). bnd (ipclock_leave_port (r_port r) s) (\<lambda>s. Inr (rc, s))))) = Inr (rc, s') \<and>
    callable rank G C s' b \<and> slot_queue s' = slot_queue s \<and> k_maxports s' = k_maxports s \<and> listed s s' \<and> calm {i} s s' \<and>
    (rc = Yields \<and> parked i (r_port r) False s' \<and> (\<exists>p. k_pheap s (r_port r) = Some p \<and> pt_queue p = [] \<and> pr_waiters q = []) \<or>
     rc \<noteq> Yields \<and> k_procs s' = k_procs s \<and> (\<forall>p. k_pheap s (r_port r) = Some p \<and> pt_queue p = [] \<and> pr_waiters q = [] \<longrightarrow> pr_w0used q))"
    by (rule park_region [OF c q r(1), where ?rc0.0 = ?rc and P = "\<lambda>p. pt_queue p = [] \<and> pr_waiters q = []"]) (use p in auto)
  then obtain rc s' where "bnd (ipclock_enter_port (r_port r) s) (\<lambda>s. bnd (get_port s (r_port r)) (\<lambda>p.
      bnd (?t p s) (\<lambda>(rc, s). bnd (ipclock_leave_port (r_port r) s) (\<lambda>s. Inr (rc, s))))) = Inr (rc, s')"
    "callable rank G C s' b" "slot_queue s' = slot_queue s" "k_maxports s' = k_maxports s" "listed s s'" "calm {i} s s'"
    "rc = Yields \<and> parked i (r_port r) False s' \<and> (\<exists>p. k_pheap s (r_port r) = Some p \<and> pt_queue p = [] \<and> pr_waiters q = []) \<or>
     rc \<noteq> Yields \<and> k_procs s' = k_procs s \<and> (\<forall>p. k_pheap s (r_port r) = Some p \<and> pt_queue p = [] \<and> pr_waiters q = [] \<longrightarrow> pr_w0used q)"
    by (elim exE conjE) (rule that)
  moreover from this(1) have "api_block onco i h s = Inr (rc, s')" using co r q by (simp add: api_block_def nopark_def get_Some)
  ultimately show ?thesis using r(1) by auto
qed

lemma api_sendblock_ok:
  assumes c: "callable rank G C s b" and q: "k_procs s i = Some q" "\<not> pr_woken q"
  shows "\<exists>rc s'. api_sendblock onco i h need s = Inr (rc, s') \<and> callable rank G C s' b \<and> slot_queue s' = slot_queue s \<and> k_maxports s' = k_maxports s \<and> listed s s' \<and> calm {i} s s' \<and>
    (rc = Yields \<and> (\<exists>k r p. right_get q h = Some (k, r) \<and> parked i (r_port r) True s' \<and> k_pheap s (r_port r) = Some p \<and>
       \<not> pt_dead p \<and> nat need \<le> MAXQUEUE \<and> pt_qbytes p + nat need > MAXQUEUE)
     \<or> rc \<noteq> Yields \<and> k_procs s' = k_procs s \<and> (\<forall>k r p. need \<ge> 0 \<and> onco \<and> right_get q h = Some (k, r) \<and> k_pheap s (r_port r) = Some p \<and>
       \<not> pt_dead p \<and> nat need \<le> MAXQUEUE \<and> pt_qbytes p + nat need > MAXQUEUE \<and> pr_waiters q = [] \<longrightarrow> pr_w0used q))"
proof (cases "need \<ge> 0 \<and> onco \<and> (\<exists>k r. right_get q h = Some (k, r))")
  case False
  then show ?thesis using c q by (auto simp: api_sendblock_def nopark_def get_Some listed_def split: option.split)
next
  case True
  then obtain k r where r: "right_get q h = Some (k, r)" and co: "onco" "\<not> need < 0" by auto
  have inv: "port_inv G C s" using c by (simp add: callable_def pinv_def)
  obtain p where p: "k_pheap s (r_port r) = Some p" by (rule right_get_live [OF inv q(1) r(1)])
  let ?t = "\<lambda>p' s. if pr_waiters q \<noteq> [] then Inr (Raises BlockedTwice, s) else if pt_dead p' then Inr (Returns, s)
    else if nat need > MAXQUEUE then Inr (Returns, s) else if pt_qbytes p' + nat need \<le> MAXQUEUE then Inr (Returns, s)
    else park_on i (r_port r) True s"
  let ?P = "\<lambda>p. \<not> pt_dead p \<and> nat need \<le> MAXQUEUE \<and> pt_qbytes p + nat need > MAXQUEUE"
  let ?rc = "if pr_waiters q \<noteq> [] then Raises BlockedTwice else Returns"
  have "\<exists>rc s'. bnd (ipclock_enter_port (r_port r) s) (\<lambda>s. bnd (get_port s (r_port r)) (\<lambda>p.
      bnd (?t p s) (\<lambda>(rc, s). bnd (ipclock_leave_port (r_port r) s) (\<lambda>s. Inr (rc, s))))) = Inr (rc, s') \<and>
    callable rank G C s' b \<and> slot_queue s' = slot_queue s \<and> k_maxports s' = k_maxports s \<and> listed s s' \<and> calm {i} s s' \<and>
    (rc = Yields \<and> parked i (r_port r) True s' \<and> (\<exists>p. k_pheap s (r_port r) = Some p \<and> ?P p \<and> pr_waiters q = []) \<or>
     rc \<noteq> Yields \<and> k_procs s' = k_procs s \<and> (\<forall>p. k_pheap s (r_port r) = Some p \<and> ?P p \<and> pr_waiters q = [] \<longrightarrow> pr_w0used q))"
    by (rule park_region [OF c q r, where ?rc0.0 = ?rc and P = "\<lambda>p. ?P p \<and> pr_waiters q = []"]) (use p in auto)
  then obtain rc s' where "bnd (ipclock_enter_port (r_port r) s) (\<lambda>s. bnd (get_port s (r_port r)) (\<lambda>p.
      bnd (?t p s) (\<lambda>(rc, s). bnd (ipclock_leave_port (r_port r) s) (\<lambda>s. Inr (rc, s))))) = Inr (rc, s')"
    "callable rank G C s' b" "slot_queue s' = slot_queue s" "k_maxports s' = k_maxports s" "listed s s'" "calm {i} s s'"
    "rc = Yields \<and> parked i (r_port r) True s' \<and> (\<exists>p. k_pheap s (r_port r) = Some p \<and> ?P p \<and> pr_waiters q = []) \<or>
     rc \<noteq> Yields \<and> k_procs s' = k_procs s \<and> (\<forall>p. k_pheap s (r_port r) = Some p \<and> ?P p \<and> pr_waiters q = [] \<longrightarrow> pr_w0used q)"
    by (elim exE conjE) (rule that)
  moreover from this(1) have "api_sendblock onco i h need s = Inr (rc, s')" using co r q by (simp add: api_sendblock_def nopark_def get_Some)
  ultimately show ?thesis using r by auto
qed

end
