(* ===== verification/Send.thy ===== *)
theory Send
  imports Block
begin

text \<open>
  Sending: \<open>port_send_from_lua\<close> and \<open>api_send\<close> of \<open>src/src/sysapi.c\<close>, on top of \<open>serialize\<close>,
  \<open>port_push_owned\<close> and \<open>luabuf_detach\<close>. A message that is queued takes the sender's buffers with it; one
  that is refused leaves the sender whole; a proc parked on the port is awake when the call returns.
\<close>

section \<open>The calls\<close>

datatype send_rc = SEND_OK | SEND_FULL | SEND_DEAD | SEND_NOMEM | SEND_UNSERIALIZABLE | SEND_RAISED

fun detach_all :: "nat list \<Rightarrow> kproc \<Rightarrow> bufs \<Rightarrow> kproc \<times> bufs" where
  "detach_all [] p b = (p, b)"
| "detach_all (h # hs) p b = (case luabuf_detach h p b of (p, b) \<Rightarrow> detach_all hs p b)"

text \<open>The label \<open>discard\<close>: give back the references a message that was not queued had taken.\<close>

definition send_discard :: "wbuf \<Rightarrow> kstate \<Rightarrow> fault + kstate" where
  "send_discard w s = (if wb_refs w \<noteq> [] then release_inflight_locked (wb_refs w) s else Inr s)"

definition send_rc_of :: "push_rc \<Rightarrow> send_rc" where
  "send_rc_of rc = (case rc of PUSH_OK \<Rightarrow> SEND_OK | PUSH_FULL \<Rightarrow> SEND_FULL | PUSH_DEAD \<Rightarrow> SEND_DEAD | PUSH_NOMEM \<Rightarrow> SEND_NOMEM)"

definition send_reserved :: "lval \<Rightarrow> kstate \<Rightarrow> wst" where
  "send_reserved v s = wreserve (sizehint v) wbuf0 s"

definition port_send_from_lua ::
  "(nat \<Rightarrow> bool) \<Rightarrow> nat \<Rightarrow> addr \<Rightarrow> lval \<Rightarrow> kstate \<Rightarrow> bufs \<Rightarrow> fault + send_rc \<times> nat \<times> kstate \<times> bufs" where
  "port_send_from_lua chk i a v s b =
    bnd (serialize chk b i 0 v (send_reserved v s)) (\<lambda>(r, w, s).
    case r of
      SRaise \<Rightarrow> Inr (SEND_RAISED, 0, s, b)
    | SFail \<Rightarrow> bnd (send_discard w s) (\<lambda>s. Inr (SEND_UNSERIALIZABLE, 0, s, reclaim s b))
    | SOk \<Rightarrow>
        (let len = length (wb_buf w) + msgbufs_bytes (wb_bufs w) in
         bnd (ipclock_enter_port a s) (\<lambda>s.
         bnd (port_push_owned a (wb_buf w) (wb_refs w) (wb_bufs w) s) (\<lambda>(rc, s).
         bnd (ipclock_leave_port a s) (\<lambda>s.
         if rc = PUSH_OK then
           bnd (get_proc s i) (\<lambda>p. case detach_all (wb_own w) p b of (p, b) \<Rightarrow> Inr (SEND_OK, len, set_proc s i p, b))
         else bnd (send_discard w s) (\<lambda>s. Inr (send_rc_of rc, len, s, reclaim s b)))))))"

text \<open>What \<open>sys.send\<close> returns: true, or false with a reason, and with the refused size when full.\<close>

datatype sent = Sent | PortDead | PortFull nat

definition api_send ::
  "(nat \<Rightarrow> bool) \<Rightarrow> nat \<Rightarrow> int \<Rightarrow> lval \<Rightarrow> kstate \<Rightarrow> bufs \<Rightarrow> fault + (lerr + sent) \<times> kstate \<times> bufs" where
  "api_send chk i h v s b =
    bnd (get_proc s i) (\<lambda>p.
    case right_get p h of
      None \<Rightarrow> Inr (Inl BadRight, s, b)
    | Some (_, r) \<Rightarrow>
        bnd (port_send_from_lua chk i (r_port r) v s b) (\<lambda>(rc, len, s, b).
        Inr (case rc of
               SEND_RAISED \<Rightarrow> Inl LuaRaised
             | SEND_UNSERIALIZABLE \<Rightarrow> Inl Unserializable
             | SEND_DEAD \<Rightarrow> Inr PortDead
             | SEND_FULL \<Rightarrow> Inr (PortFull len)
             | SEND_NOMEM \<Rightarrow> Inl NoMemQueueing
             | SEND_OK \<Rightarrow> Inr Sent, s, b)))"

section \<open>Regions\<close>

text \<open>A region under every bucket, from a state where no bucket is taken: the body may be anything
  that leaves the locks as it found them.\<close>

lemma wide_enter:
  assumes id: "idle s"
  obtains t where "ipclock_enter s = Inr t" "nolocks t = nolocks s" "ipcheld t" "locks_ok t" "calm {} s t"
    "\<And>u. k_buckets u = k_buckets t \<Longrightarrow> k_self u = k_self t \<Longrightarrow> idle (ipclock_leave u)"
proof -
  have lk: "locks_ok s" using id by (simp add: idle_def)
  obtain t where t: "ipclock_enter s = Inr t" using enter_returns [OF lk] idle_free [OF id] by blast
  note h = enter_held [OF lk t]
  have ct: "calm {} s t" by (rule calm_enter [OF lk t])
  have "idle (ipclock_leave u)" if u: "k_buckets u = k_buckets t" "k_self u = k_self t" for u
  proof -
    have lu: "locks_ok u" "ipcheld u" using h(1,2) u locks_ok_cong [OF u(1)] by (simp_all add: ipcheld_iff ipcheld_one_def)
    note l = leave_ok [OF lu]
    have d: "depth_of (ipclock_leave u) = depth_of s" using l(2) h(4) depth_of_cong [OF u] by (simp add: fun_eq_iff)
    have f: "bucket_free (ipclock_leave u) b" for b
    proof (rule leave_free)
      have "bucket_free t b" using ct idle_free [OF id, of b] by (simp add: calm_def)
      then show "bucket_free u b" using u by (simp add: bucket_free_def)
    qed
    show ?thesis by (rule idle_back [OF id l(1) d f])
  qed
  then show ?thesis using that t h ct by blast
qed

lemma release_locked_ok:
  assumes inv: "pinv (with_refs G refs) C s" and ac: "acyc rank s" and id: "idle s"
  shows "\<exists>s'. release_inflight_locked refs s = Inr s' \<and> pinv G C s' \<and> idle s' \<and> calm {} s s'"
proof -
  obtain t where t: "ipclock_enter s = Inr t" "nolocks t = nolocks s" "ipcheld t" "calm {} s t"
    "\<And>u. k_buckets u = k_buckets t \<Longrightarrow> k_self u = k_self t \<Longrightarrow> idle (ipclock_leave u)" by (rule wide_enter [OF id]) blast
  have "kinv (with_refs G refs) C t" using pinv_nolocks [OF t(2) inv] t(3) by (simp add: pinv_kinv)
  from release_inflight_ok [OF this calm_acyc [OF ac t(4)]] obtain u where
    u: "release_inflight refs t = Inr u" "kinv G C u" "shrunk t u" by blast
  have o: "outer u = outer t" using u(3) by (simp add: shrunk_def)
  have "pinv G C (ipclock_leave u)" using pinv_nolocks [OF leave_nolocks] u(2) by (simp add: pinv_kinv)
  moreover have "idle (ipclock_leave u)" using t(5) outer_eqD(1,2) [OF o] by blast
  moreover have "calm {} s (ipclock_leave u)"
    by (rule calm_trans [OF calm_trans [OF t(4) calm_shrunk [OF u(3)]] calm_leave])
  ultimately show ?thesis using t(1) u(1) by (simp add: release_inflight_locked_def)
qed

lemma discard_ok:
  assumes inv: "pinv (with_refs G (wb_refs w)) C s" and ac: "acyc rank s" and id: "idle s"
  shows "\<exists>s'. send_discard w s = Inr s' \<and> pinv G C s' \<and> idle s' \<and> calm {} s s'"
  using release_locked_ok [OF assms] inv id by (auto simp: send_discard_def)

section \<open>Dropping references leaves the queues alone\<close>

text \<open>
  A queue is emptied only when nobody can receive from it: outside \<open>A\<close>, a port that is still there has the
  queue it had, or no receive right is left for it, and receive rights only become fewer.
\<close>

definition drains :: "addr set \<Rightarrow> kstate \<Rightarrow> kstate \<Rightarrow> bool" where
  "drains A s s' \<longleftrightarrow> (\<forall>a p'. k_pheap s' a = Some p' \<longrightarrow> (\<exists>p. k_pheap s a = Some p \<and> pt_nrecv p' \<le> pt_nrecv p \<and>
     (a \<in> A \<or> pt_queue p' = pt_queue p \<or> pt_nrecv p' \<le> 0)))"

lemma drainsD:
  assumes "drains A s s'" "k_pheap s' a = Some p'"
  obtains p where "k_pheap s a = Some p" "pt_nrecv p' \<le> pt_nrecv p" "a \<in> A \<or> pt_queue p' = pt_queue p \<or> pt_nrecv p' \<le> 0"
  using assms unfolding drains_def by blast

lemma drains_heap: "k_pheap s' = k_pheap s \<Longrightarrow> drains A s s'"
  by (auto simp: drains_def)

lemma drains_trans:
  assumes "drains A s t" "drains A t u"
  shows "drains A s u"
  unfolding drains_def
proof (intro allI impI)
  fix a p3
  assume u: "k_pheap u a = Some p3"
  obtain p2 where p2: "k_pheap t a = Some p2" "pt_nrecv p3 \<le> pt_nrecv p2" "a \<in> A \<or> pt_queue p3 = pt_queue p2 \<or> pt_nrecv p3 \<le> 0"
    using drainsD [OF assms(2) u] .
  obtain p1 where "k_pheap s a = Some p1" "pt_nrecv p2 \<le> pt_nrecv p1" "a \<in> A \<or> pt_queue p2 = pt_queue p1 \<or> pt_nrecv p2 \<le> 0"
    using drainsD [OF assms(1) p2(1)] .
  then show "\<exists>p. k_pheap s a = Some p \<and> pt_nrecv p3 \<le> pt_nrecv p \<and> (a \<in> A \<or> pt_queue p3 = pt_queue p \<or> pt_nrecv p3 \<le> 0)"
    using p2(2,3) by (intro exI [of _ p1]) auto
qed

lemma drains_core:
  assumes "core s' = core s"
  shows "drains A s s'"
  unfolding drains_def
proof (intro allI impI)
  fix a p'
  assume a: "k_pheap s' a = Some p'"
  have "map_option core_port (k_pheap s' a) = map_option core_port (k_pheap s a)" using core_eqD(9) [OF assms] .
  then obtain p where p: "k_pheap s a = Some p" "core_port p' = core_port p" using a by (cases "k_pheap s a") auto
  have "pt_nrecv p' = pt_nrecv p" "pt_queue p' = pt_queue p" using p(2) core_port_sel(3,5) by metis+
  then show "\<exists>p. k_pheap s a = Some p \<and> pt_nrecv p' \<le> pt_nrecv p \<and> (a \<in> A \<or> pt_queue p' = pt_queue p \<or> pt_nrecv p' \<le> 0)"
    using p(1) by auto
qed

lemma drains_set_port:
  "k_pheap s a = Some p \<Longrightarrow> pt_nrecv p' \<le> pt_nrecv p \<Longrightarrow> a \<in> A \<or> pt_queue p' = pt_queue p \<Longrightarrow> drains A s (set_port s a p')"
  by (auto simp: drains_def)

lemma drains_mono: "drains A s s' \<Longrightarrow> A \<subseteq> B \<Longrightarrow> drains B s s'"
  unfolding drains_def by blast

text \<open>All through the loops, for a callee that drains at most the ports it drops.\<close>

lemma release_drains:
  assumes f: "\<And>a s s'. f a s = Inr s' \<Longrightarrow> drains {} s s'"
  shows "release_inflight_with f refs s = Inr s' \<Longrightarrow> drains {} s s'"
proof (induction refs arbitrary: s)
  case (Cons x refs)
  obtain i recv where x: "x = (i, recv)" by fastforce
  show ?case
  proof (cases "k_portv s i")
    case (Some a)
    obtain t u where t: "(if recv then bnd (get_port s a) (\<lambda>p. Inr (set_port s a (p\<lparr>pt_nrecv := pt_nrecv p - 1\<rparr>))) else Inr s) = Inr t"
      "f a t = Inr u" "release_inflight_with f refs u = Inr s'" using Cons.prems x Some by (auto simp: ret_iff)
    have "drains {} s t" using t(1) by (auto simp: ret_iff drains_heap intro!: drains_set_port split: if_splits)
    then show ?thesis using drains_trans [OF drains_trans [OF _ f [OF t(2)]] Cons.IH [OF t(3)]] by blast
  qed (use Cons x in auto)
qed (simp add: drains_heap)

lemma msgbufs_free_heap: "msgbufs_free bf s = Inr s' \<Longrightarrow> k_pheap s' = k_pheap s"
  by (induction bf s rule: msgbufs_free.induct) (auto simp: ret_iff chunk_free_def split: option.splits)

lemma msgs_free_drains:
  assumes f: "\<And>a s s'. f a s = Inr s' \<Longrightarrow> drains {} s s'"
  shows "msgs_free_by f ms s = Inr s' \<Longrightarrow> drains {} s s'"
proof (induction ms arbitrary: s)
  case (Cons m ms)
  obtain t u where t: "release_inflight_by f (m_refs m) s = Inr t" "msgbufs_free (m_bufs m) t = Inr u" "msgs_free_by f ms u = Inr s'"
    using Cons.prems by (auto simp: msg_free_by_def ret_iff)
  have "drains {} s t" using t(1) release_drains [OF f] by (auto simp: release_inflight_by_def ret_iff drains_heap split: if_splits)
  then show ?case using drains_trans [OF drains_trans [OF _ drains_heap [OF msgbufs_free_heap [OF t(2)]]] Cons.IH [OF t(3)]] by blast
qed (simp add: drains_heap)

lemma port_flush_drains:
  assumes f: "\<And>a s s'. f a s = Inr s' \<Longrightarrow> drains {} s s'" and r: "port_flush_by f a s = Inr s'"
  shows "drains {a} s s'"
proof -
  obtain p where p: "k_pheap s a = Some p" "msgs_free_by f (pt_queue p) (set_port s a (p\<lparr>pt_queue := [], pt_qbytes := 0\<rparr>)) = Inr s'"
    using r by (auto simp: port_flush_by_def ret_iff)
  have "drains {a} s (set_port s a (p\<lparr>pt_queue := [], pt_qbytes := 0\<rparr>))" by (rule drains_set_port [OF p(1)]) auto
  moreover have "drains {} (set_port s a (p\<lparr>pt_queue := [], pt_qbytes := 0\<rparr>)) s'" by (rule msgs_free_drains [OF _ p(2)]) (rule f)
  ultimately show ?thesis using drains_trans drains_mono by blast
qed

lemma port_hangup_drains: "port_hangup a s = Inr s' \<Longrightarrow> drains {} s s'"
proof -
  assume "port_hangup a s = Inr s'"
  then obtain t where t: "wake_receivers a (s\<lparr>k_hangup_gen := k_hangup_gen s + 1\<rparr>) = Inr t" "wake_senders a t = Inr s'"
    by (auto simp: port_hangup_def ret_iff)
  have "drains {} s (s\<lparr>k_hangup_gen := k_hangup_gen s + 1\<rparr>)" by (rule drains_heap) simp
  then show ?thesis
    using drains_trans [OF drains_trans [OF _ drains_core [OF wake_receivers_core [OF t(1)]]] drains_core [OF wake_senders_core [OF t(2)]]]
    by blast
qed

lemma port_unref_drains: "port_unref_f n a s = Inr s' \<Longrightarrow> drains {} s s'"
proof (induction n arbitrary: a s s')
  case (Suc n)
  obtain p0 where p0: "k_pheap s a = Some p0" using Suc.prems by (auto simp: ret_iff Let_def)
  define p where "p = p0\<lparr>pt_nrights := pt_nrights p0 - 1\<rparr>"
  define s1 where "s1 = set_port s a p"
  have d1: "drains {} s s1" unfolding s1_def by (rule drains_set_port [OF p0]) (simp_all add: p_def)
  have h1: "k_pheap s1 a = Some p" by (simp add: s1_def)
  have run: "(if pt_nrights p \<le> 0 then bnd (port_flush_by (port_unref_f n) a s1) (port_free a)
      else bnd (if pt_nrecv p = 0 \<and> \<not> pt_dead p then port_flush_by (port_unref_f n) a (set_port s1 a (p\<lparr>pt_dead := True\<rparr>)) else Inr s1)
        (port_hangup a)) = Inr s'"
    using Suc.prems p0 unfolding p_def s1_def by (simp add: ret_iff Let_def get_Some)
  show ?case
  proof (cases "pt_nrights p \<le> 0")
    case True
    then obtain t where t: "port_flush_by (port_unref_f n) a s1 = Inr t" "port_free a t = Inr s'" using run by (auto simp: ret_iff)
    have d2: "drains {a} s1 t" by (rule port_flush_drains [OF _ t(1)]) (rule Suc.IH)
    have "drains {a} s t" by (rule drains_trans [OF drains_mono [OF d1] d2]) simp
    moreover have "k_pheap s' = (k_pheap t)(a := None)" using t(2) by (auto simp: port_free_def ret_iff)
    ultimately show ?thesis unfolding drains_def by auto
  next
    case False
    let ?d = "pt_nrecv p = 0 \<and> \<not> pt_dead p"
    obtain t where t: "(if ?d then port_flush_by (port_unref_f n) a (set_port s1 a (p\<lparr>pt_dead := True\<rparr>)) else Inr s1) = Inr t"
      "port_hangup a t = Inr s'" using run False by (auto simp: ret_iff)
    have "drains {} s1 t"
    proof (cases ?d)
      case d: True
      have "drains {a} (set_port s1 a (p\<lparr>pt_dead := True\<rparr>)) t"
        by (rule port_flush_drains [where f = "port_unref_f n"]) (use Suc.IH t(1) d in auto)
      moreover have "drains {a} s1 (set_port s1 a (p\<lparr>pt_dead := True\<rparr>))" by (rule drains_set_port [OF h1]) auto
      ultimately have "drains {a} s1 t" using drains_trans by blast
      then show ?thesis using h1 d unfolding drains_def by fastforce
    qed (use t(1) in \<open>auto intro: drains_heap\<close>)
    then show ?thesis using drains_trans [OF drains_trans [OF d1] port_hangup_drains [OF t(2)]] by blast
  qed
qed simp

lemma discard_drains:
  assumes "send_discard w s = Inr s'" "idle s"
  shows "drains {} s s'"
proof (cases "wb_refs w = []")
  case False
  obtain t where t: "ipclock_enter s = Inr t" "nolocks t = nolocks s" by (rule wide_enter [OF assms(2)])
  then obtain u where u: "release_inflight (wb_refs w) t = Inr u" "s' = ipclock_leave u"
    using assms(1) False by (auto simp: send_discard_def release_inflight_locked_def ret_iff)
  have "release_inflight_with port_unref (wb_refs w) t = Inr u"
    using u(1) False by (simp add: release_inflight_def release_inflight_by_def ret_iff)
  then have "drains {} t u"
    by (rule release_drains [rotated]) (simp add: port_unref_def port_unref_drains del: port_unref_f.simps)
  moreover have "k_pheap t = k_pheap s" "k_pheap s' = k_pheap u" using nolocks_sel [OF t(2)] nolocks_sel [OF leave_nolocks [of u]] u(2) by auto
  ultimately show ?thesis by (simp add: drains_def)
qed (use assms in \<open>simp add: send_discard_def drains_heap\<close>)

text \<open>Every queue that can be received from afterwards is the queue it was.\<close>

definition queues_kept :: "kstate \<Rightarrow> kstate \<Rightarrow> bool" where
  "queues_kept s s' \<longleftrightarrow> (\<forall>a p'. k_pheap s' a = Some p' \<and> pt_nrecv p' > 0 \<longrightarrow> (\<exists>p. k_pheap s a = Some p \<and> pt_queue p' = pt_queue p))"

lemma queues_kept_drains:
  assumes "drains {} x s'" "slot_queue x = slot_queue s" "k_portv x = k_portv s" "pinv G C s" "pinv G' C' x"
  shows "queues_kept s s'"
  unfolding queues_kept_def
proof (intro allI impI)
  fix a p'
  assume a: "k_pheap s' a = Some p' \<and> pt_nrecv p' > 0"
  then have s': "k_pheap s' a = Some p'" "\<not> pt_nrecv p' \<le> 0" by auto
  obtain p1 where p1: "k_pheap x a = Some p1" "pt_queue p' = pt_queue p1" using drainsD [OF assms(1) s'(1)] s'(2) by blast
  have pt: "ptable_ok s" "ptable_ok x" using assms(4,5) by (simp_all add: pinv_def port_inv_def)
  have "k_portv s (pt_idx p1) = Some a" using ptable_okD(1) [OF pt(2) p1(1)] assms(3) by simp
  then obtain p where p: "k_pheap s a = Some p" "pt_idx p = pt_idx p1" using ptable_okD(3) [OF pt(1)] by blast
  have "slot_queue x (pt_idx p1) = pt_queue p1" "slot_queue s (pt_idx p) = pt_queue p"
    using slot_queue_set_port(2) [OF pt(2) p1(1)] slot_queue_set_port(2) [OF pt(1) p(1)] by simp_all
  then show "\<exists>p. k_pheap s a = Some p \<and> pt_queue p' = pt_queue p" using p p1(2) assms(2) by auto
qed

section \<open>Buffers on their way\<close>

lemma detach_points:
  assumes wf: "buf_wf b" and h: "luabuf_borrow (PBuf h) b = Some (c, n, h)" and d: "luabuf_detach h p b = (p', b')"
  shows "buf_wf b'" "bs_mem b' = bs_mem b" "of_bool (c = x) + of_bool (pointed b' x) = (of_bool (pointed b x) :: nat)"
    "\<exists>bs. bs_mem b c = Some bs \<and> length bs = n" "\<And>k. k \<noteq> h \<Longrightarrow> bs_obj b' k = bs_obj b k"
    "same_waits p p'" "pr_rights p' = pr_rights p" "pr_xrights p' = pr_xrights p" "pr_dbg p' = pr_dbg p"
proof -
  obtain x0 where o: "bs_obj b h = Some x0" "movable x0" "c = fst (shift x0 0)" "n = lb_len x0"
    using h by (auto simp: luabuf_borrow_def testudata_def split: option.splits if_splits)
  have b': "b' = b\<lparr>bs_obj := (bs_obj b)(h \<mapsto> x0\<lparr>lb_p := None\<rparr>)\<rparr>" "p' = kbuf_uncharge (lb_len x0) p"
    using d o(1) by (auto simp: luabuf_detach_def clear_p_def)
  obtain off where q: "lb_p x0 = Some (c, off)" and ow: "lb_owned x0" "lb_views x0 = 0"
    using o by (auto simp: movable_def shift_def)
  have k: "kids b h = {}" using ow(2) buf_wfD(4) [OF wf o(1)] finite_kids [OF wf, of h] by simp
  note sole = sole_holder [OF wf o(1) ow(1) q k]
  show "buf_wf b'" using detach_ok [OF wf o(1,2), of p] d by simp
  show "bs_mem b' = bs_mem b" "\<And>k. k \<noteq> h \<Longrightarrow> bs_obj b' k = bs_obj b k" by (simp_all add: b')
  have "pointed b c" using o(1) q by (auto simp: pointed_def)
  moreover have "\<not> pointed b' c" using sole by (auto simp: pointed_def b' split: if_splits)
  moreover have "pointed b' x = pointed b x" if "x \<noteq> c"
  proof
    show "pointed b x" if "pointed b' x" using that by (auto simp: pointed_def b' split: if_splits)
    assume "pointed b x"
    then obtain g y off' where g: "bs_obj b g = Some y" "lb_p y = Some (x, off')" by (auto simp: pointed_def)
    then have "g \<noteq> h" using o(1) q that by auto
    then show "pointed b' x" using g unfolding pointed_def b' by auto
  qed
  ultimately show "of_bool (c = x) + of_bool (pointed b' x) = (of_bool (pointed b x) :: nat)" by (cases "x = c") auto
  show "\<exists>bs. bs_mem b c = Some bs \<and> length bs = n"
    using buf_wfD(2) [OF wf o(1)] q ow(1) o(4) by (auto simp: placed_def)
  show "same_waits p p'" "pr_rights p' = pr_rights p" "pr_xrights p' = pr_xrights p" "pr_dbg p' = pr_dbg p"
    using holds_cong [of p' p] by (simp_all add: b' kbuf_uncharge_def same_waits_def)
qed

text \<open>
  Handing over: each buffer of the message leaves its owner, and what the owners pointed at before
  is what the message and the owners have now.
\<close>

lemma detach_all_ok:
  assumes "buf_wf b" "list_all2 (\<lambda>h e. luabuf_borrow (PBuf h) b = Some (the (fst e), snd e, h) \<and> fst e \<noteq> None) own bf"
    "distinct own" "detach_all own p b = (p', b')"
  shows "buf_wf b' \<and> bs_mem b' = bs_mem b \<and> same_waits p p' \<and> pr_rights p' = pr_rights p \<and> pr_xrights p' = pr_xrights p \<and> pr_dbg p' = pr_dbg p \<and>
    (\<forall>x. count_list (map fst bf) (Some x) + of_bool (pointed b' x) = of_bool (pointed b x)) \<and>
    (\<forall>c n. (Some c, n) \<in> set bf \<longrightarrow> (\<exists>bs. bs_mem b c = Some bs \<and> length bs = n))"
  using assms
proof (induction own arbitrary: bf p b)
  case Nil
  then show ?case by (auto simp: same_waits_def)
next
  case (Cons h own)
  obtain e bf' where bf: "bf = e # bf'" using Cons.prems(2) by (cases bf) auto
  obtain c n where e: "e = (Some c, n)" using Cons.prems(2) bf by (cases e) auto
  have h: "luabuf_borrow (PBuf h) b = Some (c, n, h)" using Cons.prems(2) bf e by simp
  obtain p1 b1 where d: "luabuf_detach h p b = (p1, b1)" by fastforce
  note D = detach_points [OF Cons.prems(1) h d]
  have "luabuf_borrow (PBuf k) b1 = luabuf_borrow (PBuf k) b" if "k \<in> set own" for k
  proof -
    have "bs_obj b1 k = bs_obj b k" by (rule D(5)) (use that Cons.prems(3) in auto)
    then show ?thesis by (simp add: luabuf_borrow_def testudata_def)
  qed
  then have "list_all2 (\<lambda>h e. luabuf_borrow (PBuf h) b1 = Some (the (fst e), snd e, h) \<and> fst e \<noteq> None) own bf'"
    using Cons.prems(2) bf by (auto elim!: list.rel_mono_strong)
  from Cons.IH [OF D(1) this, of p1] Cons.prems(3,4) d have
    ih: "buf_wf b' \<and> bs_mem b' = bs_mem b1 \<and> same_waits p1 p' \<and> pr_rights p' = pr_rights p1 \<and> pr_xrights p' = pr_xrights p1 \<and> pr_dbg p' = pr_dbg p1 \<and>
    (\<forall>x. count_list (map fst bf') (Some x) + of_bool (pointed b' x) = of_bool (pointed b1 x)) \<and>
    (\<forall>c n. (Some c, n) \<in> set bf' \<longrightarrow> (\<exists>bs. bs_mem b1 c = Some bs \<and> length bs = n))" by simp
  have "count_list (map fst bf) (Some x) + of_bool (pointed b' x) = of_bool (pointed b x)" for x
  proof -
    have "count_list (map fst bf') (Some x) + of_bool (pointed b' x) = of_bool (pointed b1 x)" using ih by blast
    then show ?thesis using D(3) [of x] bf e by (cases "c = x") simp_all
  qed
  then show ?case using ih D same_waits_trans [OF D(6)] bf e by auto
qed

section \<open>Sending\<close>

lemma reserved_start:
  assumes "pinv G C s" "k_procs s i = Some p" "k_maxports s \<le> 65536"
  shows "ser_inv (b, s) G C i 0 (send_reserved v s)"
proof -
  have s: "ser_inv (b, s) G C i 0 (wbuf0, s)" by (rule ser_inv_start [OF assms])
  obtain w t where e: "send_reserved v s = (w, t)" by fastforce
  have "wb_ok w \<and> wb_buf w = [] \<and> wb_refs w = [] \<and> wb_bufs w = [] \<and> wb_own w = [] \<and> (t = s \<or> t = s\<lparr>k_mcount := Suc (k_mcount s)\<rparr>)"
    using e by (auto simp: send_reserved_def wreserve_def kmalloc_def wbuf0_def wb_ok_def split: if_splits option.splits)
  then show ?thesis using s pinv_mcount [OF assms(1)] unfolding e by (auto simp: ser_inv_def wbuf0_def borrowed_def)
qed

text \<open>The rights in the message lead down from the port it goes to.\<close>

definition sends_down :: "(nat \<Rightarrow> nat) \<Rightarrow> (nat \<Rightarrow> bool) \<Rightarrow> nat \<Rightarrow> lval \<Rightarrow> kport \<Rightarrow> kstate \<Rightarrow> bufs \<Rightarrow> bool" where
  "sends_down rank chk i v p s b \<longleftrightarrow>
     (case serialize chk b i 0 v (send_reserved v s) of
        Inr (SOk, w, _) \<Rightarrow> list_all (\<lambda>x. rank (fst x) < rank (pt_idx p)) (wb_refs w)
      | _ \<Rightarrow> True)"

lemma acyc_push:
  assumes "acyc rank s" "slot_queue s' = (slot_queue s)(j := slot_queue s j @ [m])" "\<forall>x\<in>set (m_refs m). rank (fst x) < rank j"
  shows "acyc rank s'"
  using assms by (auto simp: acyc_def qrefs_def)

lemma queues_sized_push:
  assumes "queues_sized s" "k_chunks s' = k_chunks s" "slot_queue s' = (slot_queue s)(j := slot_queue s j @ [m])" "sized s (m_bufs m)"
  shows "queues_sized s'"
  using assms by (auto simp: queues_sized_def sized_def)

text \<open>The part from the push on, once the message is written.\<close>

lemma push_region:
  assumes inv: "pinv (with_refs G refs) (with_bufs C bf) s" and ac: "acyc rank s" and id: "idle s" and p: "k_pheap s a = Some p"
  obtains rc s' where
    "bnd (ipclock_enter_port a s) (\<lambda>s. bnd (port_push_owned a data refs bf s) (\<lambda>(rc, s).
       bnd (ipclock_leave_port a s) (\<lambda>s. f rc s))) = f rc s'"
    "idle s'" "k_chunks s' = k_chunks s" "k_maxports s' = k_maxports s" "k_maxprocs s' = k_maxprocs s" "k_timers s' = k_timers s"
    "k_self s' = k_self s" "k_portv s' = k_portv s" "\<And>j. map_option core_proc (k_procs s' j) = map_option core_proc (k_procs s j)"
    "if rc = PUSH_OK then pinv G C s' \<and> roused False p s s' \<and> slot_queue s' = (slot_queue s)(pt_idx p := pt_queue p @ [new_kmsg data refs bf])
     else pinv (with_refs G refs) (with_bufs C bf) s' \<and> slot_queue s' = slot_queue s \<and> calm {} s s'"
    "rc = PUSH_DEAD \<longleftrightarrow> pt_dead p"
    "rc = PUSH_FULL \<longleftrightarrow> \<not> pt_dead p \<and> pt_qbytes p + (length data + msgbufs_bytes bf) > MAXQUEUE"
    "rc = PUSH_NOMEM \<longrightarrow> (\<exists>n. \<not> k_memok s n)"
proof -
  have lk: "locks_ok s" using id by (simp add: idle_def)
  obtain t where t: "ipclock_enter_port a s = Inr t" "locks_ok t" "nolocks t = nolocks s" "ipcheld_one_port t p"
    "depth_of t = (\<lambda>b. depth_of s b + (if b = ipcbucket_of (pt_idx p) then 1 else 0))"
    using enter_port_ok [OF lk p idle_free [OF id]] .
  note n = nolocks_sel [OF t(3)]
  have it: "pinv (with_refs G refs) (with_bufs C bf) t" by (rule pinv_nolocks [OF t(3) inv])
  have pt: "k_pheap t a = Some p" using p n by simp
  from port_push_owned_ok [OF it pt t(4), of data] obtain rc u where
    u: "port_push_owned a data refs bf t = Inr (rc, u)"
    "rc = PUSH_OK \<longrightarrow> pinv G C u \<and> pushed a p data refs bf u \<and> roused False p t u \<and>
       slot_queue u = (slot_queue t)(pt_idx p := pt_queue p @ [new_kmsg data refs bf])"
    "rc \<noteq> PUSH_OK \<longrightarrow> pinv (with_refs G refs) (with_bufs C bf) u \<and> slot_queue u = slot_queue t"
    "rc = PUSH_DEAD \<longleftrightarrow> pt_dead p" "rc = PUSH_FULL \<longleftrightarrow> \<not> pt_dead p \<and> pt_qbytes p + (length data + msgbufs_bytes bf) > MAXQUEUE"
    "rc = PUSH_NOMEM \<longrightarrow> \<not> k_memok t (k_mcount t)"
    and uf: "k_buckets u = k_buckets t" "k_self u = k_self t" "k_portv u = k_portv t" "k_timers u = k_timers t" "map_option pt_idx (k_pheap u a) = Some (pt_idx p)"
    "k_chunks u = k_chunks t" "k_maxports u = k_maxports t" "k_maxprocs u = k_maxprocs t"
    "\<forall>i. map_option core_proc (k_procs u i) = map_option core_proc (k_procs t i)" "uptime_ms u = uptime_ms t" by (elim exE conjE) (rule that)
  obtain p' where p': "k_pheap u a = Some p'" "pt_idx p' = pt_idx p" using uf(5) by auto
  have lu: "locks_ok u" using t(2) locks_ok_cong [OF uf(1)] by simp
  have hu: "ipcheld_one_port u p'" using t(4) uf p'(2) by (simp add: ipcheld_one_port_def ipcheld_one_def)
  obtain v where v: "ipclock_leave_port a u = Inr v" "locks_ok v" "nolocks v = nolocks u"
    "depth_of v = (\<lambda>b. depth_of u b - (if b = ipcbucket_of (pt_idx p') then 1 else 0))"
    using leave_port_ok [OF lu p'(1) hu] .
  note nv = nolocks_sel [OF v(3)]
  have d: "depth_of v = depth_of s" using v(4) t(5) depth_of_cong [OF uf(1,2)] p'(2) by (simp add: fun_eq_iff)
  have sq: "slot_queue v = slot_queue u" "slot_queue t = slot_queue s" using slots_nolocks(1) [OF v(3)] slots_nolocks(1) [OF t(3)] by simp_all
  have fr: "bucket_free v x" if "bucket_free s x" for x
  proof -
    have "bucket_free t x" using calm_enter_port [OF t(1), of "{}"] that by (simp add: calm_def)
    then have "bucket_free u x" using uf by (simp add: bucket_free_def)
    then show ?thesis using calm_leave_port [OF v(1), of "{}"] by (simp add: calm_def)
  qed
  have idv: "idle v" by (rule idle_back [OF id v(2) d fr [OF idle_free [OF id]]])
  have "if rc = PUSH_OK then pinv G C v \<and> roused False p s v \<and> slot_queue v = (slot_queue s)(pt_idx p := pt_queue p @ [new_kmsg data refs bf])
     else pinv (with_refs G refs) (with_bufs C bf) v \<and> slot_queue v = slot_queue s \<and> calm {} s v"
  proof (cases "rc = PUSH_OK")
    case True
    then have "roused False p s v" using roused_cong [of False p t u s p v] u(2) nv(3) n(3,9) by simp
    then show ?thesis using True u(2) pinv_nolocks [OF v(3)] sq by simp
  next
    case False
    have "calm {} s v" unfolding calm_def using False u(3) sq nv n uf fr by simp
    then show ?thesis using False u(3) pinv_nolocks [OF v(3)] sq by simp
  qed
  moreover have "rc = PUSH_NOMEM \<longrightarrow> (\<exists>n. \<not> k_memok s n)" using u(6) n(16) by auto
  ultimately show ?thesis
    using that [of rc v] idv t(1) u v(1) nv n uf by simp
qed

text \<open>What a send leaves, for each way it can end.\<close>

definition send_done ::
  "(nat \<Rightarrow> nat) \<Rightarrow> owned \<Rightarrow> (addr \<Rightarrow> nat) \<Rightarrow> nat \<Rightarrow> kport \<Rightarrow> (wbuf \<Rightarrow> kstate \<Rightarrow> bool) \<Rightarrow> kstate \<times> bufs \<Rightarrow> send_rc \<Rightarrow> nat \<Rightarrow> kstate \<times> bufs \<Rightarrow> bool" where
  "send_done rank G C i p M x rc len y \<longleftrightarrow> (\<exists>G' C'. callable rank G' C' (fst y) (snd y) \<and> (rc \<noteq> SEND_RAISED \<longrightarrow> G' = G) \<and> G \<le> G' \<and>
        unowned C' (snd y) = unowned C (snd x)) \<and>
     k_maxports (fst y) = k_maxports (fst x) \<and>
     (\<forall>j. j \<noteq> i \<longrightarrow> map_option core_proc (k_procs (fst y) j) = map_option core_proc (k_procs (fst x) j)) \<and>
     map_option (\<lambda>q. (rtable q, pr_waiters q)) (k_procs (fst y) i) = map_option (\<lambda>q. (rtable q, pr_waiters q)) (k_procs (fst x) i) \<and>
     (if rc = SEND_OK then roused False p (fst x) (fst y) \<and> k_portv (fst y) = k_portv (fst x) \<and> pt_qbytes p + len \<le> MAXQUEUE \<and> \<not> pt_dead p \<and>
        (\<exists>w t. M w t \<and> len = length (wb_buf w) + msgbufs_bytes (wb_bufs w) \<and>
           slot_queue (fst y) = (slot_queue (fst x))(pt_idx p := pt_queue p @ [new_kmsg (wb_buf w) (wb_refs w) (wb_bufs w)]))
      else bs_obj (snd y) = bs_obj (snd x) \<and> (\<forall>c. pointed (snd x) c \<longrightarrow> bs_mem (snd y) c = bs_mem (snd x) c) \<and>
        queues_kept (fst x) (fst y) \<and> (\<forall>j. set (slot_queue (fst y) j) \<subseteq> set (slot_queue (fst x) j)) \<and>
        (rc = SEND_DEAD \<longrightarrow> pt_dead p) \<and> (rc = SEND_FULL \<longrightarrow> pt_qbytes p + len > MAXQUEUE \<and> (\<exists>w t. M w t \<and> len = length (wb_buf w) + msgbufs_bytes (wb_bufs w))) \<and>
        (rc = SEND_NOMEM \<longrightarrow> (\<exists>w t n. M w t \<and> \<not> k_memok t n)) \<and> (rc \<in> {SEND_RAISED, SEND_UNSERIALIZABLE} \<longrightarrow> (\<forall>w t. \<not> M w t)))"

lemma core_known:
  "map_option core_proc x = map_option core_proc y \<Longrightarrow>
   map_option (\<lambda>q. (rtable q, pr_waiters q)) x = map_option (\<lambda>q. (rtable q, pr_waiters q)) y"
  by (cases x; cases y) (auto dest!: core_rtable)

lemma send_refused:
  assumes c: "callable rank G C s b"
    and x: "pinv (with_refs G (wb_refs w)) C x" "calm {} s x" "idle x" "k_chunks x = k_chunks s" "slot_queue x = slot_queue s" "k_portv x = k_portv s"
    and rc: "rc \<noteq> SEND_OK" "rc = SEND_DEAD \<longrightarrow> pt_dead p" "rc = SEND_FULL \<longrightarrow> pt_qbytes p + len > MAXQUEUE \<and> (\<exists>w t. M w t \<and> len = length (wb_buf w) + msgbufs_bytes (wb_bufs w))"
      "rc = SEND_NOMEM \<longrightarrow> (\<exists>w t n. M w t \<and> \<not> k_memok t n)" "rc \<in> {SEND_RAISED, SEND_UNSERIALIZABLE} \<longrightarrow> (\<forall>w t. \<not> M w t)"
  shows "\<exists>s'. send_discard w x = Inr s' \<and> send_done rank G C i p M (s, b) rc len (s', reclaim s' b)"
proof -
  have ac: "acyc rank s" and ca: "carried C [] s b" and sz: "queues_sized s" using c by (auto simp: callable_def)
  from discard_ok [OF x(1) calm_acyc [OF ac x(2)] x(3)] obtain s' where
    s': "send_discard w x = Inr s'" "pinv G C s'" "idle s'" "calm {} x s'" by blast
  have cs: "calm {} s s'" by (rule calm_trans [OF x(2) s'(4)])
  have "carried C [] x b" using ca carried_cong [OF x(4)] by simp
  moreover have "k_chunks s' \<subseteq>\<^sub>m k_chunks x" using s'(4) by (simp add: calm_def)
  ultimately have "carried C [] s' (reclaim s' b)" using reclaim_carried [OF _ s'(2)] by blast
  then have cl: "callable rank G C s' (reclaim s' b)"
    using s' cs calm_acyc [OF ac cs] queues_sized_calm [OF s'(2) cs sz] by (auto simp: callable_def)
  moreover have "bs_mem (reclaim s' b) c = bs_mem b c" if "pointed b c" for c
  proof -
    have "of_bool (pointed b c) \<le> C c" using ca by (simp add: carried_def)
    then have "C c \<noteq> 0" using that by simp
    then have "k_chunks s' c \<noteq> None"
      using spec [OF port_invD(3) [of G C s', unfolded chunks_ok_def], of c] s'(2) by (auto simp: pinv_def split: if_splits)
    then show ?thesis by (auto simp: reclaim_def)
  qed
  moreover have "queues_kept s s'"
    using queues_kept_drains [OF discard_drains [OF s'(1) x(3)] x(5,6) _ x(1), of G C] c by (simp add: callable_def)
  moreover have "bs_obj (reclaim s' b) = bs_obj b" by (simp add: reclaim_def)
  ultimately show ?thesis
    using s'(1) cs rc core_known [of "k_procs s' i" "k_procs s i"] unfolding send_done_def calm_def by auto
qed

text \<open>The message is queued: the buffers change hands.\<close>

lemma handed_bufs:
  assumes ca: "carried C [] s b" and w: "ser_inv (b, s) G D i 0 (w, t)" and d: "detach_all (wb_own w) q b = (q', b')"
  shows "carried C (wb_bufs w) s b'" "sized s (wb_bufs w)" "same_waits q q'" "pr_rights q' = pr_rights q" "pr_xrights q' = pr_xrights q"
    "pr_dbg q' = pr_dbg q" "unowned (less_bufs C (wb_bufs w)) b' = unowned C b"
proof -
  have wf: "buf_wf b" and sh: "shared s b" and own: "\<And>c. of_bool (pointed b c) \<le> C c" using ca by (auto simp: carried_def)
  have bo: "list_all2 (\<lambda>h e. luabuf_borrow (PBuf h) b = Some (the (fst e), snd e, h) \<and> fst e \<noteq> None) (wb_own w) (wb_bufs w)"
    and dist: "distinct (wb_own w)" using w by (simp_all add: ser_inv_def borrowed_def wb_ok_def)
  note D = detach_all_ok [OF wf bo dist d]
  show szw: "sized s (wb_bufs w)" using D sh unfolding sized_def shared_def by fastforce
  show "carried C (wb_bufs w) s b'" using D sh own szw by (simp add: carried_def shared_def)
  show "same_waits q q'" "pr_rights q' = pr_rights q" "pr_xrights q' = pr_xrights q" "pr_dbg q' = pr_dbg q" using D by simp_all
  have e: "count_list (map fst (wb_bufs w)) (Some c) + of_bool (pointed b' c) = of_bool (pointed b c)" for c using D by blast
  have "unowned (less_bufs C (wb_bufs w)) b' c = unowned C b c" for c using e [of c] own [of c] by (simp add: unowned_def less_bufs_def)
  then show "unowned (less_bufs C (wb_bufs w)) b' = unowned C b" by (simp add: fun_eq_iff)
qed

lemma send_handed:
  assumes c: "callable rank G C s b" and w: "ser_inv (b, s) G C i 0 (w, t)"
    and q: "k_procs x i = Some q" and d: "detach_all (wb_own w) q b = (q', b')"
    and x: "pinv G (less_bufs C (wb_bufs w)) x" "idle x" "k_chunks x = k_chunks s"
    and sq: "slot_queue x = (slot_queue s)(j := slot_queue s j @ [new_kmsg (wb_buf w) (wb_refs w) (wb_bufs w)])"
    and dn: "\<forall>r\<in>set (wb_refs w). rank (fst r) < rank j"
  shows "callable rank G (less_bufs C (wb_bufs w)) (set_proc x i q') b'"
proof -
  have ac: "acyc rank s" and ca: "carried C [] s b" and sz: "queues_sized s" using c by (auto simp: callable_def)
  note H = handed_bufs [OF ca w d]
  note lb = less_bufs_ok [OF H(1)]
  have "carried (less_bufs C (wb_bufs w)) [] x b'" using lb(2) carried_cong [OF x(3)] by simp
  moreover have "acyc rank x" by (rule acyc_push [OF ac sq]) (use dn in \<open>simp add: new_kmsg_def\<close>)
  moreover have "queues_sized x" by (rule queues_sized_push [OF sz x(3) sq]) (use H(2) in \<open>simp add: new_kmsg_def\<close>)
  ultimately have "callable rank G (less_bufs C (wb_bufs w)) x b'" using x(1,2) by (simp add: callable_def)
  then show ?thesis by (rule callable_proc_upd [OF _ q H(3-5)])
qed

text \<open>From the region on, for a message that was written whole.\<close>

lemma send_written:
  assumes c: "callable rank G C s b" and w: "ser_inv (b, s) G C i 0 (w, t)" "M w t" and p: "k_pheap s a = Some p"
    and dn: "\<forall>r\<in>set (wb_refs w). rank (fst r) < rank (pt_idx p)"
  shows "\<exists>rc s' b'. bnd (ipclock_enter_port a t) (\<lambda>s. bnd (port_push_owned a (wb_buf w) (wb_refs w) (wb_bufs w) s) (\<lambda>(rc, s).
      bnd (ipclock_leave_port a s) (\<lambda>s.
      if rc = PUSH_OK then
        bnd (get_proc s i) (\<lambda>p. case detach_all (wb_own w) p b of (p, b) \<Rightarrow> Inr (SEND_OK, len, set_proc s i p, b))
      else bnd (send_discard w s) (\<lambda>s. Inr (send_rc_of rc, len, s, reclaim s b))))) = Inr (rc, len, s', b') \<and>
    (len = length (wb_buf w) + msgbufs_bytes (wb_bufs w) \<longrightarrow> rc \<noteq> SEND_RAISED \<and> send_done rank G C i p M (s, b) rc len (s', b'))"
    (is "\<exists>rc s' b'. bnd ?m ?f = _ \<and> _")
proof -
  have inv: "pinv G C s" and ac: "acyc rank s" and id: "idle s" and ca: "carried C [] s b" using c by (auto simp: callable_def)
  have it: "pinv (with_refs G (wb_refs w)) C t" and pr: "k_procs t = k_procs s" "k_procs s i \<noteq> None" and pk: "ports_kept s t"
    using w(1) by (auto simp: ser_inv_def)
  have ct: "calm {} s t" using pk pr by (auto simp: calm_def ports_kept_def bucket_free_def)
  obtain p1 where p1: "k_pheap t a = Some p1" "pt_idx p1 = pt_idx p" "pt_dead p1 = pt_dead p" "pt_queue p1 = pt_queue p"
    "pt_qbytes p1 = pt_qbytes p" "pt_waiters p1 = pt_waiters p" using ports_kept_port [OF pk, of a] p by auto
  have kept: "slot_queue t = slot_queue s" "k_chunks t = k_chunks s" "k_maxports t = k_maxports s" "k_waits t = k_waits s" "k_portv t = k_portv s" using pk by (simp_all add: ports_kept_def)
  obtain q0 b0 where d0: "detach_all (wb_own w) kproc0 b = (q0, b0)" by fastforce
  let ?C = "less_bufs C (wb_bufs w)"
  have C: "with_bufs ?C (wb_bufs w) = C" by (rule less_bufs_ok(1) [OF handed_bufs(1) [OF ca w(1) d0]])
  have itl: "pinv (with_refs G (wb_refs w)) (with_bufs ?C (wb_bufs w)) t" using it C by simp
  obtain rc x where x: "bnd ?m ?f = (if rc = PUSH_OK then bnd (get_proc x i) (\<lambda>p. case detach_all (wb_own w) p b of (p, b) \<Rightarrow> Inr (SEND_OK, len, set_proc x i p, b))
      else bnd (send_discard w x) (\<lambda>s. Inr (send_rc_of rc, len, s, reclaim s b)))"
    "idle x" "k_chunks x = k_chunks t" "k_maxports x = k_maxports t" "k_portv x = k_portv t"
    "\<And>j. map_option core_proc (k_procs x j) = map_option core_proc (k_procs t j)"
    "if rc = PUSH_OK then pinv G ?C x \<and> roused False p1 t x \<and> slot_queue x = (slot_queue t)(pt_idx p1 := pt_queue p1 @ [new_kmsg (wb_buf w) (wb_refs w) (wb_bufs w)])
     else pinv (with_refs G (wb_refs w)) (with_bufs ?C (wb_bufs w)) x \<and> slot_queue x = slot_queue t \<and> calm {} t x"
    "rc = PUSH_DEAD \<longleftrightarrow> pt_dead p1"
    "rc = PUSH_FULL \<longleftrightarrow> \<not> pt_dead p1 \<and> pt_qbytes p1 + (length (wb_buf w) + msgbufs_bytes (wb_bufs w)) > MAXQUEUE"
    "rc = PUSH_NOMEM \<longrightarrow> (\<exists>n. \<not> k_memok t n)"
    by (rule push_region [OF itl calm_acyc [OF ac ct] idle_kept [OF pk id] p1(1)]) (rule that)
  show ?thesis
  proof (cases "rc = PUSH_OK")
    case True
    obtain q where q: "k_procs x i = Some q" using x(6) [of i] pr by (cases "k_procs x i") auto
    obtain q' b' where d: "detach_all (wb_own w) q b = (q', b')" by fastforce
    note H = handed_bufs [OF ca w(1) d]
    have sp: "slot_queue s (pt_idx p) = pt_queue p" using slot_queue_set_port(2) [OF _ p] inv by (simp add: pinv_def port_inv_def)
    have sq: "slot_queue x = (slot_queue s)(pt_idx p := slot_queue s (pt_idx p) @ [new_kmsg (wb_buf w) (wb_refs w) (wb_bufs w)])"
      using x(7) True kept p1 sp by simp
    have ca': "callable rank G ?C (set_proc x i q') b'"
      by (rule send_handed [OF c w(1) q d _ x(2) _ sq dn]) (use x(3,7) True kept in simp_all)
    have "sched_view q' = sched_view q" using H(3,6) by (simp add: same_waits_def sched_view_def)
    then have "roused False p s (set_proc x i q')"
      using roused_cong [of False p1 t x s p "set_proc x i q'"] x(7) True q kept(4) p1(6) pr(1) by simp
    moreover have "rtable q' = rtable q" "pr_waiters q' = pr_waiters q" using H(3) rtable_cong [OF H(4,5)] by (auto simp: same_waits_def)
    then have "map_option (\<lambda>q. (rtable q, pr_waiters q)) (k_procs (set_proc x i q') i) = map_option (\<lambda>q. (rtable q, pr_waiters q)) (k_procs s i)"
      using core_known [OF x(6) [of i]] q pr by simp
    moreover have "\<not> pt_dead p" "pt_qbytes p + (length (wb_buf w) + msgbufs_bytes (wb_bufs w)) \<le> MAXQUEUE" using x(8,9) True p1 by auto
    moreover have "map_option core_proc (k_procs (set_proc x i q') j) = map_option core_proc (k_procs s j)" if "j \<noteq> i" for j
      using x(6) [of j] that pr by simp
    moreover have "slot_queue (set_proc x i q') = (slot_queue s)(pt_idx p := pt_queue p @ [new_kmsg (wb_buf w) (wb_refs w) (wb_bufs w)])"
      using sq sp by (simp add: fun_eq_iff)
    ultimately have "send_done rank G C i p M (s, b) SEND_OK (length (wb_buf w) + msgbufs_bytes (wb_bufs w)) (set_proc x i q', b')"
      unfolding send_done_def fst_conv snd_conv using ca' x(4,5) kept(3,5) w(2) H(7)
      by (intro conjI exI [of _ G] exI [of _ ?C]) (auto simp: new_kmsg_def)
    then show ?thesis
      using True q d unfolding x(1) by (intro exI [of _ SEND_OK] exI [of _ "set_proc x i q'"] exI [of _ b']) (simp add: get_Some)
  next
    case False
    have cx: "calm {} s x" using calm_trans [OF ct] x(7) False by simp
    have "\<exists>s'. send_discard w x = Inr s' \<and>
        send_done rank G C i p M (s, b) (send_rc_of rc) (length (wb_buf w) + msgbufs_bytes (wb_bufs w)) (s', reclaim s' b)"
      by (rule send_refused [OF c _ cx x(2)]) (use x(3,5,7-10) kept(1,5) False kept(2) p1 C w(2) in \<open>auto simp: send_rc_of_def split: push_rc.splits if_splits\<close>)
    moreover have "send_rc_of rc \<noteq> SEND_RAISED" by (simp add: send_rc_of_def split: push_rc.split)
    ultimately show ?thesis using False unfolding x(1) by auto
  qed
qed

lemma send_ok:
  assumes c: "callable rank G C s b" and q: "k_procs s i = Some q" and p: "k_pheap s a = Some p" and m: "k_maxports s \<le> 65536"
    and dn: "sends_down rank chk i v p s b"
  shows "\<exists>rc len s' b'. port_send_from_lua chk i a v s b = Inr (rc, len, s', b') \<and> 
    send_done rank G C i p (\<lambda>w t. serialize chk b i 0 v (send_reserved v s) = Inr (SOk, w, t)) (s, b) rc len (s', b')"
    (is "\<exists>rc len s' b'. _ \<and> send_done rank G C i p ?M (s, b) rc len (s', b')")
proof -
  have inv: "pinv G C s" and ac: "acyc rank s" and id: "idle s" and ca: "carried C [] s b" and sz: "queues_sized s"
    using c by (auto simp: callable_def)
  from serialize_keeps(1) [OF reserved_start [OF inv q m, of b v], of chk 0 v] obtain r w t where
    e: "serialize chk b i 0 v (send_reserved v s) = Inr (r, w, t)" "ser_inv (b, s) G C i 0 (w, t)" by (auto simp: keeps_def)
  have it: "pinv (with_refs G (wb_refs w)) C t" and pr: "k_procs t = k_procs s" and pk: "ports_kept s t"
    using e(2) by (auto simp: ser_inv_def)
  have ct: "calm {} s t" using pk pr by (auto simp: calm_def ports_kept_def bucket_free_def)
  have idt: "idle t" by (rule idle_kept [OF pk id])
  have kc: "k_chunks t = k_chunks s" using pk by (simp add: ports_kept_def)
  have kq: "queues_kept s t"
    by (rule queues_kept_drains [OF drains_heap _ _ inv it]) (use pk in \<open>simp_all add: ports_kept_def\<close>)
  have le: "G \<le> with_refs G (wb_refs w)" by (simp add: le_fun_def with_refs_def)
  show ?thesis
  proof (cases r)
    case SRaise
    have "callable rank (with_refs G (wb_refs w)) C t b"
      using it calm_acyc [OF ac ct] idt ca carried_cong [OF kc] queues_sized_calm [OF it ct sz] by (simp add: callable_def)
    then have "send_done rank G C i p ?M (s, b) SEND_RAISED 0 (t, b)"
      using ct pr e(1) SRaise kq le unfolding send_done_def calm_def fst_conv snd_conv
      by (intro conjI exI [of _ "with_refs G (wb_refs w)"] exI [of _ C]) auto
    then show ?thesis using e(1) SRaise by (auto simp: port_send_from_lua_def)
  next
    case SFail
    have "\<exists>s'. send_discard w t = Inr s' \<and> send_done rank G C i p ?M (s, b) SEND_UNSERIALIZABLE 0 (s', reclaim s' b)"
      by (rule send_refused [OF c it ct idt kc]) (use e(1) SFail pk in \<open>auto simp: ports_kept_def\<close>)
    then show ?thesis using e(1) SFail by (auto simp: port_send_from_lua_def)
  next
    case SOk
    have m: "?M w t" using e(1) SOk by simp
    have "\<forall>r\<in>set (wb_refs w). rank (fst r) < rank (pt_idx p)" using dn e(1) SOk by (simp add: sends_down_def list_all_iff)
    from send_written [where M = ?M, OF c e(2) m p this, where len = "length (wb_buf w) + msgbufs_bytes (wb_bufs w)"]
    show ?thesis using e(1) SOk by (auto simp: port_send_from_lua_def Let_def)
  qed
qed

end
