(* ===== verification/Resume.thy ===== *)
theory Resume
  imports Send
begin

text \<open>
  Coming back from a wait: \<open>wait_reap\<close> of \<open>src/src/port.c\<close>, which \<open>run_proc\<close> calls before it resumes a
  proc. It takes one bucket at a time, so it runs while other ports are used; when it is done the proc
  is on no list, its records are free and its claim is open for the next waker.
\<close>

text \<open>A wait that is off its port's list is taken off the proc's list and its record given back.\<close>

lemma waits_ok_drop:
  assumes wok: "waits_ok u" and q: "k_procs u i = Some q" "pr_waiters q = w # ws" and x: "k_waits u w = Some x" "\<not> w_onport x"
    and s': "k_pheap s' = k_pheap u" "k_mcount s' = k_mcount u" "k_procs s' = (k_procs u)(i \<mapsto> q')" "pr_waiters q' = ws"
      "pr_rights q' = pr_rights q" "pr_xrights q' = pr_xrights q"
    and r: "w = W0 i \<and> k_waits s' = k_waits u \<or> w \<noteq> W0 i \<and> pr_w0used q' = pr_w0used q \<and> k_waits s' = (k_waits u)(w := None)"
  shows "waits_ok s'"
proof -
  have d: "w \<notin> set ws" "distinct ws" using waits_okD(3) [OF wok q(1)] q(2) by auto
  have px: "w_proc x = i" using waits_okD(4) [OF wok q(1), of w] q(2) x(1) by (auto simp: wait_ok_def)
  have own: "v \<noteq> w" if "k_procs u j = Some p" "v \<in> set (pr_waiters p)" "j \<noteq> i" for j p v
    using waits_okD(4) [OF wok that(1,2)] x(1) px that(3) by (auto simp: wait_ok_def)
  have wt: "waiting s' v j \<longleftrightarrow> waiting u v j \<and> v \<noteq> w" for v j
    unfolding waiting_def s'(3) using q own d s'(4) by auto
  have kw: "k_waits s' v = k_waits u v" if "v \<noteq> w" for v using r that by auto
  have "port_waits_ok s'"
    unfolding port_waits_ok_def s'(1)
  proof (intro allI impI conjI)
    fix a p v
    assume p: "k_pheap u a = Some p"
    show "distinct (pt_waiters p)" by (rule waits_okD(1) [OF wok p])
    show "v \<in> set (pt_waiters p) \<longleftrightarrow> (\<exists>y. k_waits s' v = Some y \<and> w_onport y \<and> w_port y = a \<and> waiting s' v (w_proc y))"
      using waits_okD(2) [OF wok p, of v] x kw [of v] by (cases "v = w") (auto simp: wt)
  qed
  moreover have "proc_waits_ok s'"
    unfolding proc_waits_ok_def
  proof (intro allI impI conjI ballI)
    fix j p v
    assume p: "k_procs s' j = Some p"
    show "distinct (pr_waiters p)" using p d s'(3,4) waits_okD(3) [OF wok, of j p] by (auto split: if_splits)
    assume v: "v \<in> set (pr_waiters p)"
    show "wait_ok s' j p v"
    proof (cases "j = i")
      case True
      then have e: "p = q'" "v \<in> set ws" "v \<noteq> w" using p v s'(3,4) d by auto
      then have "wait_ok u i q v" using waits_okD(4) [OF wok q(1)] q(2) by simp
      moreover have "record_ok (k_mcount u) i q' v" if "record_ok (k_mcount u) i q v"
        using that r e(3) by (cases v) auto
      ultimately show ?thesis
        using True e kw [of v] holds_cong [OF s'(5,6)] s'(2) by (auto simp: wait_ok_def)
    next
      case False
      then have "k_procs u j = Some p" using p s'(3) by simp
      then show ?thesis using waits_okD(4) [OF wok _ v] own [OF _ v False] kw s'(2) by (auto simp: wait_ok_def)
    qed
  qed
  ultimately show ?thesis by (simp add: waits_ok_def)
qed

lemma pinv_drop:
  assumes inv: "pinv G C u" and q: "k_procs u i = Some q" "pr_waiters q = w # ws" "pr_status q \<noteq> BLOCKED"
    and x: "k_waits u w = Some x" "\<not> w_onport x"
    and s': "k_pheap s' = k_pheap u" "k_mcount s' = k_mcount u" "k_procs s' = (k_procs u)(i \<mapsto> q')"
      "k_portv s' = k_portv u" "k_timers s' = k_timers u" "k_chunks s' = k_chunks u" "k_maxports s' = k_maxports u" "k_maxprocs s' = k_maxprocs u"
      "k_schedq s' = k_schedq u" "k_runq s' = k_runq u" "k_donq s' = k_donq u" "k_schedlock s' = k_schedlock u"
    and q': "q' = q\<lparr>pr_waiters := ws, pr_w0used := b\<rparr>"
    and r: "w = W0 i \<and> k_waits s' = k_waits u \<or> w \<noteq> W0 i \<and> b = pr_w0used q \<and> k_waits s' = (k_waits u)(w := None)"
  shows "pinv G C s'"
proof -
  have pi: "port_inv G C u" and wi: "wake_inv u" using inv by (auto simp: pinv_def)
  have "waits_ok s'"
    by (rule waits_ok_drop [OF _ q(1,2) x s'(1-3)]) (use wi q' r in \<open>auto simp: wake_inv_def\<close>)
  moreover have "claims_ok s'" using wi q(3) q' by (auto simp: claims_ok_def wake_inv_def s'(3))
  moreover have "rq_ok s'"
  proof -
    have "rq_ok s' = rq_ok u" by (rule rq_ok_cong [OF s'(9-11)]) (use q q' s'(3) in auto)
    then show ?thesis using wi by (simp add: wake_inv_def)
  qed
  ultimately have "wake_inv s'" using wi s'(12) by (simp add: wake_inv_def)
  moreover have "port_inv G C s'"
  proof -
    have "held_by q' a t = held_by q a t" for a t by (rule held_by_cong) (use q' in auto)
    then have "port_inv G C (set_proc u i q')" using port_inv_set_proc [OF pi q(1), of G q'] by simp
    moreover have "port_inv G C s' = port_inv G C (set_proc u i q')" by (rule port_inv_cong) (use s' in simp_all)
    ultimately show ?thesis by simp
  qed
  ultimately show ?thesis by (simp add: pinv_def)
qed

lemma pinv_unlink:
  assumes inv: "pinv G C s" and p: "k_pheap s a = Some p" and x: "k_waits s w = Some x" and w: "w \<in> set (pt_waiters p)"
  shows "pinv G C (unlink w a s p x)"
proof -
  have pi: "port_inv G C s" and wi: "wake_inv s" using inv by (auto simp: pinv_def)
  let ?p = "p\<lparr>pt_waiters := remove1 w (pt_waiters p)\<rparr>"
  have "port_inv G C (set_port s a ?p)"
    by (rule port_inv_set_port [OF pi p]) (use port_invD(5) [OF pi p] in \<open>auto simp: queue_ok_def\<close>)
  then have "port_inv G C (unlink w a s p x)" using port_inv_cong [of "unlink w a s p x" "set_port s a ?p"] by (simp add: unlink_def)
  moreover have "waits_ok (unlink w a s p x)" by (rule waits_ok_unlink [OF _ p x w]) (use wi in \<open>simp add: wake_inv_def\<close>)
  moreover have "rq_ok (unlink w a s p x) = rq_ok s" by (rule rq_ok_cong) (simp_all add: unlink_def)
  ultimately show ?thesis using wi by (simp add: pinv_def wake_inv_def claims_ok_def)
qed

text \<open>The state a proc's own part of a kernel state is changed in.\<close>

lemma idle_set_proc [simp]: "idle (set_proc s i q) = idle s"
  by (simp add: idle_def locks_ok_def)

lemma nolocks_unlink: "nolocks (unlink w a s p x) = unlink w a (nolocks s) p x"
  by (cases s) (simp add: unlink_def nolocks_def set_port_def set_waiter_def)

lemma wait_unlink_ok:
  assumes id: "idle s" and p: "k_pheap s a = Some p" and x: "k_waits s w = Some x" "w_onport x" and w: "w \<in> set (pt_waiters p)"
  obtains s' where "wait_unlink w a s = Inr s'" "nolocks s' = nolocks (unlink w a s p x)" "idle s'"
proof -
  have lk: "locks_ok s" using id by (simp add: idle_def)
  obtain t where t: "ipclock_enter_port a s = Inr t" "locks_ok t" "nolocks t = nolocks s" "ipcheld_one_port t p"
    "depth_of t = (\<lambda>b. depth_of s b + (if b = ipcbucket_of (pt_idx p) then 1 else 0))"
    using enter_port_ok [OF lk p idle_free [OF id]] .
  note n = nolocks_sel [OF t(3)]
  let ?p = "p\<lparr>pt_waiters := remove1 w (pt_waiters p)\<rparr>"
  define u where "u = unlink w a t p x"
  have u: "k_buckets u = k_buckets t" "k_self u = k_self t" "k_pheap u a = Some ?p" by (simp_all add: u_def)
  have lu: "locks_ok u" using t(2) locks_ok_cong [OF u(1)] by simp
  have hu: "ipcheld_one_port u ?p" using t(4) u by (simp add: ipcheld_one_port_def ipcheld_one_def)
  obtain v where v: "ipclock_leave_port a u = Inr v" "locks_ok v" "nolocks v = nolocks u"
    "depth_of v = (\<lambda>b. depth_of u b - (if b = ipcbucket_of (pt_idx ?p) then 1 else 0))"
    using leave_port_ok [OF lu u(3) hu] .
  have d: "depth_of v = depth_of s" using v(4) t(5) depth_of_cong [OF u(1,2)] by (simp add: fun_eq_iff)
  have f: "bucket_free v b" for b
  proof -
    have "bucket_free t b" using calm_enter_port [OF t(1), of "{}"] idle_free [OF id, of b] by (simp add: calm_def)
    then have "bucket_free u b" using u by (simp add: bucket_free_def)
    then show ?thesis using calm_leave_port [OF v(1), of "{}"] by (simp add: calm_def)
  qed
  have "wait_unlink w a s = Inr v"
    using t(1) x w p v(1) n by (simp add: wait_unlink_def get_Some port_waiters_del_def u_def unlink_def)
  moreover have "nolocks v = nolocks (unlink w a s p x)"
    using v(3) t(3) nolocks_unlink [of w a t p x] nolocks_unlink [of w a s p x] by (simp add: u_def)
  ultimately show ?thesis using that idle_back [OF id v(2) d f] by blast
qed

text \<open>One turn of the loop.\<close>

lemma reap_one_ok:
  assumes inv: "pinv G C s" and id: "idle s" and q: "k_procs s i = Some q" "pr_waiters q = w # ws" "pr_status q \<noteq> BLOCKED"
  obtains s' b where "wait_reap_loop i (w # ws) s = wait_reap_loop i ws s'" "pinv G C s'" "idle s'"
    "k_procs s' = (k_procs s)(i \<mapsto> q\<lparr>pr_waiters := ws, pr_w0used := b\<rparr>)" "slot_queue s' = slot_queue s" "k_chunks s' = k_chunks s"
    "k_maxports s' = k_maxports s"
proof -
  have pi: "port_inv G C s" and wok: "waits_ok s" using inv by (auto simp: pinv_def wake_inv_def)
  obtain x where x: "k_waits s w = Some x" "w_proc x = i" "w_onport x \<longrightarrow> holds q (w_port x)"
    using waits_okD(4) [OF wok q(1), of w] q(2) by (auto simp: wait_ok_def)
  define q1 where "q1 = q\<lparr>pr_waiters := ws\<rparr>"
  define s1 where "s1 = set_proc s i q1"
  have pop: "waiters_pop i s = Inr s1" using q by (simp add: waiters_pop_def get_Some s1_def q1_def)
  obtain v g y where v: "(if w_onport x then wait_unlink w (w_port x) s1 else Inr s1) = Inr v" "idle v"
    and g: "pinv G C g" "k_procs g = k_procs s" "k_waits g w = Some y" "\<not> w_onport y" "slot_queue g = slot_queue s"
      "k_chunks g = k_chunks s" "k_maxports g = k_maxports s"
    and vg: "k_pheap v = k_pheap g" "k_mcount v = k_mcount g" "k_procs v = (k_procs g)(i \<mapsto> q1)" "k_waits v = k_waits g"
      "k_portv v = k_portv g" "k_timers v = k_timers g" "k_chunks v = k_chunks g" "k_maxports v = k_maxports g" "k_maxprocs v = k_maxprocs g"
      "k_schedq v = k_schedq g" "k_runq v = k_runq g" "k_donq v = k_donq g" "k_schedlock v = k_schedlock g"
  proof (cases "w_onport x")
    case False
    then show ?thesis using that [of s1 s x] inv id x by (simp add: s1_def)
  next
    case True
    let ?a = "w_port x"
    obtain p where p: "k_pheap s ?a = Some p" using holds_live [OF pi q(1)] x(3) True by blast
    have w: "w \<in> set (pt_waiters p)" using waits_okD(2) [OF wok p, of w] x True q by (auto simp: waiting_def)
    obtain v where v: "wait_unlink w ?a s1 = Inr v" "nolocks v = nolocks (unlink w ?a s1 p x)" "idle v"
      using wait_unlink_ok [of s1 ?a p w x] id p x(1) True w by (auto simp: s1_def)
    note n = nolocks_sel [OF v(2)]
    have sq: "slot_queue (unlink w ?a s p x) = slot_queue s" by (rule slot_queue_cong) (use p in \<open>auto simp: unlink_def\<close>)
    show ?thesis
      by (rule that [of v "unlink w ?a s p x" "x\<lparr>w_onport := False\<rparr>"])
        (use v True pinv_unlink [OF inv p x(1) w] sq n in \<open>simp_all add: s1_def, simp_all add: unlink_def\<close>)
  qed
  define f where "f = (if w = W0 i then set_proc v i (q1\<lparr>pr_w0used := False\<rparr>) else v\<lparr>k_waits := (k_waits v)(w := None)\<rparr>)"
  define b where "b = (if w = W0 i then False else pr_w0used q)"
  have f: "waiter_free i w v = Inr f" using vg(3,4) g(3) by (simp add: waiter_free_def f_def get_Some)
  have qg: "k_procs g i = Some q" using g(2) q(1) by simp
  have fp: "k_procs f = (k_procs g)(i \<mapsto> q\<lparr>pr_waiters := ws, pr_w0used := b\<rparr>)"
    using vg(3) by (simp add: f_def b_def q1_def)
  have "pinv G C f"
    by (rule pinv_drop [OF g(1) qg q(2,3) g(3,4) _ _ fp]) (use vg in \<open>auto simp: f_def b_def\<close>)
  moreover have "idle f" using v(2) by (simp add: f_def idle_def locks_ok_def)
  moreover have "slot_queue f = slot_queue g" by (rule slot_queue_cong) (use vg in \<open>simp_all add: f_def\<close>)
  then have "slot_queue f = slot_queue s" using g(5) by simp
  moreover have "k_chunks f = k_chunks s" "k_maxports f = k_maxports s" using g(6,7) vg by (simp_all add: f_def)
  moreover have "wait_reap_loop i (w # ws) s = wait_reap_loop i ws f"
  proof -
    have "k_waits s1 w = Some x" using x(1) by (simp add: s1_def)
    then show ?thesis using pop v(1) f by (simp add: get_Some)
  qed
  ultimately show ?thesis using that [of f b] fp g(2) by simp
qed

lemma wait_reap_loop_ok:
  assumes "pinv G C s" "idle s" "k_procs s i = Some q" "pr_waiters q = ws" "pr_status q \<noteq> BLOCKED"
  shows "\<exists>s' b. wait_reap_loop i ws s = Inr s' \<and> pinv G C s' \<and> idle s' \<and> slot_queue s' = slot_queue s \<and> k_chunks s' = k_chunks s \<and>
    k_maxports s' = k_maxports s \<and> k_procs s' = (k_procs s)(i \<mapsto> q\<lparr>pr_waiters := [], pr_w0used := b\<rparr>)"
  using assms
proof (induction ws arbitrary: s q)
  case Nil
  then show ?case by (intro exI [of _ s] exI [of _ "pr_w0used q"]) (auto simp: fun_eq_iff)
next
  case (Cons w ws)
  obtain t b where t: "wait_reap_loop i (w # ws) s = wait_reap_loop i ws t" "pinv G C t" "idle t"
    "k_procs t = (k_procs s)(i \<mapsto> q\<lparr>pr_waiters := ws, pr_w0used := b\<rparr>)" "slot_queue t = slot_queue s" "k_chunks t = k_chunks s"
    "k_maxports t = k_maxports s" by (rule reap_one_ok [OF Cons.prems])
  have qt: "k_procs t i = Some (q\<lparr>pr_waiters := ws, pr_w0used := b\<rparr>)" using t(4) by simp
  have st: "pr_waiters (q\<lparr>pr_waiters := ws, pr_w0used := b\<rparr>) = ws" "pr_status (q\<lparr>pr_waiters := ws, pr_w0used := b\<rparr>) \<noteq> BLOCKED"
    "q\<lparr>pr_waiters := ws, pr_w0used := b, pr_waiters := [], pr_w0used := b'\<rparr> = q\<lparr>pr_waiters := [], pr_w0used := b'\<rparr>" for b'
    using Cons.prems(5) by simp_all
  from Cons.IH [OF t(2,3) qt st(1,2), unfolded st(3)] obtain s' b' where
    "wait_reap_loop i ws t = Inr s'" "pinv G C s'" "idle s'" "slot_queue s' = slot_queue t" "k_chunks s' = k_chunks t"
    "k_maxports s' = k_maxports t" "k_procs s' = (k_procs t)(i \<mapsto> q\<lparr>pr_waiters := [], pr_w0used := b'\<rparr>)" by (elim exE conjE) (rule that)
  then show ?case using t by (intro exI [of _ s'] exI [of _ b']) (simp del: wait_reap_loop.simps)
qed

lemma wait_reap_ok:
  assumes c: "callable rank G C s b" and q: "k_procs s i = Some q" "pr_status q \<noteq> BLOCKED"
  shows "\<exists>s' q'. wait_reap i s = Inr s' \<and> callable rank G C s' b \<and> slot_queue s' = slot_queue s \<and> k_maxports s' = k_maxports s \<and>
    k_procs s' = (k_procs s)(i \<mapsto> q') \<and> pr_waiters q' = [] \<and> \<not> pr_woken q' \<and> rtable q' = rtable q"
proof -
  have inv: "pinv G C s" and ac: "acyc rank s" and id: "idle s" and ca: "carried C [] s b" and sz: "queues_sized s"
    using c by (auto simp: callable_def)
  from wait_reap_loop_ok [OF inv id q(1) refl q(2)] obtain t w where
    t: "wait_reap_loop i (pr_waiters q) s = Inr t" "pinv G C t" "idle t" "slot_queue t = slot_queue s" "k_chunks t = k_chunks s"
    "k_maxports t = k_maxports s" "k_procs t = (k_procs s)(i \<mapsto> q\<lparr>pr_waiters := [], pr_w0used := w\<rparr>)" by blast
  let ?q = "q\<lparr>pr_waiters := [], pr_w0used := w\<rparr>" and ?q' = "q\<lparr>pr_waiters := [], pr_w0used := w, pr_woken := False\<rparr>"
  let ?s = "set_proc t i ?q'"
  have pi: "port_inv G C t" and wi: "wake_inv t" using t(2) by (auto simp: pinv_def)
  have tq: "k_procs t i = Some ?q" using t(7) by simp
  have "held_by ?q' a r = held_by ?q a r" for a r by (rule held_by_cong) auto
  then have "port_inv G C ?s" using port_inv_set_proc [OF pi tq, of G ?q'] by simp
  moreover have "wake_inv ?s"
  proof -
    have "waiting ?s v j = waiting t v j" for v j using tq by (auto simp: waiting_def)
    then have "port_waits_ok ?s" using wi by (simp add: wake_inv_def waits_ok_def port_waits_ok_def)
    moreover have "proc_waits_ok ?s" using wi by (auto simp: wake_inv_def waits_ok_def proc_waits_ok_def wait_ok_def)
    moreover have "rq_ok ?s" by (rule rq_ok_set_proc [OF _ tq]) (use wi in \<open>auto simp: wake_inv_def\<close>)
    ultimately show ?thesis using wi q(2) by (auto simp: wake_inv_def waits_ok_def claims_ok_def)
  qed
  ultimately have "pinv G C ?s" by (simp add: pinv_def)
  moreover have "carried C [] ?s b" using ca carried_cong [of ?s s] t(5) by simp
  moreover have "acyc rank ?s" "queues_sized ?s" using ac sz t(4,5) by (simp_all add: acyc_def queues_sized_def sized_def)
  ultimately have "callable rank G C ?s b" using t(3) by (simp add: callable_def)
  moreover have "rtable ?q' = rtable q" by (rule rtable_cong) auto
  moreover have "wait_reap i s = Inr ?s" using t(1,7) q(1) by (simp add: wait_reap_def get_Some)
  ultimately show ?thesis using t(4,6,7) by (intro exI [of _ ?s] exI [of _ ?q']) (auto simp: fun_eq_iff)
qed

end
