(* ===== verification/Syscalls.thy ===== *)
theory Syscalls
  imports Resume
begin

text \<open>
  The rest of the calls a proc makes on ports and rights, \<open>api_close\<close>, \<open>owned_close\<close>, \<open>api_newport\<close>,
  \<open>api_sendright\<close> and \<open>api_timer\<close> of \<open>src/src/sysapi.c\<close>, and what any sequence of calls, wakes and timer
  interrupts keeps: \<open>sysstep\<close> is one of them, \<open>callable\<close> the invariant.
\<close>

section \<open>The calls\<close>

text \<open>The test for handle 0 is on the 64-bit number, the lookup and the hint on its low 32 bits.\<close>

definition api_close :: "nat \<Rightarrow> int \<Rightarrow> kstate \<Rightarrow> fault + (lerr + unit) \<times> kstate" where
  "api_close i h s =
    bnd (ipclock_enter s) (\<lambda>s.
    bnd (get_proc s i) (\<lambda>p.
    bnd (case right_get p h of Some (k, _) \<Rightarrow> if h \<noteq> 0 then right_drop i k s else Inr s | None \<Rightarrow> Inr s) (\<lambda>s.
    let s = ipclock_leave s in
    if right_get p h = None then Inr (Inl BadRight, s)
    else if h = 0 then Inr (Inl SelfPort, s)
    else bnd (get_proc s i) (\<lambda>p.
      Inr (Inr (), if c_int h < int (pr_rhint p) then set_proc s i (p\<lparr>pr_rhint := nat (c_int h)\<rparr>) else s)))))"

text \<open>\<open>sys.owned\<close>'s finaliser: \<open>ud\<close> is the handle in the userdata, and what is left there afterwards is returned.\<close>

definition owned_close :: "nat \<Rightarrow> int \<Rightarrow> kstate \<Rightarrow> fault + int \<times> kstate" where
  "owned_close i ud s =
    (if ud < 0 then Inr (ud, s)
     else
       bnd (ipclock_enter s) (\<lambda>s.
       bnd (get_proc s i) (\<lambda>p.
       bnd (case right_get p ud of Some (k, _) \<Rightarrow> if ud \<noteq> 0 then right_drop i k s else Inr s | None \<Rightarrow> Inr s) (\<lambda>s.
       let s = ipclock_leave s in
       bnd (get_proc s i) (\<lambda>q.
       Inr (-1, if right_get p ud \<noteq> None \<and> ud \<noteq> 0 \<and> ud < int (pr_rhint q)
                then set_proc s i (q\<lparr>pr_rhint := nat ud\<rparr>) else s))))))"

definition port_stamp :: "string \<Rightarrow> string \<Rightarrow> addr \<Rightarrow> kstate \<Rightarrow> fault + kstate" where
  "port_stamp tag lwhere a s =
    bnd (get_port s a) (\<lambda>q. Inr (set_port s a (q\<lparr>pt_tag := take 15 tag, pt_where := take 31 lwhere\<rparr>)))"

definition api_newport :: "nat \<Rightarrow> string \<Rightarrow> string \<Rightarrow> kstate \<Rightarrow> fault + (lerr + nat) \<times> kstate" where
  "api_newport i tag lwhere s =
    bnd (ipclock_enter s) (\<lambda>s.
    bnd (get_proc s i) (\<lambda>p.
    let over = \<not> port_budget_left p; (port, s) = (if over then (None, s) else port_new s) in
    bnd (case port of None \<Rightarrow> Inr (None, s) | Some a \<Rightarrow> right_new i a True s) (\<lambda>(h, s).
    bnd (case port of None \<Rightarrow> Inr s | Some a \<Rightarrow> port_stamp tag (if lwhere = [] then ''?'' else lwhere) a s) (\<lambda>s.
    let s = ipclock_leave s in
    if over then bnd (get_proc s i) (\<lambda>p. Inr (Inl (PortLimit (pr_nports p) (pr_port_limit p)), s))
    else if port = None then Inr (Inl OutOfPorts, s)
    else case h of None \<Rightarrow> Inr (Inl OutOfRights, s) | Some h \<Rightarrow> Inr (Inr h, s)))))"

definition api_sendright :: "nat \<Rightarrow> int \<Rightarrow> kstate \<Rightarrow> fault + (lerr + nat) \<times> kstate" where
  "api_sendright i arg s =
    bnd (ipclock_enter s) (\<lambda>s.
    bnd (get_proc s i) (\<lambda>p.
    bnd (case right_get p arg of None \<Rightarrow> Inr (None, s) | Some (_, r) \<Rightarrow> right_new i (r_port r) False s) (\<lambda>(h, s).
    let s = ipclock_leave s in
    if right_get p arg = None then Inr (Inl BadRight, s)
    else case h of None \<Rightarrow> Inr (Inl OutOfRights, s) | Some h \<Rightarrow> Inr (Inr h, s))))"

definition api_timer :: "nat \<Rightarrow> int \<Rightarrow> kstate \<Rightarrow> fault + nat option \<times> kstate" where
  "api_timer i ms s =
    (let ms = (if ms < 0 then 0 else ms) in
     bnd (ipclock_enter s) (\<lambda>s.
     bnd (get_proc s i) (\<lambda>p.
     case (if port_budget_left p then port_new s else (None, s)) of
       (None, s) \<Rightarrow> Inr (None, ipclock_leave s)
     | (Some a, s) \<Rightarrow>
         bnd (right_new i a True s) (\<lambda>(h, s).
         case h of
           None \<Rightarrow> bnd (get_port s a) (\<lambda>q. Inr (None, ipclock_leave (set_port s a (q\<lparr>pt_used := False\<rparr>))))
         | Some h \<Rightarrow>
             bnd (timer_arm a (word_of_int ms) s) (\<lambda>(ok, s).
             if ok then Inr (Some h, ipclock_leave s)
             else bnd (right_drop i h s) (\<lambda>s. Inr (None, ipclock_leave s)))))))"

section \<open>A region leaves a state calls can be made in\<close>

text \<open>
  The body ran under every bucket, kept the references accounted for, and queued nothing that carries
  anything; what it freed is freed for lua too.
\<close>

lemma region_callable:
  assumes c: "callable rank G C s b" and e: "ipclock_enter s = Inr t" and k: "kinv G C u" and ez: "eased X t u"
  shows "callable rank G C (ipclock_leave u) (reclaim (ipclock_leave u) b)" "k_maxports (ipclock_leave u) = k_maxports s"
    "k_procs (ipclock_leave u) = k_procs u"
proof -
  have inv: "pinv G C s" and ac: "acyc rank s" and id: "idle s" and ca: "carried C [] s b" and sz: "queues_sized s"
    using c by (auto simp: callable_def)
  obtain t' where t': "ipclock_enter s = Inr t'" "nolocks t' = nolocks s" "ipcheld t'" "locks_ok t'"
    "\<And>u. k_buckets u = k_buckets t' \<Longrightarrow> k_self u = k_self t' \<Longrightarrow> idle (ipclock_leave u)" by (rule wide_enter [OF id]) blast
  have t: "t' = t" using t'(1) e by simp
  note n = nolocks_sel [OF t'(2), unfolded t]
  note nu = nolocks_sel [OF leave_nolocks, of u]
  let ?s = "ipclock_leave u"
  have eb: "k_buckets u = k_buckets t" "k_self u = k_self t" "k_chunks u \<subseteq>\<^sub>m k_chunks t" "k_maxports u = k_maxports t"
    "\<And>j m. m \<in> set (slot_queue u j) \<Longrightarrow> m \<in> set (slot_queue t j) \<or> m_refs m = [] \<and> m_bufs m = []"
    using ez by (auto simp: eased_def)
  have sq: "slot_queue ?s = slot_queue u" "slot_queue t = slot_queue s"
    using slots_nolocks(1) [OF leave_nolocks, of u] slots_nolocks(1) [OF t'(2)] t by simp_all
  have iu: "pinv G C ?s" using pinv_nolocks [OF leave_nolocks] k by (simp add: pinv_kinv)
  have "idle ?s" using t'(5) [unfolded t] eb(1,2) by blast
  moreover have "acyc rank ?s" using ac eb(5) sq unfolding acyc_def qrefs_def by fastforce
  moreover have "carried C [] ?s (reclaim ?s b)"
    by (rule reclaim_carried [OF ca iu]) (use eb(3) nu n in simp)
  moreover have "queues_sized ?s"
    unfolding queues_sized_def sized_def
  proof (intro allI ballI impI)
    fix j m c n'
    assume m: "m \<in> set (slot_queue ?s j)" and c: "(Some c, n') \<in> set (m_bufs m)"
    have "m \<in> set (slot_queue s j)" using eb(5) [of m j] m c sq by auto
    then have "k_chunks s c = Some n'" using sz c by (auto simp: queues_sized_def sized_def)
    moreover have "k_chunks ?s c \<noteq> None" by (rule inflight_chunk [OF iu m c])
    ultimately show "k_chunks ?s c = Some n'" using eb(3) nu(5) n(5) by (auto simp: map_le_def dom_def)
  qed
  ultimately show "callable rank G C ?s (reclaim ?s b)" using iu by (simp add: callable_def)
  show "k_maxports ?s = k_maxports s" "k_procs ?s = k_procs u" using nu eb(4) n by simp_all
qed

lemma region_enter:
  assumes c: "callable rank G C s b"
  obtains t where "ipclock_enter s = Inr t" "kinv G C t" "acyc rank t" "k_procs t = k_procs s" "nolocks t = nolocks s"
proof -
  have inv: "pinv G C s" and ac: "acyc rank s" and id: "idle s" using c by (auto simp: callable_def)
  obtain t where t: "ipclock_enter s = Inr t" "nolocks t = nolocks s" "ipcheld t" "calm {} s t" by (rule wide_enter [OF id]) blast
  then show ?thesis
    using that [of t] pinv_nolocks [OF t(2) inv] calm_acyc [OF ac t(4)] nolocks_sel(3) [OF t(2)] by (simp add: pinv_kinv)
qed

section \<open>What each call leaves\<close>

text \<open>The caller after a call: still on no list, its handles as given.\<close>

definition caller :: "nat \<Rightarrow> kstate \<Rightarrow> (nat \<rightharpoonup> right) \<Rightarrow> bool" where
  "caller i s f \<longleftrightarrow> (\<exists>q. k_procs s i = Some q \<and> pr_waiters q = [] \<and> rtable q = f)"

lemma eased_proc: "eased {i} s (set_proc s i q)"
  by (simp add: eased_def uptime_ms_def)

lemma drop_region:
  assumes k: "kinv G C t" and ac: "acyc rank t" and q: "k_procs t i = Some q" "pr_waiters q = []"
  obtains u where "(case right_get q h of Some (n, _) \<Rightarrow> if c then right_drop i n t else Inr t | None \<Rightarrow> Inr t) = Inr u"
    "kinv G C u" "eased {i} t u" "caller i u (case right_get q h of Some (n, _) \<Rightarrow> if c then (rtable q)(n := None) else rtable q | None \<Rightarrow> rtable q)"
proof (cases "right_get q h")
  case None
  then show ?thesis using that [of t] k q by (simp add: caller_def)
next
  case (Some nr)
  obtain n r where nr: "nr = (n, r)" by fastforce
  show ?thesis
  proof (cases c)
    case False
    then show ?thesis using that [of t] k q Some nr by (simp add: caller_def)
  next
    case True
    have pi: "port_inv G C t" using k by (simp add: kinv_def)
    have r: "n < MAXRIGHTS" "right_slot q (int n) = Some r" "r_used r"
      using right_get_live [OF pi q(1), of h n r] Some nr by auto
    from right_drop_ok [OF k ac q(1) r q(2)] obtain u where
      u: "right_drop i n t = Inr u" "kinv G C u" "shrunk (set_proc t i (right_cleared q n r)) u" by blast
    have o: "outer u = outer (set_proc t i (right_cleared q n r))" using u(3) by (simp add: shrunk_def)
    obtain q' where q': "k_procs u i = Some q'" "core_proc q' = core_proc (right_cleared q n r)" using outer_eqD(7) [OF o, of i] by auto
    have "pr_waiters (right_cleared q n r) = []" using right_cleared_waits [OF q(2)] q(2) by (simp add: same_waits_def)
    then have "caller i u ((rtable q)(n := None))"
      using q' core_rtable [OF q'(2)] rtable_cleared [OF r(1,2)] by (simp add: caller_def)
    moreover have "eased {i} t u" by (rule eased_trans [OF eased_proc eased_shrunk [OF u(3)]])
    ultimately show ?thesis using that [of u] u Some nr True by simp
  qed
qed

lemma callable_hint:
  assumes "callable rank G C s b" "caller i s f"
  obtains q where "k_procs s i = Some q" "callable rank G C (set_proc s i (q\<lparr>pr_rhint := n\<rparr>)) b" "caller i (set_proc s i (q\<lparr>pr_rhint := n\<rparr>)) f"
proof -
  obtain q where q: "k_procs s i = Some q" "pr_waiters q = []" "rtable q = f" using assms(2) by (auto simp: caller_def)
  have "same_waits q (q\<lparr>pr_rhint := n\<rparr>)" using q(2) by (simp add: same_waits_def)
  then have "callable rank G C (set_proc s i (q\<lparr>pr_rhint := n\<rparr>)) b" using callable_proc_upd [OF assms(1) q(1)] by simp
  moreover have "rtable (q\<lparr>pr_rhint := n\<rparr>) = rtable q" by (rule rtable_cong) auto
  ultimately show ?thesis using that q by (simp add: caller_def)
qed

lemma close_ok:
  assumes c: "callable rank G C s b" and q: "k_procs s i = Some q" "pr_waiters q = []"
  shows "\<exists>r s'. api_close i h s = Inr (r, s') \<and> callable rank G C s' (reclaim s' b) \<and> k_maxports s' = k_maxports s \<and>
    (case r of
       Inr _ \<Rightarrow> h \<noteq> 0 \<and> (\<exists>n x. right_get q h = Some (n, x) \<and> caller i s' ((rtable q)(n := None)))
     | Inl e \<Rightarrow> caller i s' (rtable q) \<and> (e = BadRight \<and> right_get q h = None \<or> e = SelfPort \<and> h = 0 \<and> right_get q h \<noteq> None))"
proof -
  obtain t where t: "ipclock_enter s = Inr t" "kinv G C t" "acyc rank t" "k_procs t = k_procs s" by (rule region_enter [OF c])
  have qt: "k_procs t i = Some q" using t(4) q(1) by simp
  let ?f = "case right_get q h of Some (n, _) \<Rightarrow> if h \<noteq> 0 then (rtable q)(n := None) else rtable q | None \<Rightarrow> rtable q"
  obtain u where u: "(case right_get q h of Some (n, _) \<Rightarrow> if h \<noteq> 0 then right_drop i n t else Inr t | None \<Rightarrow> Inr t) = Inr u"
    "kinv G C u" "eased {i} t u" "caller i u ?f" by (rule drop_region [OF t(2,3) qt q(2)])
  note R = region_callable [OF c t(1) u(2,3)]
  let ?s = "ipclock_leave u"
  have cu: "caller i ?s ?f" using u(4) R(3) by (simp add: caller_def)
  have e: "api_close i h s = (if right_get q h = None then Inr (Inl BadRight, ?s) else if h = 0 then Inr (Inl SelfPort, ?s)
     else bnd (get_proc ?s i) (\<lambda>p. Inr (Inr (), if c_int h < int (pr_rhint p) then set_proc ?s i (p\<lparr>pr_rhint := nat (c_int h)\<rparr>) else ?s)))"
    unfolding api_close_def using t(1) qt u(1) by (simp add: get_Some Let_def)
  show ?thesis
  proof (cases "right_get q h = None \<or> h = 0")
    case True
    then have "caller i ?s (rtable q)" using cu by (auto split: option.splits)
    then show ?thesis using True R(1,2) unfolding e by auto
  next
    case False
    then obtain n x where nx: "right_get q h = Some (n, x)" by auto
    then have cu': "caller i ?s ((rtable q)(n := None))" using cu False by simp
    obtain p where p: "k_procs ?s i = Some p" "callable rank G C (set_proc ?s i (p\<lparr>pr_rhint := nat (c_int h)\<rparr>)) (reclaim ?s b)"
      "caller i (set_proc ?s i (p\<lparr>pr_rhint := nat (c_int h)\<rparr>)) ((rtable q)(n := None))" by (rule callable_hint [OF R(1) cu'])
    have "reclaim (set_proc ?s i (p\<lparr>pr_rhint := nat (c_int h)\<rparr>)) b = reclaim ?s b" by (simp add: reclaim_def)
    then show ?thesis using False nx cu' p R(1,2) unfolding e by (auto simp: get_Some)
  qed
qed

lemma owned_close_ok:
  assumes c: "callable rank G C s b" and q: "k_procs s i = Some q" "pr_waiters q = []"
  shows "\<exists>ud' s'. owned_close i ud s = Inr (ud', s') \<and> ud' < 0 \<and> k_maxports s' = k_maxports s \<and>
    (ud < 0 \<and> s' = s \<or> ud \<ge> 0 \<and> callable rank G C s' (reclaim s' b) \<and>
     caller i s' (case right_get q ud of Some (n, _) \<Rightarrow> if ud \<noteq> 0 then (rtable q)(n := None) else rtable q | None \<Rightarrow> rtable q))"
proof (cases "ud < 0")
  case True
  then show ?thesis by (simp add: owned_close_def)
next
  case False
  obtain t where t: "ipclock_enter s = Inr t" "kinv G C t" "acyc rank t" "k_procs t = k_procs s" by (rule region_enter [OF c])
  have qt: "k_procs t i = Some q" using t(4) q(1) by simp
  let ?f = "case right_get q ud of Some (n, _) \<Rightarrow> if ud \<noteq> 0 then (rtable q)(n := None) else rtable q | None \<Rightarrow> rtable q"
  obtain u where u: "(case right_get q ud of Some (n, _) \<Rightarrow> if ud \<noteq> 0 then right_drop i n t else Inr t | None \<Rightarrow> Inr t) = Inr u"
    "kinv G C u" "eased {i} t u" "caller i u ?f" by (rule drop_region [OF t(2,3) qt q(2)])
  note R = region_callable [OF c t(1) u(2,3)]
  let ?s = "ipclock_leave u"
  have cu: "caller i ?s ?f" using u(4) R(3) by (simp add: caller_def)
  obtain p where p: "k_procs ?s i = Some p" "callable rank G C (set_proc ?s i (p\<lparr>pr_rhint := nat ud\<rparr>)) (reclaim ?s b)"
    "caller i (set_proc ?s i (p\<lparr>pr_rhint := nat ud\<rparr>)) ?f" by (rule callable_hint [OF R(1) cu])
  let ?s' = "if right_get q ud \<noteq> None \<and> ud \<noteq> 0 \<and> ud < int (pr_rhint p) then set_proc ?s i (p\<lparr>pr_rhint := nat ud\<rparr>) else ?s"
  have e: "owned_close i ud s = Inr (-1, ?s')"
    unfolding owned_close_def using False t(1) qt u(1) p(1) by (simp add: get_Some Let_def)
  have "reclaim (set_proc ?s i (p\<lparr>pr_rhint := nat ud\<rparr>)) b = reclaim ?s b" by (simp add: reclaim_def)
  then have "callable rank G C ?s' (reclaim ?s' b)" "caller i ?s' ?f" using p(2,3) R(1) cu by simp_all
  moreover have "k_maxports ?s' = k_maxports s" using R(2) by simp
  ultimately show ?thesis unfolding e using False by (intro exI [of _ "-1"] exI [of _ ?s']) simp
qed

lemma uptime_upd [simp]:
  "uptime_ms (set_proc s i q) = uptime_ms s" "uptime_ms (set_port s a p) = uptime_ms s" "uptime_ms (s\<lparr>k_rights_high := n\<rparr>) = uptime_ms s"
  by (simp_all add: uptime_ms_def)

lemma grow_uptime: "right_slot_grow p h s = (r, p', s') \<Longrightarrow> uptime_ms s' = uptime_ms s"
  by (auto simp: right_slot_grow_def kmalloc_def uptime_ms_def split: if_splits option.splits)

lemma right_new_uptime: "right_new_from hs i a recv s = Inr (h, s') \<Longrightarrow> uptime_ms s' = uptime_ms s"
proof (induction hs arbitrary: s)
  case (Cons n hs)
  obtain p where p: "k_procs s i = Some p" using Cons.prems by (cases "k_procs s i") (auto simp: get_proc_def)
  obtain r p' t where g: "right_slot_grow p n s = (r, p', t)" using prod_cases3 by blast
  note u = grow_uptime [OF g]
  show ?case
  proof (cases "\<exists>x. r = Some x \<and> r_used x")
    case True
    then show ?thesis using Cons p g u by (auto simp: get_Some)
  next
    case False
    then show ?thesis using Cons.prems p g u by (auto simp: get_Some Let_def ret_iff split: option.splits)
  qed
qed simp

lemma right_new_none: "right_new_from hs i a recv s = Inr (None, s') \<Longrightarrow> k_pheap s' = k_pheap s"
proof (induction hs arbitrary: s)
  case (Cons n hs)
  obtain p where p: "k_procs s i = Some p" using Cons.prems by (cases "k_procs s i") (auto simp: get_proc_def)
  obtain r p' t where g: "right_slot_grow p n s = (r, p', t)" using prod_cases3 by blast
  have u: "k_pheap t = k_pheap s"
    using g by (auto simp: right_slot_grow_def kmalloc_def split: if_splits option.splits)
  show ?case
  proof (cases "\<exists>x. r = Some x \<and> r_used x")
    case True
    then show ?thesis using Cons p g u by (auto simp: get_Some)
  next
    case False
    then show ?thesis using Cons.prems p g u by (auto simp: get_Some Let_def ret_iff split: option.splits)
  qed
qed simp

text \<open>A right is made in a region: the caller gets the lowest free handle from its hint on, or keeps its table.\<close>

lemma new_region:
  assumes k: "kinv G C t" and q: "k_procs t i = Some q" "pr_waiters q = []" and p: "k_pheap t a = Some p"
  obtains h u q' where "right_new i a recv t = Inr (h, u)" "kinv G C u" "eased {i} t u" "k_procs u i = Some q'" "pr_waiters q' = []"
    "took_right (pr_rhint q) a recv q q' h" "ports_kept t u"
proof -
  have inv: "pinv G C t" and held: "ipcheld t" using k by (simp_all add: pinv_kinv)
  from right_new_ok [OF inv q(1) p, of recv] obtain h u q' where
    u: "right_new i a recv t = Inr (h, u)" "pinv G C u" "k_procs u = (k_procs t)(i \<mapsto> q')" "took_right (pr_rhint q) a recv q q' h"
    "ports_kept t u" "same_waits q q'" by blast
  have "uptime_ms u = uptime_ms t" using u(1) q(1) right_new_uptime by (simp add: right_new_def get_Some)
  then have "eased {i} t u" using u(3,5) by (simp add: eased_def ports_kept_def)
  moreover have "ipcheld u" using held u(5) by (simp add: ports_kept_def ipcheld_iff ipcheld_one_def)
  moreover have "pr_waiters q' = []" using u(6) q(2) by (simp add: same_waits_def)
  ultimately show ?thesis using that u by (simp add: pinv_kinv)
qed

lemma took_right_caller:
  assumes "k_procs u i = Some q'" "pr_waiters q' = []" "took_right lo a recv q q' h"
  shows "case h of None \<Rightarrow> caller i u (rtable q) | Some n \<Rightarrow> rtable q n = None \<and> n < MAXRIGHTS \<and> caller i u ((rtable q)(n \<mapsto> new_right a recv))"
  using assms by (auto simp: caller_def took_right_def split: option.split)

lemma sendright_ok:
  assumes c: "callable rank G C s b" and q: "k_procs s i = Some q" "pr_waiters q = []"
  shows "\<exists>r s'. api_sendright i h s = Inr (r, s') \<and> callable rank G C s' (reclaim s' b) \<and> k_maxports s' = k_maxports s \<and>
    (case r of
       Inr n \<Rightarrow> \<exists>k x. right_get q h = Some (k, x) \<and> rtable q n = None \<and> caller i s' ((rtable q)(n \<mapsto> new_right (r_port x) False))
     | Inl e \<Rightarrow> caller i s' (rtable q))"
proof -
  obtain t where t: "ipclock_enter s = Inr t" "kinv G C t" "acyc rank t" "k_procs t = k_procs s" by (rule region_enter [OF c])
  have qt: "k_procs t i = Some q" using t(4) q(1) by simp
  show ?thesis
  proof (cases "right_get q h")
    case None
    note R = region_callable [OF c t(1,2) eased_refl]
    have "caller i (ipclock_leave t) (rtable q)" using R(3) qt q(2) by (simp add: caller_def)
    then show ?thesis using None t(1) qt R(1,2) by (simp add: api_sendright_def get_Some Let_def)
  next
    case (Some kr)
    obtain k r where kr: "kr = (k, r)" by fastforce
    have pi: "port_inv G C t" using t(2) by (simp add: kinv_def)
    obtain p where p: "k_pheap t (r_port r) = Some p" using right_get_live [OF pi qt, of h k r] Some kr by blast
    obtain n u q' where u: "right_new i (r_port r) False t = Inr (n, u)" "kinv G C u" "eased {i} t u" "k_procs u i = Some q'" "pr_waiters q' = []"
      "took_right (pr_rhint q) (r_port r) False q q' n" by (rule new_region [OF t(2) qt q(2) p])
    note R = region_callable [OF c t(1) u(2,3)]
    have "k_procs (ipclock_leave u) i = Some q'" using u(4) R(3) by simp
    note T = took_right_caller [OF this u(5,6)]
    show ?thesis
      using T Some kr t(1) qt u(1) R(1,2) by (cases n) (auto simp: api_sendright_def get_Some Let_def)
  qed
qed

text \<open>A port is made in a region.\<close>

lemma port_region:
  assumes k: "kinv G C t" and r: "port_new t = (r, u)"
  shows "kinv G C u" "eased {} t u" "k_procs u = k_procs t"
    "\<And>a. r = Some a \<Longrightarrow> \<exists>j. k_portv t j = None \<and> j < k_maxports t \<and> k_pheap u a = Some (new_kport j (k_portgen t + 1)) \<and> k_portv u = (k_portv t)(j \<mapsto> a)"
proof -
  have inv: "pinv G C t" and held: "ipcheld t" using k by (simp_all add: pinv_kinv)
  note P = port_new_ok [OF inv r]
  consider "u = t" | "u = t\<lparr>k_mcount := Suc (k_mcount t)\<rparr>" | i a where "u = port_install i a (t\<lparr>k_mcount := Suc (k_mcount t)\<rparr>)"
    using r by (auto simp: port_new_def kmalloc_def split: option.splits if_splits prod.splits)
  then have e: "k_buckets u = k_buckets t \<and> k_self u = k_self t \<and> k_chunks u = k_chunks t \<and> k_maxports u = k_maxports t \<and>
    k_maxprocs u = k_maxprocs t \<and> uptime_ms u = uptime_ms t"
    by cases (simp_all add: uptime_ms_def, simp add: port_install_def)
  show "kinv G C u" using P(1) held e by (simp add: pinv_kinv ipcheld_iff ipcheld_one_def)
  show "eased {} t u" by (rule eased_same) (use e P(2,3) in auto)
  show "k_procs u = k_procs t" by (rule P(2))
  show "\<exists>j. k_portv t j = None \<and> j < k_maxports t \<and> k_pheap u a = Some (new_kport j (k_portgen t + 1)) \<and> k_portv u = (k_portv t)(j \<mapsto> a)"
    if "r = Some a" for a using P(4) [OF that] by auto
qed

lemma stamp_region:
  assumes k: "kinv G C t" and p: "k_pheap t a = Some p"
  shows "\<exists>u. port_stamp tag lwhere a t = Inr u \<and> kinv G C u \<and> eased {} t u \<and> k_procs u = k_procs t \<and> k_portv u = k_portv t \<and>
    k_pheap u = (k_pheap t)(a \<mapsto> p\<lparr>pt_tag := take 15 tag, pt_where := take 31 lwhere\<rparr>)"
proof -
  let ?p = "p\<lparr>pt_tag := take 15 tag, pt_where := take 31 lwhere\<rparr>"
  have pi: "port_inv G C t" using k by (simp add: kinv_def)
  have "port_inv G C (set_port t a ?p)"
    by (rule port_inv_set_port [OF pi p]) (use port_invD(5) [OF pi p] in \<open>auto simp: queue_ok_def\<close>)
  then have "kinv G C (set_port t a ?p)" by (rule kinv_set_port [OF k p, rotated]) simp
  moreover have "slot_queue (set_port t a ?p) = slot_queue t" by (rule slot_queue_cong) (use p in auto)
  then have "eased {} t (set_port t a ?p)" by (intro eased_same) simp_all
  ultimately show ?thesis using p by (simp add: port_stamp_def get_Some)
qed

text \<open>
  A port no right names keeps its slot for good: nothing is left that could drop the last reference.
\<close>

definition orphan :: "kstate \<Rightarrow> nat \<Rightarrow> bool" where
  "orphan s j \<longleftrightarrow> (\<exists>a p. k_portv s j = Some a \<and> k_pheap s a = Some p \<and> pt_nrights p = 0)"

lemma newport_ok:
  assumes c: "callable rank G C s b" and q: "k_procs s i = Some q" "pr_waiters q = []"
  shows "\<exists>r s'. api_newport i tag lwhere s = Inr (r, s') \<and> callable rank G C s' (reclaim s' b) \<and> k_maxports s' = k_maxports s \<and>
    (case r of
       Inr n \<Rightarrow> \<exists>j a. k_portv s j = None \<and> k_portv s' j = Some a \<and> rtable q n = None \<and> caller i s' ((rtable q)(n \<mapsto> new_right a True)) \<and>
         map_option pt_tag (k_pheap s' a) = Some (take 15 tag)
     | Inl e \<Rightarrow> caller i s' (rtable q) \<and> (e = OutOfRights \<longleftrightarrow> (\<exists>j. k_portv s j = None \<and> orphan s' j)))"
proof -
  obtain t where t: "ipclock_enter s = Inr t" "kinv G C t" "acyc rank t" "k_procs t = k_procs s" "nolocks t = nolocks s" by (rule region_enter [OF c])
  have qt: "k_procs t i = Some q" using t(4) q(1) by simp
  have vt: "k_portv t = k_portv s" using nolocks_sel(1) [OF t(5)] .
  have none: ?thesis if u: "eased {} t u" "kinv G C u" "k_procs u = k_procs t" "k_portv u = k_portv t"
    and e: "api_newport i tag lwhere s = Inr (Inl e, ipclock_leave u)" "e \<noteq> OutOfRights" for u e
  proof -
    note R = region_callable [OF c t(1) u(2,1)]
    have "caller i (ipclock_leave u) (rtable q)" using R(3) u(3) qt q(2) by (simp add: caller_def)
    moreover have "\<not> (k_portv s j = None \<and> orphan (ipclock_leave u) j)" for j
      using u(4) vt nolocks_sel(1) [OF leave_nolocks, of u] by (auto simp: orphan_def)
    ultimately show ?thesis using R(1,2) e by auto
  qed
  show ?thesis
  proof (cases "port_budget_left q")
    case False
    have "k_procs (ipclock_leave t) i = Some q" using qt nolocks_sel(3) [OF leave_nolocks] by simp
    then show ?thesis
      by (intro none [OF eased_refl t(2), where e = "PortLimit (pr_nports q) (pr_port_limit q)"])
        (use False t(1) qt in \<open>simp_all add: api_newport_def get_Some Let_def\<close>)
  next
    case True
    obtain r u where r: "port_new t = (r, u)" by fastforce
    note P = port_region [OF t(2) r]
    show ?thesis
    proof (cases r)
      case None
      have "k_portv u = k_portv t" using r None by (auto simp: port_new_def kmalloc_def split: option.splits if_splits prod.splits)
      then show ?thesis
        by (intro none [OF P(2,1), where e = OutOfPorts]) (use P(3) True None t(1) qt r in \<open>simp_all add: api_newport_def get_Some Let_def\<close>)
    next
      case (Some a)
      obtain j where j: "k_portv t j = None" "k_pheap u a = Some (new_kport j (k_portgen t + 1))" "k_portv u = (k_portv t)(j \<mapsto> a)"
        using P(4) [OF Some] by blast
      have qu: "k_procs u i = Some q" using P(3) qt by simp
      obtain h v q' where v: "right_new i a True u = Inr (h, v)" "kinv G C v" "eased {i} u v" "k_procs v i = Some q'" "pr_waiters q' = []"
        "took_right (pr_rhint q) a True q q' h" "ports_kept u v" by (rule new_region [OF P(1) qu q(2) j(2)])
      obtain p where p: "k_pheap v a = Some p" using ports_kept_port [OF v(7), of a] j(2) by auto
      from stamp_region [OF v(2) p, of tag "if lwhere = [] then ''?'' else lwhere"] obtain w where
        w: "port_stamp tag (if lwhere = [] then ''?'' else lwhere) a v = Inr w" "kinv G C w" "eased {} v w" "k_procs w = k_procs v" "k_portv w = k_portv v"
        "k_pheap w = (k_pheap v)(a \<mapsto> p\<lparr>pt_tag := take 15 tag, pt_where := take 31 (if lwhere = [] then ''?'' else lwhere)\<rparr>)" by blast
      have ew: "eased {i} t w" using eased_trans [OF eased_mono [OF P(2)] eased_trans [OF v(3) eased_mono [OF w(3)]]] by simp
      note R = region_callable [OF c t(1) w(2) ew]
      note n = nolocks_sel [OF leave_nolocks, of w]
      have "k_procs (ipclock_leave w) i = Some q'" using v(4) w(4) n(3) by simp
      note T = took_right_caller [OF this v(5,6)]
      have jw: "k_portv (ipclock_leave w) j = Some a" using n(1) w(5) v(7) j(3) by (simp add: ports_kept_def)
      have e: "api_newport i tag lwhere s = Inr (case h of None \<Rightarrow> Inl OutOfRights | Some h \<Rightarrow> Inr h, ipclock_leave w)"
        unfolding api_newport_def using True t(1) qt r Some v(1) w(1) by (simp add: get_Some Let_def split: option.split)
      show ?thesis
      proof (cases h)
        case None
        have "k_pheap v = k_pheap u" using right_new_none v(1) None qu by (simp add: right_new_def get_Some)
        then have "p = new_kport j (k_portgen t + 1)" using p j(2) by simp
        then have "pt_nrights p = 0" by simp
        then have "orphan (ipclock_leave w) j" using jw n(2) w(6) by (simp add: orphan_def)
        then show ?thesis using e None R(1,2) T j(1) vt by auto
      next
        case h: (Some k)
        then show ?thesis using e R(1,2) T j(1) vt jw n(2) w(6) by auto
      qed
    qed
  qed
qed

lemma took_holds:
  assumes "took_right lo a recv q q' (Some h)"
  shows "holds q' a" "h < MAXRIGHTS" "right_slot q' (int h) = Some (new_right a recv)"
proof -
  have "h < MAXRIGHTS" "rtable q' h = Some (new_right a recv)" using assms by (simp_all add: took_right_def)
  then show "holds q' a" "h < MAXRIGHTS" "right_slot q' (int h) = Some (new_right a recv)"
    by (auto simp: rtable_Some holds_def names_def)
qed

lemma timer_ok:
  assumes c: "callable rank G C s b" and q: "k_procs s i = Some q" "pr_waiters q = []"
  shows "\<exists>h s'. api_timer i ms s = Inr (h, s') \<and> callable rank G C s' (reclaim s' b) \<and> k_maxports s' = k_maxports s \<and>
    (case h of
       None \<Rightarrow> caller i s' (rtable q)
     | Some n \<Rightarrow> \<exists>a j. rtable q n = None \<and> caller i s' ((rtable q)(n \<mapsto> new_right a True)) \<and> j < MAXTIMERS \<and>
         k_timers s' j = \<lparr>t_port = Some a, t_due_ms = uptime_ms s + word_of_int (max 0 ms)\<rparr>)"
proof -
  obtain t where t: "ipclock_enter s = Inr t" "kinv G C t" "acyc rank t" "k_procs t = k_procs s" "nolocks t = nolocks s" by (rule region_enter [OF c])
  have qt: "k_procs t i = Some q" using t(4) q(1) by simp
  have now: "uptime_ms t = uptime_ms s" using arg_cong [OF t(5), of uptime_ms] by (simp only: uptime_nolocks)
  have ms: "(if ms < 0 then 0 else ms) = max 0 ms" by simp
  have none: ?thesis if u: "eased {i} t u" "kinv G C u" "caller i u (rtable q)" and e: "api_timer i ms s = Inr (None, ipclock_leave u)" for u
  proof -
    note R = region_callable [OF c t(1) u(2,1)]
    have "caller i (ipclock_leave u) (rtable q)" using R(3) u(3) by (simp add: caller_def)
    then show ?thesis using R(1,2) e by auto
  qed
  obtain r u where r: "(if port_budget_left q then port_new t else (None, t)) = (r, u)" by fastforce
  have u: "kinv G C u" "eased {} t u" "k_procs u = k_procs t"
    using r t(2) port_region(1-3) [OF t(2)] by (auto split: if_splits)
  have qu: "k_procs u i = Some q" using u(3) qt by simp
  show ?thesis
  proof (cases r)
    case None
    show ?thesis by (rule none [OF eased_mono [OF u(2)] u(1)]) (use None t(1) qt r qu q(2) in \<open>simp_all add: api_timer_def get_Some Let_def caller_def\<close>)
  next
    case (Some a)
    then have bl: "port_budget_left q" "port_new t = (Some a, u)" using r by (auto split: if_splits)
    obtain j where j: "k_pheap u a = Some (new_kport j (k_portgen t + 1))" using port_region(4) [OF t(2) bl(2)] by blast
    obtain h v q' where v: "right_new i a True u = Inr (h, v)" "kinv G C v" "eased {i} u v" "k_procs v i = Some q'" "pr_waiters q' = []"
      "took_right (pr_rhint q) a True q q' h" "ports_kept u v" by (rule new_region [OF u(1) qu q(2) j])
    have ev: "eased {i} t v" by (rule eased_trans [OF eased_mono [OF u(2)] v(3)]) simp
    have e: "api_timer i ms s = (case h of None \<Rightarrow> bnd (get_port v a) (\<lambda>q. Inr (None, ipclock_leave (set_port v a (q\<lparr>pt_used := False\<rparr>))))
         | Some h \<Rightarrow> bnd (timer_arm a (word_of_int (max 0 ms)) v) (\<lambda>(ok, s).
             if ok then Inr (Some h, ipclock_leave s) else bnd (right_drop i h s) (\<lambda>s. Inr (None, ipclock_leave s))))"
      unfolding api_timer_def ms Let_def using bl t(1) qt v(1) by (simp add: get_Some)
    show ?thesis
    proof (cases h)
      case None
      obtain p where p: "k_pheap v a = Some p" using ports_kept_port [OF v(7), of a] j by auto
      have pi: "port_inv G C v" using v(2) by (simp add: kinv_def)
      let ?p = "p\<lparr>pt_used := False\<rparr>"
      have "port_inv G C (set_port v a ?p)"
        by (rule port_inv_set_port [OF pi p]) (use port_invD(5) [OF pi p] in \<open>auto simp: queue_ok_def\<close>)
      then have k: "kinv G C (set_port v a ?p)" by (rule kinv_set_port [OF v(2) p, rotated]) simp
      have "slot_queue (set_port v a ?p) = slot_queue v" by (rule slot_queue_cong) (use p in auto)
      then have "eased {i} v (set_port v a ?p)" by (intro eased_same) simp_all
      then have "eased {i} t (set_port v a ?p)" by (rule eased_trans [OF ev])
      moreover have "caller i (set_port v a ?p) (rtable q)"
        using took_right_caller [OF v(4-6)] None by (simp add: caller_def)
      ultimately show ?thesis by (rule none [OF _ k]) (use e None p in \<open>simp add: get_Some\<close>)
    next
      case h: (Some n)
      note H = took_holds [OF v(6) [unfolded h]]
      from timer_arm_ok [OF v(2) eased_acyc [OF t(3) ev] v(4) H(1), of "word_of_int (max 0 ms)"] obtain ok w where
        w: "timer_arm a (word_of_int (max 0 ms)) v = Inr (ok, w)" "kinv G C w" "eased {} v w"
        "ok \<longrightarrow> (\<exists>i<MAXTIMERS. k_timers w i = \<lparr>t_port = Some a, t_due_ms = uptime_ms v + word_of_int (max 0 ms)\<rparr>)" by blast
      have ew: "eased {i} t w" by (rule eased_trans [OF ev eased_mono [OF w(3)]]) simp
      have "map_option core_proc (k_procs w i) = map_option core_proc (k_procs v i)" using w(3) by (simp add: eased_def)
      then obtain q2 where q2: "k_procs w i = Some q2" "core_proc q2 = core_proc q'" using v(4) by auto
      have "caller i v ((rtable q)(n \<mapsto> new_right a True))" "rtable q n = None" using took_right_caller [OF v(4-6)] h by simp_all
      then have cw: "caller i w ((rtable q)(n \<mapsto> new_right a True))" "pr_waiters q2 = []" "rtable q2 = (rtable q)(n \<mapsto> new_right a True)"
        using q2 v(4,5) core_rtable [OF q2(2)] by (auto simp: caller_def)
      show ?thesis
      proof (cases ok)
        case True
        note R = region_callable [OF c t(1) w(2) ew]
        have "uptime_ms v = uptime_ms s" using ev now by (simp add: eased_def)
        moreover have "caller i (ipclock_leave w) ((rtable q)(n \<mapsto> new_right a True))" using cw(1) R(3) by (simp add: caller_def)
        ultimately show ?thesis
          using True e h w R(1,2) \<open>rtable q n = None\<close> nolocks_sel(4) [OF leave_nolocks, of w] by auto
      next
        case False
        have g: "right_get q2 (int n) = Some (n, new_right a True)"
        proof -
          have "rtable q2 n = Some (new_right a True)" using cw(3) by simp
          then show ?thesis using H(2) by (simp add: right_get_def rtable_Some c_int_small)
        qed
        obtain x where x: "right_drop i n w = Inr x" "kinv G C x" "eased {i} w x" "caller i x ((rtable q2)(n := None))"
          using drop_region [OF w(2) eased_acyc [OF t(3) ew] q2(1) cw(2), where h = "int n" and c = True] g by auto
        have "(rtable q2)(n := None) = rtable q" using cw(3) \<open>rtable q n = None\<close> by (auto simp: fun_eq_iff)
        then have "caller i x (rtable q)" using x(4) by simp
        then show ?thesis
          by (rule none [OF eased_trans [OF ew x(3)] x(2)]) (use e h w(1) False x(1) in simp)
      qed
    qed
  qed
qed

end
