(* ===== verification/Sysprops.thy ===== *)
theory Sysprops
  imports Syscalls
begin

text \<open>
  The properties of the calls: what holds after any sequence of them, that a message sent is the message
  received, and that nobody sleeps through what it waits for.
\<close>

section \<open>Any sequence of calls\<close>

text \<open>
  The machine between two calls: every reference and every chunk is accounted for, no bucket is held,
  and the rights in flight lead down (no port is waiting in a queue it would itself have to outlive).
  \<open>accounted G L\<close> says what the accounts are: \<open>G (i, recv)\<close> references to the port in slot \<open>i\<close>, with or without
  the receive right, are in no handle table, no message and no timer, and \<open>L c\<close> says that the chunk \<open>c\<close> is in no
  message and no lua object points at it. \<open>G\<close> and \<open>L\<close> are what a lua error has left behind; the state
  determines both (\<open>accounted_unique\<close>), and with both zero every count is exact. \<open>sound\<close> is the same for
  any accounts.
\<close>

definition accounted :: "owned \<Rightarrow> (addr \<Rightarrow> nat) \<Rightarrow> kstate \<Rightarrow> bufs \<Rightarrow> bool" where
  "accounted G L s b \<longleftrightarrow> (\<exists>rank C. callable rank G C s b \<and> unowned C b = L) \<and> k_maxports s \<le> 65536"

definition sound :: "kstate \<Rightarrow> bufs \<Rightarrow> bool" where
  "sound s b \<longleftrightarrow> (\<exists>rank G C. callable rank G C s b) \<and> k_maxports s \<le> 65536"

lemma accounted_sound: "accounted G L s b \<Longrightarrow> sound s b"
  by (auto simp: accounted_def sound_def)

lemma sound_accounted: "sound s b \<Longrightarrow> \<exists>G L. accounted G L s b"
  by (auto simp: accounted_def sound_def)

lemma counts_unique:
  assumes "ptable_ok s" "counts_ok G s" "counts_ok G' s"
  shows "G = G'"
proof
  fix x :: "nat \<times> bool"
  obtain i recv where x: "x = (i, recv)" by fastforce
  show "G x = G' x"
  proof (cases "k_portv s i")
    case None
    then show ?thesis using assms(2,3) x by (simp add: counts_ok_def)
  next
    case (Some a)
    then obtain p where p: "k_pheap s a = Some p" using ptable_okD(3) [OF assms(1)] by blast
    have c: "pt_nrecv p = int (refs_of H s i a True)" "pt_nrights p = int (refs_of H s i a True + refs_of H s i a False + timed s a)"
      if "counts_ok H s" for H using that Some p unfolding counts_ok_def by blast+
    show ?thesis using c [OF assms(2)] c [OF assms(3)] x by (cases recv) (simp_all add: refs_of_def)
  qed
qed

lemma accounted_unique:
  assumes "accounted G L s b" "accounted G' L' s b"
  shows "G = G'" "L = L'"
proof -
  obtain rank C rank' C' where c: "callable rank G C s b" "unowned C b = L" "callable rank' G' C' s b" "unowned C' b = L'"
    using assms by (auto simp: accounted_def)
  have i: "port_inv G C s" "port_inv G' C' s" using c by (simp_all add: callable_def pinv_def)
  show "G = G'" by (rule counts_unique [OF port_invD(1) [OF i(1)] port_invD(2) [OF i(1)] port_invD(2) [OF i(2)]])
  have "chunk_infl s x + C x = chunk_infl s x + C' x" for x
    using port_invD(3) [OF i(1)] port_invD(3) [OF i(2)] by (simp add: chunks_ok_def)
  then have "C = C'" by (simp add: fun_eq_iff)
  then show "L = L'" using c by simp
qed

text \<open>A proc that was resumed: \<open>wait_reap\<close> ran, and it has not parked since.\<close>

definition resumed :: "nat \<Rightarrow> kstate \<Rightarrow> bool" where
  "resumed i s \<longleftrightarrow> (\<exists>q. k_procs s i = Some q \<and> pr_waiters q = [] \<and> \<not> pr_woken q)"

text \<open>
  The one condition on what is sent: with the rights of this message in flight there is still no cycle, so
  a port is never in flight in its own queue, nor in the queue of one that is. Without it \<open>port_unref\<close> does
  use a port it has freed: lemma \<open>self_queued_uaf\<close> of theory \<open>IpcProps\<close>.
\<close>

definition no_cycle :: "(nat \<Rightarrow> bool) \<Rightarrow> nat \<Rightarrow> int \<Rightarrow> lval \<Rightarrow> kstate \<Rightarrow> bufs \<Rightarrow> bool" where
  "no_cycle chk i h v s b \<longleftrightarrow> (\<exists>rank. acyc rank s \<and> (\<forall>q k r p. k_procs s i = Some q \<and> right_get q h = Some (k, r) \<and>
     k_pheap s (r_port r) = Some p \<longrightarrow> sends_down rank chk i v p s b))"

text \<open>
  A step, with two flags: whether it keeps the rights in flight free of cycles, and whether it ended in an
  error that lua raised out of it. The code does not check the first; any send is a step, and only a send
  can fail to keep it.
\<close>

inductive sysstep :: "kstate \<times> bufs \<Rightarrow> bool \<Rightarrow> bool \<Rightarrow> kstate \<times> bufs \<Rightarrow> bool" where
  s_resume: "k_procs s i = Some q \<Longrightarrow> pr_status q \<noteq> BLOCKED \<Longrightarrow> wait_reap i s = Inr s' \<Longrightarrow> sysstep (s, b) True False (s', b)"
| s_recv: "resumed i s \<Longrightarrow> api_tryrecv chk nk i h s b = Inr (r, s', b') \<Longrightarrow> sysstep (s, b) True (r = Inl LuaRaised) (s', b')"
| s_send: "resumed i s \<Longrightarrow> api_send chk i h v s b = Inr (r', s', b') \<Longrightarrow>
    sysstep (s, b) (no_cycle chk i h v s b) (r' = Inl LuaRaised) (s', b')"
| s_block: "resumed i s \<Longrightarrow> api_block onco i h s = Inr (rc, s') \<Longrightarrow> sysstep (s, b) True False (s', b)"
| s_sendblock: "resumed i s \<Longrightarrow> api_sendblock onco i h need s = Inr (rc, s') \<Longrightarrow> sysstep (s, b) True False (s', b)"
| s_close: "resumed i s \<Longrightarrow> api_close i h s = Inr (rc', s') \<Longrightarrow> sysstep (s, b) True False (s', reclaim s' b)"
| s_owned: "resumed i s \<Longrightarrow> owned_close i h s = Inr (ud, s') \<Longrightarrow> sysstep (s, b) True False (s', reclaim s' b)"
| s_newport: "resumed i s \<Longrightarrow> api_newport i tag lwhere s = Inr (h', s') \<Longrightarrow> sysstep (s, b) True False (s', reclaim s' b)"
| s_sendright: "resumed i s \<Longrightarrow> api_sendright i h s = Inr (h', s') \<Longrightarrow> sysstep (s, b) True False (s', reclaim s' b)"
| s_timer: "resumed i s \<Longrightarrow> api_timer i ms s = Inr (t, s') \<Longrightarrow> sysstep (s, b) True False (s', reclaim s' b)"
| s_expire: "expire_timers s = Inr s' \<Longrightarrow> sysstep (s, b) True False (s', reclaim s' b)"
| s_tick: "sysstep (s, b) True False (s\<lparr>k_ticks := n\<rparr>, b)"

text \<open>Any number of steps, whether all of them keep the rights free of cycles, and whether one of them ended in such an error.\<close>

inductive sysrun :: "kstate \<times> bufs \<Rightarrow> bool \<Rightarrow> bool \<Rightarrow> kstate \<times> bufs \<Rightarrow> bool" where
  run_none: "sysrun x True False x"
| run_step: "sysrun x d e y \<Longrightarrow> sysstep y d' e' z \<Longrightarrow> sysrun x (d \<and> d') (e \<or> e') z"

lemma callable_rerank: "callable rank G C s b \<Longrightarrow> acyc rank' s \<Longrightarrow> callable rank' G C s b"
  by (simp add: callable_def)

lemma reclaim_id:
  assumes "callable rank G C s b"
  shows "reclaim s b = b"
proof -
  have "bs_mem b c = (if k_chunks s c = None then None else bs_mem b c)" for c
    using assms by (auto simp: callable_def carried_def shared_def)
  then have "(\<lambda>c. if k_chunks s c = None then None else bs_mem b c) = bs_mem b" by (auto simp: fun_eq_iff)
  then show ?thesis by (simp add: reclaim_def)
qed

lemma callable_ticks:
  assumes "callable rank G C s b"
  shows "callable rank G C (s\<lparr>k_ticks := n\<rparr>) b"
proof -
  let ?s = "s\<lparr>k_ticks := n\<rparr>"
  have pi: "port_inv G C s" and wi: "wake_inv s" using assms by (auto simp: callable_def pinv_def)
  have sq: "slot_queue ?s = slot_queue s" by (rule slot_queue_cong) simp_all
  have "port_inv G C ?s" using pi port_inv_cong [of ?s s] by simp
  moreover have "wake_inv ?s" by (rule wake_inv_ports [OF wi]) auto
  moreover have "carried C [] ?s b" using assms carried_cong [of ?s s] by (simp add: callable_def)
  ultimately show ?thesis
    using assms sq by (simp add: callable_def pinv_def acyc_def idle_def locks_ok_def queues_sized_def sized_def)
qed

lemma expire_ok:
  assumes c: "callable rank G C s b"
  shows "\<exists>s'. expire_timers s = Inr s' \<and> callable rank G C s' (reclaim s' b) \<and> k_maxports s' = k_maxports s"
proof -
  have inv: "pinv G C s" and ac: "acyc rank s" and lk: "locks_ok s" and id: "idle s" using c by (auto simp: callable_def idle_def)
  have "\<forall>b<NIPCLOCK. bucket_free s b" using idle_free [OF id] by blast
  from expire_timers_ok [OF inv ac lk this] obtain t v where
    "expire_timers s = Inr (ipclock_leave v)" "ipclock_enter s = Inr t" "kinv G C v" "eased {} t v" by blast
  with region_callable [OF c] show ?thesis by blast
qed

lemma api_send_ok:
  assumes c: "callable rank G C s b" and q: "k_procs s i = Some q" and m: "k_maxports s \<le> 65536"
    and r: "right_get q h = Some (k, r)" and p: "k_pheap s (r_port r) = Some p" and dn: "sends_down rank chk i v p s b"
  shows "\<exists>rc len s' b'. port_send_from_lua chk i (r_port r) v s b = Inr (rc, len, s', b') \<and>
    api_send chk i h v s b = Inr (case rc of SEND_RAISED \<Rightarrow> Inl LuaRaised | SEND_UNSERIALIZABLE \<Rightarrow> Inl Unserializable
      | SEND_DEAD \<Rightarrow> Inr PortDead | SEND_FULL \<Rightarrow> Inr (PortFull len) | SEND_NOMEM \<Rightarrow> Inl NoMemQueueing | SEND_OK \<Rightarrow> Inr Sent, s', b') \<and>
    send_done rank G C i p (\<lambda>w t. serialize chk b i 0 v (send_reserved v s) = Inr (SOk, w, t)) (s, b) rc len (s', b')"
  using send_ok [OF c q p m dn] q r by (auto simp: api_send_def get_Some)

text \<open>What a call that ended in \<open>y\<close> made of the accounts, \<open>e\<close> saying whether lua raised an error out of it.\<close>

definition keeps_accounts :: "owned \<Rightarrow> (addr \<Rightarrow> nat) \<Rightarrow> bool \<Rightarrow> kstate \<times> bufs \<Rightarrow> bool" where
  "keeps_accounts G L e y \<longleftrightarrow> (\<exists>G' L'. accounted G' L' (fst y) (snd y) \<and> G \<le> G' \<and> L \<le> L' \<and> (\<not> e \<longrightarrow> G' = G \<and> L' = L))"

lemma keeps_same: "accounted G L s b \<Longrightarrow> keeps_accounts G L e (s, b)"
  by (auto simp: keeps_accounts_def)

lemma keeps_callable:
  assumes "callable rank G C s' (reclaim s' b)" "unowned C b = L" "k_maxports s' \<le> 65536"
  shows "keeps_accounts G L e (s', reclaim s' b)"
  using assms unowned_reclaim by (intro keeps_same) (auto simp: accounted_def)

lemma sent_accounts:
  assumes c: "accounted G L s b" and i: "resumed i s" and n: "no_cycle chk i h v s b" and a: "api_send chk i h v s b = Inr (r', s', b')"
  shows "keeps_accounts G L (r' = Inl LuaRaised) (s', b')"
proof -
  obtain rank0 C where c0: "callable rank0 G C s b" "unowned C b = L" and m: "k_maxports s \<le> 65536" using c by (auto simp: accounted_def)
  obtain rank where ac: "acyc rank s" and dn: "\<And>q k r p. k_procs s i = Some q \<Longrightarrow> right_get q h = Some (k, r) \<Longrightarrow>
      k_pheap s (r_port r) = Some p \<Longrightarrow> sends_down rank chk i v p s b" using n by (auto simp: no_cycle_def)
  have cl: "callable rank G C s b" by (rule callable_rerank [OF c0(1) ac])
  obtain q where q: "k_procs s i = Some q" using i by (auto simp: resumed_def)
  show ?thesis
  proof (cases "right_get q h")
    case None
    then show ?thesis using a q keeps_same [OF c] by (auto simp: api_send_def get_Some)
  next
    case (Some kr)
    obtain k r where kr: "right_get q h = Some (k, r)" using Some by (cases kr) auto
    have pi: "port_inv G C s" using cl by (simp add: callable_def pinv_def)
    obtain p where p: "k_pheap s (r_port r) = Some p" by (rule right_get_live [OF pi q kr])
    from api_send_ok [OF cl q m kr p dn [OF q kr p]] a obtain rc len where
      "r' = (case rc of SEND_RAISED \<Rightarrow> Inl LuaRaised | SEND_UNSERIALIZABLE \<Rightarrow> Inl Unserializable
      | SEND_DEAD \<Rightarrow> Inr PortDead | SEND_FULL \<Rightarrow> Inr (PortFull len) | SEND_NOMEM \<Rightarrow> Inl NoMemQueueing | SEND_OK \<Rightarrow> Inr Sent)"
      and sd: "send_done rank G C i p (\<lambda>w t. serialize chk b i 0 v (send_reserved v s) = Inr (SOk, w, t)) (s, b) rc len (s', b')" by auto
    then have "r' = Inl LuaRaised \<longleftrightarrow> rc = SEND_RAISED" by (cases rc) auto
    moreover obtain G' C' where g: "callable rank G' C' s' b'" "rc \<noteq> SEND_RAISED \<longrightarrow> G' = G" "G \<le> G'" "unowned C' b' = L" "k_maxports s' = k_maxports s"
      using sd c0(2) by (auto simp: send_done_def)
    moreover have "accounted G' L s' b'" using g m by (auto simp: accounted_def)
    ultimately show ?thesis unfolding keeps_accounts_def by auto
  qed
qed

lemma received_accounts:
  assumes c: "accounted G L s b" and i: "resumed i s" and a: "api_tryrecv chk nk i h s b = Inr (r, s', b')"
  shows "keeps_accounts G L (r = Inl LuaRaised) (s', b')"
proof -
  obtain rank C where c0: "callable rank G C s b" "unowned C b = L" and m: "k_maxports s \<le> 65536" using c by (auto simp: accounted_def)
  obtain q where q: "k_procs s i = Some q" "pr_waiters q = []" using i by (auto simp: resumed_def)
  from tryrecv_ok [OF c0(1) q, of chk nk h] a obtain G' C' where g: "callable rank G' C' s' b'" "k_maxports s' = k_maxports s"
    "r \<noteq> Inl LuaRaised \<longrightarrow> G' = G \<and> unowned C' b' = unowned C b" "G \<le> G'" "unowned C b \<le> unowned C' b'" by auto
  have "accounted G' (unowned C' b') s' b'" using g m by (auto simp: accounted_def)
  then show ?thesis using g c0(2) unfolding keeps_accounts_def by auto
qed

lemma sysstep_accounts:
  assumes "sysstep x d e y" "d" "accounted G L (fst x) (snd x)"
  shows "keeps_accounts G L e y"
  using assms
proof (induction rule: sysstep.induct)
  case (s_resume s i q s' b)
  then obtain rank C where "callable rank G C s b" "unowned C b = L" "k_maxports s \<le> 65536" by (auto simp: accounted_def)
  with wait_reap_ok [of rank G C s b i q] s_resume show ?case by (intro keeps_same) (fastforce simp: accounted_def)
next
  case (s_recv i s chk nk h b r s' b')
  then show ?case using received_accounts by simp
next
  case (s_send i s chk h v b r' s' b')
  then show ?case using sent_accounts by simp
next
  case (s_block i s onco h rc s' b)
  then obtain rank C q where "callable rank G C s b" "unowned C b = L" "k_maxports s \<le> 65536" "k_procs s i = Some q" "\<not> pr_woken q"
    by (auto simp: accounted_def resumed_def)
  with api_block_ok [of rank G C s b i q onco h] s_block show ?case by (intro keeps_same) (fastforce simp: accounted_def)
next
  case (s_sendblock i s onco h need rc s' b)
  then obtain rank C q where "callable rank G C s b" "unowned C b = L" "k_maxports s \<le> 65536" "k_procs s i = Some q" "\<not> pr_woken q"
    by (auto simp: accounted_def resumed_def)
  with api_sendblock_ok [of rank G C s b i q onco h need] s_sendblock show ?case by (intro keeps_same) (fastforce simp: accounted_def)
next
  case (s_close i s h rc' s' b)
  then obtain rank C q where "callable rank G C s b" "unowned C b = L" "k_maxports s \<le> 65536" "k_procs s i = Some q" "pr_waiters q = []"
    by (auto simp: accounted_def resumed_def)
  with close_ok [of rank G C s b i q h] s_close show ?case by (intro keeps_callable) auto
next
  case (s_owned i s h ud s' b)
  then obtain rank C q where "callable rank G C s b" "unowned C b = L" "k_maxports s \<le> 65536" "k_procs s i = Some q" "pr_waiters q = []"
    by (auto simp: accounted_def resumed_def)
  with owned_close_ok [of rank G C s b i q h] reclaim_id s_owned show ?case by (intro keeps_callable) auto
next
  case (s_newport i s tag lwhere h' s' b)
  then obtain rank C q where "callable rank G C s b" "unowned C b = L" "k_maxports s \<le> 65536" "k_procs s i = Some q" "pr_waiters q = []"
    by (auto simp: accounted_def resumed_def)
  with newport_ok [of rank G C s b i q tag lwhere] s_newport show ?case by (intro keeps_callable) auto
next
  case (s_sendright i s h h' s' b)
  then obtain rank C q where "callable rank G C s b" "unowned C b = L" "k_maxports s \<le> 65536" "k_procs s i = Some q" "pr_waiters q = []"
    by (auto simp: accounted_def resumed_def)
  with sendright_ok [of rank G C s b i q h] s_sendright show ?case by (intro keeps_callable) auto
next
  case (s_timer i s ms t s' b)
  then obtain rank C q where "callable rank G C s b" "unowned C b = L" "k_maxports s \<le> 65536" "k_procs s i = Some q" "pr_waiters q = []"
    by (auto simp: accounted_def resumed_def)
  with timer_ok [of rank G C s b i q ms] s_timer show ?case by (intro keeps_callable) auto
next
  case (s_expire s s' b)
  then obtain rank C where "callable rank G C s b" "unowned C b = L" "k_maxports s \<le> 65536" by (auto simp: accounted_def)
  with expire_ok [of rank G C s b] s_expire show ?case by (intro keeps_callable) auto
next
  case (s_tick s b n)
  then obtain rank C where "callable rank G C s b" "unowned C b = L" "k_maxports s \<le> 65536" by (auto simp: accounted_def)
  with callable_ticks [of rank G C s b n] show ?case by (intro keeps_same) (auto simp: accounted_def)
qed

lemma run_accounts: "sysrun x d e y \<Longrightarrow> d \<Longrightarrow> accounted G L (fst x) (snd x) \<Longrightarrow> keeps_accounts G L e y"
proof (induction rule: sysrun.induct)
  case (run_none x)
  then show ?case using keeps_same [of G L "fst x" "snd x"] by simp
next
  case (run_step x d e y d' r z)
  then obtain G1 L1 where y: "accounted G1 L1 (fst y) (snd y)" "G \<le> G1" "L \<le> L1" "\<not> e \<longrightarrow> G1 = G \<and> L1 = L"
    unfolding keeps_accounts_def by blast
  from sysstep_accounts [OF run_step(2) _ y(1)] run_step(4) obtain G2 L2 where
    "accounted G2 L2 (fst z) (snd z)" "G1 \<le> G2" "L1 \<le> L2" "\<not> r \<longrightarrow> G2 = G1 \<and> L2 = L1" unfolding keeps_accounts_def by blast
  then show ?case using y order_trans [of G G1 G2] order_trans [of L L1 L2] unfolding keeps_accounts_def by blast
qed

lemma run_sound:
  assumes "sysrun (s, b) True e (s', b')" "sound s b"
  shows "sound s' b'"
proof -
  obtain G L where "accounted G L s b" using sound_accounted [OF assms(2)] by blast
  from run_accounts [OF assms(1)] this show ?thesis by (auto simp: keeps_accounts_def intro: accounted_sound)
qed

text \<open>
  C1: whatever procs do, the accounts balance. Take any sequence of sends, receives, blocks, closes, new
  ports, rights and timers, by any procs in any order, with timers expiring in between, in which no send
  puts a cycle of rights in flight (\<open>no_cycle\<close>). It leads from accounted states to accounted states only: the
  counts of every port are the rights in the handle tables, in messages and in timers plus exactly the
  references \<open>G\<close> that nothing refers to, every chunk is in one message, with one lua object or one of
  the lost \<open>L\<close>, and no bucket stays held. Nothing is lost and nothing is dropped twice: \<open>G\<close> and \<open>L\<close> are the same
  at the end as at the start, unless a receive or a send ended in an error that lua raised out of it, and
  then they can only have grown.
\<close>

theorem sys_sound:
  assumes "sysrun (s, b) True e (s', b')" "accounted G L s b"
  shows "\<exists>G' L'. accounted G' L' s' b' \<and> G \<le> G' \<and> L \<le> L' \<and> (\<not> e \<longrightarrow> G' = G \<and> L' = L)"
  using run_accounts [OF assms(1)] assms(2) by (simp add: keeps_accounts_def)

text \<open>
  C2: no call faults. In every state a sequence as in C1 leads to (so no send in it has closed a cycle of
  rights in flight), none of the calls follows a dangling pointer, frees anything twice, fails an
  assertion or runs forever, whatever handles, sizes, values and message bytes it is given; a send is
  covered if it does not close a cycle of rights in flight either. A send that does is not covered: then
  dropping the last handle uses a freed port.
\<close>

theorem calls_never_fault:
  assumes st: "sysrun (s0, b0) True e (s, b)" "sound s0 b0" and i: "resumed i s"
  shows "api_tryrecv chk nk i h s b \<noteq> Inl f \<and> (no_cycle chk i h v s b \<longrightarrow> api_send chk i h v s b \<noteq> Inl f) \<and>
    api_block onco i h s \<noteq> Inl f \<and> api_sendblock onco i h need s \<noteq> Inl f \<and> api_close i h s \<noteq> Inl f \<and> owned_close i h s \<noteq> Inl f \<and>
    api_newport i tag lwhere s \<noteq> Inl f \<and> api_sendright i h s \<noteq> Inl f \<and> api_timer i ms s \<noteq> Inl f \<and> expire_timers s \<noteq> Inl f"
proof (intro conjI)
  obtain rank G C where c: "callable rank G C s b" and m: "k_maxports s \<le> 65536" using run_sound [OF st] by (auto simp: sound_def)
  obtain q where q: "k_procs s i = Some q" "pr_waiters q = []" "\<not> pr_woken q" using i by (auto simp: resumed_def)
  show "api_tryrecv chk nk i h s b \<noteq> Inl f" using tryrecv_ok [OF c q(1,2), of chk nk h] by auto
  show "no_cycle chk i h v s b \<longrightarrow> api_send chk i h v s b \<noteq> Inl f"
  proof
    assume "no_cycle chk i h v s b"
    then obtain rank' where a: "acyc rank' s" and dn: "\<And>q k r p. k_procs s i = Some q \<Longrightarrow> right_get q h = Some (k, r) \<Longrightarrow>
      k_pheap s (r_port r) = Some p \<Longrightarrow> sends_down rank' chk i v p s b" by (auto simp: no_cycle_def)
    have pi: "port_inv G C s" using c by (simp add: callable_def pinv_def)
    show "api_send chk i h v s b \<noteq> Inl f"
    proof (cases "right_get q h")
      case (Some kr)
      obtain k r where kr: "right_get q h = Some (k, r)" using Some by (cases kr) auto
      obtain p where p: "k_pheap s (r_port r) = Some p" by (rule right_get_live [OF pi q(1) kr])
      show ?thesis using api_send_ok [OF callable_rerank [OF c a] q(1) m kr p dn [OF q(1) kr p]] by auto
    qed (use q in \<open>simp add: api_send_def get_Some\<close>)
  qed
  show "api_block onco i h s \<noteq> Inl f" using api_block_ok [OF c q(1,3), of onco h] by auto
  show "api_sendblock onco i h need s \<noteq> Inl f" using api_sendblock_ok [OF c q(1,3), of onco h need] by auto
  show "api_close i h s \<noteq> Inl f" using close_ok [OF c q(1,2), of h] by auto
  show "owned_close i h s \<noteq> Inl f" using owned_close_ok [OF c q(1,2), of h] by auto
  show "api_newport i tag lwhere s \<noteq> Inl f" using newport_ok [OF c q(1,2), of tag lwhere] by auto
  show "api_sendright i h s \<noteq> Inl f" using sendright_ok [OF c q(1,2), of h] by auto
  show "api_timer i ms s \<noteq> Inl f" using timer_ok [OF c q(1,2), of ms] by auto
  show "expire_timers s \<noteq> Inl f" using expire_ok [OF c] by auto
qed

section \<open>From one proc to another\<close>

lemma right_get_rtable: "rtable q' = rtable q \<Longrightarrow> right_get q' h = right_get q h"
proof -
  assume e: "rtable q' = rtable q"
  have "right_get x h = (if 0 \<le> c_int h then map_option (\<lambda>r. (nat (c_int h), r)) (rtable x (nat (c_int h))) else None)" for x
    by (auto simp: right_get_def rtable_def right_slot_def split: option.splits)
  then show ?thesis using e by simp
qed

text \<open>A plain value goes through \<open>serialize\<close> as its encoding and takes nothing along.\<close>

lemma plain_written:
  assumes "\<forall>d. chk d" "plain nk b v" "ldepth v \<le> MAXDEPTH" "length (enc b v) \<le> MAXMSG" "\<forall>n. k_memok s n"
  obtains w t where "serialize chk b i 0 v (send_reserved v s) = Inr (SOk, w, t)" "wb_buf w = enc b v" "wb_refs w = []" "wb_bufs w = []"
    "\<forall>n. k_memok t n"
proof -
  have "ready (send_reserved v s) (length (enc b v)) \<and> wb_buf (fst (send_reserved v s)) = [] \<and>
      wb_refs (fst (send_reserved v s)) = [] \<and> wb_bufs (fst (send_reserved v s)) = []"
    using assms(4,5) by (auto simp: send_reserved_def wreserve_def kmalloc_def wbuf0_def wb_ok_def ready_def split: if_splits)
  moreover from this have "emits (send_reserved v s) (enc b v) (serialize chk b i 0 v (send_reserved v s))"
    using serialize_emits [OF assms(1,2), of 0 "send_reserved v s" i] assms(3) by simp
  ultimately show ?thesis using that by (auto simp: emits_def)
qed

lemma plain_read:
  assumes chk: "\<forall>d. chk d" and v: "plain nk b v" "ldepth v \<le> MAXDEPTH" "length (enc b v) \<le> MAXMSG"
  shows "msg_to_lua chk nk j (new_kmsg (enc b v) [] []) s b' = Inr (DOk (normv b v), s, reclaim s b')"
proof -
  have "deser chk nk j (enc b v) (MAXDEPTH + 1) \<lparr>d_off = 0, d_bufs = [], d_k = s, d_b = b', d_mt = []\<rparr> =
      Inr (DOk (normv b v), \<lparr>d_off = length (enc b v), d_bufs = [], d_k = s, d_b = b', d_mt = []\<rparr>)"
    using deser_enc [OF chk v(3,1), where pre = "[]" and post = "[]" and d = "MAXDEPTH + 1"] v(2) by simp
  then show ?thesis
    by (simp add: msg_to_lua_def new_kmsg_def deserialize_def msg_dispose_def msg_free_def msg_free_by_def release_inflight_by_def)
qed

lemma sent_plain:
  assumes c: "callable rank G C s b" and m: "k_maxports s \<le> 65536" and q: "k_procs s i = Some q" "right_get q h = Some (k, r)"
    and p: "k_pheap s (r_port r) = Some p" "\<not> pt_dead p" "pt_qbytes p + length (enc b v) \<le> MAXQUEUE"
    and chk: "\<forall>d. chk d" and v: "plain nk b v" "ldepth v \<le> MAXDEPTH" "length (enc b v) \<le> MAXMSG" and mem: "\<forall>n. k_memok s n"
  obtains s' b' C' where "api_send chk i h v s b = Inr (Inr Sent, s', b')" "callable rank G C' s' b'" "k_maxports s' = k_maxports s"
    "k_portv s' = k_portv s" "slot_queue s' (pt_idx p) = pt_queue p @ [new_kmsg (enc b v) [] []]"
    "\<And>j. map_option (\<lambda>q. (rtable q, pr_waiters q)) (k_procs s' j) = map_option (\<lambda>q. (rtable q, pr_waiters q)) (k_procs s j)"
proof -
  obtain w t where w: "serialize chk b i 0 v (send_reserved v s) = Inr (SOk, w, t)" "wb_buf w = enc b v" "wb_refs w = []" "wb_bufs w = []"
    "\<forall>n. k_memok t n" by (rule plain_written [OF chk v mem])
  have dn: "sends_down rank chk i v p s b" using w by (simp add: sends_down_def)
  from api_send_ok [OF c q(1) m q(2) p(1) dn] obtain rc len s' b' where
    a: "api_send chk i h v s b = Inr (case rc of SEND_RAISED \<Rightarrow> Inl LuaRaised | SEND_UNSERIALIZABLE \<Rightarrow> Inl Unserializable
      | SEND_DEAD \<Rightarrow> Inr PortDead | SEND_FULL \<Rightarrow> Inr (PortFull len) | SEND_NOMEM \<Rightarrow> Inl NoMemQueueing | SEND_OK \<Rightarrow> Inr Sent, s', b')"
    and sd: "send_done rank G C i p (\<lambda>w t. serialize chk b i 0 v (send_reserved v s) = Inr (SOk, w, t)) (s, b) rc len (s', b')" by blast
  have rc: "rc = SEND_OK" using sd w p(2,3) by (cases rc) (auto simp: send_done_def msgbufs_bytes_def)
  have pr: "map_option (\<lambda>q. (rtable q, pr_waiters q)) (k_procs s' j) = map_option (\<lambda>q. (rtable q, pr_waiters q)) (k_procs s j)" for j
    using sd core_known [of "k_procs s' j" "k_procs s j"] by (cases "j = i") (auto simp: send_done_def)
  show ?thesis
    using that [of s' b'] a sd rc w p(3) pr by (auto simp: send_done_def)
qed

text \<open>The next message of a queue, when it is the encoding of a plain value, is what a receive returns.\<close>

lemma received_plain:
  assumes c: "callable rank G C s b1" and q: "k_procs s j = Some q" "pr_waiters q = []" "right_get q h = Some (k, r)" "r_recv r"
    and p: "k_pheap s (r_port r) = Some p" "pt_queue p = new_kmsg (enc b v) [] [] # ms"
    and chk: "\<forall>d. chk d" and v: "plain nk b v" "ldepth v \<le> MAXDEPTH" "length (enc b v) \<le> MAXMSG"
  obtains s' b' C' q' p' where "api_tryrecv chk nk j h s b1 = Inr (Inr (Some (normv b v)), s', b')" "callable rank G C' s' b'"
    "k_maxports s' = k_maxports s" "k_procs s' j = Some q'" "pr_waiters q' = []" "right_get q' h = Some (k, r)"
    "k_pheap s' (r_port r) = Some p'" "pt_queue p' = ms"
proof -
  from port_pop_call [OF c p(1)] p(2) obtain s' where s': "port_pop (r_port r) s = Inr (Some (new_kmsg (enc b v) [] []), s')"
    "slot_queue s' = (slot_queue s)(pt_idx p := ms)" "calm {} s s'" "k_portv s' = k_portv s"
    by (auto split: option.splits)
  have a: "api_tryrecv chk nk j h s b1 = Inr (Inr (Some (normv b v)), s', reclaim s' b1)"
    using q s'(1) plain_read [OF chk v, of j s' b1] by (simp add: api_tryrecv_def get_Some)
  from tryrecv_ok [OF c q(1,2), of chk nk h] a obtain C' where
    c': "callable rank G C' s' (reclaim s' b1)" "k_maxports s' = k_maxports s" by auto
  have "map_option core_proc (k_procs s' j) = map_option core_proc (k_procs s j)" using s'(3) by (simp add: calm_def)
  then obtain q' where q': "k_procs s' j = Some q'" "core_proc q' = core_proc q" using q(1) by auto
  note cr = core_rtable [OF q'(2)]
  have g: "right_get q' h = Some (k, r)" using right_get_rtable [of q' q] cr q(3) by simp
  have pt: "ptable_ok s" "port_inv G C' s'" using c c'(1) by (simp_all add: callable_def pinv_def port_inv_def)
  obtain p' where p': "k_pheap s' (r_port r) = Some p'" by (rule right_get_live [OF pt(2) q'(1) g])
  have pt': "ptable_ok s'" using port_invD(1) [OF pt(2)] .
  have "k_portv s' (pt_idx p) = Some (r_port r)" using ptable_okD(1) [OF pt(1) p(1)] s'(4) by simp
  then have "pt_idx p' = pt_idx p" using ptable_okD(3) [OF pt'] p' by fastforce
  moreover have "slot_queue s' (pt_idx p') = pt_queue p'" using slot_queue_set_port(2) [OF pt' p'] by simp
  ultimately have "pt_queue p' = ms" using s'(2) by simp
  then show ?thesis using that [OF a c' q'(1) _ g p'] cr q(2) by simp
qed

text \<open>\<open>n\<close> receives in a row, and what they return.\<close>

fun recv_n :: "(nat \<Rightarrow> bool) \<Rightarrow> (lval \<Rightarrow> lval) \<Rightarrow> nat \<Rightarrow> int \<Rightarrow> nat \<Rightarrow> kstate \<Rightarrow> bufs \<Rightarrow> fault + (lerr + lval option) list \<times> kstate \<times> bufs" where
  "recv_n chk nk j h 0 s b = Inr ([], s, b)"
| "recv_n chk nk j h (Suc n) s b =
    bnd (api_tryrecv chk nk j h s b) (\<lambda>(r, s, b). bnd (recv_n chk nk j h n s b) (\<lambda>(rs, s, b). Inr (r # rs, s, b)))"

definition plain_msg :: "bufs \<Rightarrow> lval \<Rightarrow> kmsg" where
  "plain_msg b v = new_kmsg (enc b v) [] []"

definition sendable :: "(lval \<Rightarrow> lval) \<Rightarrow> bufs \<Rightarrow> lval \<Rightarrow> bool" where
  "sendable nk b v \<longleftrightarrow> plain nk b v \<and> ldepth v \<le> MAXDEPTH \<and> length (enc b v) \<le> MAXMSG"

lemma received_all:
  assumes "callable rank G C s b1" "k_procs s j = Some q" "pr_waiters q = []" "right_get q h = Some (k, r)" "r_recv r"
    "k_pheap s (r_port r) = Some p" "pt_queue p = map (plain_msg b) vs" "\<forall>d. chk d" "\<forall>v\<in>set vs. sendable nk b v"
  shows "\<exists>s' b' C' s''. recv_n chk nk j h (length vs) s b1 = Inr (map (\<lambda>v. Inr (Some (normv b v))) vs, s', b') \<and>
    callable rank G C' s' b' \<and> k_maxports s' = k_maxports s \<and> api_tryrecv chk nk j h s' b' = Inr (Inr None, s'', b')"
  using assms
proof (induction vs arbitrary: s b1 C q p)
  case Nil
  from port_pop_call [OF Nil(1,6)] Nil(7) obtain s'' where "port_pop (r_port r) s = Inr (None, s'')" by (auto split: option.splits)
  then have "api_tryrecv chk nk j h s b1 = Inr (Inr None, s'', b1)" using Nil by (simp add: api_tryrecv_def get_Some)
  then show ?case using Nil(1) by auto
next
  case (Cons v vs)
  have v: "plain nk b v" "ldepth v \<le> MAXDEPTH" "length (enc b v) \<le> MAXMSG" using Cons.prems(9) by (simp_all add: sendable_def)
  have pq: "pt_queue p = new_kmsg (enc b v) [] [] # map (plain_msg b) vs" using Cons.prems(7) by (simp add: plain_msg_def)
  obtain s1 b2 C1 q1 p1 where s1: "api_tryrecv chk nk j h s b1 = Inr (Inr (Some (normv b v)), s1, b2)" "callable rank G C1 s1 b2"
    "k_maxports s1 = k_maxports s" "k_procs s1 j = Some q1" "pr_waiters q1 = []" "right_get q1 h = Some (k, r)"
    "k_pheap s1 (r_port r) = Some p1" "pt_queue p1 = map (plain_msg b) vs"
    by (rule received_plain [OF Cons.prems(1-6) pq Cons.prems(8) v])
  from Cons.IH [OF s1(2,4-6) Cons.prems(5) s1(7,8) Cons.prems(8)] Cons.prems(9) obtain s' b' C' s'' where
    "recv_n chk nk j h (length vs) s1 b2 = Inr (map (\<lambda>v. Inr (Some (normv b v))) vs, s', b')"
    "callable rank G C' s' b'" "k_maxports s' = k_maxports s1" "api_tryrecv chk nk j h s' b' = Inr (Inr None, s'', b')" by auto
  then show ?case using s1(1,3) by auto
qed

text \<open>
  C4: what is sent is what is received, in the order it was sent. Take a port that is alive and holds only
  plain messages (those of values that carry no right and no moved buffer), with room for one more, and a
  plain value within the depth and size limits. When memory is granted and the stack checks pass, the
  send succeeds, and whoever holds the receive right then receives the values of the queue, oldest first,
  this one last, and after it nothing. A value arrives as its normal form \<open>normv\<close>: a float key with an integer
  value is that integer, and buffers sent as strings are strings.
\<close>

theorem send_delivers:
  assumes s: "sound s b"
    and i: "k_procs s i = Some qi" "right_get qi h = Some (k, r)"
    and j: "k_procs s j = Some qj" "pr_waiters qj = []" "right_get qj h' = Some (k', r')" "r_recv r'" "r_port r' = r_port r"
    and p: "k_pheap s (r_port r) = Some p" "\<not> pt_dead p" "pt_queue p = map (plain_msg b) vs" "pt_qbytes p + length (enc b v) \<le> MAXQUEUE"
    and v: "\<forall>v\<in>set (vs @ [v]). sendable nk b v"
    and m: "\<forall>d. chk d" "\<forall>n. k_memok s n"
  shows "\<exists>s' b' s'' b'' s3. api_send chk i h v s b = Inr (Inr Sent, s', b') \<and>
    recv_n chk nk j h' (length (vs @ [v])) s' b' = Inr (map (\<lambda>v. Inr (Some (normv b v))) (vs @ [v]), s'', b'') \<and>
    api_tryrecv chk nk j h' s'' b'' = Inr (Inr None, s3, b'') \<and> sound s'' b''"
proof -
  obtain rank G C where c: "callable rank G C s b" and mp: "k_maxports s \<le> 65536" using s by (auto simp: sound_def)
  have v1: "plain nk b v" "ldepth v \<le> MAXDEPTH" "length (enc b v) \<le> MAXMSG" using v by (simp_all add: sendable_def)
  obtain s1 b1 C1 where a: "api_send chk i h v s b = Inr (Inr Sent, s1, b1)" "callable rank G C1 s1 b1" "k_maxports s1 = k_maxports s"
    "k_portv s1 = k_portv s" "slot_queue s1 (pt_idx p) = pt_queue p @ [new_kmsg (enc b v) [] []]"
    "\<And>j. map_option (\<lambda>q. (rtable q, pr_waiters q)) (k_procs s1 j) = map_option (\<lambda>q. (rtable q, pr_waiters q)) (k_procs s j)"
    by (rule sent_plain [OF c mp i p(1,2,4) m(1) v1 m(2)]) (rule that)
  obtain q1 where q1: "k_procs s1 j = Some q1" "rtable q1 = rtable qj" "pr_waiters q1 = []" using a(6) [of j] j(1,2) by auto
  have g: "right_get q1 h' = Some (k', r')" using right_get_rtable [OF q1(2)] j(3) by simp
  have pi: "port_inv G C s" "port_inv G C1 s1" using c a(2) by (auto simp: callable_def pinv_def)
  obtain p1 where p1: "k_pheap s1 (r_port r') = Some p1" by (rule right_get_live [OF pi(2) q1(1) g])
  have "k_portv s1 (pt_idx p) = Some (r_port r')" using ptable_okD(1) [OF port_invD(1) [OF pi(1)] p(1)] a(4) j(5) by simp
  then have ix: "pt_idx p1 = pt_idx p" using ptable_okD(3) [OF port_invD(1) [OF pi(2)]] p1 by fastforce
  have "slot_queue s1 (pt_idx p1) = pt_queue p1" using slot_queue_set_port(2) [OF port_invD(1) [OF pi(2)] p1] by simp
  then have pq: "pt_queue p1 = map (plain_msg b) (vs @ [v])" using a(5) ix p(3) by (simp add: plain_msg_def)
  from received_all [OF a(2) q1(1,3) g j(4) p1 pq m(1) v] obtain s'' b'' C'' s3 where
    "recv_n chk nk j h' (length (vs @ [v])) s1 b1 = Inr (map (\<lambda>v. Inr (Some (normv b v))) (vs @ [v]), s'', b'')"
    "callable rank G C'' s'' b''" "k_maxports s'' = k_maxports s1" "api_tryrecv chk nk j h' s'' b'' = Inr (Inr None, s3, b'')" by blast
  then show ?thesis using a(1,3) mp by (auto simp: sound_def)
qed

section \<open>Nobody sleeps through it\<close>

text \<open>
  Where a proc is that will run again: \<open>READY\<close>, and on the bucket of a run queue its priority names, or in the
  hands of a cpu, which puts it there when it lets go.
\<close>

definition will_run :: "nat \<Rightarrow> kstate \<Rightarrow> bool" where
  "will_run i s \<longleftrightarrow> (\<exists>q. k_procs s i = Some q \<and> pr_status q = READY \<and>
     (pr_oncpu q \<noteq> 0 \<or> (\<exists>j<2. pr_onq q = Some j \<and> i \<in> set (rq_q (k_schedq s j) (rq_bucket (pr_pri q))))))"

text \<open>What a sleeper \<open>q\<close> in slot \<open>i\<close> has become: it will run, or it is stopped because a debugger had asked for that.\<close>

definition awoken :: "nat \<Rightarrow> kproc \<Rightarrow> kstate \<Rightarrow> bool" where
  "awoken i q s \<longleftrightarrow> (if dbg_stop_pending q then map_option pr_status (k_procs s i) = Some STOPPED else will_run i s)"

lemma woken_runs:
  assumes "pinv G C s" "k_procs s i = Some q'" "woken_up q q'"
  shows "awoken i q s"
proof (cases "dbg_stop_pending q")
  case False
  have ok: "rq_ok s" using assms(1) by (simp add: pinv_def wake_inv_def)
  have st: "pr_status q' = READY" "pr_oncpu q' = 0 \<longrightarrow> pr_onq q' \<noteq> None" using assms(3) False by (simp_all add: woken_up_def)
  have "j < 2 \<and> i \<in> set (rq_q (k_schedq s j) (rq_bucket (pr_pri q')))" if "pr_onq q' = Some j" for j
    using ok assms(2) that unfolding rq_ok_def on_bucket_def by blast
  then show ?thesis using False st assms(2) by (auto simp: awoken_def will_run_def)
qed (use assms in \<open>simp add: awoken_def woken_up_def\<close>)

text \<open>
  C5: a receiver that went to sleep on an empty port will run once a message is queued there. Between
  the test and the join of the list nothing can be queued, since both are one region, and whoever
  queues next finds the sleeper on the list and puts it on a run queue, or leaves that to the cpu that
  still has it in hand; only if a debugger had asked for a stop it is stopped instead. The send is one
  that succeeds and puts no cycle of rights in flight.
\<close>

theorem block_then_send_wakes:
  assumes s: "sound s b" and i: "k_procs s i = Some qi" "\<not> pr_woken qi" "right_get qi h = Some (k, r)"
    and bl: "api_block onco i h s = Inr (Yields, s1)"
    and j: "k_procs s1 j = Some qj" "right_get qj h' = Some (k', r')" "r_port r' = r_port r"
    and se: "no_cycle chk j h' v s1 b" "api_send chk j h' v s1 b = Inr (Inr Sent, s2, b2)"
  shows "\<exists>q1. k_procs s1 i = Some q1 \<and> pr_status q1 = BLOCKED \<and> awoken i q1 s2"
proof -
  obtain rank0 G C where c: "callable rank0 G C s b" and mp: "k_maxports s \<le> 65536" using s by (auto simp: sound_def)
  from api_block_ok [OF c i(1,2), of onco h] bl i(3) have
    b1: "callable rank0 G C s1 b" "parked i (r_port r) False s1" "k_maxports s1 = k_maxports s" by auto
  obtain q p w x where w: "k_procs s1 i = Some q" "pr_status q = BLOCKED" "k_pheap s1 (r_port r) = Some p" "w \<in> set (pt_waiters p)"
    "k_waits s1 w = Some x" "w_proc x = i" "\<not> w_send x" using b1(2) by (auto simp: parked_def)
  obtain rank where a: "acyc rank s1" and dn: "sends_down rank chk j v p s1 b" using se(1) j w(3) by (auto simp: no_cycle_def)
  have p': "k_pheap s1 (r_port r') = Some p" using w(3) j(3) by simp
  have m1: "k_maxports s1 \<le> 65536" using b1(3) mp by simp
  from api_send_ok [OF callable_rerank [OF b1(1) a] j(1) m1 j(2) p' dn] obtain rc len s' b' where
    "api_send chk j h' v s1 b = Inr (case rc of SEND_RAISED \<Rightarrow> Inl LuaRaised | SEND_UNSERIALIZABLE \<Rightarrow> Inl Unserializable
      | SEND_DEAD \<Rightarrow> Inr PortDead | SEND_FULL \<Rightarrow> Inr (PortFull len) | SEND_NOMEM \<Rightarrow> Inl NoMemQueueing | SEND_OK \<Rightarrow> Inr Sent, s', b')"
    and sd: "send_done rank G C j p (\<lambda>w t. serialize chk b j 0 v (send_reserved v s1) = Inr (SOk, w, t)) (s1, b) rc len (s', b')" by blast
  then have "rc = SEND_OK" "s' = s2" using se(2) by (cases rc; simp)+
  then have "roused False p s1 s2" "\<exists>G C. pinv G C s2" using sd by (auto simp: send_done_def callable_def)
  then show ?thesis using w woken_runs unfolding roused_def by blast
qed

text \<open>
  C19: a sender that waits for room will run once a message is taken off the queue: it is \<open>READY\<close> on a run queue
  or in the hands of a cpu, or stopped if a debugger had asked for that.
\<close>

theorem pop_wakes_senders:
  assumes "sound s b" "parked i a True s" "port_pop a s = Inr (Some m, s')"
  shows "\<exists>q. k_procs s i = Some q \<and> pr_status q = BLOCKED \<and> awoken i q s'"
proof -
  obtain rank G C where c: "callable rank G C s b" using assms(1) by (auto simp: sound_def)
  obtain q p w x where w: "k_procs s i = Some q" "pr_status q = BLOCKED" "k_pheap s a = Some p" "w \<in> set (pt_waiters p)"
    "k_waits s w = Some x" "w_proc x = i" "w_send x" using assms(2) by (auto simp: parked_def)
  from port_pop_call [OF c w(3)] assms(3) have "roused True p s s'" "\<exists>G C. pinv G C s'" by auto
  then show ?thesis using w woken_runs unfolding roused_def by blast
qed

section \<open>What a call takes and gives back\<close>

text \<open>
  C13: what a receive leaves, whatever bytes are queued. It returns; it adds at most \<open>MAXMSGRIGHTS\<close> handles to
  the receiver's table and changes none that was there. When it reports an error of its own (bytes that
  do not parse, no room for a handle or a buffer) or that there is no message, the table is as it was, and
  no reference and no chunk is lost. So a message arrives whole or not at all, unless lua raises an error
  in the middle of it, as it does for a table key that is nil or not a number: then the handles minted so
  far stay, and the references of the message and what is left of its buffers are lost.
\<close>

theorem receive_whole:
  assumes "accounted G L s b" "k_procs s i = Some q" "pr_waiters q = []"
  shows "\<exists>r s' b' q' G' L'. api_tryrecv chk nk i h s b = Inr (r, s', b') \<and> accounted G' L' s' b' \<and> k_procs s' i = Some q' \<and>
    (\<exists>mt. minted q q' mt) \<and> G \<le> G' \<and> L \<le> L' \<and> (r \<noteq> Inl LuaRaised \<longrightarrow> G' = G \<and> L' = L) \<and>
    ((\<forall>v. r \<noteq> Inr (Some v)) \<and> r \<noteq> Inl LuaRaised \<longrightarrow> rtable q' = rtable q)"
proof -
  obtain rank C where c: "callable rank G C s b" "unowned C b = L" and m: "k_maxports s \<le> 65536" using assms(1) by (auto simp: accounted_def)
  from tryrecv_ok [OF c(1) assms(2,3), of chk nk h] obtain r s' b' G' C' q' where
    r: "api_tryrecv chk nk i h s b = Inr (r, s', b')" "callable rank G' C' s' b'" "k_procs s' i = Some q'" "\<exists>mt. minted q q' mt"
    "(\<forall>v. r \<noteq> Inr (Some v)) \<and> r \<noteq> Inl LuaRaised \<longrightarrow> rtable q' = rtable q" "k_maxports s' = k_maxports s"
    "r \<noteq> Inl LuaRaised \<longrightarrow> G' = G \<and> unowned C' b' = unowned C b" "G \<le> G'" "unowned C b \<le> unowned C' b'" by blast
  have "accounted G' (unowned C' b') s' b'" using r(2,6) m by (auto simp: accounted_def)
  then show ?thesis using r c(2) by blast
qed

lemma receivable:
  assumes "pinv G C s" "k_procs s j = Some q" "rtable q n = Some x" "r_recv x"
  obtains p where "k_pheap s (r_port x) = Some p" "pt_nrecv p > 0"
proof -
  have i: "port_inv G C s" using assms(1) by (simp add: pinv_def)
  have r: "right_slot q (int n) = Some x" "r_used x" using assms(3) by (simp_all add: rtable_Some)
  then have n: "n < MAXRIGHTS" by (auto simp: right_slot_def split: if_splits)
  have h: "0 < held s (r_port x) True" using held_pos [OF i assms(2) n r] assms(4) by simp
  obtain p where p: "k_pheap s (r_port x) = Some p" "k_portv s (pt_idx p) = Some (r_port x)"
    using right_live [OF i assms(2), of n x] n r by auto
  have "pt_nrecv p = int (refs_of G s (pt_idx p) (r_port x) True)" using port_invD(2) [OF i] p unfolding counts_ok_def by blast
  then have "pt_nrecv p > 0" using h by (simp add: refs_of_def)
  then show ?thesis using that p(1) by blast
qed

text \<open>
  C14: a send that is refused leaves the sender and the queues as they were. If the port is dead or full,
  memory runs out, the value cannot be sent or lua raises an error on the way, every buffer is still its
  owner's with the bytes it had, every handle is still the sender's, every queue that a handle of any proc
  can receive from is exactly what it was, and no other queue has gained anything; full means that the
  message did not fit into what is left of \<open>MAXQUEUE\<close>. The condition on cycles of rights in flight is that of C1.
\<close>

theorem refused_send_keeps:
  assumes s: "sound s b" and q: "k_procs s i = Some q" "right_get q h = Some (k, r)" "k_pheap s (r_port r) = Some p"
    and n: "no_cycle chk i h v s b" and a: "api_send chk i h v s b = Inr (rc, s', b')" "rc \<noteq> Inr Sent"
  shows "bs_obj b' = bs_obj b \<and> (\<forall>c. pointed b c \<longrightarrow> bs_mem b' c = bs_mem b c) \<and>
    (\<forall>j qj m x. k_procs s j = Some qj \<and> rtable qj m = Some x \<and> r_recv x \<longrightarrow>
       (\<exists>pj pj'. k_pheap s (r_port x) = Some pj \<and> k_pheap s' (r_port x) = Some pj' \<and> pt_queue pj' = pt_queue pj)) \<and>
    (\<forall>j. set (slot_queue s' j) \<subseteq> set (slot_queue s j)) \<and> sound s' b' \<and>
    (\<exists>q'. k_procs s' i = Some q' \<and> rtable q' = rtable q) \<and> (rc = Inr PortDead \<longrightarrow> pt_dead p) \<and>
    (\<forall>len. rc = Inr (PortFull len) \<longrightarrow> pt_qbytes p + len > MAXQUEUE)"
proof -
  obtain rank0 G C where c: "callable rank0 G C s b" and m: "k_maxports s \<le> 65536" using s by (auto simp: sound_def)
  obtain rank where ac: "acyc rank s" and dn: "sends_down rank chk i v p s b" using n q by (auto simp: no_cycle_def)
  from api_send_ok [OF callable_rerank [OF c ac] q(1) m q(2,3) dn] obtain rc0 len s1 b1 where
    e: "api_send chk i h v s b = Inr (case rc0 of SEND_RAISED \<Rightarrow> Inl LuaRaised | SEND_UNSERIALIZABLE \<Rightarrow> Inl Unserializable
      | SEND_DEAD \<Rightarrow> Inr PortDead | SEND_FULL \<Rightarrow> Inr (PortFull len) | SEND_NOMEM \<Rightarrow> Inl NoMemQueueing | SEND_OK \<Rightarrow> Inr Sent, s1, b1)"
    and sd0: "send_done rank G C i p (\<lambda>w t. serialize chk b i 0 v (send_reserved v s) = Inr (SOk, w, t)) (s, b) rc0 len (s1, b1)" by blast
  have rc: "rc0 \<noteq> SEND_OK" "s1 = s'" "b1 = b'" using e a by auto
  have dead: "rc = Inr PortDead \<longrightarrow> rc0 = SEND_DEAD" "\<forall>n. rc = Inr (PortFull n) \<longrightarrow> rc0 = SEND_FULL \<and> n = len"
    using e a by (cases rc0; auto)+
  note sd = sd0 [unfolded rc(2,3)]
  obtain G' C' where cl: "callable rank G' C' s' b'" "k_maxports s' = k_maxports s" using sd by (auto simp: send_done_def)
  have so: "sound s' b'" using cl m by (auto simp: sound_def)
  have rt: "map_option rtable (k_procs s' j) = map_option rtable (k_procs s j)" for j
    using sd core_known [of "k_procs s' j" "k_procs s j"]
    by (cases "j = i"; cases "k_procs s' j"; cases "k_procs s j") (auto simp: send_done_def)
  have kept: "queues_kept s s'" using sd rc(1) by (simp add: send_done_def)
  have "\<exists>pj pj'. k_pheap s (r_port x) = Some pj \<and> k_pheap s' (r_port x) = Some pj' \<and> pt_queue pj' = pt_queue pj"
    if x: "k_procs s j = Some qj \<and> rtable qj m = Some x \<and> r_recv x" for j qj m x
  proof -
    obtain qj' where q': "k_procs s' j = Some qj'" "rtable qj' m = Some x" using rt [of j] x by (cases "k_procs s' j") auto
    have "pinv G' C' s'" using cl(1) by (simp add: callable_def)
    from receivable [OF this q'] x obtain pj' where "k_pheap s' (r_port x) = Some pj'" "pt_nrecv pj' > 0" by blast
    then show ?thesis using kept unfolding queues_kept_def by blast
  qed
  moreover have "\<exists>q'. k_procs s' i = Some q' \<and> rtable q' = rtable q" using rt [of i] q(1) by auto
  moreover have "rc0 = SEND_DEAD \<longrightarrow> pt_dead p" "rc0 = SEND_FULL \<longrightarrow> pt_qbytes p + len > MAXQUEUE" "bs_obj b' = bs_obj b"
    "\<forall>c. pointed b c \<longrightarrow> bs_mem b' c = bs_mem b c" "\<forall>j. set (slot_queue s' j) \<subseteq> set (slot_queue s j)"
    using sd rc(1) by (simp_all add: send_done_def)
  ultimately show ?thesis using dead so by blast
qed

text \<open>
  C39: \<open>sys.newport\<close> reports that it is out of rights only after it has made the port, and leaves it
  behind: a slot of the port table that was free is taken, and no right is left that could free it.
\<close>

theorem newport_orphans:
  assumes s: "sound s b" "k_procs s i = Some q" "pr_waiters q = []" and r: "api_newport i tag lwhere s = Inr (Inl OutOfRights, s')"
  shows "\<exists>j. k_portv s j = None \<and> orphan s' j"
proof -
  obtain rank G C where c: "callable rank G C s b" using s by (auto simp: sound_def)
  from newport_ok [OF c s(2,3), of tag lwhere] r show ?thesis by auto
qed

text \<open>
  C40: \<open>sys.close\<close> looks a handle up by its low 32 bits but refuses handle 0 by all 64, so a handle that is
  a nonzero multiple of two to the 32 closes the proc's own port.
\<close>

theorem close_truncates:
  assumes s: "sound s b" "k_procs s i = Some q" "pr_waiters q = []" and r: "rtable q 0 = Some x" and h: "h = 2 ^ 32 * n" "n \<noteq> 0"
  shows "\<exists>s' q'. api_close i h s = Inr (Inr (), s') \<and> k_procs s' i = Some q' \<and> rtable q' = (rtable q)(0 := None)"
proof -
  obtain rank G C where c: "callable rank G C s b" using s by (auto simp: sound_def)
  have "(word_of_int h :: 32 word) = 0" unfolding h(1) by transfer (simp add: take_bit_eq_mod)
  then have "c_int h = 0" by (simp add: c_int_def)
  then have g: "right_get q h = Some (0, x)" "h \<noteq> 0" using r h by (simp_all add: right_get_def rtable_Some)
  from close_ok [OF c s(2,3), of h] obtain r s' where "api_close i h s = Inr (r, s')"
    "case r of Inr _ \<Rightarrow> h \<noteq> 0 \<and> (\<exists>n x. right_get q h = Some (n, x) \<and> caller i s' ((rtable q)(n := None)))
     | Inl e \<Rightarrow> caller i s' (rtable q) \<and> (e = BadRight \<and> right_get q h = None \<or> e = SelfPort \<and> h = 0 \<and> right_get q h \<noteq> None)"
    by blast
  then show ?thesis using g by (cases r) (auto simp: caller_def)
qed

section \<open>States to try them on\<close>

text \<open>Beside the sender of \<open>demo3\<close> a proc in slot 1 that holds the receive right of the same port as its handle 0.\<close>

definition demo4 :: kstate where
  "demo4 = set_port (set_proc (set_proc demo3 1 demo_proc) 1 (right_fill demo_proc 0 1 True)) 1
     (port_ref_inc True ((new_kport 0 1)\<lparr>pt_nrights := 2\<rparr>))"

lemma demo4_inv: "pinv demo_owned (\<lambda>_. 0) demo4"
proof -
  have mp: "k_maxprocs demo3 = 2" by (simp add: demo3_def demo0_eval)
  have "pinv demo_owned (\<lambda>_. 0) (set_proc demo3 1 demo_proc)"
    by (rule pinv_new_proc [OF demo3_inv])
      (simp_all add: demo3_eval mp demo_proc_slot held_by_def right_is_def, simp_all add: demo_proc_def kproc0_def)
  then show ?thesis unfolding demo4_def
    by (rule right_fill_inv [where r = "\<lparr>r_port = 0, r_recv = False, r_used = False\<rparr>"])
      (simp_all add: demo3_eval demo_proc_slot)
qed

lemma demo4_eval:
  "k_procs demo4 = [0 \<mapsto> right_fill demo_proc 0 1 False, 1 \<mapsto> right_fill demo_proc 0 1 True]" "k_maxports demo4 = 4"
  "k_pheap demo4 = [1 \<mapsto> (new_kport 0 1)\<lparr>pt_nrights := 3, pt_nrecv := 1\<rparr>, 2 \<mapsto> (new_kport 1 2)\<lparr>pt_nrights := 1\<rparr>]"
  "k_portv demo4 = [0 \<mapsto> 1, 1 \<mapsto> 2]" "k_memok demo4 = (\<lambda>_. True)" "k_chunks demo4 = Map.empty"
proof -
  have "k_chunks demo3 = Map.empty"
    by (simp add: demo3_def demo0_def port_keep_def demo2_eval) (simp add: demo2_def port_new_def kmalloc_def kzero_def port_install_def upt_rec numeral_2_eq_2)
  then show "k_procs demo4 = [0 \<mapsto> right_fill demo_proc 0 1 False, 1 \<mapsto> right_fill demo_proc 0 1 True]" "k_maxports demo4 = 4"
  "k_pheap demo4 = [1 \<mapsto> (new_kport 0 1)\<lparr>pt_nrights := 3, pt_nrecv := 1\<rparr>, 2 \<mapsto> (new_kport 1 2)\<lparr>pt_nrights := 1\<rparr>]"
  "k_portv demo4 = [0 \<mapsto> 1, 1 \<mapsto> 2]" "k_memok demo4 = (\<lambda>_. True)" "k_chunks demo4 = Map.empty"
    by (auto simp: demo4_def demo3_eval port_ref_inc_def new_kport_def fun_upd_twist)
qed

lemma demo4_callable: "callable rank demo_owned (\<lambda>_. 0) demo4 bufs0"
proof -
  have sq: "slot_queue demo4 j = []" for j by (simp add: slot_queue_def port_at_def demo4_eval new_kport_def)
  have kb: "k_buckets demo4 = k_buckets (kzero 4 2 1 (\<lambda>_. True))" by (simp add: demo4_def demo3_def demo0_eval)
  have "locks_ok demo4" using demo3_locks(1) locks_ok_cong [of demo4 demo3] by (simp add: kb demo3_def demo0_eval)
  moreover have "b_owner (k_buckets demo4 j) = None" for j unfolding kb by (simp add: kzero_def)
  ultimately have "idle demo4" by (simp add: idle_def)
  moreover have "carried (\<lambda>_. 0) [] demo4 bufs0"
    using bufs0_wf by (simp add: carried_def shared_def sized_def demo4_eval pointed_def) (simp add: bufs0_def)
  ultimately show ?thesis using demo4_inv sq by (simp add: callable_def acyc_def queues_sized_def qrefs_def)
qed

lemma demo4_accounted: "accounted demo_owned (\<lambda>_. 0) demo4 bufs0"
proof -
  have "unowned (\<lambda>_. 0) bufs0 = (\<lambda>_. 0)" by (simp add: unowned_def)
  then show ?thesis using demo4_callable unfolding accounted_def by (auto simp: demo4_eval)
qed

lemma demo4_sound: "sound demo4 bufs0"
  by (rule accounted_sound [OF demo4_accounted])


lemma demo4_right:
  "right_get (right_fill demo_proc 0 1 x) 0 = Some (0, new_right 1 x)" "pr_waiters (right_fill demo_proc 0 1 x) = []"
  "\<not> pr_woken (right_fill demo_proc 0 1 x)" "\<not> pr_w0used (right_fill demo_proc 0 1 x)"
  by (auto simp: right_get_def right_slot_def right_fill_def set_right_def demo_proc_def kproc0_def c_int_def Let_def)

lemma demo4_procs:
  "k_procs demo4 0 = Some (right_fill demo_proc 0 1 False)" "k_procs demo4 1 = Some (right_fill demo_proc 0 1 True)"
  "k_pheap demo4 1 = Some ((new_kport 0 1)\<lparr>pt_nrights := 3, pt_nrecv := 1\<rparr>)"
  by (simp_all add: demo4_eval)

lemma demo4_resumed: "resumed 0 demo4" "resumed 1 demo4"
  using demo4_procs demo4_right by (auto simp: resumed_def)

lemma demo_plain: "plain nk b (LInt 5)" "ldepth (LInt 5) \<le> MAXDEPTH" "length (enc b (LInt 5)) \<le> MAXMSG" "normv b (LInt 5) = LInt 5"
  by (simp_all add: bstr_def)

theorem sys_sound_witness:
  "accounted demo_owned (\<lambda>_. 0) demo4 bufs0 \<and>
   (\<exists>s'. sysrun (demo4, bufs0) True False (s', reclaim s' bufs0) \<and> accounted demo_owned (\<lambda>_. 0) s' (reclaim s' bufs0))"
proof -
  from newport_ok [OF demo4_callable demo4_procs(1) demo4_right(2), where tag = "''a''" and lwhere = "[]"] obtain r s' where
    "api_newport 0 ''a'' [] demo4 = Inr (r, s')" by blast
  from run_step [OF run_none s_newport [OF demo4_resumed(1) this]] have st: "sysrun (demo4, bufs0) True False (s', reclaim s' bufs0)" by simp
  show ?thesis using demo4_accounted st sys_sound [OF st demo4_accounted] by blast
qed

theorem calls_never_fault_witness:
  "sysrun (demo4, bufs0) True False (demo4, bufs0) \<and> sound demo4 bufs0 \<and> resumed 1 demo4 \<and> no_cycle (\<lambda>_. True) 1 0 (LInt 5) demo4 bufs0 \<and>
   api_tryrecv (\<lambda>_. True) id 1 0 demo4 bufs0 \<noteq> Inl UseAfterFree \<and> api_send (\<lambda>_. True) 1 0 (LInt 5) demo4 bufs0 \<noteq> Inl UseAfterFree"
proof -
  have tt: "\<forall>d. (\<lambda>_. True) (d :: nat)" and m: "\<forall>n. k_memok demo4 n" by (simp_all add: demo4_eval)
  obtain w t where w: "serialize (\<lambda>_. True) bufs0 1 0 (LInt 5) (send_reserved (LInt 5) demo4) = Inr (SOk, w, t)" "wb_refs w = []"
    using plain_written [where b = bufs0 and i = 1, OF tt demo_plain(1) [of id] demo_plain(2,3) m] by metis
  then have n: "no_cycle (\<lambda>_. True) 1 0 (LInt 5) demo4 bufs0"
    using demo4_callable [of "\<lambda>_. 0"] by (auto simp: no_cycle_def sends_down_def callable_def)
  show ?thesis
    using calls_never_fault [OF run_none demo4_sound demo4_resumed(2), of "\<lambda>_. True" id 0 UseAfterFree "LInt 5"]
      n demo4_sound demo4_resumed(2) run_none by blast
qed

theorem block_then_send_wakes_witness:
  "sound demo4 bufs0 \<and> (\<exists>s1 s2 b2. api_block True 1 0 demo4 = Inr (Yields, s1) \<and> api_send (\<lambda>_. True) 0 0 (LInt 5) s1 bufs0 = Inr (Inr Sent, s2, b2) \<and>
     (\<exists>q1. k_procs s1 1 = Some q1 \<and> pr_status q1 = BLOCKED \<and> awoken 1 q1 s2))"
proof -
  let ?p = "(new_kport 0 1)\<lparr>pt_nrights := 3, pt_nrecv := 1\<rparr>"
  have e: "pt_queue ?p = []" "\<not> pt_dead ?p" by (simp_all add: new_kport_def)
  from api_block_ok [OF demo4_callable [of "\<lambda>_. 0"] demo4_procs(2) demo4_right(3), of True 0] obtain rc s1 where
    b: "api_block True 1 0 demo4 = Inr (rc, s1)" "callable (\<lambda>_. 0) demo_owned (\<lambda>_. 0) s1 bufs0" "k_maxports s1 = k_maxports demo4"
    "listed demo4 s1" "calm {1} demo4 s1"
    and "rc = Yields" using demo4_right demo4_procs(3) e(1) by auto
  have m: "\<forall>n. k_memok s1 n" "k_maxports s1 \<le> 65536" using b(3,4) by (simp_all add: listed_def demo4_eval)
  have "map_option core_proc (k_procs s1 0) = map_option core_proc (k_procs demo4 0)" using b(5) by (simp add: calm_def)
  then obtain q where q: "k_procs s1 0 = Some q" "core_proc q = core_proc (right_fill demo_proc 0 1 False)" using demo4_procs(1) by auto
  have g: "right_get q 0 = Some (0, new_right 1 False)" using right_get_rtable [of q] core_rtable [OF q(2)] demo4_right(1) by simp
  have "map_option core_port (k_pheap s1 1) = Some (core_port ?p)" using b(4) demo4_procs(3) by (simp add: listed_def)
  then obtain p where p: "k_pheap s1 (r_port (new_right 1 False)) = Some p" "core_port p = core_port ?p" by auto
  have "pt_qbytes p = 0" using p(2) core_port_sel(6) [of p] core_port_sel(6) [of ?p] by (simp add: new_kport_def)
  then have pe: "\<not> pt_dead p" "pt_qbytes p + length (enc bufs0 (LInt 5)) \<le> MAXQUEUE" using core_port_eqD(4) [OF p(2)] e by (simp_all add: bstr_def)
  have t: "\<forall>d. (\<lambda>_. True) (d :: nat)" by simp
  obtain w t where w: "serialize (\<lambda>_. True) bufs0 0 0 (LInt 5) (send_reserved (LInt 5) s1) = Inr (SOk, w, t)" "wb_refs w = []"
    using plain_written [where b = bufs0 and i = 0, OF t demo_plain(1) [of id] demo_plain(2,3) m(1)] by metis
  have n: "no_cycle (\<lambda>_. True) 0 0 (LInt 5) s1 bufs0" using b(2) w by (auto simp: no_cycle_def sends_down_def callable_def)
  obtain s2 b2 where s2: "api_send (\<lambda>_. True) 0 0 (LInt 5) s1 bufs0 = Inr (Inr Sent, s2, b2)"
    by (rule sent_plain [OF b(2) m(2) q(1) g p(1) pe t demo_plain(1) [of id] demo_plain(2,3) m(1)])
  have "api_block True 1 0 demo4 = Inr (Yields, s1)" using b(1) \<open>rc = Yields\<close> by simp
  from block_then_send_wakes [OF demo4_sound demo4_procs(2) demo4_right(3,1) this q(1) g _ n s2] this s2 demo4_sound
  show ?thesis by auto
qed

text \<open>The same with one byte queued at the first port, so that there is no room for a message of the largest size.\<close>

definition demo5 :: kstate where
  "demo5 = set_port demo4 1 (port_enqueue (new_kmsg [84] [] []) ((new_kport 0 1)\<lparr>pt_nrights := 3, pt_nrecv := 1\<rparr>))"

lemma demo5_eval:
  "k_procs demo5 = k_procs demo4" "k_maxports demo5 = 4" "k_chunks demo5 = k_chunks demo4"
  "k_pheap demo5 1 = Some (port_enqueue (new_kmsg [84] [] []) ((new_kport 0 1)\<lparr>pt_nrights := 3, pt_nrecv := 1\<rparr>))"
  "slot_queue demo5 = (\<lambda>j. if j = 0 then [new_kmsg [84] [] []] else [])"
  by (auto simp: demo5_def demo4_eval slot_queue_def port_at_def port_enqueue_def new_kport_def fun_eq_iff)

lemma demo5_callable: "callable rank demo_owned (\<lambda>_. 0) demo5 bufs0"
proof -
  have "pinv demo_owned (\<lambda>_. 0) demo5"
    unfolding demo5_def using demo4_inv
    by (intro enqueue_inv [where refs = "[]" and bufs = "[]"]) (simp_all add: demo4_eval new_kmsg_def new_kport_def msgbufs_bytes_def)
  moreover have "idle demo5" using demo4_callable by (simp add: callable_def idle_def locks_ok_def demo5_def)
  moreover have "carried (\<lambda>_. 0) [] demo5 bufs0" using demo4_callable carried_cong [of demo5 demo4] by (simp add: callable_def demo5_eval)
  ultimately show ?thesis by (simp add: callable_def acyc_def queues_sized_def sized_def qrefs_def demo5_eval new_kmsg_def)
qed

lemma demo5_accounted: "accounted demo_owned (\<lambda>_. 0) demo5 bufs0"
proof -
  have "unowned (\<lambda>_. 0) bufs0 = (\<lambda>_. 0)" by (simp add: unowned_def)
  then show ?thesis using demo5_callable unfolding accounted_def by (auto simp: demo5_eval)
qed

lemma demo5_sound: "sound demo5 bufs0"
  by (rule accounted_sound [OF demo5_accounted])

theorem send_delivers_witness:
  "sound demo5 bufs0 \<and> (\<exists>s' b' s'' b''. api_send (\<lambda>_. True) 0 0 (LInt 5) demo5 bufs0 = Inr (Inr Sent, s', b') \<and>
     recv_n (\<lambda>_. True) id 1 0 2 s' b' = Inr ([Inr (Some (LBool True)), Inr (Some (LInt 5))], s'', b''))"
proof -
  let ?p = "port_enqueue (new_kmsg [84] [] []) ((new_kport 0 1)\<lparr>pt_nrights := 3, pt_nrecv := 1\<rparr>)"
  have p: "\<not> pt_dead ?p" "pt_queue ?p = map (plain_msg bufs0) [LBool True]" "pt_qbytes ?p + length (enc bufs0 (LInt 5)) \<le> MAXQUEUE"
    by (simp_all add: new_kport_def port_enqueue_def plain_msg_def new_kmsg_def msgbufs_bytes_def bstr_def)
  have ph: "k_pheap demo5 (r_port (new_right 1 False)) = Some ?p" using demo5_eval(4) by simp
  have q: "k_procs demo5 0 = Some (right_fill demo_proc 0 1 False)" "k_procs demo5 1 = Some (right_fill demo_proc 0 1 True)"
    using demo4_procs by (simp_all add: demo5_eval)
  have m: "\<forall>d. (\<lambda>_. True) (d :: nat)" "\<forall>n. k_memok demo5 n" by (simp_all add: demo4_eval demo5_def)
  have v: "\<forall>v\<in>set ([LBool True] @ [LInt 5]). sendable id bufs0 v" by (simp add: sendable_def bstr_def)
  show ?thesis
    using send_delivers [where chk = "\<lambda>_. True" and nk = id, OF demo5_sound q(1) demo4_right(1) q(2) demo4_right(2,1) _ _ ph p v m]
      demo5_sound by (auto simp: bstr_def numeral_2_eq_2)
qed

theorem pop_wakes_senders_witness:
  "\<exists>s m s'. api_sendblock True 0 0 (int MAXQUEUE) demo5 = Inr (Yields, s) \<and> sound s bufs0 \<and> parked 0 1 True s \<and> port_pop 1 s = Inr (Some m, s') \<and>
     (\<exists>q. k_procs s 0 = Some q \<and> pr_status q = BLOCKED \<and> awoken 0 q s')"
proof -
  let ?p = "port_enqueue (new_kmsg [84] [] []) ((new_kport 0 1)\<lparr>pt_nrights := 3, pt_nrecv := 1\<rparr>)"
  have q: "k_procs demo5 0 = Some (right_fill demo_proc 0 1 False)" using demo4_procs(1) by (simp add: demo5_eval)
  have e: "\<not> pt_dead ?p" "pt_qbytes ?p = 1" "pt_idx ?p = 0"
    by (simp_all add: port_enqueue_def new_kport_def new_kmsg_def msgbufs_bytes_def)
  from api_sendblock_ok [OF demo5_callable [of "\<lambda>_. 0"] q demo4_right(3), of True 0 "int MAXQUEUE"] obtain rc s where
    b: "api_sendblock True 0 0 (int MAXQUEUE) demo5 = Inr (rc, s)" "callable (\<lambda>_. 0) demo_owned (\<lambda>_. 0) s bufs0" "k_maxports s = k_maxports demo5"
    "slot_queue s = slot_queue demo5" "listed demo5 s" and pk: "parked 0 1 True s" and "rc = Yields"
    using demo4_right demo5_eval(4) e by auto
  have so: "sound s bufs0" using b(2,3) by (auto simp: sound_def demo5_eval)
  have "map_option core_port (k_pheap s 1) = map_option core_port (k_pheap demo5 1)" using b(5) unfolding listed_def by blast
  then obtain p where p: "k_pheap s 1 = Some p" "core_port p = core_port ?p" using demo5_eval(4) by auto
  have "pt_queue p \<noteq> []" using core_port_eqD(5) [OF p(2)] by (simp add: port_enqueue_def)
  with port_pop_call [OF b(2) p(1)] obtain m s' where pop: "port_pop 1 s = Inr (Some m, s')" by (auto split: option.splits)
  show ?thesis using pop_wakes_senders [OF so pk pop] b(1) \<open>rc = Yields\<close> so pk pop by blast
qed

theorem receive_whole_witness:
  "accounted demo_owned (\<lambda>_. 0) demo5 bufs0 \<and> (\<exists>r s' b' G L. api_tryrecv (\<lambda>_. True) id 1 0 demo5 bufs0 = Inr (r, s', b') \<and> accounted G L s' b')"
proof -
  have q: "k_procs demo5 1 = Some (right_fill demo_proc 0 1 True)" using demo4_procs(2) by (simp add: demo5_eval)
  show ?thesis using demo5_accounted receive_whole [OF demo5_accounted q demo4_right(2), of "\<lambda>_. True" id 0] by blast
qed

theorem refused_send_keeps_witness:
  "sound demo4 bufs0 \<and> no_cycle (\<lambda>_. True) 0 0 LOther demo4 bufs0 \<and>
   (\<exists>rc s' b'. api_send (\<lambda>_. True) 0 0 LOther demo4 bufs0 = Inr (rc, s', b') \<and> rc \<noteq> Inr Sent \<and> bs_obj b' = bs_obj bufs0)"
proof -
  have f: "serialize (\<lambda>_. True) bufs0 0 0 LOther (send_reserved LOther demo4) \<noteq> Inr (SOk, x)" for x by (simp add: serialize.simps)
  then have n: "no_cycle (\<lambda>_. True) 0 0 LOther demo4 bufs0"
    using demo4_callable [of "\<lambda>_. 0"] by (auto simp: no_cycle_def sends_down_def callable_def split: sum.splits src.splits)
  have p: "k_pheap demo4 (r_port (new_right 1 False)) = Some ((new_kport 0 1)\<lparr>pt_nrights := 3, pt_nrecv := 1\<rparr>)" by (simp add: demo4_eval)
  have m: "k_maxports demo4 \<le> 65536" by (simp add: demo4_eval)
  from n p obtain rank where "acyc rank demo4" and dn: "sends_down rank (\<lambda>_. True) 0 LOther ((new_kport 0 1)\<lparr>pt_nrights := 3, pt_nrecv := 1\<rparr>) demo4 bufs0"
    using demo4_procs(1) demo4_right(1) unfolding no_cycle_def by blast
  from api_send_ok [OF demo4_callable demo4_procs(1) m demo4_right(1) p dn] obtain x len s' b' where
    "api_send (\<lambda>_. True) 0 0 LOther demo4 bufs0 = Inr (case x of SEND_RAISED \<Rightarrow> Inl LuaRaised | SEND_UNSERIALIZABLE \<Rightarrow> Inl Unserializable
      | SEND_DEAD \<Rightarrow> Inr PortDead | SEND_FULL \<Rightarrow> Inr (PortFull len) | SEND_NOMEM \<Rightarrow> Inl NoMemQueueing | SEND_OK \<Rightarrow> Inr Sent, s', b')"
    "send_done rank demo_owned (\<lambda>_. 0) 0 ((new_kport 0 1)\<lparr>pt_nrights := 3, pt_nrecv := 1\<rparr>)
      (\<lambda>w t. serialize (\<lambda>_. True) bufs0 0 0 LOther (send_reserved LOther demo4) = Inr (SOk, w, t)) (demo4, bufs0) x len (s', b')" by blast
  moreover from this f have "x \<noteq> SEND_OK" by (simp add: send_done_def) (metis (no_types))
  ultimately obtain rc where a: "api_send (\<lambda>_. True) 0 0 LOther demo4 bufs0 = Inr (rc, s', b')" "rc \<noteq> Inr Sent" by (cases x) auto
  show ?thesis using refused_send_keeps [OF demo4_sound demo4_procs(1) demo4_right(1) p n a] demo4_sound n a by blast
qed

theorem close_truncates_witness:
  "sound demo4 bufs0 \<and> (\<exists>s' q'. api_close 1 4294967296 demo4 = Inr (Inr (), s') \<and> k_procs s' 1 = Some q' \<and> rtable q' 0 = None)"
proof -
  have r: "rtable (right_fill demo_proc 0 1 True) 0 = Some (new_right 1 True)"
    by (simp add: rtable_Some right_slot_def right_fill_def set_right_def Let_def)
  show ?thesis using close_truncates [OF demo4_sound demo4_procs(2) demo4_right(2) r, of 4294967296 1] demo4_sound by auto
qed

text \<open>The first proc again, with its hint at the end of the table, as it is after the last slot was filled.\<close>

definition demo6 :: kstate where
  "demo6 = set_proc demo4 0 ((right_fill demo_proc 0 1 False)\<lparr>pr_rhint := MAXRIGHTS\<rparr>)"

lemma demo6_callable: "callable rank demo_owned (\<lambda>_. 0) demo6 bufs0"
proof -
  have "caller 0 demo4 (rtable (right_fill demo_proc 0 1 False))" using demo4_procs(1) demo4_right(2) by (auto simp: caller_def)
  from callable_hint [OF demo4_callable this, where n = MAXRIGHTS] show ?thesis using demo4_procs(1) by (metis demo6_def option.inject)
qed

lemma demo6_newport: "\<exists>s'. api_newport 0 [] [] demo6 = Inr (Inl OutOfRights, s')"
proof -
  obtain t where t: "ipclock_enter demo6 = Inr t" "k_procs t = k_procs demo6" "nolocks t = nolocks demo6" by (rule region_enter [OF demo6_callable])
  let ?q = "(right_fill demo_proc 0 1 False)\<lparr>pr_rhint := MAXRIGHTS\<rparr>"
  have q: "k_procs t 0 = Some ?q" "port_budget_left ?q" using t(2)
    by (simp_all add: demo6_def port_budget_left_def right_fill_def set_right_def Let_def demo_proc_def kproc0_def)
  have m: "k_maxports t = 4" "k_portv t = [0 \<mapsto> 1, 1 \<mapsto> 2]" "k_memok t = (\<lambda>_. True)"
    using nolocks_sel [OF t(3)] by (simp_all add: demo6_def demo4_eval)
  show ?thesis
    using t(1) q by (simp add: api_newport_def get_Some port_new_def m kmalloc_def upt_rec port_install_def right_new_def port_stamp_def get_port_def)
qed

theorem newport_orphans_witness:
  "sound demo6 bufs0 \<and> (\<exists>s' j. api_newport 0 [] [] demo6 = Inr (Inl OutOfRights, s') \<and> k_portv demo6 j = None \<and> orphan s' j)"
proof -
  have s: "sound demo6 bufs0" using demo6_callable by (auto simp: sound_def demo6_def demo4_eval)
  have q: "k_procs demo6 0 = Some ((right_fill demo_proc 0 1 False)\<lparr>pr_rhint := MAXRIGHTS\<rparr>)" by (simp add: demo6_def)
  obtain s' where e: "api_newport 0 [] [] demo6 = Inr (Inl OutOfRights, s')" using demo6_newport by blast
  show ?thesis using newport_orphans [OF s q _ e] demo4_right(2) s e by auto
qed

end
