(* ===== verification/Pmm.thy ===== *)
theory Pmm
  imports Bytes
begin

text \<open>
  The memory of the machine: the first-fit arena of \<open>src/src/platform/microvm/pmm.c\<close> and
  \<open>malloc\<close>, \<open>free\<close>, \<open>calloc\<close>, \<open>realloc\<close> of \<open>src/src/platform/microvm/malloc.c\<close> over it.

  \<^item> A \<open>struct pmm_block\<close> is the pair of its address and its size, the hole list the list of
    them; the two words at the start of a hole (\<open>size\<close> and \<open>next\<close>) are the list itself.
    \<open>size_t\<close> arithmetic wraps at 64 bits where the source can reach it.
  \<^item> \<open>pmmlock\<close> is held over every walk, so each operation is one step here.
  \<^item> The list is canonical: the invariant \<open>fl_ok\<close> keeps it in address order with no two holes
    touching, and a list with that invariant is determined by the set of free bytes
    (\<open>fl_canonical\<close>). What an operation does is then what it does to that set.
  \<^item> \<open>malloc\<close> writes its header into memory in front of what it returns; \<open>free\<close> and \<open>realloc\<close>
    read it back.
\<close>

abbreviation (input) ALIGN :: nat where "ALIGN \<equiv> 16"
abbreviation (input) MAGIC :: nat where "MAGIC \<equiv> 0x6c75616f73"

type_synonym pmm_block = "nat \<times> nat"

record pmm =
  freelist :: "pmm_block list"
  arena_bytes :: nat

definition align_up :: "nat \<Rightarrow> nat" where
  "align_up n = (n + (ALIGN - 1)) mod 2 ^ 64 div ALIGN * ALIGN"

definition block_size :: "nat \<Rightarrow> nat" where
  "block_size n = (let n = align_up n in if n < 16 then 16 else n)"

definition freelist_insert :: "pmm_block \<Rightarrow> pmm_block list \<Rightarrow> pmm_block list" where
  "freelist_insert b l =
    (let pre = takeWhile (\<lambda>c. fst c < fst b) l;
         post = dropWhile (\<lambda>c. fst c < fst b) l;
         (b, rest) = (case post of
            [] \<Rightarrow> (b, [])
          | cur # next \<Rightarrow>
              if fst b + snd b = fst cur then ((fst b, snd b + snd cur), next) else (b, post))
     in if pre = [] then b # rest
        else (let prev = last pre in
              if fst prev + snd prev = fst b
              then butlast pre @ (fst prev, snd prev + snd b) # rest
              else pre @ b # rest))"

definition pmm_add :: "nat \<Rightarrow> nat \<Rightarrow> pmm \<Rightarrow> pmm" where
  "pmm_add base len s =
    (let end = (base + len) mod 2 ^ 64;
         base = align_up base;
         end = end div ALIGN * ALIGN
     in if end \<le> base \<or> end - base < 16 then s
        else s\<lparr>arena_bytes := arena_bytes s + (end - base),
               freelist := freelist_insert (base, end - base) (freelist s)\<rparr>)"

fun meminfo_walk :: "pmm_block list \<Rightarrow> nat \<Rightarrow> nat \<Rightarrow> nat \<times> nat" where
  "meminfo_walk [] a m = (a, m)"
| "meminfo_walk (b # bs) a m = meminfo_walk bs (a + snd b) (if snd b > m then snd b else m)"

definition pmm_meminfo :: "pmm \<Rightarrow> nat \<times> nat \<times> nat" where
  "pmm_meminfo s = (let (a, m) = meminfo_walk (freelist s) 0 0 in (arena_bytes s, a, m))"

text \<open>The walk of \<open>pmm_alloc\<close>, for a size already rounded.\<close>

fun first_fit :: "nat \<Rightarrow> pmm_block list \<Rightarrow> nat option \<times> pmm_block list" where
  "first_fit n [] = (None, [])"
| "first_fit n (b # bs) =
    (if snd b \<ge> n then
       (Some (fst b), if snd b \<ge> n + 16 then (fst b + n, snd b - n) # bs else bs)
     else (let (r, bs) = first_fit n bs in (r, b # bs)))"

definition pmm_alloc :: "nat \<Rightarrow> pmm \<Rightarrow> nat option \<times> pmm" where
  "pmm_alloc n s =
    (let (r, l) = first_fit (block_size n) (freelist s) in (r, s\<lparr>freelist := l\<rparr>))"

definition pmm_free :: "nat \<Rightarrow> nat \<Rightarrow> pmm \<Rightarrow> pmm" where
  "pmm_free p n s = s\<lparr>freelist := freelist_insert (p, block_size n) (freelist s)\<rparr>"

section \<open>The heap over the arena\<close>

record kheap =
  h_pmm :: pmm
  h_mem :: "nat \<Rightarrow> byte"
  live_bytes :: nat
  peak_bytes :: nat
  live_blocks :: nat
  total_blocks :: nat

definition rd64 :: "(nat \<Rightarrow> byte) \<Rightarrow> nat \<Rightarrow> nat" where
  "rd64 m a = le_val (map m [a..<a + 8])"

definition wr :: "nat \<Rightarrow> byte list \<Rightarrow> (nat \<Rightarrow> byte) \<Rightarrow> nat \<Rightarrow> byte" where
  "wr a bs m = (\<lambda>x. if a \<le> x \<and> x < a + length bs then bs ! (x - a) else m x)"

datatype heap_fault = BadMagic

definition malloc :: "nat \<Rightarrow> kheap \<Rightarrow> nat option \<times> kheap" where
  "malloc n s =
    (case pmm_alloc ((n + 16) mod 2 ^ 64) (h_pmm s) of
       (None, p) \<Rightarrow> (None, s\<lparr>h_pmm := p\<rparr>)
     | (Some h, p) \<Rightarrow>
         (let live = (live_bytes s + (n + 16)) mod 2 ^ 64 in
          (Some (h + 16),
           s\<lparr>h_pmm := p,
             h_mem := wr (h + 8) (le_bytes 8 MAGIC) (wr h (le_bytes 8 n) (h_mem s)),
             live_bytes := live, peak_bytes := max live (peak_bytes s),
             live_blocks := live_blocks s + 1, total_blocks := total_blocks s + 1\<rparr>)))"

definition free :: "nat \<Rightarrow> kheap \<Rightarrow> heap_fault + kheap" where
  "free p s =
    (if p = 0 then Inr s
     else (let h = p - 16; sz = rd64 (h_mem s) h in
       if rd64 (h_mem s) (h + 8) \<noteq> MAGIC then Inl BadMagic
       else Inr (s\<lparr>h_mem := wr (h + 8) (le_bytes 8 0) (h_mem s),
                   live_bytes := sz_sub (live_bytes s) ((sz + 16) mod 2 ^ 64),
                   live_blocks := live_blocks s - 1,
                   h_pmm := pmm_free h ((sz + 16) mod 2 ^ 64) (h_pmm s)\<rparr>)))"

definition calloc :: "nat \<Rightarrow> nat \<Rightarrow> kheap \<Rightarrow> nat option \<times> kheap" where
  "calloc nmemb sz s =
    (if sz \<noteq> 0 \<and> nmemb > (2 ^ 64 - 1) div sz then (None, s)
     else (case malloc (nmemb * sz) s of
             (None, s) \<Rightarrow> (None, s)
           | (Some p, s) \<Rightarrow> (Some p, s\<lparr>h_mem := wr p (replicate (nmemb * sz) 0) (h_mem s)\<rparr>)))"

definition realloc :: "nat \<Rightarrow> nat \<Rightarrow> kheap \<Rightarrow> heap_fault + nat option \<times> kheap" where
  "realloc p n s =
    (if p = 0 then Inr (malloc n s)
     else if n = 0 then bnd (free p s) (\<lambda>s. Inr (None, s))
     else (let h = p - 16 in
       if rd64 (h_mem s) (h + 8) \<noteq> MAGIC then Inl BadMagic
       else (case malloc n s of
               (None, s) \<Rightarrow> Inr (None, s)
             | (Some q, s) \<Rightarrow>
                 bnd (free p (s\<lparr>h_mem := wr q (map (h_mem s) [p..<p + min (rd64 (h_mem s) h) n])
                                            (h_mem s)\<rparr>)) (\<lambda>s.
                 Inr (Some q, s)))))"

section \<open>The hole list\<close>

definition blk_ok :: "pmm_block \<Rightarrow> bool" where
  "blk_ok b \<longleftrightarrow> 16 dvd fst b \<and> 16 dvd snd b \<and> 0 < fst b \<and> 0 < snd b \<and> fst b + snd b \<le> 2 ^ 64"

abbreviation apart :: "pmm_block \<Rightarrow> pmm_block \<Rightarrow> bool" where
  "apart b c \<equiv> fst b + snd b < fst c"

definition fl_ok :: "pmm_block list \<Rightarrow> bool" where
  "fl_ok l \<longleftrightarrow> sorted_wrt apart l \<and> (\<forall>b\<in>set l. blk_ok b)"

abbreviation extent :: "pmm_block \<Rightarrow> nat set" where
  "extent b \<equiv> {fst b..<fst b + snd b}"

definition fbytes :: "pmm_block list \<Rightarrow> nat set" where
  "fbytes l = (\<Union>b\<in>set l. extent b)"

lemma fl_simps [simp]:
  "fl_ok []" "fl_ok (b # l) \<longleftrightarrow> blk_ok b \<and> (\<forall>c\<in>set l. apart b c) \<and> fl_ok l"
  "fl_ok (l @ l') \<longleftrightarrow> fl_ok l \<and> fl_ok l' \<and> (\<forall>b\<in>set l. \<forall>c\<in>set l'. apart b c)"
  "fbytes [] = {}" "fbytes (b # l) = extent b \<union> fbytes l" "fbytes (l @ l') = fbytes l \<union> fbytes l'"
  by (auto simp: fl_ok_def fbytes_def sorted_wrt_append)

lemma blk_okD: "blk_ok b \<Longrightarrow> fst b < fst b + snd b" by (simp add: blk_ok_def)

lemma fbytes_start: "b \<in> set l \<Longrightarrow> blk_ok b \<Longrightarrow> fst b \<in> fbytes l"
  unfolding fbytes_def by (auto intro!: bexI [of _ b] dest: blk_okD)

lemma block_size_ok: "n + 31 < 2 ^ 64 \<Longrightarrow> n \<le> block_size n \<and> block_size n < n + 32 \<and> 16 dvd block_size n \<and> 16 \<le> block_size n"
  by (simp add: block_size_def align_up_def Let_def) presburger

lemma block_size_dvd: "16 dvd block_size n \<and> 16 \<le> block_size n"
  by (simp add: block_size_def align_up_def Let_def)

text \<open>The list is determined by what is free.\<close>

lemma fl_head_extent:
  assumes "fl_ok (b # l)" "fl_ok (c # l')" and e: "fbytes (b # l) = fbytes (c # l')"
  shows "b = c"
proof -
  have lo: "fst c \<le> fst b" if "fl_ok (b # l)" "fl_ok (c # l')" "fbytes (b # l) = fbytes (c # l')" for b c l l'
  proof -
    have "fst b \<in> fbytes (c # l')" using that fbytes_start [of b "b # l"] by auto
    then show ?thesis using that(2) by (force simp: fbytes_def)
  qed
  have s: "fst b = fst c" using lo [OF assms] lo [OF assms(2,1) e [symmetric]] by simp
  have hi: "snd c \<le> snd b" if "fl_ok (b # l)" "fl_ok (c # l')" "fbytes (b # l) = fbytes (c # l')" "fst b = fst c" for b c l l'
  proof (rule ccontr)
    assume "\<not> snd c \<le> snd b"
    then have "fst b + snd b \<in> extent c" using that(4) by simp
    then have "fst b + snd b \<in> fbytes (b # l)" using that(3) by simp
    then show False using that(1) by (auto simp: fbytes_def)
  qed
  have "snd b = snd c" using hi [OF assms s] hi [OF assms(2,1) e [symmetric] s [symmetric]] by simp
  with s show ?thesis by (simp add: prod_eq_iff)
qed

lemma fl_tail_disjoint: "fl_ok (b # l) \<Longrightarrow> extent b \<inter> fbytes l = {}"
  by (force simp: fbytes_def)

lemma disjoint_cancel: "A \<union> X = A \<union> Y \<Longrightarrow> A \<inter> X = {} \<Longrightarrow> A \<inter> Y = {} \<Longrightarrow> X = Y"
  by blast

lemma fl_canonical: "fl_ok l \<Longrightarrow> fl_ok l' \<Longrightarrow> fbytes l = fbytes l' \<Longrightarrow> l = l'"
proof (induction l arbitrary: l')
  case Nil
  then show ?case by (cases l') (auto dest: blk_okD)
next
  case (Cons b l)
  have "fst b \<in> fbytes l'" using Cons.prems fbytes_start [of b "b # l"] by simp
  then obtain c m where l': "l' = c # m" by (cases l') auto
  have bc: "b = c" using fl_head_extent Cons.prems l' by blast
  have "fbytes l = fbytes m"
  proof (rule disjoint_cancel)
    show "extent c \<union> fbytes l = extent c \<union> fbytes m" using Cons.prems(3) by (simp only: l' bc fl_simps(5))
    show "extent c \<inter> fbytes l = {}" using fl_tail_disjoint Cons.prems(1) unfolding bc .
    show "extent c \<inter> fbytes m = {}" using fl_tail_disjoint Cons.prems(2) unfolding l' .
  qed
  then show ?case using Cons l' bc by simp
qed

lemma join_prev_ok:
  assumes "fl_ok pre" "fl_ok (b # rest)" "\<forall>c\<in>set pre. fst c + snd c \<le> fst b"
    "\<forall>c\<in>set (butlast pre). apart c b"
  defines "l \<equiv> if pre = [] then b # rest
        else (let prev = last pre in
              if fst prev + snd prev = fst b then butlast pre @ (fst prev, snd prev + snd b) # rest
              else pre @ b # rest)"
  shows "fl_ok l \<and> fbytes l = fbytes pre \<union> fbytes (b # rest)"
proof (cases "pre = []")
  case True
  then show ?thesis using assms(2) by (simp add: l_def)
next
  case False
  then obtain ps p where pre: "pre = ps @ [p]" using rev_exhaust by blast
  show ?thesis
  proof (cases "fst p + snd p = fst b")
    case True
    have "extent (fst p, snd p + snd b) = extent p \<union> extent b" using True by auto
    then show ?thesis using assms True unfolding pre l_def
      by (fastforce simp: Let_def blk_ok_def)
  next
    case ne: False
    then have "apart p b" using assms(3) pre by auto
    then show ?thesis using assms ne unfolding pre l_def by (force simp: Let_def)
  qed
qed

lemma join_next_ok:
  assumes "fl_ok post" "blk_ok b" "\<forall>c\<in>set post. fst b + snd b \<le> fst c"
  defines "r \<equiv> (case post of [] \<Rightarrow> (b, [])
          | cur # next \<Rightarrow>
              if fst b + snd b = fst cur then ((fst b, snd b + snd cur), next) else (b, post))"
  shows "fl_ok (fst r # snd r) \<and> fbytes (fst r # snd r) = extent b \<union> fbytes post \<and> fst (fst r) = fst b"
proof (cases post)
  case Nil
  then show ?thesis using assms(2) by (simp add: r_def)
next
  case (Cons cur nxt)
  show ?thesis
  proof (cases "fst b + snd b = fst cur")
    case True
    have "extent (fst b, snd b + snd cur) = extent b \<union> extent cur" using True by auto
    then show ?thesis using assms True unfolding Cons r_def by (fastforce simp: blk_ok_def)
  next
    case False
    then show ?thesis using assms unfolding Cons r_def by fastforce
  qed
qed

lemma freelist_insert_ok:
  assumes l: "fl_ok l" and b: "blk_ok b" and d: "extent b \<inter> fbytes l = {}"
  shows "fl_ok (freelist_insert b l) \<and> fbytes (freelist_insert b l) = fbytes l \<union> extent b"
proof -
  let ?pre = "takeWhile (\<lambda>c. fst c < fst b) l" and ?post = "dropWhile (\<lambda>c. fst c < fst b) l"
  have s: "fl_ok (?pre @ ?post)" using l by simp
  have pre: "\<forall>c\<in>set ?pre. fst c + snd c \<le> fst b"
  proof
    fix c assume "c \<in> set ?pre"
    then have c: "c \<in> set l" "fst c < fst b" by (auto dest: set_takeWhileD)
    moreover have "fst b \<in> extent b" using blk_okD [OF b] by simp
    then have "fst b \<notin> fbytes l" using d by blast
    ultimately have "fst b \<notin> extent c" unfolding fbytes_def by blast
    then show "fst c + snd c \<le> fst b" using c(2) by simp
  qed
  have hd: "?post = [] \<or> fst b \<le> fst (hd ?post)" using hd_dropWhile [of "\<lambda>c. fst c < fst b" l] by (metis not_less)
  have post: "\<forall>c\<in>set ?post. fst b + snd b \<le> fst c"
  proof
    fix c assume c: "c \<in> set ?post"
    have "fst b \<le> fst c" using hd c s by (cases ?post) auto
    moreover have "fst c \<in> fbytes l" using c l by (auto intro!: fbytes_start dest: set_dropWhileD simp: fl_ok_def)
    then have "fst c \<notin> extent b" using d by auto
    ultimately show "fst b + snd b \<le> fst c" by simp
  qed
  define r where "r = (case ?post of [] \<Rightarrow> (b, [])
          | cur # next \<Rightarrow>
              if fst b + snd b = fst cur then ((fst b, snd b + snd cur), next) else (b, ?post))"
  have r: "fl_ok (fst r # snd r)" "fbytes (fst r # snd r) = extent b \<union> fbytes ?post" "fst (fst r) = fst b"
    using join_next_ok [OF _ b post, folded r_def] s unfolding fl_simps(3) by blast+
  have "\<forall>c\<in>set (butlast ?pre). apart c b"
  proof (cases "?pre = []")
    case False
    then obtain ps p where p: "?pre = ps @ [p]" using rev_exhaust by blast
    then show ?thesis using s pre by (auto simp: blk_ok_def)
  qed simp
  then have b': "\<forall>c\<in>set (butlast ?pre). apart c (fst r)" "\<forall>c\<in>set ?pre. fst c + snd c \<le> fst (fst r)"
    using pre r(3) by simp_all
  have fi: "freelist_insert b l =
      (if ?pre = [] then fst r # snd r
       else (let prev = last ?pre in
             if fst prev + snd prev = fst (fst r) then butlast ?pre @ (fst prev, snd prev + snd (fst r)) # snd r
             else ?pre @ fst r # snd r))"
    unfolding freelist_insert_def r_def Let_def split_beta by (rule refl)
  have "fbytes l = fbytes ?pre \<union> fbytes ?post" using fl_simps(6) [of ?pre ?post] by simp
  moreover have "fl_ok (freelist_insert b l) \<and> fbytes (freelist_insert b l) = fbytes ?pre \<union> fbytes (fst r # snd r)"
    unfolding fi using s by (intro join_prev_ok [OF _ r(1) b'(2,1)]) (simp only: fl_simps)
  ultimately show ?thesis unfolding r(2) by blast
qed

lemma mult16_fit: "16 dvd s \<Longrightarrow> 16 dvd n \<Longrightarrow> n \<le> s \<Longrightarrow> \<not> n + 16 \<le> s \<Longrightarrow> s = (n :: nat)"
  by presburger

lemma fl_between:
  assumes "fl_ok l" "fl_ok l'" "fbytes l' \<subseteq> fbytes l" "\<forall>c\<in>set l. e < fst c" and c: "c \<in> set l'"
  shows "e < fst c"
proof -
  have "fst c \<in> fbytes l" using c assms(2,3) fbytes_start [of c l'] by (auto simp: fl_ok_def)
  then show ?thesis using assms(4) by (force simp: fbytes_def)
qed

lemma first_fit_ok:
  assumes "fl_ok l" "16 dvd n" "0 < n" "first_fit n l = (r, l')"
  shows "case r of None \<Rightarrow> l' = l \<and> (\<forall>b\<in>set l. snd b < n)
         | Some a \<Rightarrow> blk_ok (a, n) \<and> extent (a, n) \<subseteq> fbytes l \<and> fl_ok l' \<and>
                      fbytes l' = fbytes l - extent (a, n)"
  using assms
proof (induction l arbitrary: r l')
  case (Cons b l)
  note ok = Cons.prems(1)
  have d: "extent b \<inter> fbytes l = {}" by (rule fl_tail_disjoint [OF ok])
  show ?case
  proof (cases "n \<le> snd b")
    case fit: True
    then have r: "r = Some (fst b)" using Cons.prems(4) by auto
    have sub: "extent (fst b, n) \<subseteq> extent b" using fit by auto
    have bn: "blk_ok (fst b, n)" using ok fit Cons.prems(2,3) by (auto simp: blk_ok_def)
    show ?thesis
    proof (cases "n + 16 \<le> snd b")
      case True
      then have l': "l' = (fst b + n, snd b - n) # l" using Cons.prems(4) fit by auto
      have "blk_ok (fst b + n, snd b - n)" using ok True Cons.prems(2) by (auto simp: blk_ok_def)
      moreover have e: "extent (fst b + n, snd b - n) = extent b - extent (fst b, n)" using fit by auto
      have "extent (fst b + n, snd b - n) \<union> fbytes l = (extent b \<union> fbytes l) - extent (fst b, n)"
        unfolding e using d sub by blast
      moreover have "\<forall>c\<in>set l. apart (fst b + n, snd b - n) c" using ok fit by auto
      ultimately show ?thesis using ok sub bn unfolding r l' option.case fl_simps by blast
    next
      case False
      then have "snd b = n" using mult16_fit [of "snd b" n] ok fit Cons.prems(2) by (simp add: blk_ok_def)
      moreover have "l' = l" using Cons.prems(4) fit False by auto
      ultimately show ?thesis using ok d bn by (auto simp: r)
    qed
  next
    case False
    then obtain m where f: "first_fit n l = (r, m)" "l' = b # m"
      using Cons.prems(4) by (auto split: prod.splits)
    note ih = Cons.IH [OF _ Cons.prems(2,3) f(1)]
    show ?thesis
    proof (cases r)
      case None
      then show ?thesis using ih ok False f(2) by auto
    next
      case (Some a)
      then have i: "blk_ok (a, n)" "extent (a, n) \<subseteq> fbytes l" "fl_ok m" "fbytes m = fbytes l - extent (a, n)"
        using ih ok by auto
      have "\<forall>c\<in>set m. apart b c"
        using fl_between [OF _ i(3), of l "fst b + snd b"] ok i(4) by auto
      then show ?thesis using i ok d unfolding Some f(2) option.case fl_simps by blast
    qed
  qed
qed simp

section \<open>The contract of an arena\<close>

text \<open>
  Blocks in use are disjoint from each other and from what is free. That is kept by any arena
  that takes from the free bytes exactly what it hands out and gives back exactly what it is
  handed.
\<close>

definition tiled :: "nat set \<Rightarrow> pmm_block set \<Rightarrow> bool" where
  "tiled F L \<longleftrightarrow> (\<forall>b\<in>L. blk_ok b \<and> extent b \<inter> F = {}) \<and>
               (\<forall>b\<in>L. \<forall>c\<in>L. b \<noteq> c \<longrightarrow> extent b \<inter> extent c = {})"

locale arena =
  fixes ok :: "'s \<Rightarrow> bool" and avail :: "'s \<Rightarrow> nat set"
    and take_block :: "nat \<Rightarrow> 's \<Rightarrow> nat option \<times> 's" and give_block :: "nat \<Rightarrow> nat \<Rightarrow> 's \<Rightarrow> 's"
  assumes take_law: "ok s \<Longrightarrow> take_block n s = (Some a, s') \<Longrightarrow>
      ok s' \<and> blk_ok (a, block_size n) \<and> extent (a, block_size n) \<subseteq> avail s \<and>
      avail s' = avail s - extent (a, block_size n)"
    and none_law: "ok s \<Longrightarrow> take_block n s = (None, s') \<Longrightarrow> s' = s"
    and give_law: "ok s \<Longrightarrow> blk_ok (a, block_size n) \<Longrightarrow> extent (a, block_size n) \<inter> avail s = {} \<Longrightarrow>
      ok (give_block a n s) \<and> avail (give_block a n s) = avail s \<union> extent (a, block_size n)"
begin

lemma take_tiled:
  assumes "ok s" "tiled (avail s) L" "take_block n s = (Some a, s')"
  shows "ok s' \<and> (a, block_size n) \<notin> L \<and> tiled (avail s') (insert (a, block_size n) L) \<and>
         blk_ok (a, block_size n)"
proof -
  note t = take_law [OF assms(1,3)]
  have d: "extent b \<inter> extent (a, block_size n) = {}" if "b \<in> L" for b
    using assms(2) t that unfolding tiled_def by blast
  have "a \<in> extent (a, block_size n)" using block_size_dvd [of n] by simp
  then have "(a, block_size n) \<notin> L" using d [of "(a, block_size n)"] by blast
  moreover have "\<forall>b\<in>L. extent b \<inter> avail s' = {}" using assms(2) t unfolding tiled_def by blast
  ultimately show ?thesis using assms(2) t d unfolding tiled_def by (metis (no_types, lifting) Diff_disjoint Int_commute insert_iff)
qed

lemma give_tiled:
  assumes "ok s" "tiled (avail s) L" "(a, block_size n) \<in> L"
  shows "ok (give_block a n s) \<and> tiled (avail (give_block a n s)) (L - {(a, block_size n)})"
proof -
  have "blk_ok (a, block_size n)" "extent (a, block_size n) \<inter> avail s = {}"
    using assms(2,3) unfolding tiled_def by blast+
  note g = give_law [OF assms(1) this]
  show ?thesis using assms(2,3) g unfolding tiled_def by blast
qed

lemma take_give:
  assumes "ok s" "take_block n s = (Some a, s')"
  shows "ok (give_block a n s') \<and> avail (give_block a n s') = avail s"
  using take_law [OF assms] give_law [of s' a n] by blast

end

definition pmm_ok :: "pmm \<Rightarrow> bool" where "pmm_ok s = fl_ok (freelist s)"
definition pmm_avail :: "pmm \<Rightarrow> nat set" where "pmm_avail s = fbytes (freelist s)"

interpretation pm: arena pmm_ok pmm_avail pmm_alloc pmm_free
proof
  fix s n a s' assume ok: "pmm_ok s"
  have ff: "16 dvd block_size n" "0 < block_size n" using block_size_dvd [of n] by auto
  { assume "pmm_alloc n s = (Some a, s')"
    then obtain l where "first_fit (block_size n) (freelist s) = (Some a, l)" "s' = s\<lparr>freelist := l\<rparr>"
      by (auto simp: pmm_alloc_def split: prod.splits)
    then show "pmm_ok s' \<and> blk_ok (a, block_size n) \<and> extent (a, block_size n) \<subseteq> pmm_avail s \<and>
        pmm_avail s' = pmm_avail s - extent (a, block_size n)"
      using first_fit_ok [OF _ ff] ok unfolding pmm_ok_def pmm_avail_def by fastforce }
  { assume "pmm_alloc n s = (None, s')"
    then obtain l where "first_fit (block_size n) (freelist s) = (None, l)" "s' = s\<lparr>freelist := l\<rparr>"
      by (auto simp: pmm_alloc_def split: prod.splits)
    then show "s' = s"
      using first_fit_ok [OF _ ff] ok unfolding pmm_ok_def by fastforce }
  { assume "blk_ok (a, block_size n)" "extent (a, block_size n) \<inter> pmm_avail s = {}"
    then show "pmm_ok (pmm_free a n s) \<and> pmm_avail (pmm_free a n s) = pmm_avail s \<union> extent (a, block_size n)"
      using freelist_insert_ok [of "freelist s"] ok unfolding pmm_ok_def pmm_avail_def pmm_free_def by simp }
qed

lemma pmm_eqI: "pmm_ok s \<Longrightarrow> pmm_ok t \<Longrightarrow> pmm_avail s = pmm_avail t \<Longrightarrow> arena_bytes s = arena_bytes t \<Longrightarrow> s = (t :: pmm)"
  using fl_canonical unfolding pmm_ok_def pmm_avail_def by simp

lemma pmm_arena [simp]: "arena_bytes (snd (pmm_alloc n s)) = arena_bytes s" "arena_bytes (pmm_free a n s) = arena_bytes s"
  by (simp_all add: pmm_alloc_def pmm_free_def split_beta)

lemma meminfo_walk_acc: "meminfo_walk l a m = (a + sum_list (map snd l), fold (\<lambda>b m. max m (snd b)) l m)"
  by (induction l a m rule: meminfo_walk.induct) (auto simp: max_def)

lemma fold_max_ge: "n \<le> fold (\<lambda>b m. max m (snd b)) l m \<longleftrightarrow> n \<le> m \<or> (\<exists>b\<in>set l. n \<le> snd b)" for n :: nat
  by (induction l arbitrary: m) auto

lemma first_fit_fails: "fst (first_fit n l) = None \<longleftrightarrow> (\<forall>b\<in>set l. snd b < n)"
  by (induction l) (auto split: prod.splits)

lemma card_fbytes: "fl_ok l \<Longrightarrow> card (fbytes l) = sum_list (map snd l)"
proof (induction l)
  case (Cons b l)
  have "finite (fbytes l)" by (simp add: fbytes_def)
  then show ?case using Cons fl_tail_disjoint [OF Cons.prems] by (simp add: card_Un_disjoint)
qed simp

lemma pmm_free_commute:
  assumes s: "pmm_ok s" and ok: "blk_ok (a, block_size n)" "blk_ok (b, block_size m)"
    and d: "extent (a, block_size n) \<inter> pmm_avail s = {}" "extent (b, block_size m) \<inter> pmm_avail s = {}"
      "extent (a, block_size n) \<inter> extent (b, block_size m) = {}"
  shows "pmm_free a n (pmm_free b m s) = pmm_free b m (pmm_free a n s)"
proof -
  have 1: "pmm_ok (pmm_free b m s)" "pmm_avail (pmm_free b m s) = pmm_avail s \<union> extent (b, block_size m)"
    using pm.give_law [OF s ok(2) d(2)] by blast+
  have 2: "pmm_ok (pmm_free a n s)" "pmm_avail (pmm_free a n s) = pmm_avail s \<union> extent (a, block_size n)"
    using pm.give_law [OF s ok(1) d(1)] by blast+
  have "extent (a, block_size n) \<inter> pmm_avail (pmm_free b m s) = {}"
    "extent (b, block_size m) \<inter> pmm_avail (pmm_free a n s) = {}" unfolding 1 2 using d by blast+
  then show ?thesis
    using pm.give_law [OF 1(1) ok(1)] pm.give_law [OF 2(1) ok(2)] unfolding 1(2) 2(2)
    by (intro pmm_eqI) (simp_all add: Un_ac)
qed

text \<open>
  C21: freeing what was just allocated puts the hole list back exactly as it was: the remainder
  split off is joined to its block again. And two blocks in use can be freed in either order
  with the same list as the result, so the arena never depends on its history, only on which
  bytes are free.
\<close>

theorem pmm_history_free:
  assumes "pmm_ok s"
  shows "(pmm_alloc n s = (Some a, s') \<longrightarrow> pmm_free a n s' = s) \<and>
         (tiled (pmm_avail s) {(a, block_size n), (b, block_size m)} \<and>
          (a, block_size n) \<noteq> (b, block_size m) \<longrightarrow>
          pmm_free a n (pmm_free b m s) = pmm_free b m (pmm_free a n s))"
proof (intro conjI impI)
  assume al: "pmm_alloc n s = (Some a, s')"
  note g = pm.take_give [OF assms al]
  have "arena_bytes s' = arena_bytes s" using pmm_arena(1) [of n s] al by simp
  then show "pmm_free a n s' = s" using pmm_eqI [OF _ assms, of "pmm_free a n s'"] g by simp
next
  assume t: "tiled (pmm_avail s) {(a, block_size n), (b, block_size m)} \<and> (a, block_size n) \<noteq> (b, block_size m)"
  then have "extent (a, block_size n) \<inter> extent (b, block_size m) = {}"
    unfolding tiled_def by (metis insertCI)
  then show "pmm_free a n (pmm_free b m s) = pmm_free b m (pmm_free a n s)"
    using t by (intro pmm_free_commute [OF assms]) (simp_all only: tiled_def ball_simps)
qed

text \<open>
  C26: an allocation fails exactly when the largest hole \<open>pmm_meminfo\<close> reports is smaller than
  the rounded request, and the free bytes it reports are those in the holes.
\<close>

theorem pmm_alloc_complete:
  assumes "pmm_ok s" "pmm_meminfo s = (tot, av, largest)"
  shows "(fst (pmm_alloc n s) = None \<longleftrightarrow> largest < block_size n) \<and> av = card (pmm_avail s)"
proof -
  have l: "largest = fold (\<lambda>b m. max m (snd b)) (freelist s) 0" and a: "av = sum_list (map snd (freelist s))"
    using assms(2) by (auto simp: pmm_meminfo_def meminfo_walk_acc)
  have "fst (pmm_alloc n s) = None \<longleftrightarrow> \<not> block_size n \<le> largest"
    unfolding pmm_alloc_def l fold_max_ge
    using first_fit_fails [of "block_size n" "freelist s"] block_size_dvd [of n]
    by (auto simp: split_beta not_le)
  then show ?thesis using a card_fbytes assms(1) unfolding pmm_ok_def pmm_avail_def by auto
qed

section \<open>Blocks with a header\<close>

lemma wr_other: "x < a \<or> a + length bs \<le> x \<Longrightarrow> wr a bs m x = m x"
  by (auto simp: wr_def)

lemma wr_map: "length bs = n \<Longrightarrow> map (wr a bs m) [a..<a + n] = bs"
  by (rule nth_equalityI) (auto simp: wr_def)

lemma rd64_wr: "rd64 (wr a (le_bytes 8 v) m) a = v mod 2 ^ 64"
  by (simp add: rd64_def wr_map le_val_le_bytes)

lemma rd64_cong: "(\<And>x. a \<le> x \<Longrightarrow> x < a + 8 \<Longrightarrow> m x = m' x) \<Longrightarrow> rd64 m a = rd64 m' a"
  by (auto simp: rd64_def intro!: arg_cong [where f = le_val])

text \<open>
  The blocks in use: \<open>B\<close> gives the bytes each pointer was asked for. Their headers stand in
  front of them and say so.
\<close>

definition mblock :: "nat \<Rightarrow> nat \<Rightarrow> pmm_block" where
  "mblock p n = (p - 16, block_size (n + 16))"

definition mblocks :: "(nat \<rightharpoonup> nat) \<Rightarrow> pmm_block set" where
  "mblocks B = (\<lambda>p. mblock p (the (B p))) ` dom B"

definition heap_ok :: "(nat \<rightharpoonup> nat) \<Rightarrow> kheap \<Rightarrow> bool" where
  "heap_ok B s \<longleftrightarrow> pmm_ok (h_pmm s) \<and> tiled (pmm_avail (h_pmm s)) (mblocks B) \<and>
     (\<forall>p n. B p = Some n \<longrightarrow> 32 \<le> p \<and> n + 47 < 2 ^ 64 \<and>
        rd64 (h_mem s) (p - 16) = n \<and> rd64 (h_mem s) (p - 8) = MAGIC)"

lemma mblocks_iff: "b \<in> mblocks B \<longleftrightarrow> (\<exists>p n. B p = Some n \<and> b = mblock p n)"
  by (force simp: mblocks_def)

lemma mblock_extent: "32 \<le> p \<Longrightarrow> n + 47 < 2 ^ 64 \<Longrightarrow> {p - 16..<p + n} \<subseteq> extent (mblock p n)"
  using block_size_ok [of "n + 16"] by (auto simp: mblock_def)

lemma heap_okD:
  assumes "heap_ok B s" "B p = Some n"
  shows "32 \<le> p" "n + 47 < 2 ^ 64" "rd64 (h_mem s) (p - 16) = n" "rd64 (h_mem s) (p - 8) = MAGIC"
    "mblock p n \<in> mblocks B" "{p - 16..<p + n} \<subseteq> extent (mblock p n)"
  using assms mblock_extent [of p n] mblocks_iff by (auto simp: heap_ok_def)

lemma mblocks_apart:
  assumes "heap_ok B s" "B p = Some n" "B q = Some m" "p \<noteq> q"
  shows "extent (mblock p n) \<inter> extent (mblock q m) = {}"
proof -
  have "mblock p n \<noteq> mblock q m"
    using heap_okD(1) [OF assms(1,2)] heap_okD(1) [OF assms(1,3)] assms(4) by (auto simp: mblock_def)
  then show ?thesis
    using assms(1) heap_okD(5) [OF assms(1,2)] heap_okD(5) [OF assms(1,3)] unfolding heap_ok_def tiled_def by blast
qed

lemma heap_ok_mem:
  assumes "heap_ok B s" "\<And>p n x. B p = Some n \<Longrightarrow> p - 16 \<le> x \<Longrightarrow> x < p \<Longrightarrow> h_mem t x = h_mem s x"
    "h_pmm t = h_pmm s"
  shows "heap_ok B t"
proof -
  have "rd64 (h_mem t) (p - 16) = rd64 (h_mem s) (p - 16) \<and> rd64 (h_mem t) (p - 8) = rd64 (h_mem s) (p - 8)"
    if "B p = Some n" for p n
    using heap_okD(1) [OF assms(1) that] assms(2) [OF that] by (auto intro!: rd64_cong)
  then show ?thesis using assms(1,3) unfolding heap_ok_def by auto
qed

lemma mblocks_insert:
  assumes "B p = None"
  shows "mblocks (B(p \<mapsto> n)) = insert (mblock p n) (mblocks B)"
proof -
  have "dom (B(p \<mapsto> n)) = insert p (dom B)" by simp
  moreover have "(\<lambda>q. mblock q (the ((B(p \<mapsto> n)) q))) ` dom B = mblocks B"
    unfolding mblocks_def using assms by (intro image_cong) auto
  ultimately show ?thesis unfolding mblocks_def by simp
qed

lemma mblocks_remove:
  assumes "heap_ok B s" "B p = Some n"
  shows "mblocks (B(p := None)) = mblocks B - {mblock p n}"
proof -
  have inj: "mblock q m \<noteq> mblock p n" if "B q = Some m" "q \<noteq> p" for q m
    using heap_okD(1) [OF assms] heap_okD(1) [OF assms(1) that(1)] that(2) by (auto simp: mblock_def)
  have "mblocks B = insert (mblock p n) (mblocks (B(p := None)))"
    using mblocks_insert [of "B(p := None)" p n] assms(2) by (simp add: fun_upd_idem)
  moreover have "mblock p n \<notin> mblocks (B(p := None))"
    using inj unfolding mblocks_iff by (metis fun_upd_apply option.distinct(1))
  ultimately show ?thesis by simp
qed

lemma malloc_ok:
  assumes ok: "heap_ok B s" and n: "n + 47 < 2 ^ 64" and m: "malloc n s = (r, s')"
  shows "case r of None \<Rightarrow> s' = s
         | Some p \<Rightarrow> B p = None \<and> heap_ok (B(p \<mapsto> n)) s' \<and>
             (\<forall>x. x < p - 16 \<or> p \<le> x \<longrightarrow> h_mem s' x = h_mem s x)"
proof -
  have pm: "pmm_ok (h_pmm s)" "tiled (pmm_avail (h_pmm s)) (mblocks B)" using ok by (auto simp: heap_ok_def)
  have [simp]: "(n + 16) mod 18446744073709551616 = n + 16" using n by simp
  show ?thesis
  proof (cases "pmm_alloc (n + 16) (h_pmm s)")
    case (Pair r' p')
    show ?thesis
    proof (cases r')
      case None
      then show ?thesis using m Pair pm.none_law [OF pm(1)] by (auto simp: malloc_def)
    next
      case (Some a)
      let ?p = "a + 16"
      have r: "r = Some ?p" "h_pmm s' = p'"
        "h_mem s' = wr (a + 8) (le_bytes 8 MAGIC) (wr a (le_bytes 8 n) (h_mem s))"
        using m Pair Some by (auto simp: malloc_def Let_def)
      note t = pm.take_tiled [OF pm Pair [unfolded Some]]
      have bp: "mblock ?p n = (a, block_size (n + 16))" by (simp add: mblock_def)
      have a16: "16 \<le> a" using t by (auto simp: blk_ok_def dest: dvd_imp_le)
      have other: "extent (mblock q k) \<inter> extent (mblock ?p n) = {}" if "B q = Some k" for q k
        using t heap_okD(5) [OF ok that] unfolding bp tiled_def by (metis insertCI)
      have "a \<in> extent (mblock ?p n)" using block_size_dvd [of "n + 16"] by (simp add: mblock_def)
      then have B: "B ?p = None"
        using other [of ?p] heap_okD(6) [OF ok, of ?p] a16 by (cases "B ?p") (auto simp: subset_iff)
      have same: "h_mem s' x = h_mem s x" if "x < a \<or> ?p \<le> x" for x
        using that unfolding r by (auto simp: wr_other)
      have hd: "{a..<?p} \<subseteq> extent (mblock ?p n)"
        using block_size_dvd [of "n + 16"] by (auto simp: mblock_def)
      have "rd64 (h_mem s') (q - 16) = k \<and> rd64 (h_mem s') (q - 8) = MAGIC" if q: "B q = Some k" for q k
      proof -
        have "{q - 16..<q} \<inter> {a..<?p} = {}" using other [OF q] hd heap_okD(6) [OF ok q] by fastforce
        then have ap: "x < a \<or> ?p \<le> x" if "q - 16 \<le> x" "x < q" for x using that by (metis IntI atLeastLessThan_iff empty_iff not_le)
        have "rd64 (h_mem s') y = rd64 (h_mem s) y" if "y = q - 16 \<or> y = q - 8" for y
          using that heap_okD(1) [OF ok q] by (intro rd64_cong same ap) auto
        then show ?thesis using heap_okD(3,4) [OF ok q] by simp
      qed
      moreover have "rd64 (h_mem s') a = n \<and> rd64 (h_mem s') (8 + a) = MAGIC"
        using n rd64_wr [of a n "h_mem s"] unfolding r(3)
        by (simp add: rd64_wr add.commute [of 8] rd64_cong [of a "wr (a + 8) _ _" "wr a (le_bytes 8 n) (h_mem s)"] wr_other)
      ultimately have "heap_ok (B(?p \<mapsto> n)) s'"
        using ok t a16 n unfolding heap_ok_def r(2) mblocks_insert [where B = B and p = ?p and n = n, OF B] bp by auto
      then show ?thesis using B same by (simp add: r(1))
    qed
  qed
qed

lemma mfree_ok:
  assumes ok: "heap_ok B s" and p: "B p = Some n"
  shows "\<exists>s'. free p s = Inr s' \<and> heap_ok (B(p := None)) s' \<and>
           (\<forall>x. x < p - 8 \<or> p \<le> x \<longrightarrow> h_mem s' x = h_mem s x)"
proof -
  note h = heap_okD [OF ok p]
  have pm: "pmm_ok (h_pmm s)" "tiled (pmm_avail (h_pmm s)) (mblocks B)" using ok by (auto simp: heap_ok_def)
  have [simp]: "(n + 16) mod 18446744073709551616 = n + 16" using h(2) by simp
  have e: "p - 16 + 8 = p - 8" using h(1) by simp
  obtain s' where s': "free p s = Inr s'" "h_mem s' = wr (p - 8) (le_bytes 8 0) (h_mem s)"
      "h_pmm s' = pmm_free (p - 16) (n + 16) (h_pmm s)"
    using h(1,3,4) by (simp add: free_def Let_def e)
  have same: "h_mem s' x = h_mem s x" if "x < p - 8 \<or> p \<le> x" for x
    using that h(1) unfolding s'(2) by (auto simp: wr_other)
  have "rd64 (h_mem s') y = rd64 (h_mem s) y" if q: "B q = Some k" "q \<noteq> p" "y = q - 16 \<or> y = q - 8" for q k y
  proof -
    have "{q - 16..<q} \<inter> {p - 16..<p} = {}"
      using mblocks_apart [OF ok q(1) p q(2)] heap_okD(6) [OF ok q(1)] h(6) by fastforce
    then show ?thesis using q(3) heap_okD(1) [OF ok q(1)] h(1) by (intro rd64_cong same) fastforce
  qed
  moreover have "pmm_ok (h_pmm s') \<and> tiled (pmm_avail (h_pmm s')) (mblocks (B(p := None)))"
    using pm.give_tiled [OF pm, of "p - 16" "n + 16"] h(5)
    unfolding mblocks_remove [OF ok p] s'(3) by (simp add: mblock_def)
  ultimately have "heap_ok (B(p := None)) s'"
    using ok unfolding heap_ok_def by auto
  then show ?thesis using s'(1) same by blast
qed

section \<open>What the callers of malloc rely on\<close>

text \<open>
  C10: a block from \<open>malloc\<close> overlaps no other block in use nor its header, and neither \<open>malloc\<close>
  nor \<open>free\<close> writes into a block in use; \<open>free\<close> accepts every block in use. Requests up to 48
  bytes short of the address space are covered.
\<close>

theorem malloc_free_safe:
  assumes ok: "heap_ok B s"
  shows "(n + 47 < 2 ^ 64 \<and> malloc n s = (Some p, s') \<longrightarrow>
            heap_ok (B(p \<mapsto> n)) s' \<and>
            (\<forall>q m. B q = Some m \<longrightarrow> {p - 16..<p + n} \<inter> {q - 16..<q + m} = {} \<and>
               map (h_mem s') [q..<q + m] = map (h_mem s) [q..<q + m])) \<and>
         (B p = Some n \<longrightarrow> (\<exists>s'. free p s = Inr s' \<and> heap_ok (B(p := None)) s' \<and>
            (\<forall>q m. q \<noteq> p \<and> B q = Some m \<longrightarrow> map (h_mem s') [q..<q + m] = map (h_mem s) [q..<q + m])))"
proof (rule conjI; rule impI)
  assume h: "n + 47 < 2 ^ 64 \<and> malloc n s = (Some p, s')"
  have m: "B p = None" "heap_ok (B(p \<mapsto> n)) s'" "\<And>x. x < p - 16 \<or> p \<le> x \<Longrightarrow> h_mem s' x = h_mem s x"
    using malloc_ok [OF ok, of n "Some p" s'] h by auto
  have d: "{p - 16..<p + n} \<inter> {q - 16..<q + k} = {}" if q: "B q = Some k" for q k
  proof -
    have "q \<noteq> p" "(B(p \<mapsto> n)) q = Some k" using q m(1) by auto
    then show ?thesis
      using mblocks_apart [OF m(2), of p n q k] heap_okD(6) [OF m(2), of p n] heap_okD(6) [OF ok q] by fastforce
  qed
  have "h_mem s' x = h_mem s x" if q: "B q = Some k" "q \<le> x" "x < q + k" for q k x
  proof -
    have "x \<notin> {p - 16..<p + n}" using d [OF q(1)] q(2,3) by auto
    then show ?thesis by (intro m(3)) auto
  qed
  with d m(2) show "heap_ok (B(p \<mapsto> n)) s' \<and> (\<forall>q k. B q = Some k \<longrightarrow> {p - 16..<p + n} \<inter> {q - 16..<q + k} = {} \<and>
      map (h_mem s') [q..<q + k] = map (h_mem s) [q..<q + k])"
    by auto
next
  assume p: "B p = Some n"
  obtain s' where s': "free p s = Inr s'" "heap_ok (B(p := None)) s'" "\<And>x. x < p - 8 \<or> p \<le> x \<Longrightarrow> h_mem s' x = h_mem s x"
    using mfree_ok [OF ok p] by blast
  have "h_mem s' x = h_mem s x" if q: "q \<noteq> p" "B q = Some k" "q \<le> x" "x < q + k" for q k x
  proof -
    have "{q - 16..<q + k} \<inter> {p - 16..<p + n} = {}"
      using mblocks_apart [OF ok q(2) p q(1)] heap_okD(6) [OF ok q(2)] heap_okD(6) [OF ok p] by fastforce
    then have "x \<notin> {p - 16..<p + n}" using q(3,4) by auto
    then show ?thesis by (intro s'(3)) auto
  qed
  then show "\<exists>s'. free p s = Inr s' \<and> heap_ok (B(p := None)) s' \<and>
      (\<forall>q m. q \<noteq> p \<and> B q = Some m \<longrightarrow> map (h_mem s') [q..<q + m] = map (h_mem s) [q..<q + m])"
    using s'(1,2) by auto
qed

lemma realloc_ok:
  assumes ok: "heap_ok B s" and p: "B p = Some m" and n: "0 < n" "n + 47 < 2 ^ 64"
    and m: "malloc n s = (Some q, t)"
  shows "\<exists>s'. realloc p n s = Inr (Some q, s') \<and> heap_ok (B(q \<mapsto> n, p := None)) s' \<and>
           map (h_mem s') [q..<q + min m n] = map (h_mem s) [p..<p + min m n]"
proof -
  note h = heap_okD [OF ok p]
  have e: "p - 16 + 8 = p - 8" using h(1) by simp
  have t: "B q = None" "heap_ok (B(q \<mapsto> n)) t" "\<And>x. x < q - 16 \<or> q \<le> x \<Longrightarrow> h_mem t x = h_mem s x"
    using malloc_ok [OF ok n(2) m] by auto
  have pq: "p \<noteq> q" "(B(q \<mapsto> n)) p = Some m" "(B(q \<mapsto> n)) q = Some n" using t(1) p by auto
  have d: "{p - 16..<p + m} \<inter> {q - 16..<q + n} = {}"
    using mblocks_apart [OF t(2) pq(2,3,1)] heap_okD(6) [OF t(2) pq(2)] heap_okD(6) [OF t(2) pq(3)] by fastforce
  let ?k = "min m n"
  define u where "u = t\<lparr>h_mem := wr q (map (h_mem t) [p..<p + ?k]) (h_mem t)\<rparr>"
  have mu: "h_mem u x = h_mem t x" if "x < q \<or> q + n \<le> x" for x
    using that by (auto simp: u_def wr_other)
  have "heap_ok (B(q \<mapsto> n)) u"
  proof (rule heap_ok_mem [OF t(2)])
    fix r k x assume r: "(B(q \<mapsto> n)) r = Some k" "r - 16 \<le> x" "x < r"
    show "h_mem u x = h_mem t x"
    proof (cases "r = q")
      case False
      have "{r - 16..<r + k} \<inter> {q - 16..<q + n} = {}"
        using mblocks_apart [OF t(2) r(1) pq(3) False] heap_okD(6) [OF t(2) r(1)] heap_okD(6) [OF t(2) pq(3)] by fastforce
      then have "x \<notin> {q - 16..<q + n}" using r(2,3) by auto
      then show ?thesis by (intro mu) auto
    qed (use r in \<open>auto intro: mu\<close>)
  qed (simp add: u_def)
  then obtain s' where s': "free p u = Inr s'" "heap_ok (B(q \<mapsto> n, p := None)) s'"
      "\<And>x. x < p - 8 \<or> p \<le> x \<Longrightarrow> h_mem s' x = h_mem u x"
    using mfree_ok [of "B(q \<mapsto> n)" u p m] pq(2) by auto
  have "h_mem s' (q + i) = h_mem s (p + i)" if i: "i < ?k" for i
  proof -
    have "q + i \<notin> {p - 16..<p + m}" "p + i \<notin> {q - 16..<q + n}" using d i by auto
    then have "h_mem s' (q + i) = h_mem u (q + i)" "h_mem t (p + i) = h_mem s (p + i)"
      by (intro s'(3) t(3); auto)+
    moreover have "h_mem u (q + i) = h_mem t (p + i)" using i by (simp add: u_def wr_def)
    ultimately show ?thesis by simp
  qed
  then have "map (h_mem s') [q..<q + ?k] = map (h_mem s) [p..<p + ?k]"
    by (intro nth_equalityI) auto
  moreover have "realloc p n s = Inr (Some q, s')"
    using h heap_okD(3) [OF t(2) pq(2)] n(1) m s'(1) by (simp add: realloc_def Let_def e u_def)
  ultimately show ?thesis using s'(2) by blast
qed

text \<open>
  C27: \<open>realloc\<close> keeps the bytes both sizes have and the rest of the heap, and when there is no
  memory it leaves the old block as it was.
\<close>

theorem realloc_keeps:
  assumes "heap_ok B s" "B p = Some m" "0 < n" "n + 47 < 2 ^ 64"
  shows "\<exists>r s'. realloc p n s = Inr (r, s') \<and>
    (case r of None \<Rightarrow> s' = s
     | Some q \<Rightarrow> heap_ok (B(q \<mapsto> n, p := None)) s' \<and>
         map (h_mem s') [q..<q + min m n] = map (h_mem s) [p..<p + min m n])"
proof (cases "malloc n s")
  case (Pair r t)
  have e: "p - 16 + 8 = p - 8" using heap_okD(1) [OF assms(1,2)] by simp
  show ?thesis
  proof (cases r)
    case None
    then have "t = s" using malloc_ok [OF assms(1,4) Pair] by simp
    then have "realloc p n s = Inr (None, s)"
      using Pair None heap_okD(1,4) [OF assms(1,2)] assms(3) by (simp add: realloc_def Let_def e)
    then show ?thesis by auto
  next
    case (Some q)
    then show ?thesis using realloc_ok [OF assms, of q t] Pair by fastforce
  qed
qed

text \<open>
  C36: within 16 bytes of the address space the size with its header wraps: such a request is
  granted whenever anything is free, with the header alone, and the pointer is to no byte of it.
\<close>

theorem malloc_wraps:
  assumes "pmm_ok (h_pmm s)" "freelist (h_pmm s) \<noteq> []" "2 ^ 64 - 16 \<le> n" "n < 2 ^ 64"
  shows "\<exists>p s'. malloc n s = (Some p, s') \<and> pmm_avail (h_pmm s) - pmm_avail (h_pmm s') = {p - 16..<p}"
proof -
  have k: "(n + 16) mod 2 ^ 64 = n - (2 ^ 64 - 16)"
    using assms(3,4) mod_add_self2 [of "n - (2 ^ 64 - 16)" "2 ^ 64"] by (simp add: add.commute)
  have b: "block_size ((n + 16) mod 2 ^ 64) = 16"
    unfolding k block_size_def align_up_def using assms(3,4) by (simp add: Let_def) presburger
  obtain b l where l: "freelist (h_pmm s) = b # l" using assms(2) by (cases "freelist (h_pmm s)") auto
  then have "16 \<le> snd b" using assms(1) by (auto simp: pmm_ok_def blk_ok_def dest: dvd_imp_le)
  then have "fst (first_fit 16 (freelist (h_pmm s))) = Some (fst b)" using l by simp
  then obtain p' where p': "pmm_alloc ((n + 16) mod 2 ^ 64) (h_pmm s) = (Some (fst b), p')"
    unfolding pmm_alloc_def b by (auto simp: split_beta)
  note t = pm.take_law [OF assms(1) p', unfolded b]
  have "pmm_avail (h_pmm s) - pmm_avail p' = {fst b..<fst b + 16}" using t by auto
  then show ?thesis using p' by (simp add: malloc_def Let_def)
qed

section \<open>A machine with one region\<close>

definition pmm0 :: pmm where
  "pmm0 = pmm_add 0x10007 0x10000 \<lparr>freelist = [], arena_bytes = 0\<rparr>"

definition heap0 :: kheap where
  "heap0 = \<lparr>h_pmm = pmm0, h_mem = \<lambda>_. 0, live_bytes = 0, peak_bytes = 0, live_blocks = 0, total_blocks = 0\<rparr>"

lemma pmm0_eq: "pmm0 = \<lparr>freelist = [(65552, 65520)], arena_bytes = 65520\<rparr>"
  by (simp add: pmm0_def pmm_add_def align_up_def freelist_insert_def Let_def)

lemma pmm0_ok: "pmm_ok pmm0"
  by (simp add: pmm_ok_def pmm0_eq blk_ok_def)

lemma heap0_ok: "heap_ok Map.empty heap0"
  by (simp add: heap_ok_def heap0_def pmm0_ok tiled_def mblocks_def)

lemma malloc0: "\<exists>s. malloc 100 heap0 = (Some 65568, s)"
  by (simp add: malloc_def heap0_def pmm0_eq pmm_alloc_def block_size_def align_up_def Let_def)

theorem pmm_history_free_witness:
  "pmm_free 65552 100 (snd (pmm_alloc 100 pmm0)) = pmm0 \<and>
   pmm_free 16 16 (pmm_free 32 16 pmm0) = pmm_free 32 16 (pmm_free 16 16 pmm0)"
proof -
  have "pmm_alloc 100 pmm0 = (Some 65552, snd (pmm_alloc 100 pmm0))"
    by (simp add: pmm0_eq pmm_alloc_def block_size_def align_up_def Let_def)
  moreover have "tiled (pmm_avail pmm0) {(16, block_size 16), (32, block_size 16)}"
    by (simp add: tiled_def pmm_avail_def pmm0_eq blk_ok_def block_size_def align_up_def)
  ultimately show ?thesis
    using pmm_history_free [OF pmm0_ok, of 100 65552] pmm_history_free [OF pmm0_ok, of _ 16 _ 32 16]
    by (metis numeral_eq_iff prod.inject semiring_norm(88))
qed

theorem pmm_alloc_complete_witness:
  "fst (pmm_alloc 70000 pmm0) = None \<and> fst (pmm_alloc 65520 pmm0) \<noteq> None"
proof -
  have "pmm_meminfo pmm0 = (65520, 65520, 65520)" by (simp add: pmm0_eq pmm_meminfo_def)
  note c = pmm_alloc_complete [OF pmm0_ok this]
  show ?thesis using c [of 70000] c [of 65520] by (simp add: block_size_def align_up_def)
qed

theorem malloc_free_safe_witness:
  "\<exists>s s'. malloc 100 heap0 = (Some 65568, s) \<and> heap_ok [65568 \<mapsto> 100] s \<and> free 65568 s = Inr s'"
proof -
  obtain s where s: "malloc 100 heap0 = (Some 65568, s)" using malloc0 by blast
  then have "heap_ok [65568 \<mapsto> 100] s" using malloc_free_safe [OF heap0_ok, of 100 65568 s] by simp
  then show ?thesis using s malloc_free_safe [of "[65568 \<mapsto> 100]" s 100 65568 s] by auto
qed

theorem realloc_keeps_witness:
  "\<exists>s r s'. malloc 100 heap0 = (Some 65568, s) \<and> realloc 65568 200 s = Inr (r, s')"
proof -
  obtain s where s: "malloc 100 heap0 = (Some 65568, s)" using malloc0 by blast
  then have "heap_ok [65568 \<mapsto> 100] s" using malloc_ok [OF heap0_ok _ s] by simp
  then show ?thesis using s realloc_keeps [of "[65568 \<mapsto> 100]" s 65568 100 200] by auto
qed

theorem malloc_wraps_witness:
  "\<exists>p s. malloc (2 ^ 64 - 1) heap0 = (Some p, s) \<and> pmm_avail pmm0 - pmm_avail (h_pmm s) = {p - 16..<p}"
  using malloc_wraps [of heap0 "2 ^ 64 - 1"] pmm0_ok by (simp add: heap0_def pmm0_eq)

end
