(* ===== verification/Crc.thy ===== *)
theory Crc
  imports Bytes
begin

text \<open>
  \<open>src/src/crc.c\<close>: the two check polynomials of ZMODEM, driven by tables, and the decoder of
  its escaped data. The lemmas show that the tables compute the textbook bit-serial registers,
  that a frame with its check bytes leaves the residue the receiver compares with, and that the
  decoder inverts every legal escaping and can be resumed where it stopped.
\<close>

unbundle bit_operations_syntax

section \<open>The code\<close>

subsection \<open>The tables\<close>

definition crc16_bit :: "u32 \<Rightarrow> u32" where
  "crc16_bit c = (if c AND 0x8000 \<noteq> 0 then push_bit 1 c XOR 0x1021 else push_bit 1 c)"

definition crc32_bit :: "u32 \<Rightarrow> u32" where
  "crc32_bit c = (if c AND 1 \<noteq> 0 then drop_bit 1 c XOR 0xedb88320 else drop_bit 1 c)"

record crctabs =
  ct_crc16tab :: "u16 list"
  ct_crc32tab :: "u32 list"
  ct_tabsdone :: bool

definition crc16_entry :: "nat \<Rightarrow> u16" where
  "crc16_entry i = ucast ((crc16_bit ^^ 8) (push_bit 8 (of_nat i)))"

definition crc32_entry :: "nat \<Rightarrow> u32" where
  "crc32_entry i = (crc32_bit ^^ 8) (of_nat i)"

definition mktabs :: crctabs where
  "mktabs = \<lparr>ct_crc16tab = map crc16_entry [0..<256], ct_crc32tab = map crc32_entry [0..<256],
     ct_tabsdone = True\<rparr>"

definition luaopen_los_crc :: "crctabs \<Rightarrow> crctabs" where
  "luaopen_los_crc t = (if \<not> ct_tabsdone t then mktabs else t)"

subsection \<open>The registers\<close>

text \<open>The seed is an optional \<open>lua_Integer\<close>; the conversion to \<open>unsigned\<close> keeps its low bits.\<close>

definition crc16_byte :: "crctabs \<Rightarrow> u32 \<Rightarrow> byte \<Rightarrow> u32" where
  "crc16_byte t crc b =
    (push_bit 8 crc XOR ucast (ct_crc16tab t ! unat ((drop_bit 8 crc XOR ucast b) AND 0xff))) AND 0xffff"

definition l_crc16 :: "crctabs \<Rightarrow> byte list \<Rightarrow> int option \<Rightarrow> int" where
  "l_crc16 t p seed =
    uint (foldl (crc16_byte t) (word_of_int (case seed of None \<Rightarrow> 0 | Some v \<Rightarrow> v) AND 0xffff) p)"

definition crc32_byte :: "crctabs \<Rightarrow> u32 \<Rightarrow> byte \<Rightarrow> u32" where
  "crc32_byte t crc b = drop_bit 8 crc XOR ct_crc32tab t ! unat ((crc XOR ucast b) AND 0xff)"

definition l_crc32 :: "crctabs \<Rightarrow> byte list \<Rightarrow> int option \<Rightarrow> int" where
  "l_crc32 t p seed =
    uint (foldl (crc32_byte t) (word_of_int (case seed of None \<Rightarrow> 0xffffffff | Some v \<Rightarrow> v)) p)"

subsection \<open>Unescaping\<close>

abbreviation (input) ZDLE :: byte where "ZDLE \<equiv> 0x18"
abbreviation (input) ZRUB0 :: byte where "ZRUB0 \<equiv> 0x6c"
abbreviation (input) ZRUB1 :: byte where "ZRUB1 \<equiv> 0x6d"

text \<open>
  What \<open>unzdle\<close> pushes: the data, the terminator and the next position; the data, \<open>nil\<close> and the
  next position; or \<open>nil\<close> and \<open>bad escape\<close>.
\<close>

datatype unz = Unz_end "byte list" byte int | Unz_more "byte list" int | Unz_bad

text \<open>The \<open>while\<close> loop: \<open>i\<close> is the index into \<open>p\<close>, \<open>b\<close> what the buffer holds so far.\<close>

function unzdle_loop :: "byte list \<Rightarrow> nat \<Rightarrow> byte list \<Rightarrow> unz" where
  "unzdle_loop p i b =
    (if \<not> i < length p then Unz_more b (int i + 1)
     else if p ! i \<noteq> ZDLE then
       let run = takeWhile (\<lambda>x. x \<noteq> ZDLE) (drop i p) in unzdle_loop p (i + length run) (b @ run)
     else if i + 1 \<ge> length p then Unz_more b (int i + 1)
     else
       let c = p ! (i + 1) in
       if c \<ge> 0x68 \<and> c \<le> 0x6b then Unz_end b c (int i + 3)
       else if c = ZRUB0 then unzdle_loop p (i + 2) (b @ [0x7f])
       else if c = ZRUB1 then unzdle_loop p (i + 2) (b @ [0xff])
       else if c AND 0x60 = 0x40 then unzdle_loop p (i + 2) (b @ [c XOR 0x40])
       else Unz_bad)"
  by pat_completeness auto
termination
proof (relation "measure (\<lambda>(p, i, b). length p - i)", goal_cases)
  case (2 p i b run)
  then have "0 < length run" by (simp add: Cons_nth_drop_Suc [symmetric])
  with 2 show ?case by (simp del: length_greater_0_conv)
qed auto

definition l_unzdle :: "byte list \<Rightarrow> int \<Rightarrow> string + unz" where
  "l_unzdle p at =
    (if \<not> at \<ge> 1 then Inl ''position must be 1 or more'' else Inr (unzdle_loop p (nat (at - 1)) []))"

declare unzdle_loop.simps [simp del]

section \<open>Linear registers\<close>

text \<open>
  A step of a check register is linear over exclusive or and loses nothing. Both hold for any
  number of steps.
\<close>

locale xor_map =
  fixes f :: "'a::len word \<Rightarrow> 'a word"
  assumes xor: "f (a XOR b) = f a XOR f b" and ker: "f a = 0 \<Longrightarrow> a = 0"
begin

lemma zero [simp]: "f 0 = 0"
  using xor [of 0 0] by simp

lemma funpow_zero [simp]: "(f ^^ n) 0 = 0"
  by (induction n) auto

lemma funpow_xor: "(f ^^ n) (a XOR b) = (f ^^ n) a XOR (f ^^ n) b"
  by (induction n) (auto simp: xor)

lemma funpow_ker: "(f ^^ n) a = 0 \<Longrightarrow> a = 0"
  by (induction n) (auto dest: ker)

lemma funpow_inj: "(f ^^ n) a = (f ^^ n) b \<longleftrightarrow> a = b"
  using funpow_ker [of n "a XOR b"] by (auto simp: funpow_xor)

end

section \<open>The textbook registers\<close>

text \<open>
  Polynomial division one message bit at a time: the CCITT polynomial unreflected, most
  significant bit first, and the CRC-32 polynomial reflected, least significant bit first.
\<close>

definition msb_first :: "byte \<Rightarrow> bool list" where
  "msb_first b = map (bit b) [7, 6, 5, 4, 3, 2, 1, 0]"

definition lsb_first :: "byte \<Rightarrow> bool list" where
  "lsb_first b = map (bit b) [0, 1, 2, 3, 4, 5, 6, 7]"

definition crc16_feed :: "u16 \<Rightarrow> bool \<Rightarrow> u16" where
  "crc16_feed r m = (if bit r 15 \<noteq> m then push_bit 1 r XOR 0x1021 else push_bit 1 r)"

definition crc16_spec :: "byte list \<Rightarrow> u16 \<Rightarrow> u16" where
  "crc16_spec d r = foldl crc16_feed r (concat (map msb_first d))"

definition crc32_feed :: "u32 \<Rightarrow> bool \<Rightarrow> u32" where
  "crc32_feed r m = (if bit r 0 \<noteq> m then drop_bit 1 r XOR 0xedb88320 else drop_bit 1 r)"

definition crc32_spec :: "byte list \<Rightarrow> u32 \<Rightarrow> u32" where
  "crc32_spec d r = foldl crc32_feed r (concat (map lsb_first d))"

definition crc16_reg :: "u16 \<Rightarrow> u16" where
  "crc16_reg r = crc16_feed r False"

lemma crc16_reg_alt: "crc16_reg r = push_bit 1 r XOR (if bit r 15 then 0x1021 else 0)"
  by (simp add: crc16_reg_def crc16_feed_def)

lemma crc32_bit_alt: "crc32_bit r = drop_bit 1 r XOR (if bit r 0 then 0xedb88320 else 0)"
  using and_bit_ne_0 [of r 0] by (simp add: crc32_bit_def)

lemma push_bit_xor_word: "push_bit n (a XOR b) = push_bit n a XOR push_bit n (b :: 'a::len word)"
  by (rule word_bitI) (auto simp: word_bits)

lemma drop_bit_xor_word: "drop_bit n (a XOR b) = drop_bit n a XOR drop_bit n (b :: 'a::len word)"
  by (rule word_bitI) (auto simp: word_bits)

lemma crc16_reg_0: "crc16_reg a = 0 \<Longrightarrow> a = 0"
proof (cases "bit a 15")
  case True
  assume "crc16_reg a = 0"
  then have "push_bit 1 a = 0x1021" using True by (simp add: crc16_reg_alt)
  then have "bit (push_bit 1 a) 0 = bit (0x1021 :: u16) 0" by simp
  then show ?thesis by (simp add: bit_0)
next
  case False
  assume "crc16_reg a = 0"
  then have z: "push_bit 1 a = 0" using False by (simp add: crc16_reg_alt)
  show ?thesis
  proof (rule word_bitI)
    fix n assume n: "n < LENGTH(16)"
    show "bit a n = bit 0 n"
    proof (cases "n = 15")
      case False
      then have "bit (push_bit 1 a) (Suc n) = bit a n" using n by (subst bit_push_bit_iff) simp
      then show ?thesis using z by simp
    qed (use \<open>\<not> bit a 15\<close> in simp)
  qed
qed

lemma crc32_bit_0: "crc32_bit a = 0 \<Longrightarrow> a = 0"
proof (cases "bit a 0")
  case True
  assume "crc32_bit a = 0"
  then have "drop_bit 1 a = 0xedb88320" using True by (simp add: crc32_bit_alt)
  then have "bit (drop_bit 1 a) 31 = bit (0xedb88320 :: u32) 31" by simp
  moreover have "\<not> bit a 32" using bit_word_iff_drop_bit_and [of a 32] by (auto dest: bit_imp_le_length)
  ultimately show ?thesis by (simp add: bit_drop_bit_eq)
next
  case False
  assume "crc32_bit a = 0"
  then have z: "drop_bit 1 a = 0" using False by (simp add: crc32_bit_alt)
  show ?thesis
  proof (rule word_bitI)
    fix n assume n: "n < LENGTH(32)"
    show "bit a n = bit 0 n"
    proof (cases n)
      case (Suc k)
      then have "bit (drop_bit 1 a) k = bit a n" by (simp add: bit_drop_bit_eq)
      then show ?thesis using z by simp
    qed (use False in simp)
  qed
qed

interpretation s16: xor_map crc16_reg
  by unfold_locales (simp_all only: crc16_reg_0, auto simp: crc16_reg_alt push_bit_xor_word word_bits ac_simps)

interpretation s32: xor_map crc32_bit
  by unfold_locales (simp_all only: crc32_bit_0, auto simp: crc32_bit_alt drop_bit_xor_word word_bits ac_simps)

subsection \<open>One byte through the table\<close>

text \<open>
  Message bits still to come can be put into the register beforehand, at the end the register
  shifts out of.
\<close>

fun pack16 :: "bool list \<Rightarrow> u16" where
  "pack16 [] = 0"
| "pack16 (m # ms) = (if m then 0x8000 else 0) XOR drop_bit 1 (pack16 ms)"

fun pack32 :: "bool list \<Rightarrow> u32" where
  "pack32 [] = 0"
| "pack32 (m # ms) = (if m then 1 else 0) XOR push_bit 1 (pack32 ms)"

lemma bit_top16: "bit (0x8000 :: u16) n \<longleftrightarrow> n = 15"
  using bit_exp_iff [of 15 n, where 'a = "16 word"] by (auto simp: possible_bit_def)

lemma bit_pack16: "bit (pack16 ms) n \<longleftrightarrow> n < 16 \<and> 15 - n < length ms \<and> ms ! (15 - n)"
proof (induction ms arbitrary: n)
  case (Cons m ms)
  have "bit (pack16 (m # ms)) n \<longleftrightarrow> (n = 15 \<and> m) \<noteq> bit (pack16 ms) (Suc n)"
    by (cases m) (simp_all only: pack16.simps if_True if_False bit_xor_iff bit_drop_bit_eq bit_top16, auto)
  moreover have "15 - n = Suc (15 - Suc n)" if "n < 15" using that by arith
  ultimately show ?case using Cons.IH [of "Suc n"] by (cases "n < 15"; cases "n = 15") auto
qed simp

lemma bit_pack32: "bit (pack32 ms) n \<longleftrightarrow> n < 32 \<and> n < length ms \<and> ms ! n"
proof (induction ms arbitrary: n)
  case (Cons m ms)
  have "bit (pack32 (m # ms)) n \<longleftrightarrow> (n = 0 \<and> m) \<noteq> (0 < n \<and> n < 32 \<and> bit (pack32 ms) (n - 1))"
    by (auto simp: bit_xor_iff bit_push_bit_iff bit_1_iff simp del: push_bit_Suc)
  then show ?case using Cons.IH [of "n - 1"] by (cases n) auto
qed simp

lemma crc16_reg_drop: "\<not> bit x 0 \<Longrightarrow> crc16_reg (drop_bit 1 x) = x"
proof (rule word_bitI)
  fix n assume x: "\<not> bit x 0" and n: "n < LENGTH(16)"
  have "\<not> bit x 16" by (auto dest: bit_imp_le_length)
  then have "bit (crc16_reg (drop_bit 1 x)) n \<longleftrightarrow> 1 \<le> n \<and> bit x (Suc (n - 1))"
    using n by (simp add: crc16_reg_alt bit_xor_iff bit_push_bit_iff bit_drop_bit_eq del: push_bit_Suc)
  then show "bit (crc16_reg (drop_bit 1 x)) n = bit x n" using x by (cases n) auto
qed

lemma crc32_bit_push: "\<not> bit x 31 \<Longrightarrow> crc32_bit (push_bit 1 x) = x"
proof (rule word_bitI)
  fix n assume x: "\<not> bit x 31" and n: "n < LENGTH(32)"
  have "bit (crc32_bit (push_bit 1 x)) n \<longleftrightarrow> Suc n < 32 \<and> bit x n"
    using n by (simp add: crc32_bit_alt bit_xor_iff bit_push_bit_iff bit_drop_bit_eq del: push_bit_Suc)
  then show "bit (crc32_bit (push_bit 1 x)) n = bit x n" using x n by (cases "n = 31") auto
qed

lemma foldl_crc16_feed:
  "length ms \<le> 16 \<Longrightarrow> foldl crc16_feed r ms = (crc16_reg ^^ length ms) (r XOR pack16 ms)"
proof (induction ms arbitrary: r)
  case (Cons m ms)
  have "crc16_feed r m = crc16_reg (r XOR (if m then 0x8000 else 0))"
  proof -
    have "push_bit 1 (0x8000 :: u16) = 0" by simp
    moreover have "bit (r XOR 0x8000) 15 \<longleftrightarrow> \<not> bit r 15" by (simp only: bit_xor_iff bit_top16 simp_thms)
    ultimately show ?thesis
      by (cases m; cases "bit r 15")
        (simp_all only: crc16_feed_def crc16_reg_alt push_bit_xor_word if_True if_False simp_thms
          xor.left_neutral xor.right_neutral bit_top16)
  qed
  moreover have "crc16_reg (drop_bit 1 (pack16 ms)) = pack16 ms"
    using Cons.prems by (intro crc16_reg_drop) (simp add: bit_pack16)
  ultimately show ?case
    using Cons.IH [of "crc16_feed r m"] Cons.prems by (simp add: funpow_swap1 s16.xor xor.assoc)
qed simp

lemma foldl_crc32_feed:
  "length ms \<le> 32 \<Longrightarrow> foldl crc32_feed r ms = (crc32_bit ^^ length ms) (r XOR pack32 ms)"
proof (induction ms arbitrary: r)
  case (Cons m ms)
  have "crc32_feed r m = crc32_bit (r XOR (if m then 1 else 0))"
    by (auto simp: crc32_feed_def crc32_bit_alt drop_bit_xor_word word_bits bit_1_iff)
  moreover have "crc32_bit (push_bit 1 (pack32 ms)) = pack32 ms"
    using Cons.prems by (intro crc32_bit_push) (simp add: bit_pack32)
  ultimately show ?case
    using Cons.IH [of "crc32_feed r m"] Cons.prems by (simp add: funpow_swap1 s32.xor xor.assoc del: push_bit_Suc)
qed simp

lemma crc16_bit_ucast: "ucast (crc16_bit c) = crc16_reg (ucast c)"
proof (rule word_bitI)
  fix n assume "n < LENGTH(16)"
  moreover have "c AND 0x8000 \<noteq> 0 \<longleftrightarrow> bit c 15" using and_bit_ne_0 [of c 15] by simp
  moreover have "bit (0x1021 :: u32) n = bit (0x1021 :: u16) n" if "n < 16"
    using that by (auto simp: less_Suc_eq numeral_eq_Suc bit_Suc)
  ultimately show "bit (ucast (crc16_bit c) :: u16) n = bit (crc16_reg (ucast c)) n"
    by (auto simp: crc16_bit_def crc16_reg_alt word_bits simp del: push_bit_Suc)
qed

lemma crc16_entry_reg: "crc16_entry i = (crc16_reg ^^ 8) (push_bit 8 (of_nat i))"
proof -
  have "ucast ((crc16_bit ^^ n) c) = (crc16_reg ^^ n) (ucast c)" for n c
    by (induction n) (simp_all add: crc16_bit_ucast)
  moreover have "ucast (push_bit 8 (of_nat i) :: u32) = (push_bit 8 (of_nat i) :: u16)"
    by (rule word_bitI) (auto simp: word_bits bit_of_nat_iff)
  ultimately show ?thesis by (simp add: crc16_entry_def)
qed

lemma crc16_reg_small:
  "(\<And>n. bit x n \<Longrightarrow> n + k < 16) \<Longrightarrow> (crc16_reg ^^ k) x = push_bit k x"
proof (induction k)
  case (Suc k)
  have IH: "(crc16_reg ^^ k) x = push_bit k x" using Suc.prems by (intro Suc.IH) force
  have "\<not> bit (push_bit k x) 15"
    using Suc.prems [of "15 - k"] by (auto simp: bit_push_bit_iff)
  then have "crc16_reg (push_bit k x) = push_bit (Suc k) x"
    by (simp add: crc16_reg_alt push_bit_double)
  then show ?case by (simp add: IH)
qed simp

lemma crc32_bit_large:
  "(\<And>n. bit x n \<Longrightarrow> k \<le> n) \<Longrightarrow> (crc32_bit ^^ k) x = drop_bit k x"
proof (induction k)
  case (Suc k)
  have IH: "(crc32_bit ^^ k) x = drop_bit k x" using Suc.prems by (intro Suc.IH) force
  have "\<not> bit (drop_bit k x) 0"
    using Suc.prems [of k] by (auto simp: bit_drop_bit_eq)
  then have "crc32_bit (drop_bit k x) = drop_bit (Suc k) x" by (simp add: crc32_bit_alt)
  then show ?case by (simp add: IH)
qed simp

lemma nth_msb_first: "k < 8 \<Longrightarrow> msb_first b ! k = bit b (7 - k)"
  by (auto simp: msb_first_def less_Suc_eq numeral_eq_Suc)

lemma nth_lsb_first: "k < 8 \<Longrightarrow> lsb_first b ! k = bit b k"
  by (auto simp: lsb_first_def less_Suc_eq numeral_eq_Suc)

lemma length_bits_first [simp]: "length (msb_first b) = 8" "length (lsb_first b) = 8"
  by (simp_all add: msb_first_def lsb_first_def)

lemma crc16_feed_byte:
  fixes b :: byte
  shows "foldl crc16_feed r (msb_first b)
    = push_bit 8 r XOR crc16_entry (unat (ucast (drop_bit 8 r) XOR b))"
proof -
  let ?h = "drop_bit 8 r XOR ucast b" and ?l = "take_bit 8 r"
  have "r XOR pack16 (msb_first b) = push_bit 8 ?h XOR ?l"
  proof (rule word_bitI)
    fix n assume n: "n < LENGTH(16)"
    have "msb_first b ! (15 - n) = bit b (n - 8)" if "8 \<le> n"
      using nth_msb_first [of "15 - n" b] that n by simp
    then show "bit (r XOR pack16 (msb_first b)) n = bit (push_bit 8 ?h XOR ?l) n"
      using n by (simp add: bit_xor_iff bit_pack16 bit_push_bit_iff bit_take_bit_iff bit_drop_bit_eq
          bit_unsigned_iff) (auto simp: not_le)
  qed
  moreover have "(crc16_reg ^^ 8) ?l = push_bit 8 r"
  proof -
    have "(crc16_reg ^^ 8) ?l = push_bit 8 ?l" by (rule crc16_reg_small) (simp add: word_bits)
    also have "\<dots> = push_bit 8 r" by (rule word_bitI) (auto simp: word_bits)
    finally show ?thesis .
  qed
  moreover have "of_nat (unat (ucast (drop_bit 8 r) XOR b)) = ?h"
    by (rule word_bitI) (auto simp: word_bits dest: bit_imp_le_length)
  ultimately show ?thesis
    by (simp add: foldl_crc16_feed crc16_entry_reg s16.funpow_xor xor.commute del: funpow.simps)
qed

lemma crc32_feed_byte:
  fixes b :: byte
  shows "foldl crc32_feed r (lsb_first b)
    = drop_bit 8 r XOR crc32_entry (unat ((r XOR ucast b) AND 0xff))"
proof -
  let ?x = "r XOR ucast b"
  have pack: "pack32 (lsb_first b) = ucast b"
  proof (rule word_bitI)
    fix n assume "n < LENGTH(32)"
    then show "bit (pack32 (lsb_first b)) n = bit (ucast b :: u32) n"
      by (cases "n < 8") (auto simp: bit_pack32 bit_unsigned_iff nth_lsb_first dest: bit_imp_le_length)
  qed
  have x: "push_bit 8 (drop_bit 8 r) XOR take_bit 8 ?x = ?x"
    by (rule word_bitI) (auto simp: word_bits dest: bit_imp_le_length)
  have hi: "(crc32_bit ^^ 8) (push_bit 8 (drop_bit 8 r)) = drop_bit 8 r"
  proof -
    have "(crc32_bit ^^ 8) (push_bit 8 (drop_bit 8 r)) = drop_bit 8 (push_bit 8 (drop_bit 8 r))"
      by (rule crc32_bit_large) (simp add: word_bits)
    also have "\<dots> = drop_bit 8 r"
      by (rule word_bitI) (auto simp: word_bits dest: bit_imp_le_length)
    finally show ?thesis .
  qed
  have "foldl crc32_feed r (lsb_first b) = (crc32_bit ^^ 8) ?x"
    by (simp add: foldl_crc32_feed pack del: funpow.simps)
  also have "\<dots> = drop_bit 8 r XOR (crc32_bit ^^ 8) (take_bit 8 ?x)"
    using s32.funpow_xor [of 8 "push_bit 8 (drop_bit 8 r)" "take_bit 8 ?x"] unfolding x hi .
  finally show ?thesis by (simp add: crc32_entry_def and_ff)
qed

lemma mktabs_nth:
  "i < 256 \<Longrightarrow> ct_crc16tab mktabs ! i = crc16_entry i"
  "i < 256 \<Longrightarrow> ct_crc32tab mktabs ! i = crc32_entry i"
  by (simp_all add: mktabs_def)

lemma unat_and_ff: "unat ((x :: u32) AND 0xff) < 256"
proof -
  have "unat (x AND 0xff) \<le> unat (0xff :: u32)"
    by (rule word_and_le1 [THEN word_le_nat_alt [THEN iffD1]])
  then show ?thesis by simp
qed

lemma crc16_byte_spec: "crc16_byte mktabs (ucast r) b = ucast (foldl crc16_feed r (msb_first b))"
proof -
  have i: "(drop_bit 8 (ucast r) XOR ucast b) AND 0xff = (ucast (ucast (drop_bit 8 r) XOR b) :: u32)"
    unfolding and_ff
    by (rule word_bitI) (auto simp: word_bits dest: bit_imp_le_length)
  have "(push_bit 8 (ucast r) XOR ucast e) AND 0xffff = (ucast (push_bit 8 r XOR e) :: u32)" for e :: u16
    unfolding and_ff
    by (rule word_bitI) (auto simp: word_bits dest: bit_imp_le_length)
  moreover have "unat (ucast (ucast (drop_bit 8 r) XOR b) :: u32) = unat (ucast (drop_bit 8 r) XOR b)"
    by (simp add: unsigned_ucast_eq take_bit_nat_eq_self_iff) (rule order_less_le_trans [OF unsigned_less], simp)
  ultimately show ?thesis
    using mktabs_nth(1) unat_and_ff [of "drop_bit 8 (ucast r) XOR ucast b"]
    by (simp add: crc16_byte_def crc16_feed_byte i)
qed

lemma crc32_byte_spec: "crc32_byte mktabs r b = foldl crc32_feed r (lsb_first b)"
  using mktabs_nth(2) [OF unat_and_ff, of "r XOR ucast b"]
  by (simp add: crc32_byte_def crc32_feed_byte)

lemma foldl_crc16_spec: "foldl (crc16_byte mktabs) (ucast r) d = ucast (crc16_spec d r)"
  by (induction d arbitrary: r) (simp_all add: crc16_spec_def crc16_byte_spec)

lemma foldl_crc32_spec: "foldl (crc32_byte mktabs) r d = crc32_spec d r"
  by (induction d arbitrary: r) (simp_all add: crc32_spec_def crc32_byte_spec)

lemma crc_spec_append:
  "crc16_spec (d @ e) r = crc16_spec e (crc16_spec d r)"
  "crc32_spec (d @ e) q = crc32_spec e (crc32_spec d q)"
  by (simp_all add: crc16_spec_def crc32_spec_def)

lemma l_crc16_spec:
  "l_crc16 mktabs d seed = uint (crc16_spec d (word_of_int (case seed of None \<Rightarrow> 0 | Some v \<Rightarrow> v)))"
proof -
  have "word_of_int v AND (0xffff :: u32) = ucast (word_of_int v :: u16)" for v
    unfolding and_ff
    by (rule word_bitI) (auto simp: word_bits bit_word_of_int_iff)
  then show ?thesis by (simp add: l_crc16_def foldl_crc16_spec uint_up_ucast is_up)
qed

lemma l_crc32_spec:
  "l_crc32 mktabs d seed
    = uint (crc32_spec d (word_of_int (case seed of None \<Rightarrow> 0xffffffff | Some v \<Rightarrow> v)))"
  by (simp add: l_crc32_def foldl_crc32_spec)

section \<open>What the receiver compares with\<close>

lemma crc16_entry_0 [simp]: "crc16_entry 0 = 0"
  by (simp add: crc16_entry_reg del: funpow.simps)

lemma crc16_residue: "crc16_spec [ucast (drop_bit 8 c), ucast c] c = 0"
proof -
  have "ucast (drop_bit 8 (push_bit 8 c)) = (ucast c :: byte)"
    by (rule word_bitI) (auto simp: word_bits)
  moreover have "push_bit 8 (push_bit 8 c) = 0"
    by (rule word_bitI) (auto simp: word_bits)
  ultimately show ?thesis by (simp add: crc16_spec_def crc16_feed_byte)
qed

text \<open>The four check bytes of the complement leave the same value whatever was sent.\<close>

definition crc32_rest :: "u32 \<Rightarrow> u32" where
  "crc32_rest k = drop_bit 8 k XOR crc32_entry (unat ((k XOR 0xff) AND 0xff))"

lemma crc32_rest_step:
  assumes "n + 8 \<le> 32"
  shows "foldl crc32_feed (drop_bit n c XOR k) (lsb_first (ucast (drop_bit n (NOT c))))
    = drop_bit (n + 8) c XOR crc32_rest k"
proof -
  have "((drop_bit n c XOR k) XOR ucast (ucast (drop_bit n (NOT c)) :: byte)) AND 0xff = (k XOR 0xff) AND 0xff"
  proof (rule word_bitI)
    fix i assume "i < LENGTH(32)"
    then show "bit (((drop_bit n c XOR k) XOR ucast (ucast (drop_bit n (NOT c)) :: byte)) AND 0xff) i
        = bit ((k XOR 0xff) AND 0xff) i"
      using assms unfolding and_ff bit_take_bit_iff bit_xor_iff bit_ff by (auto simp: word_bits)
  qed
  then show ?thesis
    by (simp add: crc32_feed_byte crc32_rest_def drop_bit_xor_word xor.assoc add.commute)
qed

lemma crc32_rest4: "crc32_rest (crc32_rest (crc32_rest (crc32_rest 0))) = 0xdebb20e3"
  by code_simp

lemma crc32_residue:
  "crc32_spec (map (\<lambda>n. ucast (drop_bit n (NOT c))) [0, 8, 16, 24]) c = 0xdebb20e3"
proof -
  have "drop_bit 32 c = 0" by (rule word_bitI) (auto simp: word_bits dest: bit_imp_le_length)
  then show ?thesis
    using crc32_rest_step [of 0 c 0] crc32_rest_step [of 8 c "crc32_rest 0"]
      crc32_rest_step [of 16 c "crc32_rest (crc32_rest 0)"]
      crc32_rest_step [of 24 c "crc32_rest (crc32_rest (crc32_rest 0))"]
    by (simp add: crc32_spec_def crc32_rest4)
qed

section \<open>Unescaping\<close>

text \<open>A plain run can be taken a byte at a time.\<close>

lemma unzdle_plain:
  assumes "i < length p" and "p ! i \<noteq> ZDLE"
  shows "unzdle_loop p i b = unzdle_loop p (i + 1) (b @ [p ! i])"
proof -
  define r where "r = takeWhile (\<lambda>x. x \<noteq> ZDLE) (drop (i + 1) p)"
  have "takeWhile (\<lambda>x. x \<noteq> ZDLE) (drop i p) = p ! i # r"
    using assms by (simp add: Cons_nth_drop_Suc [symmetric] r_def)
  then have l: "unzdle_loop p i b = unzdle_loop p (i + 1 + length r) (b @ [p ! i] @ r)"
    using assms by (subst unzdle_loop.simps) (simp add: add.assoc)
  show ?thesis
  proof (cases r)
    case Nil
    then show ?thesis using l by simp
  next
    case (Cons x xs)
    then have i: "i + 1 < length p" by (cases "i + 1 < length p") (auto simp: r_def)
    then have "p ! (i + 1) \<noteq> ZDLE"
      using Cons unfolding r_def Cons_nth_drop_Suc [OF i, symmetric] by (auto split: if_splits)
    with i have "unzdle_loop p (i + 1) (b @ [p ! i]) = unzdle_loop p (i + 1 + length r) (b @ [p ! i] @ r)"
      by (subst unzdle_loop.simps) (simp add: r_def Let_def)
    with l show ?thesis by simp
  qed
qed

lemma unzdle_escape:
  assumes "i + 1 < length p" and "p ! i = ZDLE"
  shows "unzdle_loop p i b =
    (let c = p ! (i + 1) in
     if c \<ge> 0x68 \<and> c \<le> 0x6b then Unz_end b c (int i + 3)
     else if c = ZRUB0 then unzdle_loop p (i + 2) (b @ [0x7f])
     else if c = ZRUB1 then unzdle_loop p (i + 2) (b @ [0xff])
     else if c AND 0x60 = 0x40 then unzdle_loop p (i + 2) (b @ [c XOR 0x40])
     else Unz_bad)"
  using assms by (subst unzdle_loop.simps) simp

lemma unzdle_stop:
  "length p \<le> i \<Longrightarrow> unzdle_loop p i b = Unz_more b (int i + 1)"
  "p ! i = ZDLE \<Longrightarrow> length p = i + 1 \<Longrightarrow> unzdle_loop p i b = Unz_more b (int i + 1)"
  by (subst unzdle_loop.simps, simp)+

text \<open>Decoding goes on where it stopped when more input arrives.\<close>

definition unz_resume :: "byte list \<Rightarrow> unz \<Rightarrow> unz" where
  "unz_resume p u = (case u of Unz_more d k \<Rightarrow> unzdle_loop p (nat (k - 1)) d | _ \<Rightarrow> u)"

lemma unzdle_resume:
  "i \<le> length s \<Longrightarrow> unzdle_loop (s @ t) i b = unz_resume (s @ t) (unzdle_loop s i b)"
proof (induction "length s - i" arbitrary: i b rule: less_induct)
  case less
  consider "i = length s" | "i < length s" "s ! i \<noteq> ZDLE" | "i + 1 = length s" "s ! i = ZDLE"
    | "i + 1 < length s" "s ! i = ZDLE" using less.prems by linarith
  then show ?case
  proof cases
    case 2
    then show ?thesis
      using less.hyps [of "i + 1" "b @ [s ! i]"] unzdle_plain [of i s b] unzdle_plain [of i "s @ t" b]
      by (simp add: nth_append)
  next
    case 4
    let ?c = "s ! (i + 1)"
    have c: "(s @ t) ! (i + 1) = ?c" "(s @ t) ! i = ZDLE" using 4 by (simp_all add: nth_append)
    have IH: "unzdle_loop (s @ t) (i + 2) e = unz_resume (s @ t) (unzdle_loop s (i + 2) e)" for e
      using 4 by (intro less.hyps) auto
    show ?thesis
      using 4 c IH by (simp add: unzdle_escape Let_def) (simp add: unz_resume_def)
  qed (auto simp: unz_resume_def unzdle_stop)
qed

lemma unzdle_more:
  "unzdle_loop s i b = Unz_more d k \<Longrightarrow> i \<le> length s \<Longrightarrow>
    int i < k \<and> (k = int (length s) + 1 \<or> (k = int (length s) \<and> s \<noteq> [] \<and> last s = ZDLE))"
proof (induction "length s - i" arbitrary: i b rule: less_induct)
  case less
  consider "i = length s" | "i < length s" "s ! i \<noteq> ZDLE" | "i + 1 = length s" "s ! i = ZDLE"
    | "i + 1 < length s" "s ! i = ZDLE" using less.prems(2) by linarith
  then show ?case
  proof cases
    case 1
    then show ?thesis using less.prems(1) by (simp add: unzdle_stop)
  next
    case 2
    then have "length s - (i + 1) < length s - i" by simp
    from less.hyps [OF this, of "b @ [s ! i]"] show ?thesis
      using 2 less.prems(1) unzdle_plain [of i s b] by auto
  next
    case 3
    then have ne: "s \<noteq> []" by auto
    moreover have "last s = s ! i" using 3(1) last_conv_nth [OF ne] by (simp flip: 3(1))
    ultimately show ?thesis using 3 less.prems(1) by (auto simp: unzdle_stop)
  next
    case 4
    then have "\<exists>e. unzdle_loop s (i + 2) e = Unz_more d k"
      using less.prems(1) by (auto simp: unzdle_escape Let_def split: if_splits)
    moreover have "length s - (i + 2) < length s - i" using 4 by simp
    ultimately show ?thesis using less.hyps [of "i + 2"] 4 by fastforce
  qed
qed

text \<open>
  The encodings a sender may choose from: a byte other than \<open>ZDLE\<close> as itself, a control byte or
  its high-bit form escaped, the two rubouts by their own codes.
\<close>

inductive zenc :: "byte list \<Rightarrow> byte list \<Rightarrow> bool" where
  zenc_Nil: "zenc [] []"
| zenc_plain: "zenc d e \<Longrightarrow> c \<noteq> ZDLE \<Longrightarrow> zenc (c # d) (c # e)"
| zenc_ctl: "zenc d e \<Longrightarrow> c AND 0x60 = 0 \<Longrightarrow> zenc (c # d) (ZDLE # (c XOR 0x40) # e)"
| zenc_rub0: "zenc d e \<Longrightarrow> zenc (0x7f # d) (ZDLE # ZRUB0 # e)"
| zenc_rub1: "zenc d e \<Longrightarrow> zenc (0xff # d) (ZDLE # ZRUB1 # e)"

lemma ctl_escape:
  assumes "(c :: byte) AND 0x60 = 0"
  shows "(c XOR 0x40) AND 0x60 = 0x40" and "\<not> (0x68 \<le> c XOR 0x40 \<and> c XOR 0x40 \<le> 0x6b)"
    and "c XOR 0x40 \<noteq> ZRUB0" and "c XOR 0x40 \<noteq> ZRUB1"
proof -
  have "(c XOR 0x40) AND 0x60 = (c AND 0x60) XOR (0x40 AND 0x60)" by (rule bit.conj_xor_distrib2)
  then show e: "(c XOR 0x40) AND 0x60 = 0x40" using assms by simp
  show "c XOR 0x40 \<noteq> ZRUB0" "c XOR 0x40 \<noteq> ZRUB1" using e by auto
  show "\<not> (0x68 \<le> c XOR 0x40 \<and> c XOR 0x40 \<le> 0x6b)"
  proof
    assume a: "0x68 \<le> c XOR 0x40 \<and> c XOR 0x40 \<le> 0x6b"
    then have "unat (c XOR 0x40) \<in> {0x68, 0x69, 0x6a, 0x6b}" by (auto simp: word_le_nat_alt)
    then have "c XOR 0x40 \<in> {0x68, 0x69, 0x6a, 0x6b}"
      by (auto simp: word_unat_eq_iff)
    with e show False by auto
  qed
qed

lemma unzdle_zenc:
  assumes "zenc d e" and "t \<in> {0x68, 0x69, 0x6a, 0x6b}"
  shows "unzdle_loop (q @ e @ ZDLE # t # z) (length q) b
    = Unz_end (b @ d) t (int (length q + length e) + 3)"
  using assms(1)
proof (induction arbitrary: q b)
  case zenc_Nil
  then show ?case using assms(2) by (auto simp: unzdle_escape nth_append)
next
  case (zenc_plain d e c)
  then show ?case
    using zenc_plain.IH [of "q @ [c]" "b @ [c]"]
      unzdle_plain [of "length q" "q @ (c # e) @ ZDLE # t # z" b] by simp
next
  case (zenc_ctl d e c)
  then show ?case
    using zenc_ctl.IH [of "q @ [ZDLE, c XOR 0x40]" "b @ [c]"] ctl_escape [OF zenc_ctl.hyps(2)]
    by (simp add: unzdle_escape nth_append Let_def xor.assoc)
next
  case (zenc_rub0 d e)
  then show ?case
    using zenc_rub0.IH [of "q @ [ZDLE, ZRUB0]" "b @ [0x7f]"] by (simp add: unzdle_escape nth_append)
next
  case (zenc_rub1 d e)
  then show ?case
    using zenc_rub1.IH [of "q @ [ZDLE, ZRUB1]" "b @ [0xff]"] by (simp add: unzdle_escape nth_append)
qed

section \<open>Properties\<close>

text \<open>
  C24: the table-driven CRCs are the textbook ones. Whatever the data and the seed, \<open>crc16\<close> and
  \<open>crc32\<close> with the tables \<open>mktabs\<close> builds give the register that feeding the message bit by bit
  gives, at the register's width.
\<close>

theorem crc_tables_correct:
  "l_crc16 mktabs d seed = uint (crc16_spec d (word_of_int (case seed of None \<Rightarrow> 0 | Some v \<Rightarrow> v)))
   \<and> l_crc32 mktabs d seed
     = uint (crc32_spec d (word_of_int (case seed of None \<Rightarrow> 0xffffffff | Some v \<Rightarrow> v)))"
  by (simp add: l_crc16_spec l_crc32_spec)

text \<open>
  The receiver's residue. Running the check value of a frame, high byte first, through \<open>crc16\<close>
  after the frame leaves zero; running the complement of the CRC-32, low byte first, leaves
  \<open>0xdebb20e3\<close>: for every frame and seed.
\<close>

lemma crc_residue:
  "l_crc16 mktabs (d @ (let c = word_of_int (l_crc16 mktabs d seed) :: u16 in [ucast (drop_bit 8 c), ucast c])) seed = 0
   \<and> l_crc32 mktabs (d @ (let c = NOT (word_of_int (l_crc32 mktabs d seed)) :: u32 in
        map (\<lambda>n. ucast (drop_bit n c)) [0, 8, 16, 24])) seed = 0xdebb20e3"
  by (simp only: l_crc16_spec l_crc32_spec crc_spec_append Let_def word_of_int_uint crc16_residue
      crc32_residue) simp

text \<open>
  C25: what a sender escaped is what \<open>unzdle\<close> returns. For every legal encoding \<open>e\<close> of the data,
  followed by a subpacket terminator and anything else, decoding from the first position gives
  the data, the terminator and the position after it.
\<close>

theorem unzdle_roundtrip:
  assumes "zenc d e" and "t \<in> {0x68, 0x69, 0x6a, 0x6b}"
  shows "l_unzdle (e @ ZDLE # t # z) 1 = Inr (Unz_end d t (int (length e) + 3))"
  using unzdle_zenc [OF assms, of "[]" z "[]"] by (simp add: l_unzdle_def)

theorem unzdle_roundtrip_witness:
  "zenc [0x41, 0x18, 0x7f] [0x41, 0x18, 0x58, 0x18, 0x6c] \<and> (0x68 :: byte) \<in> {0x68, 0x69, 0x6a, 0x6b}
   \<and> l_unzdle ([0x41, 0x18, 0x58, 0x18, 0x6c] @ 0x18 # 0x68 # [7]) 1 = Inr (Unz_end [0x41, 0x18, 0x7f] 0x68 8)"
proof -
  have "zenc [0x41, 0x18, 0x7f] [0x41, 0x18, 0x18 XOR 0x40, 0x18, 0x6c]"
    by (intro zenc_plain zenc_ctl zenc_rub0 zenc_Nil) simp_all
  then have e: "zenc [0x41, 0x18, 0x7f] [0x41, 0x18, 0x58, 0x18, 0x6c]" by simp
  show ?thesis using unzdle_roundtrip [OF e, where t = "0x68" and z = "[7]"] e by simp
qed

text \<open>
  The decoder can be fed in pieces. If it ran out of input on \<open>s\<close>, calling it again from the
  position it answered with, once \<open>t\<close> has arrived, continues exactly where a single call over all
  the input would be; the position it answers with never goes back and is the end of the input,
  or the lone escape byte the input ends in.
\<close>

lemma unzdle_resumes:
  assumes "l_unzdle s at = Inr (Unz_more d k)" and "at \<le> int (length s) + 1"
  shows "at \<le> k \<and> (k = int (length s) + 1 \<or> k = int (length s) \<and> last s = ZDLE)
    \<and> l_unzdle (s @ t) at = Inr (unzdle_loop (s @ t) (nat (k - 1)) d)"
proof -
  have u: "unzdle_loop s (nat (at - 1)) [] = Unz_more d k" and a: "1 \<le> at"
    using assms(1) by (auto simp: l_unzdle_def split: if_splits)
  have i: "nat (at - 1) \<le> length s" using assms(2) by simp
  show ?thesis
    using unzdle_more [OF u i] unzdle_resume [OF i, of t "[]"] u a
    by (auto simp: l_unzdle_def unz_resume_def)
qed

end
