(* ===== verification/Inet.thy ===== *)
theory Inet
  imports Bytes
begin

text \<open>
  \<open>src/src/inet.c\<close>: the internet checksum. The accumulator is the C \<open>unsigned long long\<close>, with its
  carries folded only at the end. The lemmas show that this is RFC 1071's one's complement sum
  as long as the accumulator does not wrap, and that a packet carrying its checksum sums to
  nothing.
\<close>

unbundle bit_operations_syntax

section \<open>The code\<close>

fun sum_words :: "byte list \<Rightarrow> u64 \<Rightarrow> u64" where
  "sum_words (a # b # p) acc = sum_words p (acc + (push_bit 8 (ucast a) OR ucast b))"
| "sum_words [a] acc = acc + push_bit 8 (ucast a)"
| "sum_words [] acc = acc"

function fold_carries :: "u64 \<Rightarrow> u64" where
  "fold_carries acc = (if acc > 0xffff then fold_carries ((acc AND 0xffff) + drop_bit 16 acc) else acc)"
  by pat_completeness auto

definition checksum_seed :: "int option \<Rightarrow> u64" where
  "checksum_seed seed = word_of_int (case seed of None \<Rightarrow> 0 | Some v \<Rightarrow> v)"

section \<open>The carry fold\<close>

text \<open>One turn of the fold, as arithmetic.\<close>

lemma unat_fold_turn:
  "unat ((acc AND 0xffff) + drop_bit 16 (acc :: u64)) = unat acc mod 65536 + unat acc div 65536"
proof -
  have lo: "unat (acc AND 0xffff) = unat acc mod 65536"
    unfolding and_ff unsigned_take_bit_eq by (simp add: take_bit_eq_mod)
  have hi: "unat (drop_bit 16 acc) = unat acc div 65536"
    using unat_bounds(4) [of acc] unfolding unsigned_drop_bit_eq
    by (simp add: drop_bit_eq_div take_bit_nat_eq_self)
  have "unat acc mod 65536 + unat acc div 65536 < 2 ^ 64"
    using unat_bounds(4) [of acc] mod_less_divisor [of 65536 "unat acc"] by simp
  then show ?thesis by (simp add: unat_word_ariths lo hi)
qed

termination fold_carries
proof (relation "measure unat", goal_cases)
  case (2 acc)
  then have "65536 \<le> unat acc" by (simp add: word_less_nat_alt)
  then have "0 < unat acc div 65536" by (simp add: div_greater_zero_iff)
  then have "unat acc mod 65536 + unat acc div 65536 < unat acc"
    using mult_div_mod_eq [of 65536 "unat acc"] by linarith
  then show ?case by (simp add: unat_fold_turn)
qed simp

declare fold_carries.simps [simp del]

definition l_checksum :: "byte list \<Rightarrow> int option \<Rightarrow> int" where
  "l_checksum p seed =
    uint ((NOT (fold_carries (sum_words p (checksum_seed seed)))) AND 0xffff)"

section \<open>RFC 1071\<close>

text \<open>
  The reference: the data as big-endian 16-bit words, an odd last byte as the high half of one,
  added without bound, and the sum reduced in one's complement: modulo \<open>65535\<close>, where only the
  sum of nothing is zero.
\<close>

fun be_words :: "byte list \<Rightarrow> nat list" where
  "be_words (a # b # p) = (256 * unat a + unat b) # be_words p"
| "be_words [a] = [256 * unat a]"
| "be_words [] = []"

definition ones_sum :: "nat \<Rightarrow> nat" where
  "ones_sum n = (if n = 0 then 0 else (n - 1) mod 65535 + 1)"

lemma ones_sum_small: "n \<le> 65535 \<Longrightarrow> ones_sum n = n"
  by (simp add: ones_sum_def)

lemma ones_sum_le: "ones_sum n \<le> 65535"
  using mod_less_divisor [of 65535 "n - 1"] by (simp add: ones_sum_def del: mod_less_divisor)

lemma ones_sum_turn: "ones_sum (n mod 65536 + n div 65536) = ones_sum n"
proof (cases "n = 0")
  case False
  define q r where "q = n div 65536" and "r = n mod 65536"
  have n: "n = 65536 * q + r" by (simp add: q_def r_def)
  then have pos: "0 < r + q" using False by auto
  then have "n - 1 = (r + q - 1) + 65535 * q" using n by simp
  then have "(n - 1) mod 65535 = (r + q - 1) mod 65535" by (simp only: mod_mult_self2)
  then show ?thesis using pos False by (simp add: ones_sum_def q_def r_def)
qed simp

lemma fold_carries_ones: "unat (fold_carries acc) = ones_sum (unat acc)"
proof (induction acc rule: fold_carries.induct)
  case (1 acc)
  show ?case
  proof (cases "acc > 0xffff")
    case True
    then show ?thesis
      using 1 by (simp add: fold_carries.simps [of acc] unat_fold_turn ones_sum_turn)
  next
    case False
    then have "unat acc \<le> 65535" by (simp add: word_less_nat_alt not_less)
    then show ?thesis using False by (simp add: fold_carries.simps [of acc] ones_sum_small)
  qed
qed

lemma unat_be_word: "unat (push_bit 8 (ucast a) OR ucast b :: u64) = 256 * unat (a :: byte) + unat (b :: byte)"
proof -
  have ab: "unat a < 256" "unat b < 256" using unat_bounds(1) [of a] unat_bounds(1) [of b] by simp_all
  have "push_bit 8 (ucast a) OR ucast b = (push_bit 8 (ucast a) + ucast b :: u64)"
    by (rule disjunctive_add [symmetric]) (auto simp: word_bits dest: bit_imp_le_length)
  moreover have "unat (ucast a :: u64) = unat a" "unat (ucast b :: u64) = unat b"
    by (simp_all add: unsigned_ucast_eq take_bit_nat_eq_self_iff order_less_le_trans [OF unsigned_less])
  ultimately show ?thesis
    using ab by (simp add: push_bit_eq_mult unat_word_ariths)
qed

lemma unat_sum_words: "unat (sum_words p acc) = (unat acc + sum_list (be_words p)) mod 2 ^ 64"
proof (induction p acc rule: sum_words.induct)
  case (1 a b p acc)
  then show ?case by (simp add: unat_be_word unat_word_ariths mod_add_left_eq add.assoc)
next
  case (2 a acc)
  then show ?case using unat_be_word [of a 0] by (simp add: unat_word_ariths)
next
  case (3 acc)
  then show ?case using unat_bounds(4) [of acc] by simp
qed

lemma be_words_le: "w \<in> set (be_words p) \<Longrightarrow> w \<le> 65535"
proof (induction p rule: be_words.induct)
  case (1 a b p)
  then show ?case using unat_bounds(1) [of a] unat_bounds(1) [of b] by auto
next
  case (2 a)
  then show ?case using unat_bounds(1) [of a] by auto
qed simp

lemma uint_not_low: "unat x \<le> 65535 \<Longrightarrow> uint (NOT (x :: u64) AND 0xffff) = 65535 - int (unat x)"
proof -
  assume x: "unat x \<le> 65535"
  have "NOT x AND 0xffff = 0xffff - x"
    using x by (simp add: and_ff take_bit_not_eq_mask_diff take_bit_small mask_eq_exp_minus_1)
  moreover have "x \<le> 0xffff" using x by (simp add: word_le_nat_alt)
  ultimately show ?thesis by (simp add: uint_sub_lem [THEN iffD1] word_le_def)
qed

lemma l_checksum_ones:
  "l_checksum p seed
    = 65535 - int (ones_sum ((unat (checksum_seed seed) + sum_list (be_words p)) mod 2 ^ 64))"
  unfolding l_checksum_def
  by (subst uint_not_low) (simp_all add: fold_carries_ones unat_sum_words ones_sum_le)

lemma sum_be_words: "sum_list (be_words p) \<le> 65535 * ((length p + 1) div 2)"
proof (induction p rule: be_words.induct)
  case (1 a b p)
  then show ?case using be_words_le [of "256 * unat a + unat b" "[a, b]"] by simp
next
  case (2 a)
  then show ?case using be_words_le [of "256 * unat a" "[a]"] by simp
qed simp

lemma checksum_ones_seed:
  assumes "0 \<le> v" and "v < 2 ^ 48" and "length p \<le> 2 ^ 32"
  shows "l_checksum p (Some v) = 65535 - int (ones_sum (nat v + sum_list (be_words p)))"
proof -
  have v: "unat (checksum_seed (Some v)) = nat v"
    using assms(1,2) by (simp add: checksum_seed_def unsigned_of_int take_bit_int_eq_self)
  have "nat v < 2 ^ 48" using assms(1,2) by (simp add: nat_less_iff)
  moreover have "sum_list (be_words p) \<le> 65535 * ((2 ^ 32 + 1) div 2)"
    using sum_be_words [of p] assms(3) by (meson add_le_mono1 div_le_mono le_trans mult_le_mono2)
  ultimately have "nat v + sum_list (be_words p) < 2 ^ 64" by simp
  then show ?thesis by (simp add: l_checksum_ones v)
qed

lemma be_words_append: "even (length p) \<Longrightarrow> be_words (p @ q) = be_words p @ be_words q"
  by (induction p rule: be_words.induct) auto

lemma unat_be_bytes: "256 * unat (ucast (drop_bit 8 c) :: byte) + unat (ucast c :: byte) = unat (c :: u16)"
proof -
  have "unat (ucast (drop_bit 8 c) :: byte) = unat c div 256"
    using unat_bounds(2) [of c] by (simp add: unat_ucast unat_drop_bit)
  moreover have "unat (ucast c :: byte) = unat c mod 256"
    by (simp add: unat_ucast)
  ultimately show ?thesis by simp
qed

text \<open>A sum and its complement.\<close>

lemma ones_sum_comp: "ones_sum (n + (65535 - ones_sum n)) = 65535"
proof (cases "n = 0")
  case False
  define q where "q = (n - 1) div 65535"
  have "ones_sum n = (n - 1) mod 65535 + 1" using False by (simp add: ones_sum_def)
  then have "ones_sum n = n - 65535 * q"
    using False mult_div_mod_eq [of 65535 "n - 1"] unfolding q_def by linarith
  moreover have "65535 * q < n" using False mult_div_mod_eq [of 65535 "n - 1"] unfolding q_def by linarith
  ultimately have "n + (65535 - ones_sum n) - 1 = 65534 + 65535 * q"
    using ones_sum_le [of n] by linarith
  then have "(n + (65535 - ones_sum n) - 1) mod 65535 = 65534" by (simp only: mod_mult_self2) simp
  then show ?thesis using False by (simp add: ones_sum_def)
qed (simp add: ones_sum_def)

section \<open>Properties\<close>

text \<open>
  C28: \<open>checksum\<close> is RFC 1071. For up to \<open>2 ^ 32\<close> bytes and a non-negative seed below \<open>2 ^ 48\<close>, such as
  the sum of a pseudo header, the result is the one's complement of the one's complement sum
  of the seed and the data's big-endian 16-bit words: nothing is lost by folding the carries
  only once, at the end.
\<close>

theorem checksum_is_rfc1071:
  assumes "0 \<le> v" and "v < 2 ^ 48" and "length p \<le> 2 ^ 32"
  shows "l_checksum p (Some v) = 65535 - int (ones_sum (nat v + sum_list (be_words p)))"
  using assms by (rule checksum_ones_seed)

theorem checksum_is_rfc1071_witness:
  "(0 :: int) \<le> 17 \<and> l_checksum [0xff, 0xff, 0x12] (Some 17) = 65535 - int (ones_sum (nat 17 + (65535 + 4608)))"
  using checksum_is_rfc1071 [of 17 "[0xff, 0xff, 0x12]"] by simp

text \<open>
  C29: a packet that carries its checksum verifies. With the checksum of the other words written
  big-endian after an even number of bytes, and anything summed in before as a seed, the checksum
  of the whole is zero.
\<close>

theorem checksum_verifies:
  assumes "0 \<le> v" and "v < 2 ^ 48" and "length p + 2 \<le> 2 ^ 32" and "even (length p)"
  shows "l_checksum (p @ (let c = word_of_int (l_checksum p (Some v)) :: u16 in
      [ucast (drop_bit 8 c), ucast c])) (Some v) = 0"
proof -
  define S where "S = nat v + sum_list (be_words p)"
  define c where "c = (word_of_int (l_checksum p (Some v)) :: u16)"
  have l: "l_checksum p (Some v) = 65535 - int (ones_sum S)"
    using checksum_ones_seed [OF assms(1,2), of p] assms(3) by (simp add: S_def)
  have c: "unat c = 65535 - ones_sum S"
  proof -
    have "uint c = 65535 - int (ones_sum S)"
      unfolding c_def l unsigned_of_int using ones_sum_le [of S]
      by (simp add: take_bit_int_eq_self del: of_nat_diff)
    then show ?thesis using ones_sum_le [of S] by (simp add: unat_eq_nat_uint nat_diff_distrib)
  qed
  have w: "256 * unat (ucast (drop_bit 8 c) :: byte) + unat (ucast c :: byte) = unat c"
    by (rule unat_be_bytes)
  have "ones_sum (S + (65535 - ones_sum S)) = 65535" by (rule ones_sum_comp)
  then show ?thesis
    using checksum_ones_seed [OF assms(1,2), of "p @ [ucast (drop_bit 8 c), ucast c]"] assms(3,4)
    by (simp add: Let_def c_def [symmetric] be_words_append w c S_def add.assoc)
qed

theorem checksum_verifies_witness:
  "even (length [0x45, 0, 0, 0x14 :: byte])
   \<and> l_checksum ([0x45, 0, 0, 0x14] @ (let c = word_of_int (l_checksum [0x45, 0, 0, 0x14] (Some 6)) :: u16 in
      [ucast (drop_bit 8 c), ucast c])) (Some 6) = 0"
  using checksum_verifies [of 6 "[0x45, 0, 0, 0x14]"] by simp

end
