(* ===== verification/Audio.thy ===== *)
theory Audio
  imports Bytes
begin

text \<open>
  \<open>src/src/adpcm_native.c\<close>, the IMA ADPCM block decoder, and \<open>src/src/pcm_native.c\<close>, the volume
  control. C \<open>int\<close> arithmetic that stays within range is unbounded arithmetic here; the volume's
  product, which may leave it, wraps at 32 bits.
\<close>

section \<open>ADPCM\<close>

definition indextab :: "int list" where
  "indextab = [-1, -1, -1, -1, 2, 4, 6, 8, -1, -1, -1, -1, 2, 4, 6, 8]"

definition steptab :: "int list" where
  "steptab = [
    7, 8, 9, 10, 11, 12, 13, 14, 16, 17,
    19, 21, 23, 25, 28, 31, 34, 37, 41, 45,
    50, 55, 60, 66, 73, 80, 88, 97, 107, 118,
    130, 143, 157, 173, 190, 209, 230, 253, 279, 307,
    337, 371, 408, 449, 494, 544, 598, 658, 724, 796,
    876, 963, 1060, 1166, 1282, 1411, 1552, 1707, 1878, 2066,
    2272, 2499, 2749, 3024, 3327, 3660, 4026, 4428, 4871, 5358,
    5894, 6484, 7132, 7845, 8630, 9493, 10442, 11487, 12635, 13899,
    15289, 16818, 18500, 20350, 22385, 24623, 27086, 29794, 32767]"

abbreviation (input) MAXCH :: int where "MAXCH \<equiv> 2"

definition clamp16 :: "int \<Rightarrow> int" where
  "clamp16 p = (if p > 32767 then 32767 else if p < -32768 then -32768 else p)"

text \<open>A channel is its predictor and its step index; \<open>nibble\<close> returns both, updated.\<close>

definition nibble :: "int \<times> int \<Rightarrow> nat \<Rightarrow> int \<times> int" where
  "nibble = (\<lambda>(pred, idx) nib.
    let s = steptab ! nat idx;
        d = s div 8;
        d = (if bit nib 2 then d + s else d);
        d = (if bit nib 1 then d + s div 2 else d);
        d = (if bit nib 0 then d + s div 4 else d);
        p = (if bit nib 3 then pred - d else pred + d);
        i = idx + indextab ! nib
    in (clamp16 p, if i < 0 then 0 else if i > 88 then 88 else i))"

text \<open>A sample as the two bytes the code adds, low byte first.\<close>

definition sample_bytes :: "int \<Rightarrow> byte list" where
  "sample_bytes v = [word_of_int v, word_of_int (v div 256)]"

text \<open>Four bytes of one channel: eight samples, low nibble first.\<close>

fun run4 :: "int \<times> int \<Rightarrow> byte list \<Rightarrow> int list \<times> (int \<times> int)" where
  "run4 st [] = ([], st)"
| "run4 st (b # bs) =
    (let st1 = nibble st (unat b mod 16); st2 = nibble st1 (unat b div 16); (r, st') = run4 st2 bs in
     (fst st1 # fst st2 # r, st'))"

text \<open>Each channel in turn takes four bytes of the input.\<close>

fun channel_runs :: "(int \<times> int) list \<Rightarrow> byte list \<Rightarrow> int list list \<times> (int \<times> int) list" where
  "channel_runs [] p = ([], [])"
| "channel_runs (st # sts) p =
    (let (r, st') = run4 st (take 4 p); (rs, sts') = channel_runs sts (drop 4 p) in (r # rs, st' # sts'))"

text \<open>The samples of the channels, interleaved.\<close>

definition interleave :: "int list list \<Rightarrow> byte list" where
  "interleave runs = concat (map (\<lambda>k. concat (map (\<lambda>r. sample_bytes (r ! k)) runs)) [0..<8])"

function block_loop :: "byte list \<Rightarrow> (int \<times> int) list \<Rightarrow> byte list" where
  "block_loop p sts =
    (if sts \<noteq> [] \<and> length p \<ge> length sts * 4 then
       let (runs, sts') = channel_runs sts p in
       interleave runs @ block_loop (drop (length sts * 4) p) sts'
     else [])"
  by pat_completeness auto

text \<open>Two bytes as a signed sample, low byte first.\<close>

definition sample16 :: "byte \<Rightarrow> byte \<Rightarrow> int" where
  "sample16 lo hi = (let v = uint lo + 256 * uint hi in if v \<ge> 32768 then v - 65536 else v)"

text \<open>The header of each channel: predictor and step index. \<open>None\<close> is a bad step index.\<close>

fun block_header :: "nat \<Rightarrow> byte list \<Rightarrow> (int \<times> int) list option" where
  "block_header 0 p = Some []"
| "block_header (Suc ch) p =
    (let i = uint (p ! 2) in
     if i > 88 then None
     else map_option ((#) (sample16 (p ! 0) (p ! 1), i)) (block_header ch (drop 4 p)))"

lemma sample16_range: "-32768 \<le> sample16 lo hi" "sample16 lo hi \<le> 32767"
  using uint_byte [of lo] uint_byte [of hi] unfolding sample16_def Let_def by (presburger, presburger)

lemma length_channel_runs: "channel_runs sts p = (runs, sts') \<Longrightarrow> length sts' = length sts \<and> length runs = length sts"
  by (induction sts p arbitrary: runs sts' rule: channel_runs.induct) (auto split: prod.splits)

termination block_loop
  by (relation "measure (\<lambda>(p, sts). length p)")
    (auto simp: length_greater_0_conv [symmetric] simp del: length_greater_0_conv)

declare block_loop.simps [simp del]

definition l_block :: "byte list \<Rightarrow> int \<Rightarrow> int \<Rightarrow> int option \<Rightarrow> string + byte list" where
  "l_block s at ch len0 =
    (let len = (case len0 of None \<Rightarrow> 0 | Some l \<Rightarrow> l) in
     if ch < 1 \<or> ch > MAXCH then Inl ''unsupported channel count''
     else if at < 1 \<or> at > int (length s) then Inl ''short block''
     else
       let len = (if len \<le> 0 then int (length s) - at + 1 else len) in
       if len < ch * 4 \<or> at + len - 1 > int (length s) then Inl ''short block''
       else
         let p = take (nat len) (drop (nat (at - 1)) s) in
         case block_header (nat ch) p of
           None \<Rightarrow> Inl ''bad step index''
         | Some sts \<Rightarrow> Inr (concat (map (sample_bytes \<circ> fst) sts) @ block_loop (drop (nat ch * 4) p) sts))"

definition l_samples :: "int \<Rightarrow> int \<Rightarrow> string + int" where
  "l_samples align ch =
    (if ch < 1 then Inl ''channels''
     else let n = (align - ch * 4) * 2 in Inr (1 + sgn n * (\<bar>n\<bar> div ch)))"

text \<open>
  \<open>block_loop\<close> asks for a channel before each turn, which \<open>l_block\<close> has made sure of; without one the
  C loop would not end.
\<close>

section \<open>Volume\<close>

text \<open>
  \<open>gain\<close>: the level is truncated to 32 bits, the product wraps there, and the shift is
  arithmetic.
\<close>

definition gain_sample :: "int \<Rightarrow> int \<Rightarrow> int" where
  "gain_sample q v = clamp16 (c_int (v * c_int q) div 256)"

fun gain_loop :: "int \<Rightarrow> byte list \<Rightarrow> byte list" where
  "gain_loop q (a # b # p) = sample_bytes (gain_sample q (sample16 a b)) @ gain_loop q p"
| "gain_loop q p = p"

definition l_gain :: "byte list \<Rightarrow> int \<Rightarrow> byte list" where
  "l_gain p q0 = (let q = (if q0 < 0 then 0 else q0) in if q = 256 then p else gain_loop q p)"

section \<open>What the decoder keeps\<close>

definition chan_ok :: "int \<times> int \<Rightarrow> bool" where
  "chan_ok st \<longleftrightarrow> -32768 \<le> fst st \<and> fst st \<le> 32767 \<and> 0 \<le> snd st \<and> snd st \<le> 88"

lemma length_tabs [simp]: "length steptab = 89" "length indextab = 16"
  by (simp_all add: steptab_def indextab_def)

lemma nib_cases: "n < 16 \<Longrightarrow> n \<in> {0, 1, 2, 3, 4, 5, 6, 7, 8, 9, 10, 11, 12, 13, 14, 15 :: nat}"
  unfolding insert_iff empty_iff by presburger

lemma nib_bits:
  assumes "n < 16"
  shows "int (n mod 8) = 4 * of_bool (bit n 2) + 2 * of_bool (bit n 1) + of_bool (bit n 0)"
    and "bit n 3 \<longleftrightarrow> n \<ge> 8"
  using nib_cases [OF assms] by (elim insertE emptyE; simp add: bit_0 bit_Suc)+

lemma clamp16_range: "-32768 \<le> clamp16 p \<and> clamp16 p \<le> 32767"
  by (simp add: clamp16_def)

lemma nibble_ok: "chan_ok (nibble st nib)"
  by (cases st) (simp add: nibble_def chan_ok_def Let_def clamp16_range)

lemma run4_ok: "run4 st bs = (r, st') \<Longrightarrow> chan_ok st \<Longrightarrow>
  length r = 2 * length bs \<and> chan_ok st' \<and> (\<forall>v\<in>set r. -32768 \<le> v \<and> v \<le> 32767)"
proof (induction st bs arbitrary: r st' rule: run4.induct)
  case (2 st b bs)
  let ?s1 = "nibble st (unat b mod 16)" and ?s2 = "nibble (nibble st (unat b mod 16)) (unat b div 16)"
  obtain r1 where r1: "run4 ?s2 bs = (r1, st')" "r = fst ?s1 # fst ?s2 # r1"
    using "2.prems"(1) by (auto simp: Let_def split: prod.splits)
  show ?case
    using "2.IH" [OF refl refl r1(1) nibble_ok] r1(2) nibble_ok [of st "unat b mod 16"]
      nibble_ok [of ?s1 "unat b div 16"] by (auto simp: chan_ok_def)
qed simp

lemma channel_runs_ok: "channel_runs sts p = (runs, sts') \<Longrightarrow> 4 * length sts \<le> length p
  \<Longrightarrow> \<forall>st\<in>set sts. chan_ok st \<Longrightarrow> (\<forall>r\<in>set runs. length r = 8) \<and> (\<forall>st\<in>set sts'. chan_ok st)"
proof (induction sts p arbitrary: runs sts' rule: channel_runs.induct)
  case (2 st sts p)
  obtain r st1 rs sts1 where r: "run4 st (take 4 p) = (r, st1)" "channel_runs sts (drop 4 p) = (rs, sts1)"
    "runs = r # rs" "sts' = st1 # sts1" using "2.prems"(1) by (auto split: prod.splits)
  have "length (take 4 p) = 4" using "2.prems"(2) by simp
  then show ?case
    using "2.IH" [OF r(1) [symmetric] refl r(2)] run4_ok [OF r(1)] r(3,4) "2.prems"(2,3) by auto
qed simp

lemma length_interleave: "length (interleave runs) = 16 * length runs"
proof -
  have "length (concat (map (\<lambda>r. sample_bytes (r ! k)) runs)) = 2 * length runs" for k
    by (induction runs) (simp_all add: sample_bytes_def)
  then have "map (length \<circ> (\<lambda>k. concat (map (\<lambda>r. sample_bytes (r ! k)) runs))) [0..<8]
      = map (\<lambda>_. 2 * length runs) [0..<8]" by simp
  then show ?thesis by (simp add: interleave_def length_concat map_replicate_const sum_list_replicate)
qed

lemma length_block_loop:
  "sts \<noteq> [] \<Longrightarrow> length (block_loop p sts) = 16 * length sts * (length p div (4 * length sts))"
proof (induction p sts rule: block_loop.induct)
  case (1 p sts)
  show ?case
  proof (cases "length p \<ge> length sts * 4")
    case True
    obtain runs sts' where r: "channel_runs sts p = (runs, sts')" by force
    note l = length_channel_runs [OF r]
    have "length (block_loop p sts) = 16 * length sts + length (block_loop (drop (length sts * 4) p) sts')"
      using True 1(2) r l by (subst block_loop.simps) (simp add: length_interleave)
    moreover have "sts' \<noteq> []" using l 1(2) by auto
    ultimately have "length (block_loop p sts)
        = 16 * length sts * (1 + (length p - length sts * 4) div (4 * length sts))"
      using 1(1) [OF conjI [OF 1(2) True] r [symmetric] refl] l by (simp add: algebra_simps)
    also have "1 + (length p - length sts * 4) div (4 * length sts) = length p div (4 * length sts)"
      using True 1(2) by (simp add: le_div_geq mult.commute)
    finally show ?thesis .
  next
    case False
    then show ?thesis by (subst block_loop.simps) (simp add: mult.commute)
  qed
qed

lemma block_header_ok: "block_header ch p = Some sts \<Longrightarrow> length sts = ch \<and> (\<forall>st\<in>set sts. chan_ok st)"
proof (induction ch p arbitrary: sts rule: block_header.induct)
  case (2 ch p)
  then obtain z where z: "block_header ch (drop 4 p) = Some z" "uint (p ! 2) \<le> 88"
    "sts = (sample16 (p ! 0) (p ! 1), uint (p ! 2)) # z"
    by (auto simp: Let_def split: if_splits)
  then show ?case
    using "2.IH" [OF refl _ z(1)] sample16_range [of "p ! 0" "p ! 1"] by (simp add: chan_ok_def)
qed simp

section \<open>What the volume does\<close>

lemma sample16_bytes: "-32768 \<le> v \<Longrightarrow> v \<le> 32767 \<Longrightarrow> sample16 (word_of_int v) (word_of_int (v div 256)) = v"
proof -
  assume v: "-32768 \<le> v" "v \<le> 32767"
  have lo: "uint (word_of_int v :: byte) = v mod 256" and
    hi: "uint (word_of_int (v div 256) :: byte) = (v div 256) mod 256"
    by (simp_all add: unsigned_of_int take_bit_eq_mod)
  have "v mod 256 + 256 * (v div 256) = v" by simp
  show ?thesis
  proof (cases "0 \<le> v")
    case True
    then have "v div 256 mod 256 = v div 256" using v by (intro mod_pos_pos_trivial) auto
    then show ?thesis using v unfolding sample16_def lo hi by simp
  next
    case False
    then have "(v div 256 + 256) mod 256 = v div 256 + 256" using v by (intro mod_pos_pos_trivial) auto
    then have "v div 256 mod 256 = v div 256 + 256" by simp
    then show ?thesis using v False unfolding sample16_def lo hi by (simp add: Let_def)
  qed
qed

lemma gain_sample_exact:
  assumes "0 \<le> q" and "q \<le> 65536" and "-32768 \<le> v" and "v \<le> 32767"
  shows "gain_sample q v = clamp16 ((v * q) div 256)"
proof -
  have "c_int q = q" using assms(1,2) by (intro c_int_small) auto
  moreover have "-(2 ^ 31) \<le> v * q" "v * q < 2 ^ 31"
  proof -
    have "\<bar>v * q\<bar> \<le> 32768 * 65536" if "v \<noteq> -32768 \<or> q \<noteq> 65536"
      unfolding abs_mult by (rule mult_mono) (use assms in auto)
    moreover have "v * q \<le> 32767 * 65536"
      using assms mult_mono [of v 32767 q 65536] by (cases "0 \<le> v") (auto intro: order_trans [OF mult_nonpos_nonneg])
    moreover have "- (32768 * 65536) \<le> v * q"
      using assms mult_mono [of "-v" 32768 q 65536] by (cases "0 \<le> v") auto
    ultimately show "-(2 ^ 31) \<le> v * q" "v * q < 2 ^ 31" by auto
  qed
  ultimately show ?thesis by (simp add: gain_sample_def c_int_small)
qed

text \<open>A buffer as samples, and the odd byte at its end.\<close>

fun samples_of :: "byte list \<Rightarrow> int list" where
  "samples_of (a # b # p) = sample16 a b # samples_of p"
| "samples_of p = []"

lemma gain_loop_samples:
  assumes "0 \<le> q" and "q \<le> 65536"
  shows "samples_of (gain_loop q p) = map (\<lambda>v. clamp16 ((v * q) div 256)) (samples_of p)
    \<and> length (gain_loop q p) = length p \<and> (odd (length p) \<longrightarrow> last (gain_loop q p) = last p)"
proof (induction p rule: samples_of.induct)
  case (1 a b p)
  let ?v = "gain_sample q (sample16 a b)"
  have "sample16 (word_of_int ?v) (word_of_int (?v div 256)) = ?v"
    by (rule sample16_bytes) (simp_all add: gain_sample_def clamp16_range)
  moreover have "?v = clamp16 ((sample16 a b * q) div 256)"
    using assms sample16_range [of a b] by (rule gain_sample_exact)
  moreover have "gain_loop q p = [] \<longleftrightarrow> p = []" using 1 by (metis length_0_conv)
  ultimately show ?case using 1 by (auto simp: sample_bytes_def)
qed auto

lemma samples_of_range: "v \<in> set (samples_of p) \<Longrightarrow> -32768 \<le> v \<and> v \<le> 32767"
  by (induction p rule: samples_of.induct) (auto simp: sample16_range)

section \<open>Properties\<close>

text \<open>
  The IMA rules, as arithmetic on the magnitude \<open>m\<close> (0 to 7) of a nibble: the difference is an eighth of the step,
  plus the step, its half and its quarter for the bits of \<open>m\<close> from the top, each rounded down; the index
  falls by one for a magnitude below 4 and rises by \<open>2 (m - 3)\<close> from there on.
\<close>

definition ima_diff :: "int \<Rightarrow> int \<Rightarrow> int" where
  "ima_diff s m = s div 8 + (m div 4 mod 2) * s + (m div 2 mod 2) * (s div 2) + (m mod 2) * (s div 4)"

definition ima_adapt :: "int \<Rightarrow> int" where
  "ima_adapt m = (if m < 4 then -1 else 2 * (m - 3))"

lemma ima_diff_bits:
  assumes "nib < 16"
  shows "ima_diff s (int (nib mod 8)) = s div 8 + (if bit nib 2 then s else 0) + (if bit nib 1 then s div 2 else 0) + (if bit nib 0 then s div 4 else 0)"
  using nib_cases [OF assms] by (elim insertE emptyE; simp add: ima_diff_def bit_0 bit_Suc)

lemma ima_adapt_tab:
  assumes "nib < 16"
  shows "indextab ! nib = ima_adapt (int (nib mod 8))"
  using nib_cases [OF assms] by (elim insertE emptyE; simp add: ima_adapt_def indextab_def)

text \<open>
  C30: one ADPCM nibble is decoded as IMA has it. The sign bit of the nibble says whether the predictor goes
  down or up by the difference of its magnitude and the step, and the new predictor is clamped to 16 bits;
  the step index is adapted by the magnitude and clamped to the table, 0 to 88. The difference is \<open>(2 m + 1) / 8\<close>
  of the step, short of it by less than 3.
\<close>

theorem nibble_ima:
  assumes "chan_ok (p, i)" and "nib < 16"
  shows "nibble (p, i) nib =
      (max (-32768) (min 32767 (p + (if nib \<ge> 8 then -1 else 1) * ima_diff (steptab ! nat i) (int (nib mod 8)))),
       max 0 (min 88 (i + ima_adapt (int (nib mod 8)))))
    \<and> chan_ok (nibble (p, i) nib)
    \<and> 8 * ima_diff (steptab ! nat i) (int (nib mod 8)) \<le> (2 * int (nib mod 8) + 1) * steptab ! nat i
    \<and> (2 * int (nib mod 8) + 1) * steptab ! nat i < 8 * ima_diff (steptab ! nat i) (int (nib mod 8)) + 24"
proof -
  define s where "s = steptab ! nat i"
  define d where "d = ima_diff s (int (nib mod 8))"
  note db = ima_diff_bits [OF assms(2), of s, folded d_def]
  have n: "nibble (p, i) nib = (clamp16 (if bit nib 3 then p - d else p + d),
      if i + ima_adapt (int (nib mod 8)) < 0 then 0 else if i + ima_adapt (int (nib mod 8)) > 88 then 88 else i + ima_adapt (int (nib mod 8)))"
    unfolding nibble_def ima_adapt_tab [OF assms(2), symmetric] by (simp add: Let_def db s_def)
  have r: "0 \<le> s - 8 * (s div 8)" "s - 8 * (s div 8) < 8" "0 \<le> s - 4 * (s div 4)" "s - 4 * (s div 4) < 4"
    "0 \<le> s - 2 * (s div 2)" "s - 2 * (s div 2) < 2"
    by (simp_all add: minus_mult_div_eq_mod)
  have "8 * d \<le> (2 * int (nib mod 8) + 1) * s \<and> (2 * int (nib mod 8) + 1) * s < 8 * d + 24"
    using nib_bits(1) [OF assms(2)] r
    by (cases "bit nib 2"; cases "bit nib 1"; cases "bit nib 0") (simp_all add: db)
  moreover have "nibble (p, i) nib = (max (-32768) (min 32767 (p + (if nib \<ge> 8 then -1 else 1) * d)), max 0 (min 88 (i + ima_adapt (int (nib mod 8)))))"
    unfolding n using nib_bits(2) [OF assms(2)] by (auto simp: clamp16_def)
  ultimately show ?thesis using nibble_ok [of "(p, i)" nib] unfolding d_def s_def by blast
qed

theorem nibble_ima_witness: "chan_ok (-5, 80) \<and> nibble (-5, 80) 12 = (-17205, 82)"
  using nibble_ima [of "-5" 80 12] by (simp add: chan_ok_def ima_diff_def ima_adapt_def steptab_def)

text \<open>
  The shape of a decoded block. When \<open>block\<close> decodes, the output holds, for each channel, its
  predictor and eight samples for every whole run of four bytes, two bytes a sample; for a block
  made of whole runs that is the number of frames \<open>samples\<close> announces.
\<close>

lemma block_shape:
  assumes "l_block s at ch (Some len) = Inr out" and "0 < len"
  shows "int (length out) = 2 * ch * (1 + 8 * ((len - ch * 4) div (ch * 4)))
    \<and> (ch * 4 dvd len \<longrightarrow> l_samples len ch = Inr (1 + 8 * ((len - ch * 4) div (ch * 4))))"
proof -
  define p where "p = take (nat len) (drop (nat (at - 1)) s)"
  have c: "1 \<le> ch" "at \<ge> 1" "ch * 4 \<le> len" "at + len - 1 \<le> int (length s)"
    using assms by (auto simp: l_block_def Let_def split: if_splits)
  then obtain sts where sts: "block_header (nat ch) p = Some sts"
    "out = concat (map (sample_bytes \<circ> fst) sts) @ block_loop (drop (nat ch * 4) p) sts"
    using assms by (auto simp: l_block_def Let_def p_def split: if_splits option.splits)
  have ls: "length sts = nat ch" using block_header_ok [OF sts(1)] by simp
  have lp: "length p = nat len" using c assms(2) by (simp add: p_def)
  have "length (concat (map (sample_bytes \<circ> fst) sts)) = 2 * nat ch"
    unfolding ls [symmetric] by (induction sts) (simp_all add: sample_bytes_def)
  moreover have "sts \<noteq> []" using ls c(1) by auto
  ultimately have "length out = 2 * nat ch + 16 * nat ch * ((nat len - nat ch * 4) div (4 * nat ch))"
    using sts(2) ls lp by (simp add: length_block_loop)
  moreover have "int ((nat len - nat ch * 4) div (4 * nat ch)) = (len - ch * 4) div (ch * 4)"
    using c by (simp add: zdiv_int of_nat_diff nat_mult_distrib mult.commute)
  ultimately have "int (length out) = 2 * ch * (1 + 8 * ((len - ch * 4) div (ch * 4)))"
    using c by (simp add: algebra_simps)
  moreover have "l_samples len ch = Inr (1 + 8 * ((len - ch * 4) div (ch * 4)))" if d: "ch * 4 dvd len"
  proof -
    obtain k where "len - ch * 4 = ch * 4 * k" using dvd_diff [OF d dvd_refl] by (elim dvdE)
    moreover from this have "0 \<le> k" using c by (metis zero_le_mult_iff diff_ge_0_iff_ge mult_pos_pos not_less
          zero_less_numeral zero_less_one_class.zero_less_one order_less_le_trans)
    ultimately show ?thesis using c by (simp add: l_samples_def sgn_if abs_mult)
  qed
  ultimately show ?thesis by blast
qed

text \<open>
  C31: the volume scales samples. For a level of at most 65536, every 16-bit sample comes out as
  its product with the level over 256, clamped; the length is unchanged and so is half a sample
  at the end. A level of 256 changes nothing.
\<close>

theorem gain_scales:
  assumes "q \<le> 65536"
  shows "samples_of (l_gain p q) = map (\<lambda>v. clamp16 ((v * max 0 q) div 256)) (samples_of p)
    \<and> length (l_gain p q) = length p \<and> (odd (length p) \<longrightarrow> last (l_gain p q) = last p)"
proof (cases "q = 256")
  case True
  have "map (\<lambda>v. clamp16 ((v * 256) div 256)) (samples_of p) = samples_of p"
    using samples_of_range [of _ p] by (intro map_idI) (force simp: clamp16_def)
  then show ?thesis using True by (simp add: l_gain_def)
next
  case False
  then show ?thesis using gain_loop_samples [of "max 0 q" p] assms by (auto simp: l_gain_def Let_def max_def)
qed

theorem gain_scales_witness:
  "samples_of (l_gain [0, 0x40, 7] 512) = map (\<lambda>v. clamp16 ((v * max 0 512) div 256)) (samples_of [0, 0x40, 7])
   \<and> last (l_gain [0, 0x40, 7] 512) = 7"
  using gain_scales [of 512 "[0, 0x40, 7]"] by simp

text \<open>
  Beyond that level the product leaves 32 bits before the clamp sees it: a full positive sample
  at a level of 131072 comes out negative.
\<close>

theorem gain_overflows:
  "samples_of [0xff, 0x7f] = [32767] \<and> samples_of (l_gain [0xff, 0x7f] 131072) = [-512]"
  by code_simp

end
