(* ===== verification/Metro.thy ===== *)
theory Metro
  imports Bytes "HOL-Library.Monad_Syntax"
begin

text \<open>
  \<open>src/src/gefs_native.c\<close>: the block hash of the file system. Memory is the list of the bytes
  from the pointer the function is given to the end of the string; a load that would run past it
  is \<open>None\<close>. The lemmas show that no such load happens and that the hash depends on nothing but
  the run it was asked for.
\<close>

unbundle bit_operations_syntax

section \<open>The code\<close>

abbreviation (input) K0 :: u64 where "K0 \<equiv> 0xC83A91E1"
abbreviation (input) K1 :: u64 where "K1 \<equiv> 0x8648DBDB"
abbreviation (input) K2 :: u64 where "K2 \<equiv> 0x7BDEC03B"
abbreviation (input) K3 :: u64 where "K3 \<equiv> 0x2F5870A5"

definition rotr64 :: "u64 \<Rightarrow> nat \<Rightarrow> u64" where
  "rotr64 v k = drop_bit k v OR push_bit (64 - k) v"

text \<open>\<open>ld64\<close>, \<open>ld32\<close> and \<open>ld16\<close>, and the load of a single byte: \<open>n\<close> bytes at offset \<open>p\<close>.\<close>

definition ld :: "nat \<Rightarrow> byte list \<Rightarrow> nat \<Rightarrow> u64 option" where
  "ld n s p = (if p + n \<le> length s then Some (of_nat (le_val (take n (drop p s)))) else None)"

type_synonym lanes = "u64 \<times> u64 \<times> u64 \<times> u64"

definition metro_turn :: "byte list \<Rightarrow> nat \<Rightarrow> lanes \<Rightarrow> lanes option" where
  "metro_turn s p = (\<lambda>(v0, v1, v2, v3). do {
     x0 \<leftarrow> ld 8 s p;
     let v0 = rotr64 (v0 + x0 * K0) 29 + v2;
     x1 \<leftarrow> ld 8 s (p + 8);
     let v1 = rotr64 (v1 + x1 * K1) 29 + v3;
     x2 \<leftarrow> ld 8 s (p + 16);
     let v2 = rotr64 (v2 + x2 * K2) 29 + v0;
     x3 \<leftarrow> ld 8 s (p + 24);
     let v3 = rotr64 (v3 + x3 * K3) 29 + v1;
     Some (v0, v1, v2, v3)
   })"

function metro_lanes :: "byte list \<Rightarrow> nat \<Rightarrow> nat \<Rightarrow> lanes \<Rightarrow> (nat \<times> lanes) option" where
  "metro_lanes s e p v = do {
     v \<leftarrow> metro_turn s p v;
     let p = p + 32;
     if p + 32 \<le> e then metro_lanes s e p v else Some (p, v)
   }"
  by pat_completeness auto
termination
  by (relation "measure (\<lambda>(s, e, p, v). e - p)") auto

declare metro_lanes.simps [simp del]

definition metro_mix :: "lanes \<Rightarrow> u64" where
  "metro_mix = (\<lambda>(v0, v1, v2, v3).
    let v2 = v2 XOR rotr64 ((v0 + v3) * K0 + v1) 33 * K1;
        v3 = v3 XOR rotr64 ((v1 + v2) * K1 + v0) 33 * K0;
        v0 = v0 XOR rotr64 ((v0 + v2) * K0 + v3) 33 * K1;
        v1 = v1 XOR rotr64 ((v1 + v3) * K1 + v2) 33 * K0
    in v0 XOR v1)"

text \<open>The steps of the tail; each takes and returns the offset and the hash.\<close>

definition metro_head :: "byte list \<Rightarrow> nat \<Rightarrow> u64 \<Rightarrow> (nat \<times> u64) option" where
  "metro_head s len h =
    (if len \<ge> 32 then do { (p, v) \<leftarrow> metro_lanes s len 0 (h, h, h, h); Some (p, h + metro_mix v) }
     else Some (0, h))"

definition metro_tail16 :: "byte list \<Rightarrow> nat \<Rightarrow> nat \<times> u64 \<Rightarrow> (nat \<times> u64) option" where
  "metro_tail16 s e = (\<lambda>(p, h).
    if e - p \<ge> 16 then do {
      x0 \<leftarrow> ld 8 s p;
      let v0 = rotr64 (h + x0 * K0) 33 * K1;
      x1 \<leftarrow> ld 8 s (p + 8);
      let v1 = rotr64 (h + x1 * K1) 33 * K2;
      let v0 = v0 XOR (rotr64 (v0 * K0) 35 + v1);
      let v1 = v1 XOR (rotr64 (v1 * K3) 35 + v0);
      Some (p + 16, h + v1)
    } else Some (p, h))"

definition metro_tail :: "nat \<Rightarrow> nat \<Rightarrow> byte list \<Rightarrow> nat \<Rightarrow> nat \<times> u64 \<Rightarrow> (nat \<times> u64) option" where
  "metro_tail n k s e = (\<lambda>(p, h).
    if e - p \<ge> n then do {
      x \<leftarrow> ld n s p;
      let h = h + x * K3;
      Some (p + n, h XOR rotr64 h k * K1)
    } else Some (p, h))"

definition metro64 :: "byte list \<Rightarrow> nat \<Rightarrow> u64 \<Rightarrow> u64 option" where
  "metro64 s len seed = do {
     let h = (seed + K2) * K0 + of_nat len;
     x \<leftarrow> metro_head s len h;
     x \<leftarrow> metro_tail16 s len x;
     x \<leftarrow> metro_tail 8 33 s len x;
     x \<leftarrow> metro_tail 4 15 s len x;
     x \<leftarrow> metro_tail 2 13 s len x;
     (_, h) \<leftarrow> metro_tail 1 25 s len x;
     let h = h XOR rotr64 h 33;
     let h = h * K0;
     Some (h XOR rotr64 h 33)
   }"

text \<open>The lua entry point: an error message, or the hash as a signed integer.\<close>

definition gefs_metro64 :: "byte list \<Rightarrow> int \<Rightarrow> int option \<Rightarrow> int option \<Rightarrow> (string + int) option" where
  "gefs_metro64 s seed from0 len0 =
    (let from = (case from0 of None \<Rightarrow> 1 | Some f \<Rightarrow> f) in
     if from < 1 then Some (Inl ''metro64: from is 1-based'')
     else if from - 1 > int (length s) then Some (Inl ''metro64: from past the end'')
     else
       let len = (case len0 of None \<Rightarrow> int (length s) - (from - 1) | Some l \<Rightarrow> l) in
       if len < 0 then Some (Inl ''metro64: negative length'')
       else if from - 1 + len > int (length s) then Some (Inl ''metro64: run past the end'')
       else map_option (\<lambda>h. Inr (sint h)) (metro64 (drop (nat (from - 1)) s) (nat len) (word_of_int seed)))"

section \<open>Loads stay inside the run\<close>

text \<open>
  A step is confined to the first \<open>e\<close> bytes when it gives a result whenever they are there, the
  same whatever follows them, and ends at an offset within them.
\<close>

definition confined :: "nat \<Rightarrow> (byte list \<Rightarrow> (nat \<times> 'a) option) \<Rightarrow> bool" where
  "confined e f \<longleftrightarrow> (\<forall>s. e \<le> length s \<longrightarrow> (\<exists>p x. f s = Some (p, x) \<and> p \<le> e \<and> f (take e s) = f s))"

lemma ld_take: "p + n \<le> e \<Longrightarrow> e \<le> length s \<Longrightarrow>
  ld n s p = Some (of_nat (le_val (take n (drop p s)))) \<and> ld n (take e s) p = ld n s p"
  by (simp add: ld_def drop_take min_def)

lemma metro_turn_take:
  "p + 32 \<le> e \<Longrightarrow> e \<le> length s \<Longrightarrow> metro_turn s p v \<noteq> None \<and> metro_turn (take e s) p v = metro_turn s p v"
  using ld_take [of p 8 e s] ld_take [of "p + 8" 8 e s] ld_take [of "p + 16" 8 e s] ld_take [of "p + 24" 8 e s]
  by (cases v) (simp add: metro_turn_def Let_def)

lemma metro_lanes_confined: "p + 32 \<le> e \<Longrightarrow> confined e (\<lambda>s. metro_lanes s e p v)"
  unfolding confined_def
proof (intro allI impI)
  fix s :: "byte list"
  assume "p + 32 \<le> e" and "e \<le> length s"
  then show "\<exists>q x. metro_lanes s e p v = Some (q, x) \<and> q \<le> e \<and> metro_lanes (take e s) e p v = metro_lanes s e p v"
  proof (induction s e p v rule: metro_lanes.induct)
    case (1 s e p v)
    obtain w where w: "metro_turn s p v = Some w" "metro_turn (take e s) p v = Some w"
      using metro_turn_take [OF "1.prems", of v] by auto
    show ?case
    proof (cases "p + 32 + 32 \<le> e")
      case True
      then show ?thesis using "1.IH" [OF w(1) refl True] "1.prems"(2) w
        by (simp add: metro_lanes.simps [of _ e p v])
    next
      case False
      then show ?thesis using w "1.prems"(1) by (cases w) (simp add: metro_lanes.simps [of _ e p v])
    qed
  qed
qed

lemma metro_head_confined: "confined e (\<lambda>s. metro_head s e h)"
proof (cases "e \<ge> 32")
  case True
  then have "confined e (\<lambda>s. metro_lanes s e 0 (h, h, h, h))" by (intro metro_lanes_confined) simp
  then show ?thesis unfolding confined_def metro_head_def using True by fastforce
qed (simp add: confined_def metro_head_def)

lemma metro_tail16_confined: "p \<le> e \<Longrightarrow> confined e (\<lambda>s. metro_tail16 s e (p, h))"
  unfolding confined_def
proof (intro allI impI)
  fix s :: "byte list"
  assume "p \<le> e" and "e \<le> length s"
  then show "\<exists>q x. metro_tail16 s e (p, h) = Some (q, x) \<and> q \<le> e
      \<and> metro_tail16 (take e s) e (p, h) = metro_tail16 s e (p, h)"
    using ld_take [of p 8 e s] ld_take [of "p + 8" 8 e s]
    by (cases "e - p \<ge> 16") (simp_all add: metro_tail16_def Let_def)
qed

lemma metro_tail_confined: "p \<le> e \<Longrightarrow> confined e (\<lambda>s. metro_tail n k s e (p, h))"
  unfolding confined_def
proof (intro allI impI)
  fix s :: "byte list"
  assume "p \<le> e" and "e \<le> length s"
  then show "\<exists>q x. metro_tail n k s e (p, h) = Some (q, x) \<and> q \<le> e
      \<and> metro_tail n k (take e s) e (p, h) = metro_tail n k s e (p, h)"
    using ld_take [of p n e s] by (cases "e - p \<ge> n") (simp_all add: metro_tail_def Let_def)
qed

text \<open>Confined steps compose.\<close>

lemma confined_step:
  assumes "confined e f" and "\<And>p h. p \<le> e \<Longrightarrow> confined e (\<lambda>s. g s e (p, h))"
  shows "confined e (\<lambda>s. f s \<bind> g s e)"
  unfolding confined_def
proof (intro allI impI)
  fix s :: "byte list"
  assume s: "e \<le> length s"
  then obtain p x where f: "f s = Some (p, x)" "p \<le> e" "f (take e s) = f s"
    using assms(1) unfolding confined_def by metis
  then show "\<exists>q y. f s \<bind> g s e = Some (q, y) \<and> q \<le> e \<and> f (take e s) \<bind> g (take e s) e = f s \<bind> g s e"
    using assms(2) [OF f(2), of x] s unfolding confined_def by simp
qed

lemma metro64_confined:
  assumes "len \<le> length s"
  shows "metro64 s len seed \<noteq> None \<and> metro64 (take len s) len seed = metro64 s len seed"
proof -
  define F where "F = (\<lambda>s. metro_head s len ((seed + K2) * K0 + of_nat len) \<bind> metro_tail16 s len
    \<bind> metro_tail 8 33 s len \<bind> metro_tail 4 15 s len \<bind> metro_tail 2 13 s len \<bind> metro_tail 1 25 s len)"
  have "confined len F"
    unfolding F_def by (intro confined_step metro_head_confined metro_tail16_confined metro_tail_confined)
  then obtain p h where "F s = Some (p, h)" "F (take len s) = F s"
    using assms unfolding confined_def by metis
  moreover have "metro64 s len seed = F s \<bind> (\<lambda>(_, h). let h = (h XOR rotr64 h 33) * K0 in Some (h XOR rotr64 h 33))" for s
    by (simp add: metro64_def F_def Let_def)
  ultimately show ?thesis by (simp add: Let_def)
qed

section \<open>Properties\<close>

text \<open>
  The hash of a run of a string is the hash of that run alone. When \<open>from\<close> and \<open>len\<close> name a
  run inside the string, \<open>metro64\<close> reads nothing outside it and returns what hashing the run as a
  string of its own returns; otherwise it reads nothing and raises an error.
\<close>

lemma metro64_of_run:
  "if 1 \<le> from \<and> 0 \<le> len \<and> from - 1 + len \<le> int (length s)
   then \<exists>h. gefs_metro64 s seed (Some from) (Some len) = Some (Inr h)
     \<and> gefs_metro64 (take (nat len) (drop (nat (from - 1)) s)) seed None None = Some (Inr h)
   else \<exists>m. gefs_metro64 s seed (Some from) (Some len) = Some (Inl m)"
proof (cases "1 \<le> from \<and> 0 \<le> len \<and> from - 1 + len \<le> int (length s)")
  case True
  let ?m = "drop (nat (from - 1)) s"
  have l: "nat len \<le> length ?m" using True by auto
  show ?thesis
    using True l metro64_confined [OF l, of "word_of_int seed"]
    by (auto simp: gefs_metro64_def Let_def min_def)
qed (auto simp: gefs_metro64_def Let_def)

end
