(* ===== verification/Cstring.thy ===== *)
theory Cstring
  imports Bytes "HOL-Library.Sublist"
begin

text \<open>
  \<open>src/src/libc/string.c\<close>: the memory and string functions of the kernel's own C library. Memory
  is a function from addresses to bytes and a pointer is an address. A loop that only a
  terminating zero ends is a partial function, \<open>None\<close> when it never ends; the lemmas show that
  it ends on every terminated string and what it computes there.
\<close>

type_synonym mem = "nat \<Rightarrow> byte"

section \<open>The code\<close>

subsection \<open>Memory\<close>

fun memcpy_loop :: "nat \<Rightarrow> nat \<Rightarrow> nat \<Rightarrow> mem \<Rightarrow> mem" where
  "memcpy_loop d s 0 m = m"
| "memcpy_loop d s (Suc n) m = memcpy_loop (d + 1) (s + 1) n (m(d := m s))"

definition memcpy :: "nat \<Rightarrow> nat \<Rightarrow> nat \<Rightarrow> mem \<Rightarrow> mem" where
  "memcpy dst src n m = memcpy_loop dst src n m"

text \<open>The other direction: \<open>d\<close> and \<open>s\<close> are one past what is still to be moved.\<close>

fun memmove_back :: "nat \<Rightarrow> nat \<Rightarrow> nat \<Rightarrow> mem \<Rightarrow> mem" where
  "memmove_back d s 0 m = m"
| "memmove_back d s (Suc n) m = memmove_back (d - 1) (s - 1) n (m(d - 1 := m (s - 1)))"

definition memmove :: "nat \<Rightarrow> nat \<Rightarrow> nat \<Rightarrow> mem \<Rightarrow> mem" where
  "memmove dst src n m =
    (if dst < src then memcpy_loop dst src n m else memmove_back (dst + n) (src + n) n m)"

fun memset :: "nat \<Rightarrow> int \<Rightarrow> nat \<Rightarrow> mem \<Rightarrow> mem" where
  "memset s c 0 m = m"
| "memset s c (Suc n) m = memset (s + 1) c n (m(s := word_of_int c))"

fun memcmp :: "nat \<Rightarrow> nat \<Rightarrow> nat \<Rightarrow> mem \<Rightarrow> int" where
  "memcmp a b 0 m = 0"
| "memcmp a b (Suc n) m = (if m a \<noteq> m b then uint (m a) - uint (m b) else memcmp (a + 1) (b + 1) n m)"

fun memchr :: "nat \<Rightarrow> int \<Rightarrow> nat \<Rightarrow> mem \<Rightarrow> nat option" where
  "memchr s c 0 m = None"
| "memchr s c (Suc n) m = (if m s = word_of_int c then Some s else memchr (s + 1) c n m)"

subsection \<open>Strings\<close>

partial_function (option) strlen_loop :: "nat \<Rightarrow> mem \<Rightarrow> nat option" where
  "strlen_loop p m = (if m p \<noteq> 0 then strlen_loop (p + 1) m else Some p)"

definition strlen :: "nat \<Rightarrow> mem \<Rightarrow> nat option" where
  "strlen s m = map_option (\<lambda>p. p - s) (strlen_loop s m)"

partial_function (option) strcmp :: "nat \<Rightarrow> nat \<Rightarrow> mem \<Rightarrow> int option" where
  "strcmp a b m =
    (if m a \<noteq> 0 \<and> m a = m b then strcmp (a + 1) (b + 1) m else Some (uint (m a) - uint (m b)))"

text \<open>\<open>strncmp_loop\<close> is the loop with the count already known not to be zero.\<close>

fun strncmp_loop :: "nat \<Rightarrow> nat \<Rightarrow> nat \<Rightarrow> mem \<Rightarrow> int" where
  "strncmp_loop a b 0 m = 0"
| "strncmp_loop a b (Suc n) m =
    (if n \<noteq> 0 \<and> m a \<noteq> 0 \<and> m a = m b then strncmp_loop (a + 1) (b + 1) n m
     else uint (m a) - uint (m b))"

definition strncmp :: "nat \<Rightarrow> nat \<Rightarrow> nat \<Rightarrow> mem \<Rightarrow> int" where
  "strncmp a b n m = (if n = 0 then 0 else strncmp_loop a b n m)"

definition strcoll :: "nat \<Rightarrow> nat \<Rightarrow> mem \<Rightarrow> int option" where
  "strcoll a b m = strcmp a b m"

partial_function (option) strcpy :: "nat \<Rightarrow> nat \<Rightarrow> mem \<Rightarrow> mem option" where
  "strcpy d s m =
    (let m' = m(d := m s) in if m s \<noteq> 0 then strcpy (d + 1) (s + 1) m' else Some m')"

fun strncpy :: "nat \<Rightarrow> nat \<Rightarrow> nat \<Rightarrow> mem \<Rightarrow> mem" where
  "strncpy d s 0 m = m"
| "strncpy d s (Suc n) m =
    (if m s \<noteq> 0 then strncpy (d + 1) (s + 1) n (m(d := m s)) else memset d 0 (Suc n) m)"

definition strcat :: "nat \<Rightarrow> nat \<Rightarrow> mem \<Rightarrow> mem option" where
  "strcat dst src m = (case strlen dst m of None \<Rightarrow> None | Some n \<Rightarrow> strcpy (dst + n) src m)"

partial_function (option) strchr :: "nat \<Rightarrow> int \<Rightarrow> mem \<Rightarrow> nat option option" where
  "strchr s c m =
    (if m s = word_of_int c then Some (Some s) else if m s = 0 then Some None else strchr (s + 1) c m)"

partial_function (option) strrchr_loop :: "nat option \<Rightarrow> nat \<Rightarrow> int \<Rightarrow> mem \<Rightarrow> nat option option" where
  "strrchr_loop found s c m =
    (let found = (if m s = word_of_int c then Some s else found) in
     if m s = 0 then Some found else strrchr_loop found (s + 1) c m)"

definition strrchr :: "nat \<Rightarrow> int \<Rightarrow> mem \<Rightarrow> nat option option" where
  "strrchr s c m = strrchr_loop None s c m"

partial_function (option) strpbrk :: "nat \<Rightarrow> nat \<Rightarrow> mem \<Rightarrow> nat option option" where
  "strpbrk s accept m =
    (if m s = 0 then Some None
     else Option.bind (strchr accept (uint (m s)) m) (\<lambda>r.
       if r \<noteq> None then Some (Some s) else strpbrk (s + 1) accept m))"

partial_function (option) strspn_loop :: "bool \<Rightarrow> nat \<Rightarrow> nat \<Rightarrow> mem \<Rightarrow> nat option" where
  "strspn_loop want p accept m =
    (if m p = 0 then Some p
     else Option.bind (strchr accept (uint (m p)) m) (\<lambda>r.
       if (r \<noteq> None) = want then strspn_loop want (p + 1) accept m else Some p))"

definition strspn :: "nat \<Rightarrow> nat \<Rightarrow> mem \<Rightarrow> nat option" where
  "strspn s accept m = map_option (\<lambda>p. p - s) (strspn_loop True s accept m)"

definition strcspn :: "nat \<Rightarrow> nat \<Rightarrow> mem \<Rightarrow> nat option" where
  "strcspn s reject m = map_option (\<lambda>p. p - s) (strspn_loop False s reject m)"

partial_function (option) strstr_loop :: "nat \<Rightarrow> nat \<Rightarrow> nat \<Rightarrow> mem \<Rightarrow> nat option option" where
  "strstr_loop h needle n m =
    (if m h = 0 then Some None
     else if m h = m needle \<and> strncmp h needle n m = 0 then Some (Some h)
     else strstr_loop (h + 1) needle n m)"

definition strstr :: "nat \<Rightarrow> nat \<Rightarrow> mem \<Rightarrow> nat option option" where
  "strstr haystack needle m =
    Option.bind (strlen needle m) (\<lambda>n.
      if n = 0 then Some (Some haystack) else strstr_loop haystack needle n m)"

section \<open>Memory\<close>

text \<open>What a copy that does not care about overlap leaves.\<close>

definition copied :: "nat \<Rightarrow> nat \<Rightarrow> nat \<Rightarrow> mem \<Rightarrow> mem" where
  "copied d s n m = (\<lambda>a. if d \<le> a \<and> a < d + n then m (s + (a - d)) else m a)"

lemma copied_0 [simp]: "copied d s 0 m = m"
  by (rule ext) (auto simp: copied_def)

lemma copied_first:
  assumes "d \<le> s \<or> s + n < d"
  shows "copied (d + 1) (s + 1) n (m(d := m s)) = copied d s (Suc n) m"
proof (rule ext)
  fix a
  have "s + 1 + (a - (d + 1)) = s + (a - d)" if "d < a" using that by arith
  moreover have "s + (a - d) \<noteq> d" if "d < a" "a < d + Suc n" using that assms by arith
  ultimately show "copied (d + 1) (s + 1) n (m(d := m s)) a = copied d s (Suc n) m a"
    by (cases "a = d"; cases "d < a") (auto simp: copied_def)
qed

lemma copied_last:
  assumes "s \<le> d"
  shows "copied d s n (m(d + n := m (s + n))) = copied d s (Suc n) m"
proof (rule ext)
  fix a
  have "s + (a - d) \<noteq> d + n" if "d \<le> a" "a < d + n" using that assms by arith
  then show "copied d s n (m(d + n := m (s + n))) a = copied d s (Suc n) m a"
    by (cases "a = d + n") (auto simp: copied_def)
qed

lemma memcpy_loop_copied: "d \<le> s \<or> s + n \<le> d \<Longrightarrow> memcpy_loop d s n m = copied d s n m"
proof (induction d s n m rule: memcpy_loop.induct)
  case (2 d s n m)
  then have "memcpy_loop (d + 1) (s + 1) n (m(d := m s)) = copied (d + 1) (s + 1) n (m(d := m s))"
    by (intro "2.IH") auto
  then show ?case using copied_first [of d s n m] "2.prems" by auto
qed simp

lemma memmove_back_copied: "s \<le> d \<Longrightarrow> memmove_back (d + n) (s + n) n m = copied d s n m"
proof (induction n arbitrary: m)
  case (Suc n)
  then show ?case using copied_last [OF Suc.prems, of n m] by simp
qed simp

lemma memset_spec: "memset s c n m = (\<lambda>a. if s \<le> a \<and> a < s + n then word_of_int c else m a)"
proof (induction s c n m rule: memset.induct)
  case (2 s c n m)
  show ?case unfolding memset.simps "2.IH" by (rule ext) auto
qed (rule ext, auto)

section \<open>Strings\<close>

text \<open>The bytes \<open>xs\<close>, none of them zero, stand at \<open>s\<close> and a zero follows.\<close>

primrec str_at :: "byte list \<Rightarrow> mem \<Rightarrow> nat \<Rightarrow> bool" where
  "str_at [] m s \<longleftrightarrow> m s = 0"
| "str_at (x # xs) m s \<longleftrightarrow> m s = x \<and> x \<noteq> 0 \<and> str_at xs m (s + 1)"

lemma strlen_loop_str: "str_at xs m s \<Longrightarrow> strlen_loop s m = Some (s + length xs)"
  by (induction xs arbitrary: s) (subst strlen_loop.simps; simp)+

lemma strlen_str: "str_at xs m s \<Longrightarrow> strlen s m = Some (length xs)"
  by (simp add: strlen_def strlen_loop_str)

lemma str_at_cong: "str_at xs m s \<Longrightarrow> (\<And>a. s \<le> a \<Longrightarrow> a \<le> s + length xs \<Longrightarrow> m' a = m a) \<Longrightarrow> str_at xs m' s"
proof (induction xs arbitrary: s)
  case (Cons x xs)
  have "str_at xs m' (s + 1)" using Cons.prems by (intro Cons.IH) auto
  then show ?case using Cons.prems(1) Cons.prems(2) [of s] by simp
qed simp

lemma strcpy_str:
  "str_at xs m s \<Longrightarrow> d + length xs < s \<or> s + length xs < d \<Longrightarrow> strcpy d s m = Some (copied d s (length xs + 1) m)"
proof (induction xs arbitrary: s d m)
  case Nil
  then have "d \<le> s \<or> s + 0 < d" and "m s = 0" by auto
  then show ?case using copied_first [of d s 0 m] by (subst strcpy.simps) (simp add: Let_def)
next
  case (Cons x xs)
  have "str_at xs (m(d := x)) (s + 1)"
    by (rule str_at_cong [of xs m]) (use Cons.prems in auto)
  then have "strcpy (d + 1) (s + 1) (m(d := x)) = Some (copied (d + 1) (s + 1) (length xs + 1) (m(d := x)))"
    by (rule Cons.IH) (use Cons.prems(2) in auto)
  moreover have "copied (d + 1) (s + 1) (length xs + 1) (m(d := x)) = copied d s (length (x # xs) + 1) m"
    using copied_first [of d s "length xs + 1" m] Cons.prems by auto
  ultimately show ?case using Cons.prems(1) by (subst strcpy.simps) (simp add: Let_def)
qed

lemma str_at_copied: "str_at xs m s \<Longrightarrow> str_at xs (copied d s (length xs + 1) m) d"
proof (induction xs arbitrary: s d m)
  case (Cons x xs)
  have "str_at xs (copied (d + 1) (s + 1) (length xs + 1) m) (d + 1)" using Cons by simp
  then have "str_at xs (copied d s (length (x # xs) + 1) m) (d + 1)"
  proof (rule str_at_cong)
    fix a assume "d + 1 \<le> a" "a \<le> d + 1 + length xs"
    moreover from this have "s + 1 + (a - (d + 1)) = s + (a - d)" by arith
    ultimately show "copied d s (length (x # xs) + 1) m a = copied (d + 1) (s + 1) (length xs + 1) m a"
      by (simp add: copied_def)
  qed
  then show ?case using Cons.prems by (simp add: copied_def)
qed (simp add: copied_def)

text \<open>Comparison of terminated strings, as bytes.\<close>

fun cmp_bytes :: "byte list \<Rightarrow> byte list \<Rightarrow> int" where
  "cmp_bytes [] [] = 0"
| "cmp_bytes [] (y # ys) = - uint y"
| "cmp_bytes (x # xs) [] = uint x"
| "cmp_bytes (x # xs) (y # ys) = (if x = y then cmp_bytes xs ys else uint x - uint y)"

lemma strcmp_str: "str_at xs m a \<Longrightarrow> str_at ys m b \<Longrightarrow> strcmp a b m = Some (cmp_bytes xs ys)"
  by (induction xs ys arbitrary: a b rule: cmp_bytes.induct) (subst strcmp.simps; auto)+

abbreviation (input) byte_less :: "(byte \<times> byte) set" where
  "byte_less \<equiv> {(x, y). x < y}"

lemma cmp_bytes_order:
  assumes "0 \<notin> set xs" and "0 \<notin> set ys"
  shows "cmp_bytes xs ys < 0 \<longleftrightarrow> (xs, ys) \<in> lexord byte_less"
    and "cmp_bytes xs ys = 0 \<longleftrightarrow> xs = ys"
    and "cmp_bytes xs ys > 0 \<longleftrightarrow> (ys, xs) \<in> lexord byte_less"
proof -
  have "uint x \<noteq> 0" if "x \<noteq> 0" for x :: byte using that by (simp add: uint_0_iff)
  then have nz: "0 < uint x" if "x \<noteq> 0" for x :: byte using that uint_byte(1) [of x] by (simp add: order_less_le)
  have "(cmp_bytes xs ys < 0 \<longleftrightarrow> (xs, ys) \<in> lexord byte_less) \<and> (cmp_bytes xs ys = 0 \<longleftrightarrow> xs = ys)
      \<and> (cmp_bytes xs ys > 0 \<longleftrightarrow> (ys, xs) \<in> lexord byte_less)"
    using assms
  proof (induction xs ys rule: cmp_bytes.induct)
    case (4 x xs y ys)
    then show ?case by (cases "x = y") (auto simp: word_less_def word_uint_eq_iff)
  qed (use nz in \<open>auto simp: less_le_not_le\<close>)
  then show "cmp_bytes xs ys < 0 \<longleftrightarrow> (xs, ys) \<in> lexord byte_less" "cmp_bytes xs ys = 0 \<longleftrightarrow> xs = ys"
    "cmp_bytes xs ys > 0 \<longleftrightarrow> (ys, xs) \<in> lexord byte_less" by auto
qed

lemma str_at_nz: "str_at xs m s \<Longrightarrow> 0 \<notin> set xs"
  by (induction xs arbitrary: s) auto

lemma str_at_unique: "str_at xs m s \<Longrightarrow> str_at ys m s \<Longrightarrow> xs = ys"
proof (induction xs arbitrary: ys s)
  case Nil
  then show ?case by (cases ys) auto
next
  case (Cons x xs)
  then show ?case by (cases ys) auto
qed

text \<open>Searching: the first place a needle stands at.\<close>

lemma find_map_Suc: "List.find P (map Suc xs) = map_option Suc (List.find (\<lambda>k. P (Suc k)) xs)"
  by (induction xs) auto

lemma strncmp_str:
  "str_at xs m a \<Longrightarrow> str_at ns m b \<Longrightarrow> ns \<noteq> [] \<Longrightarrow> strncmp_loop a b (length ns) m = 0 \<longleftrightarrow> prefix ns xs"
proof (induction ns arbitrary: xs a b)
  case (Cons n ns)
  show ?case
  proof (cases xs)
    case Nil
    then show ?thesis using Cons.prems by (simp add: uint_0_iff)
  next
    case (Cons x xs')
    then show ?thesis
      using Cons.prems Cons.IH [of xs' "a + 1" "b + 1"] by (cases ns) (auto simp: word_uint_eq_iff)
  qed
qed simp

lemma strstr_loop_str:
  assumes "str_at ns m nd" and "ns \<noteq> []"
  shows "str_at hs m h \<Longrightarrow> strstr_loop h nd (length ns) m
    = Some (map_option ((+) h) (List.find (\<lambda>k. prefix ns (drop k hs)) [0..<Suc (length hs)]))"
proof (induction hs arbitrary: h)
  case Nil
  then show ?case using assms(2) by (subst strstr_loop.simps) simp
next
  case (Cons x hs)
  have f: "List.find (\<lambda>k. prefix ns (drop k (x # hs))) [0..<Suc (length (x # hs))]
    = (if prefix ns (x # hs) then Some 0
       else map_option Suc (List.find (\<lambda>k. prefix ns (drop k hs)) [0..<Suc (length hs)]))"
  proof -
    have "[0..<Suc (length (x # hs))] = 0 # map Suc [0..<Suc (length hs)]"
      by (simp add: upt_conv_Cons map_Suc_upt del: upt_Suc)
    then show ?thesis by (simp add: find_map_Suc del: upt_Suc)
  qed
  have "m h = m nd \<and> strncmp h nd (length ns) m = 0 \<longleftrightarrow> prefix ns (x # hs)"
    using strncmp_str [OF Cons.prems assms] assms Cons.prems
    by (cases ns) (auto simp: strncmp_def)
  then show ?case
    using Cons.IH [of "h + 1"] Cons.prems f
    by (subst strstr_loop.simps) (simp add: option.map_comp comp_def)
qed

lemma strchr_str:
  "str_at xs m s \<Longrightarrow> strchr s c m
    = Some (map_option ((+) s) (List.find (\<lambda>k. (xs @ [0]) ! k = word_of_int c) [0..<Suc (length xs)]))"
proof (induction xs arbitrary: s)
  case Nil
  then show ?case by (subst strchr.simps) simp
next
  case (Cons x xs)
  have "[0..<Suc (length (x # xs))] = 0 # map Suc [0..<Suc (length xs)]"
    by (simp add: upt_conv_Cons map_Suc_upt del: upt_Suc)
  then show ?case
    using Cons.IH [of "s + 1"] Cons.prems
    by (subst strchr.simps) (simp add: find_map_Suc option.map_comp comp_def del: upt_Suc)
qed

lemma strchr_mem: "str_at xs m s \<Longrightarrow> x \<noteq> 0 \<Longrightarrow> \<exists>r. strchr s (uint x) m = Some r \<and> (r \<noteq> None \<longleftrightarrow> x \<in> set xs)"
proof (induction xs arbitrary: s)
  case Nil
  then show ?case by (subst strchr.simps) auto
next
  case (Cons y xs)
  then show ?case using Cons.IH [of "s + 1"] by (subst strchr.simps) auto
qed

lemma strspn_loop_str:
  assumes "str_at acc m a"
  shows "str_at xs m s \<Longrightarrow> strspn_loop want s a m
    = Some (s + length (takeWhile (\<lambda>x. (x \<in> set acc) = want) xs))"
proof (induction xs arbitrary: s)
  case Nil
  then show ?case by (subst strspn_loop.simps) simp
next
  case (Cons x xs)
  then show ?case
    using strchr_mem [OF assms, of x] by (subst strspn_loop.simps) auto
qed

lemma str_at_append_iff: "str_at (xs @ ys) m s \<longleftrightarrow> (\<forall>i<length xs. m (s + i) = xs ! i \<and> xs ! i \<noteq> 0) \<and> str_at ys m (s + length xs)"
proof (induction xs arbitrary: s)
  case (Cons x xs)
  then show ?case by (auto simp: All_less_Suc2)
qed simp

lemma strcat_str:
  assumes "str_at xs m d" and "str_at ys m s"
    and "d + length xs + length ys < s \<or> s + length ys < d + length xs"
  shows "\<exists>m'. strcat d s m = Some m' \<and> str_at (xs @ ys) m' d
    \<and> (\<forall>a. a < d + length xs \<or> d + length xs + length ys < a \<longrightarrow> m' a = m a)"
proof -
  let ?m = "copied (d + length xs) s (length ys + 1) m"
  have "strcat d s m = Some ?m"
    using strcpy_str [OF assms(2), of "d + length xs"] assms(3) by (simp add: strcat_def strlen_str [OF assms(1)])
  moreover have "str_at (xs @ ys) ?m d"
    using str_at_copied [OF assms(2), of "d + length xs"] assms(1) str_at_append_iff [of xs "[]" m d]
    by (simp add: str_at_append_iff) (simp add: copied_def)
  ultimately show ?thesis by (auto simp: copied_def)
qed

section \<open>Properties\<close>

text \<open>
  C32: \<open>memmove\<close> moves whatever the overlap. After it, the \<open>n\<close> bytes at \<open>dst\<close> are those that stood at
  \<open>src\<close> before and every other byte is unchanged, however the two ranges lie; \<open>memcpy\<close> promises the
  same when the destination is below the source or the ranges are apart.
\<close>

theorem memmove_moves:
  "memmove d s n m = copied d s n m \<and> (d \<le> s \<or> s + n \<le> d \<longrightarrow> memcpy d s n m = copied d s n m)"
  by (simp add: memmove_def memcpy_def memcpy_loop_copied memmove_back_copied)

theorem memmove_moves_witness:
  "memmove 11 10 2 (\<lambda>a. of_nat a) = copied 11 10 2 (\<lambda>a. of_nat a)
   \<and> (10 :: nat) \<le> 11 \<and> memcpy 10 11 2 (\<lambda>a. of_nat a) = copied 10 11 2 (\<lambda>a. of_nat a)"
  using memmove_moves [of 11 10 2] memmove_moves [of 10 11 2] by simp

text \<open>
  C33: \<open>strcmp\<close> returns on any two terminated strings, and the sign of its result is their order as
  sequences of unsigned bytes; it is zero only for equal strings.
\<close>

theorem strcmp_orders:
  assumes "str_at xs m a" and "str_at ys m b"
  shows "\<exists>r. strcmp a b m = Some r \<and> (r < 0 \<longleftrightarrow> (xs, ys) \<in> lexord {(x, y). x < y})
    \<and> (r = 0 \<longleftrightarrow> xs = ys) \<and> (r > 0 \<longleftrightarrow> (ys, xs) \<in> lexord {(x, y). x < y})"
  using strcmp_str [OF assms] cmp_bytes_order [OF str_at_nz [OF assms(1)] str_at_nz [OF assms(2)]] by blast

definition demo_mem :: mem where
  "demo_mem = (\<lambda>a. if a < 8 then [0x61, 0x62, 0, 0x61, 0xe9, 0x62, 0, 0] ! a else 0)"

lemma demo_strs: "str_at [0x61, 0x62] demo_mem 0" "str_at [0x61, 0xe9, 0x62] demo_mem 3" "str_at [0xe9] (demo_mem(5 := 0)) 4"
  "str_at [0x62] demo_mem 1" "str_at [] demo_mem 7"
  by (simp_all add: demo_mem_def)

theorem strcmp_orders_witness:
  "str_at [0x61, 0x62] demo_mem 0 \<and> str_at [0x61, 0xe9, 0x62] demo_mem 3
   \<and> (\<exists>r. strcmp 0 3 demo_mem = Some r \<and> (r < 0 \<longleftrightarrow> ([0x61, 0x62], [0x61, 0xe9, 0x62]) \<in> lexord {(x :: byte, y). x < y}))"
  using strcmp_orders [OF demo_strs(1,2)] demo_strs(1,2) by blast

text \<open>
  C34: \<open>strstr\<close> finds the first occurrence. On terminated strings it returns, and the result is the
  address of the first place where the needle stands in the haystack, or null if there is none;
  an empty needle is found at the start.
\<close>

theorem strstr_first:
  assumes "str_at hs m h" and "str_at ns m nd"
  shows "strstr h nd m
    = Some (map_option ((+) h) (List.find (\<lambda>k. prefix ns (drop k hs)) [0..<Suc (length hs)]))"
proof (cases "ns = []")
  case True
  have "List.find (\<lambda>k. True) [0..<Suc (length hs)] = Some 0" by (simp add: upt_conv_Cons del: upt_Suc)
  then show ?thesis using True strlen_str [OF assms(2)] by (simp add: strstr_def)
next
  case False
  then show ?thesis using strstr_loop_str [OF assms(2) False assms(1)] assms(2) by (simp add: strstr_def strlen_str)
qed

theorem strstr_first_witness:
  "str_at [0x61, 0xe9, 0x62] demo_mem 3 \<and> str_at [0x62] demo_mem 1 \<and> strstr 3 1 demo_mem = Some (Some 5)"
proof -
  have "List.find (\<lambda>k. prefix [0x62] (drop k [0x61, 0xe9, 0x62 :: byte])) [0..<Suc 3] = Some 2"
    by (simp add: upt_rec)
  then show ?thesis using strstr_first [OF demo_strs(2,4)] demo_strs(2,4) by simp
qed

end
