(* ===== verification/Ninep.thy ===== *)
theory Ninep
  imports Bytes "HOL-Library.State_Monad"
begin

text \<open>
  \<open>src/src/ninep.c\<close>: the 9P2000 field codec. The reader is the C \<open>struct rd\<close>, threaded through a
  state monad, with its sticky \<open>bad\<close> flag; a decoded message is the list of the fields the code
  sets in its table, in that order. When \<open>bad\<close> ends up set the table is dropped, so the fields a
  bad read would have set are not told apart. Encoders return the bytes they put in their buffer.
\<close>

unbundle bit_operations_syntax

section \<open>The code\<close>

subsection \<open>Reading\<close>

record rd =
  rd_p :: "byte list"
  rd_off :: nat
  rd_bad :: bool

datatype qid = Qid (q_type: u64) (q_vers: u64) (q_path: u64)

text \<open>What a field of the table holds: \<open>FView\<close> is a view of the message, by offset and length.\<close>

datatype fval = FInt u64 | FStr "byte list" | FView nat nat | FQid qid | FStrs "byte list list"
  | FQids "qid list" | FTrue

type_synonym fields = "(string \<times> fval) list"
type_synonym 'a reader = "(rd, 'a) state"

definition rdint_val :: "byte list \<Rightarrow> u64" where
  "rdint_val bs = foldl (\<lambda>v b. push_bit 8 v OR ucast b) 0 (rev bs)"

definition rdint :: "nat \<Rightarrow> u64 reader" where
  "rdint n = State (\<lambda>r.
     if rd_bad r \<or> rd_off r + n > length (rd_p r) then (0, r\<lparr>rd_bad := True\<rparr>)
     else (rdint_val (take n (drop (rd_off r) (rd_p r))), r\<lparr>rd_off := rd_off r + n\<rparr>))"

text \<open>The bytes of a counted field: where they start, and themselves.\<close>

definition rdbytes :: "u64 \<Rightarrow> (nat \<times> byte list) reader" where
  "rdbytes n = State (\<lambda>r.
     if rd_bad r \<or> rd_off r + unat n > length (rd_p r) then ((0, []), r\<lparr>rd_bad := True\<rparr>)
     else ((rd_off r, take (unat n) (drop (rd_off r) (rd_p r))), r\<lparr>rd_off := rd_off r + unat n\<rparr>))"

definition isbad :: "bool reader" where
  "isbad = State (\<lambda>r. (rd_bad r, r))"

definition rdstr :: "byte list reader" where
  "rdstr = do { n \<leftarrow> rdint 2; (_, s) \<leftarrow> rdbytes n; State_Monad.return s }"

definition rdqid :: "qid reader" where
  "rdqid = do { t \<leftarrow> rdint 1; v \<leftarrow> rdint 4; p \<leftarrow> rdint 8; State_Monad.return (Qid t v p) }"

definition rddata :: "bool \<Rightarrow> fields reader" where
  "rddata isbuf = do {
     n \<leftarrow> rdint 4;
     (off, s) \<leftarrow> rdbytes n;
     State_Monad.return [(''data'', if isbuf then FView off (unat n) else FStr s)]
   }"

text \<open>A loop that reads up to \<open>n\<close> items and stops at the first bad one.\<close>

fun rdmany :: "nat \<Rightarrow> 'a reader \<Rightarrow> 'a list reader" where
  "rdmany 0 m = State_Monad.return []"
| "rdmany (Suc n) m = do {
     b \<leftarrow> isbad;
     if b then State_Monad.return [] else do {
       x \<leftarrow> m;
       b \<leftarrow> isbad;
       if b then State_Monad.return [] else do { xs \<leftarrow> rdmany n m; State_Monad.return (x # xs) }
     }
   }"

definition rdi :: "string \<Rightarrow> nat \<Rightarrow> fields reader" where
  "rdi k n = do { v \<leftarrow> rdint n; State_Monad.return [(k, FInt v)] }"

definition rds :: "string \<Rightarrow> fields reader" where
  "rds k = do { s \<leftarrow> rdstr; State_Monad.return [(k, FStr s)] }"

definition rdq :: "fields reader" where
  "rdq = do { q \<leftarrow> rdqid; State_Monad.return [(''qid'', FQid q)] }"

definition rdnames :: "fields reader" where
  "rdnames = do { n \<leftarrow> rdint 2; ns \<leftarrow> rdmany (unat n) rdstr; State_Monad.return [(''wname'', FStrs ns)] }"

definition rdqids :: "fields reader" where
  "rdqids = do { n \<leftarrow> rdint 2; qs \<leftarrow> rdmany (unat n) rdqid; State_Monad.return [(''wqid'', FQids qs)] }"

definition rdstat :: "fields reader" where
  "rdstat = do {
     _ \<leftarrow> rdint 2;
     n \<leftarrow> rdint 2;
     (_, s) \<leftarrow> rdbytes n;
     State_Monad.return [(''statbytes'', FStr s)]
   }"

text \<open>Fields one after the other.\<close>

fun rdall :: "fields reader list \<Rightarrow> fields reader" where
  "rdall [] = State_Monad.return []"
| "rdall (m # ms) = do { f \<leftarrow> m; g \<leftarrow> rdall ms; State_Monad.return (f @ g) }"

text \<open>The switch on the message type.\<close>

definition np_body :: "bool \<Rightarrow> nat \<Rightarrow> fields reader" where
  "np_body isbuf typ =
    (if typ = 100 \<or> typ = 101 then rdall [rdi ''msize'' 4, rds ''version'']
     else if typ = 102 then rdall [rdi ''afid'' 4, rds ''uname'', rds ''aname'']
     else if typ = 104 then rdall [rdi ''fid'' 4, rdi ''afid'' 4, rds ''uname'', rds ''aname'']
     else if typ = 108 then rdi ''oldtag'' 2
     else if typ = 110 then rdall [rdi ''fid'' 4, rdi ''newfid'' 4, rdnames]
     else if typ = 111 then rdqids
     else if typ = 112 then rdall [rdi ''fid'' 4, rdi ''mode'' 1]
     else if typ = 114 then rdall [rdi ''fid'' 4, rds ''name'', rdi ''perm'' 4, rdi ''mode'' 1]
     else if typ = 116 then rdall [rdi ''fid'' 4, rdi ''offset'' 8, rdi ''count'' 4]
     else if typ = 118 then rdall [rdi ''fid'' 4, rdi ''offset'' 8, rddata isbuf]
     else if typ = 117 then rddata isbuf
     else if typ = 119 then rdi ''count'' 4
     else if typ = 120 \<or> typ = 122 \<or> typ = 124 then rdi ''fid'' 4
     else if typ = 126 then rdall [rdi ''fid'' 4, rdstat]
     else if typ = 107 then rds ''ename''
     else if typ = 105 then rdq
     else if typ = 113 \<or> typ = 115 then rdall [rdq, rdi ''iounit'' 4]
     else if typ = 121 \<or> typ = 123 \<or> typ = 109 \<or> typ = 127 then State_Monad.return []
     else if typ = 125 then rdstat
     else State_Monad.return [(''unknown'', FTrue)])"

definition rd_open :: "byte list \<Rightarrow> rd" where
  "rd_open s = \<lparr>rd_p = s, rd_off = 0, rd_bad = False\<rparr>"

text \<open>\<open>None\<close> is \<open>nil\<close>; \<open>isbuf\<close> says whether the message came as a buffer.\<close>

definition np_message :: "bool \<Rightarrow> fields reader" where
  "np_message isbuf = do {
     size \<leftarrow> rdint 4;
     typ \<leftarrow> rdint 1;
     tag \<leftarrow> rdint 2;
     b \<leftarrow> isbad;
     if b then State_Monad.return [] else do {
       body \<leftarrow> np_body isbuf (unat typ);
       State_Monad.return ([(''type'', FInt typ), (''tag'', FInt tag), (''size'', FInt size)] @ body)
     }
   }"

definition np_decode :: "bool \<Rightarrow> byte list \<Rightarrow> fields option" where
  "np_decode isbuf s =
    (let (t, r) = run_state (np_message isbuf) (rd_open s) in if rd_bad r then None else Some t)"

definition np_stat :: "fields reader" where
  "np_stat = do {
     _ \<leftarrow> rdint 2;
     _ \<leftarrow> rdint 4;
     rdall [rdq, rdi ''mode'' 4, rdi ''atime'' 4, rdi ''mtime'' 4, rdi ''length'' 8,
       rds ''name'', rds ''uid'', rds ''gid'', rds ''muid'']
   }"

definition np_unpackstat :: "byte list \<Rightarrow> fields option" where
  "np_unpackstat s = (let (t, r) = run_state np_stat (rd_open s) in if rd_bad r then None else Some t)"

subsection \<open>Writing\<close>

definition wrint :: "u64 \<Rightarrow> nat \<Rightarrow> byte list" where
  "wrint v n = map (\<lambda>i. ucast (drop_bit (8 * i) v)) [0..<n]"

definition wrstr :: "byte list \<Rightarrow> byte list" where
  "wrstr s = wrint (of_nat (length s)) 2 @ s"

text \<open>A stat as \<open>packstat\<close> is given it; a string field may be missing.\<close>

record npstat =
  st_qid :: qid
  st_mode :: u64
  st_atime :: u64
  st_mtime :: u64
  st_length :: u64
  st_name :: "byte list option"
  st_uid :: "byte list option"
  st_gid :: "byte list option"
  st_muid :: "byte list option"

definition ascii :: "string \<Rightarrow> byte list" where
  "ascii s = map (\<lambda>c. of_nat (of_char c)) s"

definition strfield :: "byte list option \<Rightarrow> string \<Rightarrow> byte list" where
  "strfield v dflt = (case v of None \<Rightarrow> ascii dflt | Some s \<Rightarrow> s)"

definition fieldlen :: "byte list option \<Rightarrow> string \<Rightarrow> nat" where
  "fieldlen v dflt = (case v of None \<Rightarrow> length dflt | Some s \<Rightarrow> length s) + 2"

definition wrqid :: "qid \<Rightarrow> byte list" where
  "wrqid q = wrint (q_type q) 1 @ wrint (q_vers q) 4 @ wrint (q_path q) 8"

abbreviation (input) HDRLEN :: nat where "HDRLEN \<equiv> 7"
abbreviation (input) QIDLEN :: nat where "QIDLEN \<equiv> 13"

definition packstat_body :: "npstat \<Rightarrow> nat" where
  "packstat_body st = 2 + 4 + QIDLEN + 4 + 4 + 4 + 8 + fieldlen (st_name st) [] + fieldlen (st_uid st) ''luaos''
     + fieldlen (st_gid st) ''luaos'' + fieldlen (st_muid st) ''luaos''"

definition np_packstat :: "npstat \<Rightarrow> byte list" where
  "np_packstat st =
    wrint (of_nat (packstat_body st)) 2 @ wrint 0 2 @ wrint 0 4 @ wrqid (st_qid st) @ wrint (st_mode st) 4
    @ wrint (st_atime st) 4 @ wrint (st_mtime st) 4 @ wrint (st_length st) 8
    @ wrstr (strfield (st_name st) []) @ wrstr (strfield (st_uid st) ''luaos'')
    @ wrstr (strfield (st_gid st) ''luaos'') @ wrstr (strfield (st_muid st) ''luaos'')"

definition np_rread :: "u64 \<Rightarrow> byte list \<Rightarrow> byte list" where
  "np_rread tag data =
    wrint (of_nat (HDRLEN + 4 + length data)) 4 @ wrint 117 1 @ wrint tag 2
    @ wrint (of_nat (length data)) 4 @ data"

definition np_twrite :: "u64 \<Rightarrow> u64 \<Rightarrow> u64 \<Rightarrow> byte list \<Rightarrow> byte list" where
  "np_twrite tag fid off data =
    wrint (of_nat (HDRLEN + 16 + length data)) 4 @ wrint 118 1 @ wrint tag 2 @ wrint fid 4 @ wrint off 8
    @ wrint (of_nat (length data)) 4 @ data"

definition np_tread :: "u64 \<Rightarrow> u64 \<Rightarrow> u64 \<Rightarrow> u64 \<Rightarrow> byte list" where
  "np_tread tag fid off count =
    wrint (of_nat (HDRLEN + 16)) 4 @ wrint 116 1 @ wrint tag 2 @ wrint fid 4 @ wrint off 8 @ wrint count 4"

definition twalk_body :: "byte list list \<Rightarrow> nat" where
  "twalk_body names = HDRLEN + 4 + 4 + 2 + sum_list (map (\<lambda>n. length n + 2) names)"

definition np_twalk :: "u64 \<Rightarrow> u64 \<Rightarrow> u64 \<Rightarrow> byte list list \<Rightarrow> byte list" where
  "np_twalk tag fid newfid names =
    wrint (of_nat (twalk_body names)) 4 @ wrint 110 1 @ wrint tag 2 @ wrint fid 4 @ wrint newfid 4
    @ wrint (of_nat (length names)) 2 @ concat (map wrstr names)"

section \<open>Integers on the wire\<close>

lemma rdint_val_le: "rdint_val bs = of_nat (le_val bs)"
proof (induction bs)
  case (Cons b bs)
  have "push_bit 8 v OR ucast b = push_bit 8 v + (ucast b :: u64)" for v
    by (rule disjunctive_add [symmetric]) (auto simp: word_bits dest: bit_imp_le_length)
  then have "rdint_val (b # bs) = push_bit 8 (rdint_val bs) + ucast b" by (simp add: rdint_val_def)
  also have "\<dots> = of_nat (le_val (b # bs))"
    using Cons by (simp add: push_bit_eq_mult mult.commute add.commute)
  finally show ?case .
qed (simp add: rdint_val_def)

lemma wrint_le: "wrint v n = le_bytes n (unat v)"
proof (rule nth_equalityI)
  fix i assume "i < length (wrint v n)"
  then have i: "i < n" by (simp add: wrint_def)
  have "(256 :: nat) ^ i = 2 ^ (8 * i)" by (simp add: power_mult)
  then have "unat (drop_bit (8 * i) v) = unat v div 256 ^ i" by (simp add: unat_drop_bit)
  then have "ucast (drop_bit (8 * i) v) = (of_nat (unat v div 256 ^ i) :: byte)"
    by (metis of_nat_unat)
  then show "wrint v n ! i = le_bytes n (unat v) ! i" using i by (simp add: wrint_def nth_le_bytes)
qed (simp add: wrint_def)

lemma length_wrint [simp]: "length (wrint v n) = n"
  by (simp add: wrint_le)

lemma rdint_val_wrint: "n \<le> 8 \<Longrightarrow> rdint_val (wrint v n) = take_bit (8 * n) v"
proof -
  assume "n \<le> 8"
  have "(256 :: nat) ^ n = 2 ^ (8 * n)" by (simp add: power_mult)
  then have "le_val (le_bytes n (unat v)) = unat (take_bit (8 * n) v)"
    by (simp add: le_val_le_bytes unat_take_bit)
  then show ?thesis by (simp add: rdint_val_le wrint_le)
qed

section \<open>Readers that read what was written\<close>

definition rd_at :: "byte list \<Rightarrow> nat \<Rightarrow> rd" where
  "rd_at s k = \<lparr>rd_p = s, rd_off = k, rd_bad = False\<rparr>"

definition reads :: "'a reader \<Rightarrow> byte list \<Rightarrow> 'a \<Rightarrow> bool" where
  "reads m bs x \<longleftrightarrow>
    (\<forall>p q. run_state m (rd_at (p @ bs @ q) (length p)) = (x, rd_at (p @ bs @ q) (length p + length bs)))"

named_theorems readsI "readers and the bytes they read"

lemma reads_return [readsI]: "reads (State_Monad.return x) [] x"
  by (simp add: reads_def)

lemma reads_bind: "reads m bs x \<Longrightarrow> reads (f x) cs y \<Longrightarrow> reads (m \<bind> f) (bs @ cs) y"
  unfolding reads_def
proof (intro allI)
  fix p q
  assume m: "\<forall>p q. run_state m (rd_at (p @ bs @ q) (length p)) = (x, rd_at (p @ bs @ q) (length p + length bs))"
    and f: "\<forall>p q. run_state (f x) (rd_at (p @ cs @ q) (length p)) = (y, rd_at (p @ cs @ q) (length p + length cs))"
  show "run_state (m \<bind> f) (rd_at (p @ (bs @ cs) @ q) (length p))
      = (y, rd_at (p @ (bs @ cs) @ q) (length p + length (bs @ cs)))"
    using m [rule_format, of p "cs @ q"] f [rule_format, of "p @ bs" q] by (simp add: add.assoc)
qed

lemma reads_map: "reads m bs x \<Longrightarrow> reads (do { a \<leftarrow> m; State_Monad.return (f a) }) bs (f x)"
  using reads_bind [of m bs x "\<lambda>a. State_Monad.return (f a)" "[]" "f x"] by (simp add: reads_return)

lemma reads_isbad [readsI]: "reads isbad [] False"
  by (simp add: reads_def isbad_def rd_at_def)

lemma reads_guard: "reads m bs x \<Longrightarrow> reads (do { b \<leftarrow> isbad; if b then y else m }) bs x"
  using reads_bind [OF reads_isbad, of "\<lambda>b. if b then y else m" bs x] by simp

lemma reads_rdint [readsI]: "n \<le> 8 \<Longrightarrow> reads (rdint n) (wrint v n) (take_bit (8 * n) v)"
  by (simp add: reads_def rdint_def rd_at_def rdint_val_wrint)

lemma reads_rdbytes:
  "unat n = length bs \<Longrightarrow> reads (do { (_, s) \<leftarrow> rdbytes n; State_Monad.return (f s) }) bs (f bs)"
  by (simp add: reads_def rdbytes_def rd_at_def)

lemma reads_rdall_Nil [readsI]: "reads (rdall []) [] []"
  by (simp add: readsI)

lemma reads_rdall_Cons: "reads m bs x \<Longrightarrow> reads (rdall ms) cs y \<Longrightarrow> reads (rdall (m # ms)) (bs @ cs) (x @ y)"
  unfolding rdall.simps
  by (rule reads_bind, assumption, rule reads_bind [where cs = "[]", simplified], assumption, rule reads_return)

text \<open>
  The contract between a writer and a reader of a kind of field: on the values the field can
  carry, the reader reads back what the writer wrote. It lifts to counted sequences.
\<close>

locale codec =
  fixes enc :: "'a \<Rightarrow> byte list" and m :: "'a reader" and ok :: "'a \<Rightarrow> bool"
  assumes reads_enc: "ok x \<Longrightarrow> reads m (enc x) x"
begin

lemma reads_many: "\<forall>x\<in>set xs. ok x \<Longrightarrow> reads (rdmany (length xs) m) (concat (map enc xs)) xs"
proof (induction xs)
  case (Cons x xs)
  have tl: "reads (do { ys \<leftarrow> rdmany (length xs) m; State_Monad.return (x # ys) }) (concat (map enc xs)) (x # xs)"
    using reads_map [OF Cons.IH, of "(#) x"] Cons.prems by simp
  have "reads (do { b \<leftarrow> isbad; if b then State_Monad.return [] else
      do { ys \<leftarrow> rdmany (length xs) m; State_Monad.return (x # ys) } }) (concat (map enc xs)) (x # xs)"
    using tl by (rule reads_guard)
  then have "reads (do { x \<leftarrow> m; b \<leftarrow> isbad; if b then State_Monad.return [] else
      do { ys \<leftarrow> rdmany (length xs) m; State_Monad.return (x # ys) } }) (enc x @ concat (map enc xs)) (x # xs)"
    using Cons.prems by (intro reads_bind [OF reads_enc]) auto
  then have "reads (rdmany (Suc (length xs)) m) (enc x @ concat (map enc xs)) (x # xs)"
    unfolding rdmany.simps by (rule reads_guard)
  then show ?case by simp
qed (simp add: reads_return)

end

lemma reads_rdstr: "length s < 65536 \<Longrightarrow> reads rdstr (wrstr s) s"
  unfolding rdstr_def wrstr_def
proof (rule reads_bind [OF reads_rdint])
  assume "length s < 65536"
  then have "unat (take_bit (8 * 2) (of_nat (length s)) :: u64) = length s"
    by (simp add: unat_take_bit unat_of_nat)
  then show "reads (do { (_, s) \<leftarrow> rdbytes (take_bit (8 * 2) (of_nat (length s))); State_Monad.return s }) s s"
    by (rule reads_rdbytes)
qed simp

definition qid_ok :: "qid \<Rightarrow> bool" where
  "qid_ok q \<longleftrightarrow> unat (q_type q) < 2 ^ 8 \<and> unat (q_vers q) < 2 ^ 32"

lemma take_bit_64: "take_bit 64 (v :: u64) = v"
  by (rule take_bit_small) (simp add: unat_bounds)

lemma reads_rdqid: "qid_ok q \<Longrightarrow> reads rdqid (wrqid q) q"
proof -
  assume ok: "qid_ok q"
  have "reads rdqid (wrint (q_type q) 1 @ wrint (q_vers q) 4 @ wrint (q_path q) 8 @ [])
      (Qid (take_bit (8 * 1) (q_type q)) (take_bit (8 * 4) (q_vers q)) (take_bit (8 * 8) (q_path q)))"
    unfolding rdqid_def by (intro reads_bind [OF reads_rdint] reads_return) simp_all
  moreover have "take_bit (8 * 1) (q_type q) = q_type q" "take_bit (8 * 4) (q_vers q) = q_vers q"
    using ok take_bit_small [of "q_type q" 8] take_bit_small [of "q_vers q" 32] by (simp_all add: qid_ok_def)
  ultimately show ?thesis by (cases q) (simp add: wrqid_def take_bit_64)
qed

interpretation np_str: codec wrstr rdstr "\<lambda>s. length s < 65536"
  by unfold_locales (rule reads_rdstr)

interpretation np_qid: codec wrqid rdqid qid_ok
  by unfold_locales (rule reads_rdqid)

lemma reads_rdi: "n \<le> 8 \<Longrightarrow> reads (rdi k n) (wrint v n) [(k, FInt (take_bit (8 * n) v))]"
  unfolding rdi_def by (rule reads_map [OF reads_rdint])

lemma reads_rds: "length s < 65536 \<Longrightarrow> reads (rds k) (wrstr s) [(k, FStr s)]"
  unfolding rds_def by (rule reads_map [OF np_str.reads_enc])

lemma reads_rdq: "qid_ok q \<Longrightarrow> reads rdq (wrqid q) [(''qid'', FQid q)]"
  unfolding rdq_def by (rule reads_map [OF np_qid.reads_enc])

lemma unat_count: "n < 2 ^ (8 * k) \<Longrightarrow> k \<le> 4 \<Longrightarrow> unat (take_bit (8 * k) (of_nat n) :: u64) = n"
proof -
  assume n: "n < 2 ^ (8 * k)" and k: "k \<le> 4"
  have "(2 :: nat) ^ (8 * k) \<le> 2 ^ 32" using k by (intro power_increasing) auto
  then have "n mod 18446744073709551616 = n" using n by simp
  then show ?thesis using n by (simp add: unat_take_bit unat_of_nat)
qed

lemma reads_rdnames:
  assumes "length names < 65536" and "\<forall>s\<in>set names. length s < 65536"
  shows "reads rdnames (wrint (of_nat (length names)) 2 @ concat (map wrstr names)) [(''wname'', FStrs names)]"
  unfolding rdnames_def
proof (rule reads_bind [OF reads_rdint])
  have "unat (take_bit (8 * 2) (of_nat (length names)) :: u64) = length names"
    by (rule unat_count) (use assms(1) in simp_all)
  then show "reads (do { ns \<leftarrow> rdmany (unat (take_bit (8 * 2) (of_nat (length names)) :: u64)) rdstr;
      State_Monad.return [(''wname'', FStrs ns)] }) (concat (map wrstr names)) [(''wname'', FStrs names)]"
    using reads_map [OF np_str.reads_many [OF assms(2)], of "\<lambda>ns. [(''wname'', FStrs ns)]"] by simp
qed simp

lemma reads_rddata:
  assumes "length data < 2 ^ 32"
  shows "reads (rddata False) (wrint (of_nat (length data)) 4 @ data) [(''data'', FStr data)]"
  unfolding rddata_def
proof (rule reads_bind [OF reads_rdint])
  have "unat (take_bit (8 * 4) (of_nat (length data)) :: u64) = length data"
    by (rule unat_count) (use assms in simp_all)
  then show "reads (do { (off, s) \<leftarrow> rdbytes (take_bit (8 * 4) (of_nat (length data)));
      State_Monad.return [(''data'', if False then FView off (unat (take_bit (8 * 4) (of_nat (length data)) :: u64)) else FStr s)] })
      data [(''data'', FStr data)]"
    using reads_rdbytes [of _ data "\<lambda>s. [(''data'', FStr s)]"] by simp
qed simp

lemma reads_message:
  assumes "reads (np_body b (unat (take_bit 8 typ))) bs f"
  shows "reads (np_message b) (wrint sz 4 @ wrint typ 1 @ wrint tag 2 @ bs)
    ([(''type'', FInt (take_bit 8 typ)), (''tag'', FInt (take_bit 16 tag)), (''size'', FInt (take_bit 32 sz))] @ f)"
proof -
  let ?h = "[(''type'', FInt (take_bit (8 * 1) typ)), (''tag'', FInt (take_bit (8 * 2) tag)),
    (''size'', FInt (take_bit (8 * 4) sz))]"
  have "reads (do { body \<leftarrow> np_body b (unat (take_bit (8 * 1) typ)); State_Monad.return (?h @ body) }) bs (?h @ f)"
    by (rule reads_map) (use assms in simp)
  note g = reads_guard [OF this, of "State_Monad.return []"]
  have "reads (np_message b) (wrint sz 4 @ wrint typ 1 @ wrint tag 2 @ bs) (?h @ f)"
    unfolding np_message_def by ((rule reads_bind [OF reads_rdint], simp)+, rule g)
  then show ?thesis by simp
qed

lemma rd_open_at: "rd_open s = rd_at s 0"
  by (simp add: rd_open_def rd_at_def)

lemma reads_decode: "reads (np_message b) s t \<Longrightarrow> np_decode b s = Some t"
  unfolding reads_def np_decode_def rd_open_at
  by (drule spec [of _ "[]"], drule spec [of _ "[]"]) (simp add: rd_at_def)

lemmas reads_fields = reads_rdall_Cons [OF reads_rdi] reads_rdall_Cons [OF reads_rds]
  reads_rdall_Cons [OF reads_rdq]

lemma reads_twrite:
  assumes "length data < 2 ^ 32"
  shows "reads (np_message False) (np_twrite tag fid off data)
    [(''type'', FInt 118), (''tag'', FInt (take_bit 16 tag)),
     (''size'', FInt (take_bit 32 (of_nat (23 + length data)))), (''fid'', FInt (take_bit 32 fid)),
     (''offset'', FInt off), (''data'', FStr data)]"
proof -
  have "reads (rdall [rdi ''fid'' 4, rdi ''offset'' 8, rddata False])
      (wrint fid 4 @ wrint off 8 @ (wrint (of_nat (length data)) 4 @ data) @ [])
      ([(''fid'', FInt (take_bit (8 * 4) fid))] @ [(''offset'', FInt (take_bit (8 * 8) off))] @ [(''data'', FStr data)] @ [])"
    by (rule reads_rdall_Cons [OF reads_rdi], simp)+ (rule reads_rdall_Cons [OF reads_rddata reads_rdall_Nil, OF assms])
  then have "reads (np_body False (unat (take_bit 8 (118 :: u64))))
      (wrint fid 4 @ wrint off 8 @ wrint (of_nat (length data)) 4 @ data)
      [(''fid'', FInt (take_bit 32 fid)), (''offset'', FInt off), (''data'', FStr data)]"
    by (simp add: np_body_def take_bit_64)
  from reads_message [OF this, of "of_nat (HDRLEN + 16 + length data)" tag] show ?thesis
    by (simp add: np_twrite_def)
qed

lemma reads_tread:
  "reads (np_message False) (np_tread tag fid off count)
    [(''type'', FInt 116), (''tag'', FInt (take_bit 16 tag)), (''size'', FInt 23),
     (''fid'', FInt (take_bit 32 fid)), (''offset'', FInt off), (''count'', FInt (take_bit 32 count))]"
proof -
  have "reads (rdall [rdi ''fid'' 4, rdi ''offset'' 8, rdi ''count'' 4])
      (wrint fid 4 @ wrint off 8 @ wrint count 4 @ [])
      ([(''fid'', FInt (take_bit (8 * 4) fid))] @ [(''offset'', FInt (take_bit (8 * 8) off))]
       @ [(''count'', FInt (take_bit (8 * 4) count))] @ [])"
    by ((rule reads_rdall_Cons [OF reads_rdi], simp)+, rule reads_rdall_Nil)
  then have "reads (np_body False (unat (take_bit 8 (116 :: u64)))) (wrint fid 4 @ wrint off 8 @ wrint count 4)
      [(''fid'', FInt (take_bit 32 fid)), (''offset'', FInt off), (''count'', FInt (take_bit 32 count))]"
    by (simp add: np_body_def take_bit_64)
  from reads_message [OF this, of "of_nat (HDRLEN + 16)" tag] show ?thesis by (simp add: np_tread_def)
qed

lemma reads_twalk:
  assumes "length names < 65536" and "\<forall>s\<in>set names. length s < 65536"
  shows "reads (np_message False) (np_twalk tag fid newfid names)
    [(''type'', FInt 110), (''tag'', FInt (take_bit 16 tag)),
     (''size'', FInt (take_bit 32 (of_nat (twalk_body names)))), (''fid'', FInt (take_bit 32 fid)),
     (''newfid'', FInt (take_bit 32 newfid)), (''wname'', FStrs names)]"
proof -
  have "reads (rdall [rdi ''fid'' 4, rdi ''newfid'' 4, rdnames])
      (wrint fid 4 @ wrint newfid 4 @ (wrint (of_nat (length names)) 2 @ concat (map wrstr names)) @ [])
      ([(''fid'', FInt (take_bit (8 * 4) fid))] @ [(''newfid'', FInt (take_bit (8 * 4) newfid))]
       @ [(''wname'', FStrs names)] @ [])"
    by (rule reads_rdall_Cons [OF reads_rdi], simp)+
      (rule reads_rdall_Cons [OF reads_rdnames reads_rdall_Nil, OF assms])
  then have "reads (np_body False (unat (take_bit 8 (110 :: u64))))
      (wrint fid 4 @ wrint newfid 4 @ wrint (of_nat (length names)) 2 @ concat (map wrstr names))
      [(''fid'', FInt (take_bit 32 fid)), (''newfid'', FInt (take_bit 32 newfid)), (''wname'', FStrs names)]"
    by (simp add: np_body_def)
  from reads_message [OF this, of "of_nat (twalk_body names)" tag] show ?thesis by (simp add: np_twalk_def)
qed

lemma reads_rread:
  assumes "length data < 2 ^ 32"
  shows "reads (np_message False) (np_rread tag data)
    [(''type'', FInt 117), (''tag'', FInt (take_bit 16 tag)),
     (''size'', FInt (take_bit 32 (of_nat (11 + length data)))), (''data'', FStr data)]"
proof -
  have "reads (np_body False (unat (take_bit 8 (117 :: u64)))) (wrint (of_nat (length data)) 4 @ data) [(''data'', FStr data)]"
    using reads_rddata [OF assms] by (simp add: np_body_def)
  from reads_message [OF this, of "of_nat (HDRLEN + 4 + length data)" tag] show ?thesis by (simp add: np_rread_def)
qed

definition stat_ok :: "npstat \<Rightarrow> bool" where
  "stat_ok st \<longleftrightarrow> qid_ok (st_qid st) \<and> unat (st_mode st) < 2 ^ 32 \<and> unat (st_atime st) < 2 ^ 32
     \<and> unat (st_mtime st) < 2 ^ 32
     \<and> (\<forall>f\<in>{st_name st, st_uid st, st_gid st, st_muid st}. \<forall>s. f = Some s \<longrightarrow> length s < 65536)"

definition stat_fields :: "npstat \<Rightarrow> fields" where
  "stat_fields st = [(''qid'', FQid (st_qid st)), (''mode'', FInt (st_mode st)), (''atime'', FInt (st_atime st)),
     (''mtime'', FInt (st_mtime st)), (''length'', FInt (st_length st)), (''name'', FStr (strfield (st_name st) [])),
     (''uid'', FStr (strfield (st_uid st) ''luaos'')), (''gid'', FStr (strfield (st_gid st) ''luaos'')),
     (''muid'', FStr (strfield (st_muid st) ''luaos''))]"

lemma strfield_small:
  "\<forall>s. f = Some s \<longrightarrow> length s < 65536 \<Longrightarrow> length d \<le> 5 \<Longrightarrow> length (strfield f d) < 65536"
  by (cases f) (simp_all add: strfield_def ascii_def)

lemma reads_stat:
  assumes "stat_ok st"
  shows "reads np_stat (drop 2 (np_packstat st)) (stat_fields st)"
proof -
  let ?n = "strfield (st_name st) []" and ?u = "strfield (st_uid st) ''luaos''"
    and ?g = "strfield (st_gid st) ''luaos''" and ?m = "strfield (st_muid st) ''luaos''"
  have l: "length ?n < 65536" "length ?u < 65536" "length ?g < 65536" "length ?m < 65536"
    using assms by (auto simp: stat_ok_def intro!: strfield_small)
  have q: "qid_ok (st_qid st)" using assms by (simp add: stat_ok_def)
  have "reads (rdall [rds ''name'', rds ''uid'', rds ''gid'', rds ''muid''])
      (wrstr ?n @ wrstr ?u @ wrstr ?g @ wrstr ?m @ [])
      ([(''name'', FStr ?n)] @ [(''uid'', FStr ?u)] @ [(''gid'', FStr ?g)] @ [(''muid'', FStr ?m)] @ [])"
    by (rule reads_rdall_Cons [OF reads_rds], rule l)+ (rule reads_rdall_Nil)
  then have "reads (rdall [rdq, rdi ''mode'' 4, rdi ''atime'' 4, rdi ''mtime'' 4, rdi ''length'' 8,
        rds ''name'', rds ''uid'', rds ''gid'', rds ''muid''])
      (wrqid (st_qid st) @ wrint (st_mode st) 4 @ wrint (st_atime st) 4 @ wrint (st_mtime st) 4
        @ wrint (st_length st) 8 @ (wrstr ?n @ wrstr ?u @ wrstr ?g @ wrstr ?m @ []))
      ([(''qid'', FQid (st_qid st))] @ [(''mode'', FInt (take_bit (8 * 4) (st_mode st)))]
        @ [(''atime'', FInt (take_bit (8 * 4) (st_atime st)))] @ [(''mtime'', FInt (take_bit (8 * 4) (st_mtime st)))]
        @ [(''length'', FInt (take_bit (8 * 8) (st_length st)))]
        @ ([(''name'', FStr ?n)] @ [(''uid'', FStr ?u)] @ [(''gid'', FStr ?g)] @ [(''muid'', FStr ?m)] @ []))"
    by - (rule reads_rdall_Cons [OF reads_rdq], rule q, (rule reads_rdall_Cons [OF reads_rdi], simp)+)
  note b = reads_bind [OF reads_rdint [of 2 0], OF _ reads_bind [OF reads_rdint [of 4 0], OF _ this]]
  have d: "drop 2 (np_packstat st) = wrint 0 2 @ wrint 0 4 @ wrqid (st_qid st) @ wrint (st_mode st) 4
    @ wrint (st_atime st) 4 @ wrint (st_mtime st) 4 @ wrint (st_length st) 8
    @ wrstr ?n @ wrstr ?u @ wrstr ?g @ wrstr ?m"
    by (simp add: np_packstat_def)
  have t: "take_bit 32 (st_mode st) = st_mode st" "take_bit 32 (st_atime st) = st_atime st"
    "take_bit 32 (st_mtime st) = st_mtime st"
    using assms by (simp_all add: stat_ok_def take_bit_small)
  show ?thesis unfolding d using b by (simp add: np_stat_def stat_fields_def t take_bit_64)
qed

lemma length_wrstr: "length (wrstr s) = length s + 2"
  by (simp add: wrstr_def)

lemma length_packstat: "length (np_packstat st) = packstat_body st + 2"
  by (simp add: np_packstat_def packstat_body_def length_wrstr wrqid_def fieldlen_def strfield_def ascii_def
      split: option.split)

lemma length_twalk: "length (np_twalk tag fid newfid names) = twalk_body names"
proof -
  have "length (concat (map wrstr names)) = sum_list (map (\<lambda>n. length n + 2) names)"
    by (simp add: length_concat comp_def length_wrstr)
  then show ?thesis by (simp add: np_twalk_def twalk_body_def)
qed

section \<open>More bytes change nothing\<close>

text \<open>
  A reader is stable when a run that did not go bad is not changed by bytes added at the end,
  and going bad is for good.
\<close>

definition stable :: "'a reader \<Rightarrow> bool" where
  "stable m \<longleftrightarrow> (\<forall>r a r'. run_state m r = (a, r') \<longrightarrow>
     rd_p r' = rd_p r \<and> (rd_bad r \<longrightarrow> rd_bad r')
     \<and> (\<not> rd_bad r' \<longrightarrow> (\<forall>x. run_state m (r\<lparr>rd_p := rd_p r @ x\<rparr>) = (a, r'\<lparr>rd_p := rd_p r @ x\<rparr>)))
     \<and> (rd_off r \<le> length (rd_p r) \<longrightarrow> rd_off r' \<le> length (rd_p r)))"

named_theorems stableI "stable readers"

lemma stable_return [stableI]: "stable (State_Monad.return x)"
  by (simp add: stable_def)

lemma stable_bind [stableI]: "stable m \<Longrightarrow> (\<And>x. stable (f x)) \<Longrightarrow> stable (m \<bind> f)"
proof -
  assume m: "stable m" and f: "\<And>x. stable (f x)"
  show ?thesis unfolding stable_def
  proof (intro allI impI)
    fix r b r2
    assume run: "run_state (m \<bind> f) r = (b, r2)"
    obtain a r1 where 1: "run_state m r = (a, r1)" by (cases "run_state m r")
    then have 2: "run_state (f a) r1 = (b, r2)" using run by simp
    note M = m [unfolded stable_def, rule_format, OF 1]
    note F = f [of a, unfolded stable_def, rule_format, OF 2]
    have "run_state (m \<bind> f) (r\<lparr>rd_p := rd_p r @ x\<rparr>) = (b, r2\<lparr>rd_p := rd_p r @ x\<rparr>)" if "\<not> rd_bad r2" for x
      using M F that by auto
    then show "rd_p r2 = rd_p r \<and> (rd_bad r \<longrightarrow> rd_bad r2)
      \<and> (\<not> rd_bad r2 \<longrightarrow> (\<forall>x. run_state (m \<bind> f) (r\<lparr>rd_p := rd_p r @ x\<rparr>) = (b, r2\<lparr>rd_p := rd_p r @ x\<rparr>)))
      \<and> (rd_off r \<le> length (rd_p r) \<longrightarrow> rd_off r2 \<le> length (rd_p r))"
      using M F by auto
  qed
qed

lemma stable_if [stableI]: "stable m \<Longrightarrow> stable m' \<Longrightarrow> stable (if c then m else m')"
  by simp

lemma stable_case_prod [stableI]: "(\<And>a b. stable (f a b)) \<Longrightarrow> stable (case p of (a, b) \<Rightarrow> f a b)"
  by (cases p) simp

lemma stable_isbad [stableI]: "stable isbad"
  by (auto simp: stable_def isbad_def)

lemma stable_rdint [stableI]: "stable (rdint n)"
  by (auto simp: stable_def rdint_def split: if_splits)

lemma stable_rdbytes [stableI]: "stable (rdbytes n)"
  by (auto simp: stable_def rdbytes_def split: if_splits)

lemma stable_rdmany: "stable m \<Longrightarrow> stable (rdmany n m)"
  by (induction n) (simp_all add: stableI)

lemma stable_rdstr [stableI]: "stable rdstr"
  unfolding rdstr_def by (intro stableI)

lemma stable_rdqid [stableI]: "stable rdqid"
  unfolding rdqid_def by (intro stableI)

lemma stable_fields [stableI]:
  "stable (rdi k n)" "stable (rds k)" "stable rdq" "stable rdnames" "stable rdqids" "stable rdstat" "stable (rddata b)"
  unfolding rdi_def rds_def rdq_def rdnames_def rdqids_def rdstat_def rddata_def
  by (intro stableI stable_rdmany)+

lemma stable_rdall: "\<forall>m\<in>set ms. stable m \<Longrightarrow> stable (rdall ms)"
  by (induction ms) (simp_all add: stableI)

lemma stable_message: "stable (np_message b)"
proof -
  have "stable (np_body b n)" for n
    unfolding np_body_def by (intro stable_if stable_rdall stable_fields stable_return ballI) (auto intro: stable_fields)
  then show ?thesis unfolding np_message_def by (intro stableI)
qed

lemma stable_decode:
  assumes "np_decode b s = Some t"
  shows "np_decode b (s @ x) = Some t"
proof -
  obtain r where r: "run_state (np_message b) (rd_open s) = (t, r)" "\<not> rd_bad r"
    using assms by (auto simp: np_decode_def Let_def split: prod.splits if_splits)
  have "run_state (np_message b) ((rd_open s)\<lparr>rd_p := rd_p (rd_open s) @ x\<rparr>) = (t, r\<lparr>rd_p := rd_p (rd_open s) @ x\<rparr>)"
    using stable_message [unfolded stable_def, rule_format, OF r(1)] r(2) by blast
  then show ?thesis using r(2) by (simp add: np_decode_def rd_open_def)
qed

text \<open>What was read to its end cannot be read from less.\<close>

lemma truncated_decode:
  assumes "reads (np_message b) s t" and "k < length s"
  shows "np_decode b (take k s) = None"
proof (rule ccontr)
  assume "np_decode b (take k s) \<noteq> None"
  then obtain u r where r: "run_state (np_message b) (rd_open (take k s)) = (u, r)" "\<not> rd_bad r"
    by (auto simp: np_decode_def Let_def split: prod.splits if_splits)
  note S = stable_message [unfolded stable_def, rule_format, OF r(1)]
  have "run_state (np_message b) (rd_open s) = (u, r\<lparr>rd_p := s\<rparr>)"
    using S r(2) by (auto simp: rd_open_def dest!: spec [of _ "drop k s"])
  moreover have "run_state (np_message b) (rd_open s) = (t, rd_at s (length s))"
    using assms(1) unfolding reads_def rd_open_at by (drule_tac spec [of _ "[]"], drule_tac spec [of _ "[]"]) simp
  ultimately have "rd_off r = length s" by (auto simp: rd_at_def rd.defs dest: arg_cong [where f = rd_off])
  moreover have "rd_off r \<le> k" using S by (simp add: rd_open_def)
  ultimately show False using assms(2) by simp
qed

section \<open>Views\<close>

text \<open>A payload handed back as a view is the payload that would have been cut out as a string.\<close>

definition view_bytes :: "byte list \<Rightarrow> fval \<Rightarrow> fval" where
  "view_bytes s f = (case f of FView off n \<Rightarrow> FStr (take n (drop off s)) | _ \<Rightarrow> f)"

definition same_fields :: "fields reader \<Rightarrow> fields reader \<Rightarrow> bool" where
  "same_fields m m' \<longleftrightarrow> (\<forall>r a r'. run_state m r = (a, r') \<longrightarrow>
     rd_p r' = rd_p r \<and> (rd_bad r \<longrightarrow> rd_bad r')
     \<and> (\<exists>b. run_state m' r = (b, r') \<and> (\<not> rd_bad r' \<longrightarrow> b = map (apsnd (view_bytes (rd_p r))) a)))"

lemma same_fields_refl:
  assumes "stable m" and "\<And>r a r'. run_state m r = (a, r') \<Longrightarrow> \<forall>f\<in>set a. \<forall>o' n. snd f \<noteq> FView o' n"
  shows "same_fields m m"
  unfolding same_fields_def
proof (intro allI impI)
  fix r a r'
  assume run: "run_state m r = (a, r')"
  have "view_bytes s (snd f) = snd f" if "f \<in> set a" for f s
    using assms(2) [OF run] that by (cases "snd f") (auto simp: view_bytes_def)
  then have "map (apsnd (view_bytes (rd_p r))) a = a"
    by (intro map_idI) (simp add: apsnd_def map_prod_def prod_eq_iff split: prod.split)
  then show "rd_p r' = rd_p r \<and> (rd_bad r \<longrightarrow> rd_bad r')
    \<and> (\<exists>b. run_state m r = (b, r') \<and> (\<not> rd_bad r' \<longrightarrow> b = map (apsnd (view_bytes (rd_p r))) a))"
    using run assms(1) [unfolded stable_def, rule_format, OF run] by simp
qed

lemma same_fields_plain:
  "same_fields (rdi k n) (rdi k n)" "same_fields (rds k) (rds k)" "same_fields rdq rdq"
  "same_fields rdnames rdnames" "same_fields rdqids rdqids" "same_fields rdstat rdstat"
  "same_fields (State_Monad.return []) (State_Monad.return [])"
  "same_fields (State_Monad.return [(k, FTrue)]) (State_Monad.return [(k, FTrue)])"
proof -
  note d = rdi_def rds_def rdq_def rdnames_def rdqids_def rdstat_def
  show "same_fields (rdi k n) (rdi k n)" "same_fields (rds k) (rds k)" "same_fields rdq rdq"
    "same_fields rdnames rdnames" "same_fields rdqids rdqids" "same_fields rdstat rdstat"
    by (rule same_fields_refl; (rule stable_fields | auto simp: d split: prod.splits))+
qed (auto simp: same_fields_def view_bytes_def)

lemma same_fields_rddata: "same_fields (rddata True) (rddata False)"
  unfolding same_fields_def
  by (auto simp: rddata_def rdint_def rdbytes_def view_bytes_def split: prod.splits if_splits)

lemma same_fields_rdall: "list_all2 same_fields ms ms' \<Longrightarrow> same_fields (rdall ms) (rdall ms')"
proof (induction ms ms' rule: list_all2_induct)
  case (Cons m ms m' ms')
  show ?case unfolding same_fields_def
  proof (intro allI impI)
    fix r a r2
    assume run: "run_state (rdall (m # ms)) r = (a, r2)"
    obtain f r1 where 1: "run_state m r = (f, r1)" by (cases "run_state m r")
    then obtain g where 2: "run_state (rdall ms) r1 = (g, r2)" "a = f @ g"
      using run by (auto split: prod.splits)
    note A = Cons.hyps(1) [unfolded same_fields_def, rule_format, OF 1]
    note B = Cons.IH [unfolded same_fields_def, rule_format, OF 2(1)]
    show "rd_p r2 = rd_p r \<and> (rd_bad r \<longrightarrow> rd_bad r2)
      \<and> (\<exists>b. run_state (rdall (m' # ms')) r = (b, r2) \<and> (\<not> rd_bad r2 \<longrightarrow> b = map (apsnd (view_bytes (rd_p r))) a))"
      using A B 2(2) by (auto split: prod.splits)
  qed
qed (simp add: same_fields_plain)

lemma same_fields_body: "same_fields (np_body True n) (np_body False n)"
  unfolding np_body_def
  by (simp add: same_fields_plain same_fields_rddata same_fields_rdall del: rdall.simps)

lemma decode_view:
  "map_option (map (apsnd (view_bytes s))) (np_decode True s) = np_decode False s"
proof -
  obtain f r where f: "run_state (np_message True) (rd_open s) = (f, r)" by (cases "run_state (np_message True) (rd_open s)")
  have "\<exists>g. run_state (np_message False) (rd_open s) = (g, r) \<and> (\<not> rd_bad r \<longrightarrow> g = map (apsnd (view_bytes s)) f)"
  proof -
    let ?hd = "do { sz \<leftarrow> rdint 4; typ \<leftarrow> rdint 1; tag \<leftarrow> rdint 2; b \<leftarrow> isbad; State_Monad.return (sz, typ, tag, b) }"
    obtain sz ty tag b r1 where h: "run_state ?hd (rd_open s) = ((sz, ty, tag, b), r1)"
      by (cases "run_state ?hd (rd_open s)") auto
    have p: "rd_p r1 = s" and b: "b = rd_bad r1"
      using h by (auto simp: rdint_def isbad_def rd_open_def split: prod.splits if_splits)
    have np: "run_state (np_message x) (rd_open s) = run_state (if b then State_Monad.return [] else do {
       body \<leftarrow> np_body x (unat ty);
       State_Monad.return ([(''type'', FInt ty), (''tag'', FInt tag), (''size'', FInt sz)] @ body) }) r1" for x
      using h by (auto simp: np_message_def split: prod.splits)
    show ?thesis
    proof (cases b)
      case True
      then show ?thesis using f b by (simp add: np)
    next
      case False
      then obtain g where g: "run_state (np_body True (unat ty)) r1 = (g, r)"
        "f = [(''type'', FInt ty), (''tag'', FInt tag), (''size'', FInt sz)] @ g"
        using f by (auto simp: np split: prod.splits)
      show ?thesis
        using same_fields_body [of "unat ty", unfolded same_fields_def, rule_format, OF g(1)] g(2) False p
        by (auto simp: np view_bytes_def split: prod.splits)
    qed
  qed
  then show ?thesis using f by (auto simp: np_decode_def)
qed

section \<open>Properties\<close>

text \<open>
  C22: what the encoders write, \<open>decode\<close> reads. For a payload below 4 GiB and names below 64 KiB, the
  messages \<open>twrite\<close>, \<open>tread\<close>, \<open>twalk\<close> and \<open>rread\<close> build decode to the fields they were built from, each
  at its width on the wire, with the payload and the names whole.
\<close>

theorem np_encode_decode:
  assumes "length data < 2 ^ 32" and "length names < 65536" and "\<forall>s\<in>set names. length s < 65536"
  shows "np_decode False (np_twrite tag fid off data)
      = Some [(''type'', FInt 118), (''tag'', FInt (take_bit 16 tag)),
          (''size'', FInt (take_bit 32 (of_nat (length (np_twrite tag fid off data))))),
          (''fid'', FInt (take_bit 32 fid)), (''offset'', FInt off), (''data'', FStr data)]
    \<and> np_decode False (np_tread tag fid off count)
      = Some [(''type'', FInt 116), (''tag'', FInt (take_bit 16 tag)), (''size'', FInt 23),
          (''fid'', FInt (take_bit 32 fid)), (''offset'', FInt off), (''count'', FInt (take_bit 32 count))]
    \<and> np_decode False (np_twalk tag fid newfid names)
      = Some [(''type'', FInt 110), (''tag'', FInt (take_bit 16 tag)),
          (''size'', FInt (take_bit 32 (of_nat (length (np_twalk tag fid newfid names))))),
          (''fid'', FInt (take_bit 32 fid)), (''newfid'', FInt (take_bit 32 newfid)), (''wname'', FStrs names)]
    \<and> np_decode False (np_rread tag data)
      = Some [(''type'', FInt 117), (''tag'', FInt (take_bit 16 tag)),
          (''size'', FInt (take_bit 32 (of_nat (length (np_rread tag data))))), (''data'', FStr data)]"
proof -
  have "length (np_twrite tag fid off data) = 23 + length data" "length (np_rread tag data) = 11 + length data"
    by (simp_all add: np_twrite_def np_rread_def)
  then show ?thesis
    using reads_decode [OF reads_twrite [OF assms(1)]] reads_decode [OF reads_tread]
      reads_decode [OF reads_twalk [OF assms(2,3)]] reads_decode [OF reads_rread [OF assms(1)]]
    by (simp add: length_twalk)
qed

theorem np_encode_decode_witness:
  "np_decode False (np_twalk 7 1 2 [[0x75, 0x73, 0x72], []])
     = Some [(''type'', FInt 110), (''tag'', FInt 7), (''size'', FInt 24), (''fid'', FInt 1), (''newfid'', FInt 2),
         (''wname'', FStrs [[0x75, 0x73, 0x72], []])]"
proof -
  have "length (np_twalk 7 1 2 [[0x75, 0x73, 0x72], []]) = 24" by (simp add: length_twalk twalk_body_def)
  moreover have "take_bit 16 7 = (7 :: u64)" "take_bit 32 24 = (24 :: u64)" "take_bit 32 1 = (1 :: u64)"
    "take_bit 32 2 = (2 :: u64)" by (simp_all add: take_bit_small)
  ultimately show ?thesis
    using np_encode_decode [of "[]" "[[0x75, 0x73, 0x72], []]" 7 1 0 0 2] by simp
qed

text \<open>
  C23: a stat round trip. For a stat whose numbers fit their fields and whose strings are below
  64 KiB, \<open>unpackstat\<close> of what \<open>packstat\<close> built, past the size in front, gives the stat back with the
  defaults filled in; and \<open>packstat\<close> and \<open>twalk\<close> write exactly the number of bytes they sized their
  buffer for.
\<close>

theorem np_stat_roundtrip:
  assumes "stat_ok st"
  shows "np_unpackstat (drop 2 (np_packstat st)) = Some (stat_fields st)
    \<and> length (np_packstat st) = packstat_body st + 2
    \<and> length (np_twalk tag fid newfid names) = twalk_body names"
proof -
  have "np_unpackstat (drop 2 (np_packstat st)) = Some (stat_fields st)"
    using reads_stat [OF assms] unfolding reads_def np_unpackstat_def rd_open_at
    by (drule_tac spec [of _ "[]"], drule_tac spec [of _ "[]"]) (simp add: rd_at_def)
  then show ?thesis by (simp add: length_packstat length_twalk)
qed

definition demo_stat :: npstat where
  "demo_stat = \<lparr>st_qid = Qid 128 3 9, st_mode = 493, st_atime = 1, st_mtime = 2, st_length = 0,
     st_name = Some [0x62], st_uid = None, st_gid = None, st_muid = Some []\<rparr>"

theorem np_stat_roundtrip_witness:
  "stat_ok demo_stat \<and> np_unpackstat (drop 2 (np_packstat demo_stat)) = Some (stat_fields demo_stat)"
proof -
  have "stat_ok demo_stat" by (simp add: stat_ok_def demo_stat_def qid_ok_def)
  then show ?thesis using np_stat_roundtrip [of demo_stat] by blast
qed

text \<open>
  C35: a message cut short is \<open>nil\<close> and bytes after one are ignored. No proper prefix of an encoded
  write, read or walk request, or of a read reply, decodes; and whatever decodes at all decodes to
  the same fields when more bytes follow, whether it came as a string or as a buffer.
\<close>

theorem np_decode_truncated:
  assumes "length data < 2 ^ 32" and "length names < 65536" and "\<forall>s\<in>set names. length s < 65536"
  shows "(\<forall>s\<in>{np_twrite tag fid off data, np_tread tag fid off count, np_twalk tag fid newfid names,
        np_rread tag data}. \<forall>k<length s. np_decode False (take k s) = None)
    \<and> (\<forall>b s t x. np_decode b s = Some t \<longrightarrow> np_decode b (s @ x) = Some t)"
  by (simp add: truncated_decode [OF reads_twrite [OF assms(1)]] truncated_decode [OF reads_tread]
    truncated_decode [OF reads_twalk [OF assms(2,3)]] truncated_decode [OF reads_rread [OF assms(1)]]
    stable_decode)

theorem np_decode_truncated_witness:
  "length (np_tread 1 2 3 4) = 23 \<and> np_decode False (take 22 (np_tread 1 2 3 4)) = None"
proof -
  have "length (np_tread 1 2 3 4) = 23" by (simp add: np_tread_def)
  then show ?thesis using np_decode_truncated [of "[]" "[]" 1 2 3 4 0] by simp
qed

text \<open>
  A buffer's payload is a view of the same bytes. Decoding a message that came as a buffer
  gives the fields decoding it as a string gives, once each view is read through.
\<close>

lemma np_decode_views:
  "map_option (map (apsnd (view_bytes s))) (np_decode True s) = np_decode False s"
  by (rule decode_view)

text \<open>
  A name of 64 KiB does not fit its count: \<open>twalk\<close> writes a count of zero in front of it, and the
  name decodes as empty.
\<close>

theorem twalk_long_name:
  assumes "length name = 65536"
  shows "take 2 (wrstr name) = [0, 0] \<and> length (wrstr name) = 65538"
proof -
  have "le_bytes (Suc (Suc 0)) 65536 = [0, 0]" by simp
  then have "wrint 65536 2 = [0, 0]" by (simp only: wrint_le numeral_2_eq_2) simp
  then show ?thesis using assms by (simp add: wrstr_def)
qed

end
