(* ===== verification/Limbs.thy ===== *)
theory Limbs
  imports Bytes
begin

text \<open>
  Arithmetic on 32-bit limbs, shared by the parts of \<open>src/src/native.c\<close>: when an operation on words does not
  wrap and what its carry is when it does, the byte order helpers, and the number a list of limbs
  stands for.
\<close>

unbundle bit_operations_syntax

section \<open>Words as numbers\<close>

lemma unat_u32: "unat (x :: u32) < 2 ^ 32" and unat_u64: "unat (y :: u64) < 2 ^ 64"
  using unat_bounds(3) [of x] unat_bounds(4) [of y] by simp_all

lemma unat_plus: "unat x + unat y < 2 ^ LENGTH('a) \<Longrightarrow> unat (x + y) = unat x + unat y" for x y :: "'a::len word"
  by (simp add: unat_word_ariths)

lemma unat_times: "unat x * unat y < 2 ^ LENGTH('a) \<Longrightarrow> unat (x * y) = unat x * unat y" for x y :: "'a::len word"
  by (simp add: unat_word_ariths)

lemma unat_ucast_up [simp]: "unat (ucast (x :: u32) :: u64) = unat x"
  using unat_u32 [of x] by (simp add: unat_ucast)

lemma of_nat_low: "of_nat (unat x + 2 ^ 32 * y) = (x :: u32)"
proof -
  have "unat (of_nat n :: u32) = n mod 2 ^ 32" for n by (simp add: unat_of_nat)
  then have "unat (of_nat (unat x + 2 ^ 32 * y) :: u32) = (unat x + 2 ^ 32 * y) mod 2 ^ 32" by blast
  also have "\<dots> = unat x" using unat_u32 [of x] by simp
  finally show ?thesis unfolding word_unat_eq_iff .
qed

lemma unat_ones: "unat (- 1 :: u32) = 2 ^ 32 - 1"
  by (simp add: unsigned_minus_1_eq_mask mask_eq_exp_minus_1)

text \<open>The test \<open>s < v\<close> after \<open>s = acc + v\<close> is the carry, the test \<open>d > a\<close> after \<open>d = a - b\<close> the borrow.\<close>

lemma carry_iff: "x + y < y \<longleftrightarrow> 2 ^ 32 \<le> unat x + unat y" for x y :: u32
proof -
  have "unat (x + y) = (unat x + unat y) mod 2 ^ 32" by (simp add: unat_word_ariths)
  then show ?thesis using unat_u32 [of x] unat_u32 [of y]
    by (cases "unat x + unat y < 2 ^ 32") (simp_all add: word_less_nat_alt le_mod_geq)
qed

lemma add_carry: "unat (x + y) + 2 ^ 32 * (if x + y < y then 1 else 0) = unat x + unat y" for x y :: u32
proof -
  have "unat (x + y) = (unat x + unat y) mod 2 ^ 32" by (simp add: unat_word_ariths)
  then show ?thesis using unat_u32 [of x] unat_u32 [of y]
    by (cases "unat x + unat y < 2 ^ 32") (simp_all add: carry_iff le_mod_geq)
qed

lemma add_carry': "unat (x + y) + 2 ^ 32 * (if x + y < x then 1 else 0) = unat x + unat y" for x y :: u32
  using add_carry [of y x] by (simp add: add.commute)

lemma sub_borrow: "unat (x - y) + unat y = unat x + 2 ^ 32 * (if x - y > x then 1 else 0)" for x y :: u32
proof (cases "y \<le> x")
  case True
  then have "unat (x - y) = unat x - unat y" by (simp add: unat_sub)
  then show ?thesis using True by (simp add: word_le_nat_alt word_less_nat_alt)
next
  case False
  have "unat (x - y) = (2 ^ 32 + unat x - unat y) mod 2 ^ 32" by (simp add: unat_sub_if' word_le_nat_alt False)
    (use False unat_u32 [of y] in \<open>simp add: word_le_nat_alt\<close>)
  also have "\<dots> = 2 ^ 32 + unat x - unat y" using False by (simp add: word_le_nat_alt)
  finally show ?thesis using False unat_u32 [of y] by (simp add: word_le_nat_alt word_less_nat_alt)
qed

section \<open>Bytes of a limb\<close>

lemma or_shift: "x < 2 ^ n \<Longrightarrow> push_bit n y OR x = y * 2 ^ n + (x :: nat)"
proof -
  assume "x < 2 ^ n"
  then have "take_bit n x = x" by (simp add: take_bit_nat_eq_self)
  then have "\<not> bit x i" if "n \<le> i" for i using that by (metis bit_take_bit_iff not_less)
  then have "push_bit n y + x = push_bit n y OR x" by (intro disjunctive_add) (auto simp: bit_push_bit_iff)
  then show ?thesis by (simp add: push_bit_eq_mult)
qed

lemma unat_be: "unat (push_bit 24 (ucast a) OR push_bit 16 (ucast b) OR push_bit 8 (ucast c) OR ucast d :: u32)
    = unat d + 256 * (unat c + 256 * (unat b + 256 * unat a))" for a b c d :: byte
proof -
  note bd = unat_bounds(1) [of a] unat_bounds(1) [of b] unat_bounds(1) [of c] unat_bounds(1) [of d]
  have p: "unat (push_bit n (ucast x :: u32)) = push_bit n (unat x)" if "n \<le> 24" for x :: byte and n
  proof -
    have "(2::nat) ^ n \<le> 2 ^ 24" using that by (intro power_increasing) simp_all
    then have "unat x * 2 ^ n < 2 ^ 8 * 2 ^ 24" using unat_bounds(1) [of x] by (intro mult_less_le_imp_less) simp_all
    then have "unat x * 2 ^ n < 2 ^ 32" by simp
    moreover have "unat (ucast x :: u32) = unat x" using unat_bounds(1) [of x] by (simp add: unat_ucast)
    ultimately show ?thesis unfolding unsigned_push_bit_eq by (simp add: push_bit_eq_mult take_bit_nat_eq_self)
  qed
  have e: "push_bit 8 (unat c) OR unat d = unat c * 2 ^ 8 + unat d" by (rule or_shift) (use bd in simp)
  have f: "push_bit 16 (unat b) OR (push_bit 8 (unat c) OR unat d) = unat b * 2 ^ 16 + (unat c * 2 ^ 8 + unat d)"
    unfolding e by (rule or_shift) (use bd in simp)
  have g: "push_bit 24 (unat a) OR (push_bit 16 (unat b) OR (push_bit 8 (unat c) OR unat d)) = unat a * 2 ^ 24 + (unat b * 2 ^ 16 + (unat c * 2 ^ 8 + unat d))"
    unfolding f by (rule or_shift) (use bd in simp)
  have "unat (ucast d :: u32) = unat d" using bd(4) by (simp add: unat_ucast)
  then have "unat (push_bit 24 (ucast a) OR push_bit 16 (ucast b) OR push_bit 8 (ucast c) OR ucast d :: u32)
    = push_bit 24 (unat a) OR (push_bit 16 (unat b) OR (push_bit 8 (unat c) OR unat d))"
    by (simp add: unsigned_or_eq p or.assoc)
  then show ?thesis unfolding g by simp
qed

section \<open>Numbers in limbs\<close>

fun bnval :: "u32 list \<Rightarrow> nat" where
  "bnval [] = 0"
| "bnval (x # xs) = unat x + 2 ^ 32 * bnval xs"

lemma bnval_append: "bnval (xs @ ys) = bnval xs + 2 ^ (32 * length xs) * bnval ys"
  by (induction xs) (simp_all add: algebra_simps power_add)

lemma bnval_bound: "bnval xs < 2 ^ (32 * length xs)"
proof (induction xs)
  case (Cons x xs)
  have "unat x + 2 ^ 32 * bnval xs < 2 ^ 32 * (bnval xs + 1)" using unat_u32 [of x] by simp
  also have "\<dots> \<le> 2 ^ 32 * 2 ^ (32 * length xs)" using Cons by (intro mult_le_mono2) simp
  finally show ?case by (simp add: power_add)
qed simp

lemma bnval_replicate0 [simp]: "bnval (replicate n 0) = 0"
  by (induction n) auto

text \<open>A number has one representation of a given length.\<close>

lemma bnval_inject: "length xs = length ys \<Longrightarrow> bnval xs = bnval ys \<longleftrightarrow> xs = ys"
proof (induction xs ys rule: list_induct2)
  case (Cons x xs y ys)
  have "bnval (x # xs) mod 2 ^ 32 = unat x" "bnval (x # xs) div 2 ^ 32 = bnval xs" for x xs
    using unat_u32 [of x] by simp_all
  then show ?case using Cons by (metis list.inject word_unat_eq_iff)
qed simp

end
