(* ===== verification/Bignum.thy ===== *)
theory Bignum
  imports Limbs
begin

text \<open>
  The modular arithmetic of \<open>src/src/native.c\<close> (\<open>bn_*\<close>): numbers of up to 128 limbs of 32 bits, added,
  subtracted and multiplied by Montgomery's method with every carry made by hand. An array of limbs
  is a list, least significant limb first; a loop over an index is a recursion over the limbs.
  The lemmas show what each routine computes on the numbers the lists stand for.
\<close>

unbundle bit_operations_syntax

section \<open>The code\<close>

abbreviation (input) BIGNUM_MAX_LIMBS :: nat where "BIGNUM_MAX_LIMBS \<equiv> 128"

definition bn_unpack :: "byte list \<Rightarrow> nat \<Rightarrow> u32 list" where
  "bn_unpack s k = map (\<lambda>i. let p = (k - 1 - i) * 4 in
     push_bit 24 (ucast (s ! p)) OR push_bit 16 (ucast (s ! (p + 1))) OR push_bit 8 (ucast (s ! (p + 2))) OR ucast (s ! (p + 3))) [0..<k]"

definition limb_be :: "u32 \<Rightarrow> byte list" where
  "limb_be v = [ucast (drop_bit 24 v), ucast (drop_bit 16 v), ucast (drop_bit 8 v), ucast v]"

text \<open>Limb \<open>i\<close> is written at \<open>(k - 1 - i) * 4\<close>, so the bytes come out with the last limb first.\<close>

definition bn_pack :: "u32 list \<Rightarrow> nat \<Rightarrow> byte list" where
  "bn_pack a k = concat (map (\<lambda>i. limb_be (a ! i)) (rev [0..<k]))"

definition bn_mul32 :: "u32 \<Rightarrow> u32 \<Rightarrow> u32 \<times> u32" where
  "bn_mul32 a b =
    (let a0 = a AND 0xffff; a1 = drop_bit 16 a; b0 = b AND 0xffff; b1 = drop_bit 16 b;
         p00 = a0 * b0; p01 = a0 * b1; p10 = a1 * b0; p11 = a1 * b1;
         mid = p01 + p10;
         h = p11 + drop_bit 16 mid;
         h = (if mid < p01 then h + push_bit 16 1 else h);
         l = p00 + push_bit 16 mid;
         h = (if l < p00 then h + 1 else h)
     in (h, l))"

definition bn_addc :: "u32 \<Rightarrow> u32 \<Rightarrow> u32 \<Rightarrow> u32 \<times> u32" where
  "bn_addc acc hi v = (let s = acc + v in (s, if s < v then hi + 1 else hi))"

fun sub_loop :: "u32 \<Rightarrow> u32 list \<Rightarrow> u32 list \<Rightarrow> u32 list \<times> u32" where
  "sub_loop borrow (a # as) (b # bs) =
    (let d = a - b; nxt = (if d > a then 1 else 0);
         nxt = (if borrow \<noteq> 0 \<and> d = 0 then 1 else nxt);
         d = (if borrow \<noteq> 0 then d - 1 else d);
         (out, r) = sub_loop nxt as bs in (d # out, r))"
| "sub_loop borrow _ _ = ([], borrow)"

definition bn_sub :: "u32 list \<Rightarrow> u32 list \<Rightarrow> nat \<Rightarrow> u32 list \<times> u32" where
  "bn_sub a b k = sub_loop 0 (take k a) (take k b)"

fun add_loop :: "u32 \<Rightarrow> u32 list \<Rightarrow> u32 list \<Rightarrow> u32 list \<times> u32" where
  "add_loop carry (a # as) (b # bs) =
    (let s = a + b; nxt = (if s < a then 1 else 0);
         s = s + carry;
         nxt = (if carry \<noteq> 0 \<and> s = 0 then 1 else nxt);
         (out, r) = add_loop nxt as bs in (s # out, r))"
| "add_loop carry _ _ = ([], carry)"

definition bn_add :: "u32 list \<Rightarrow> u32 list \<Rightarrow> nat \<Rightarrow> u32 list \<times> u32" where
  "bn_add a b k = add_loop 0 (take k a) (take k b)"

definition bn_add_mod :: "byte list \<Rightarrow> byte list \<Rightarrow> byte list \<Rightarrow> nat \<Rightarrow> byte list option" where
  "bn_add_mod a b m len =
    (let k = len div 4 in
     if len = 0 \<or> len mod 4 \<noteq> 0 \<or> k > BIGNUM_MAX_LIMBS then None
     else let A = bn_unpack a k; B = bn_unpack b k; M = bn_unpack m k;
              (t, carry) = bn_add A B k;
              (r, borrow) = bn_sub t M k
          in Some (if carry \<noteq> 0 \<or> borrow = 0 then bn_pack r k else bn_pack t k))"

definition bn_sub_mod :: "byte list \<Rightarrow> byte list \<Rightarrow> byte list \<Rightarrow> nat \<Rightarrow> byte list option" where
  "bn_sub_mod a b m len =
    (let k = len div 4 in
     if len = 0 \<or> len mod 4 \<noteq> 0 \<or> k > BIGNUM_MAX_LIMBS then None
     else let A = bn_unpack a k; B = bn_unpack b k; M = bn_unpack m k;
              (t, borrow) = bn_sub A B k
          in Some (if borrow \<noteq> 0 then bn_pack (fst (bn_add t M k)) k else bn_pack t k))"

text \<open>
  The two column loops of the product: each column adds the product of a pair of limbs and the carry
  of the column before to a limb of \<open>t\<close>.
\<close>

fun mac_loop :: "(u32 \<times> u32) list \<Rightarrow> u32 list \<Rightarrow> u32 \<Rightarrow> u32 list \<times> u32" where
  "mac_loop ((x, y) # ps) (t # ts) c =
    (let (hi, lo) = bn_mul32 x y;
         (lo, hi) = bn_addc lo hi t;
         (lo, hi) = bn_addc lo hi c;
         (out, r) = mac_loop ps ts hi in (lo # out, r))"
| "mac_loop _ _ c = ([], c)"

text \<open>One turn of the outer loop: \<open>t\<close> has \<open>k + 2\<close> limbs, \<open>bi\<close> is the limb of the second factor.\<close>

definition mont_row :: "u32 list \<Rightarrow> u32 list \<Rightarrow> u32 \<Rightarrow> nat \<Rightarrow> u32 \<Rightarrow> u32 list \<Rightarrow> u32 list" where
  "mont_row A M n0 k bi t =
    (let (ts, c) = mac_loop (map (\<lambda>x. (x, bi)) (take k A)) (take k t) 0;
         (lo, hi) = bn_addc (t ! k) 0 c;
         tk = lo; tk1 = t ! (k + 1) + hi;
         u = ts ! 0 * n0;
         (hi, lo) = bn_mul32 u (M ! 0);
         (lo, hi) = bn_addc lo hi (ts ! 0);
         (ts, c) = mac_loop (map (Pair u) (drop 1 (take k M))) (drop 1 ts) hi;
         (lo, hi) = bn_addc tk 0 c
     in ts @ [lo, tk1 + hi, 0])"

definition bn_mont_mul_limbs :: "u32 list \<Rightarrow> u32 list \<Rightarrow> u32 list \<Rightarrow> u32 \<Rightarrow> nat \<Rightarrow> u32 list" where
  "bn_mont_mul_limbs A B M n0 k =
    (let t = fold (\<lambda>i. mont_row A M n0 k (B ! i)) [0..<k] (replicate (k + 2) 0);
         (out, borrow) = bn_sub t M k
     in if borrow \<noteq> 0 \<and> t ! k = 0 then take k t else out)"

definition bn_mont_mul :: "byte list \<Rightarrow> byte list \<Rightarrow> byte list \<Rightarrow> u32 \<Rightarrow> nat \<Rightarrow> byte list option" where
  "bn_mont_mul a b m n0 len =
    (let k = len div 4 in
     if len = 0 \<or> len mod 4 \<noteq> 0 \<or> k > BIGNUM_MAX_LIMBS then None
     else Some (bn_pack (bn_mont_mul_limbs (bn_unpack a k) (bn_unpack b k) (bn_unpack m k) n0 k) k))"

subsection \<open>One modulus\<close>

abbreviation (input) EC_K :: nat where "EC_K \<equiv> 8"

record bn_mod =
  m_m :: "u32 list"
  m_n0 :: u32
  m_r2 :: "u32 list"
  m_one :: "u32 list"

definition bn_inv_limb :: "u32 \<Rightarrow> u32" where
  "bn_inv_limb a = ((\<lambda>x. x * (2 - a * x)) ^^ 6) 1"

definition bn_mod_add :: "u32 list \<Rightarrow> u32 list \<Rightarrow> u32 list \<Rightarrow> nat \<Rightarrow> u32 list" where
  "bn_mod_add a b m k =
    (let (t, carry) = bn_add a b k; (r, borrow) = bn_sub t m k
     in if carry \<noteq> 0 \<or> borrow = 0 then r else t)"

definition bn_mod_sub :: "u32 list \<Rightarrow> u32 list \<Rightarrow> u32 list \<Rightarrow> nat \<Rightarrow> u32 list" where
  "bn_mod_sub a b m k =
    (let (t, borrow) = bn_sub a b k in if borrow \<noteq> 0 then fst (bn_add t m k) else t)"

definition limb_one :: "u32 list" where
  "limb_one = (replicate EC_K 0)[0 := 1]"

definition bn_mod_init :: "byte list \<Rightarrow> bn_mod" where
  "bn_mod_init bytes =
    (let m = bn_unpack bytes EC_K;
         n0 = 0 - bn_inv_limb (m ! 0);
         r2 = ((\<lambda>r2. bn_mod_add r2 r2 m EC_K) ^^ (2 * 32 * EC_K)) limb_one
     in \<lparr>m_m = m, m_n0 = n0, m_r2 = r2, m_one = bn_mont_mul_limbs limb_one r2 m n0 EC_K\<rparr>)"

definition bn_mod_mul :: "bn_mod \<Rightarrow> u32 list \<Rightarrow> u32 list \<Rightarrow> u32 list" where
  "bn_mod_mul md a b = bn_mont_mul_limbs a b (m_m md) (m_n0 md) EC_K"

definition bn_mod_enter :: "bn_mod \<Rightarrow> u32 list \<Rightarrow> u32 list" where
  "bn_mod_enter md a = bn_mod_mul md a (m_r2 md)"

definition bn_mod_leave :: "bn_mod \<Rightarrow> u32 list \<Rightarrow> u32 list" where
  "bn_mod_leave md a = bn_mod_mul md a limb_one"

text \<open>One bit of the exponent: the accumulator and whether a set bit has been seen.\<close>

definition exp_bit :: "bn_mod \<Rightarrow> u32 list \<Rightarrow> bool \<Rightarrow> u32 list \<times> bool \<Rightarrow> u32 list \<times> bool" where
  "exp_bit md a b x =
    (case x of (acc, started) \<Rightarrow>
      let acc = (if started then bn_mod_mul md acc acc else acc) in
      if \<not> b then (acc, started)
      else if started then (bn_mod_mul md acc a, True)
      else (a, True))"

definition byte_bits :: "byte \<Rightarrow> bool list" where
  "byte_bits e = map (\<lambda>i. drop_bit i e AND 1 \<noteq> 0) (rev [0..<8])"

definition bn_mod_exp :: "bn_mod \<Rightarrow> u32 list \<Rightarrow> byte list \<Rightarrow> nat \<Rightarrow> u32 list" where
  "bn_mod_exp md a e elen = fst (fold (exp_bit md a) (concat (map byte_bits (take elen e))) (m_one md, False))"

section \<open>Limbs\<close>

lemma mul32_ok: "bn_mul32 a b = (h, l) \<Longrightarrow> unat h * 2 ^ 32 + unat l = unat a * unat b"
proof -
  assume e: "bn_mul32 a b = (h, l)"
  define a0 where "a0 = a AND 0xffff" define a1 where "a1 = drop_bit 16 a"
  define b0 where "b0 = b AND 0xffff" define b1 where "b1 = drop_bit 16 b"
  define mid where "mid = a0 * b1 + a1 * b0"
  define cm :: nat where "cm = (if mid < a0 * b1 then 1 else 0)"
  define cl :: nat where "cl = (if l < a0 * b0 then 1 else 0)"
  have u: "unat a0 = unat a mod 2 ^ 16" "unat a1 = unat a div 2 ^ 16" "unat b0 = unat b mod 2 ^ 16" "unat b1 = unat b div 2 ^ 16"
    by (simp_all add: a0_def a1_def b0_def b1_def and_ff(2) unat_take_bit unat_drop_bit)
  have s: "unat a0 < 2 ^ 16" "unat a1 < 2 ^ 16" "unat b0 < 2 ^ 16" "unat b1 < 2 ^ 16"
    using u unat_u32 [of a] unat_u32 [of b] by (simp_all add: less_mult_imp_div_less)
  have m: "unat (x * y) = unat x * unat y" if "unat x < 2 ^ 16" "unat y < 2 ^ 16" for x y :: u32
  proof -
    have "unat x * unat y < 2 ^ 16 * 2 ^ 16" using that by (intro mult_strict_mono) auto
    then show ?thesis by (intro unat_times) simp
  qed
  have l: "l = a0 * b0 + push_bit 16 mid"
    and h: "h = a1 * b1 + drop_bit 16 mid + of_nat (cm * 2 ^ 16) + of_nat cl"
    using e by (auto simp: bn_mul32_def Let_def a0_def a1_def b0_def b1_def mid_def cm_def cl_def)
  have md: "unat mid + 2 ^ 32 * cm = unat a0 * unat b1 + unat a1 * unat b0"
    using add_carry' [of "a0 * b1" "a1 * b0"] m s by (simp add: mid_def cm_def)
  have "unat (push_bit 16 mid) = unat mid mod 2 ^ 16 * 2 ^ 16"
    by (simp add: unsigned_push_bit_eq take_bit_push_bit) (simp add: push_bit_eq_mult take_bit_eq_mod)
  then have lo: "unat l + 2 ^ 32 * cl = unat a0 * unat b0 + unat mid mod 2 ^ 16 * 2 ^ 16"
    using add_carry' [of "a0 * b0" "push_bit 16 mid"] m s by (simp add: l cl_def)
  define H where "H = unat a1 * unat b1 + unat mid div 2 ^ 16 + cm * 2 ^ 16 + cl"
  have "drop_bit 16 mid = of_nat (unat mid div 2 ^ 16)" unfolding unat_drop_bit [symmetric] by simp
  then have hH: "h = of_nat H" unfolding h H_def using m s by (simp flip: m)
  define q r where "q = unat mid div 2 ^ 16" and "r = unat mid mod 2 ^ 16"
  have dm: "unat mid = q * 2 ^ 16 + r" by (simp add: q_def r_def)
  have "unat a * unat b = (unat a1 * 2 ^ 16 + unat a0) * (unat b1 * 2 ^ 16 + unat b0)" using u by simp
  also have "\<dots> = unat a1 * unat b1 * 2 ^ 32 + (unat a0 * unat b1 + unat a1 * unat b0) * 2 ^ 16 + unat a0 * unat b0"
    by (simp add: algebra_simps)
  also have "\<dots> = H * 2 ^ 32 + unat l"
    using md lo dm unfolding H_def q_def [symmetric] r_def [symmetric] by simp
  finally have p: "H * 2 ^ 32 + unat l = unat a * unat b" by simp
  have "unat a * unat b < 2 ^ 32 * 2 ^ 32" using unat_u32 by (intro mult_strict_mono) auto
  then have "H < 2 ^ 32" using p by simp
  then have "unat h = H" by (simp add: hH unat_of_nat)
  then show ?thesis using p by simp
qed

lemma addc_ok:
  assumes "bn_addc acc hi v = (s, hi')" "unat hi * 2 ^ 32 + unat acc + unat v < 2 ^ 64"
  shows "unat hi' * 2 ^ 32 + unat s = unat hi * 2 ^ 32 + unat acc + unat v"
proof -
  have s: "s = acc + v" and h: "hi' = (if acc + v < v then hi + 1 else hi)" using assms(1) by (auto simp: bn_addc_def Let_def)
  note c = add_carry [of acc v]
  show ?thesis
  proof (cases "acc + v < v")
    case True
    then have "(unat hi + 1) * 2 ^ 32 < 2 ^ 64" using c assms(2) by simp
    then have "unat (hi + 1) = unat hi + 1" by (intro trans [OF unat_plus]) simp_all
    then show ?thesis using c True h s by simp
  qed (use c h s in simp)
qed

section \<open>Sums and differences\<close>

lemma sub_loop_ok:
  assumes "length as = length bs" "borrow \<le> 1" "sub_loop borrow as bs = (out, r)"
  shows "length out = length as \<and> r \<le> 1 \<and> bnval out + bnval bs + unat borrow = bnval as + 2 ^ (32 * length as) * unat r"
  using assms
proof (induction as bs arbitrary: borrow out rule: list_induct2)
  case (Cons a as b bs)
  let ?d = "a - b"
  define n where "n = (if borrow \<noteq> 0 \<and> ?d = 0 then 1 else if ?d > a then 1 else (0::u32))"
  define d where "d = (if borrow \<noteq> 0 then ?d - 1 else ?d)"
  obtain o' where o: "sub_loop n as bs = (o', r)" "out = d # o'"
    using Cons.prems(2) by (auto simp: Let_def n_def d_def split: prod.splits if_splits)
  have b: "borrow = 0 \<or> borrow = 1" using Cons.prems(1) by (auto simp: word_le_nat_alt word_unat_eq_iff)
  have col: "unat d + unat b + unat borrow = unat a + 2 ^ 32 * unat n"
  proof (cases "borrow = 1 \<and> ?d = 0")
    case True
    then have "a = b" by simp
    then show ?thesis using True by (simp add: d_def n_def unat_ones)
  next
    case False
    then have "unat d + unat borrow = unat ?d" using b by (auto simp: d_def unat_minus_one unat_gt_0 Suc_leI)
    moreover have "n = (if ?d > a then 1 else 0)" using False b by (auto simp: n_def)
    ultimately show ?thesis using sub_borrow [of a b] by (auto split: if_splits)
  qed
  have "n \<le> 1" by (simp add: n_def)
  with Cons.IH [OF _ o(1)] have "length o' = length as" "r \<le> 1" "bnval o' + bnval bs + unat n = bnval as + 2 ^ (32 * length as) * unat r" by auto
  then show ?case using col o(2) by (simp add: power_add algebra_simps)
qed simp

lemma sub_ok:
  assumes "bn_sub a b k = (out, r)" "k \<le> length a" "k \<le> length b"
  shows "length out = k" "r \<le> 1" "bnval out + bnval (take k b) = bnval (take k a) + 2 ^ (32 * k) * unat r"
  using sub_loop_ok [of "take k a" "take k b" 0 out r] assms by (simp_all add: bn_sub_def)

lemma add_loop_ok:
  assumes "length as = length bs" "carry \<le> 1" "add_loop carry as bs = (out, r)"
  shows "length out = length as \<and> r \<le> 1 \<and> bnval out + 2 ^ (32 * length as) * unat r = bnval as + bnval bs + unat carry"
  using assms
proof (induction as bs arbitrary: carry out rule: list_induct2)
  case (Cons a as b bs)
  define s where "s = a + b + carry"
  define n where "n = (if carry \<noteq> 0 \<and> s = 0 then 1 else if a + b < a then 1 else (0::u32))"
  obtain o' where o: "add_loop n as bs = (o', r)" "out = s # o'"
    using Cons.prems(2) by (auto simp: Let_def n_def s_def split: prod.splits if_splits)
  have c: "carry = 0 \<or> carry = 1" using Cons.prems(1) by (auto simp: word_le_nat_alt word_unat_eq_iff)
  have col: "unat s + 2 ^ 32 * unat n = unat a + unat b + unat carry"
  proof (cases "carry = 1 \<and> s = 0")
    case True
    then have m: "a + b = - 1" unfolding s_def by (metis eq_neg_iff_add_eq_0)
    show ?thesis using unat_ones add_carry' [of a b] True unat_u32 [of a] unat_u32 [of b] by (auto simp: m n_def split: if_splits)
  next
    case False
    have "unat s = unat (a + b) + unat carry"
    proof (cases "carry = 0")
      case True
      then show ?thesis by (simp add: s_def)
    next
      case 1: False
      then have "1 + (a + b) \<noteq> 0" using c False by (simp add: s_def add.commute)
      then have "unat (1 + (a + b)) = Suc (unat (a + b))" by (rule unatSuc)
      then show ?thesis using 1 c by (auto simp: s_def add.commute)
    qed
    moreover have "n = (if a + b < a then 1 else 0)" using False c by (auto simp: n_def)
    ultimately show ?thesis using add_carry' [of a b] by (auto split: if_splits)
  qed
  have "n \<le> 1" by (simp add: n_def)
  with Cons.IH [OF _ o(1)] have "length o' = length as" "r \<le> 1" "bnval o' + 2 ^ (32 * length as) * unat r = bnval as + bnval bs + unat n" by auto
  then show ?case using col o(2) by (simp add: power_add algebra_simps)
qed simp

lemma add_ok:
  assumes "bn_add a b k = (out, r)" "k \<le> length a" "k \<le> length b"
  shows "length out = k" "r \<le> 1" "bnval out + 2 ^ (32 * k) * unat r = bnval (take k a) + bnval (take k b)"
  using add_loop_ok [of "take k a" "take k b" 0 out r] assms by (simp_all add: bn_add_def)

section \<open>Montgomery's product\<close>

fun pval :: "(u32 \<times> u32) list \<Rightarrow> nat" where
  "pval [] = 0"
| "pval ((x, y) # ps) = unat x * unat y + 2 ^ 32 * pval ps"

lemma pval_map: "pval (map (\<lambda>x. (x, b)) xs) = bnval xs * unat b" "pval (map (Pair u) xs) = unat u * bnval xs"
  by (induction xs) (simp_all add: algebra_simps)

lemma column_ok:
  assumes "bn_mul32 x y = (h, l)" "bn_addc l h t = (l1, h1)" "bn_addc l1 h1 c = (l2, h2)"
  shows "unat h1 * 2 ^ 32 + unat l1 = unat x * unat y + unat t" "unat h2 * 2 ^ 32 + unat l2 = unat x * unat y + unat t + unat c"
proof -
  have "unat x \<le> 2 ^ 32 - 1" "unat y \<le> 2 ^ 32 - 1" using unat_u32 [of x] unat_u32 [of y] by simp_all
  then have "unat x * unat y \<le> (2 ^ 32 - 1) * (2 ^ 32 - 1)" by (rule mult_le_mono)
  then have b: "unat x * unat y + unat t + unat c < 2 ^ 64" using unat_u32 [of t] unat_u32 [of c] by simp
  show 1: "unat h1 * 2 ^ 32 + unat l1 = unat x * unat y + unat t"
    using addc_ok [OF assms(2)] mul32_ok [OF assms(1)] b by simp
  show "unat h2 * 2 ^ 32 + unat l2 = unat x * unat y + unat t + unat c"
    using addc_ok [OF assms(3)] 1 b by simp
qed

lemma mac_loop_ok:
  assumes "length ps = length ts" "mac_loop ps ts c = (out, r)"
  shows "length out = length ts \<and> bnval out + 2 ^ (32 * length ts) * unat r = bnval ts + pval ps + unat c"
  using assms
proof (induction ps ts arbitrary: c out rule: list_induct2)
  case (Cons p ps t ts)
  obtain x y where p: "p = (x, y)" by (cases p)
  obtain h l l1 h1 l2 h2 o' where e: "bn_mul32 x y = (h, l)" "bn_addc l h t = (l1, h1)" "bn_addc l1 h1 c = (l2, h2)"
    "mac_loop ps ts h2 = (o', r)" "out = l2 # o'"
    using Cons.prems by (auto simp: p split: prod.splits)
  then show ?case using Cons.IH [OF e(4)] column_ok(2) [OF e(1-3)] by (simp add: p power_add algebra_simps)
qed simp

lemma addc0:
  assumes "bn_addc acc 0 v = (s, h)"
  shows "unat h * 2 ^ 32 + unat s = unat acc + unat v" "unat h \<le> 1"
  using addc_ok [OF assms] unat_u32 [of acc] unat_u32 [of v] by simp_all

text \<open>The factor \<open>u\<close> is chosen so that the lowest limb of the sum is zero.\<close>

lemma low_limb:
  fixes h l t n0 m0 :: u32
  assumes "n0 * m0 = - 1" "unat h * 2 ^ 32 + unat l = unat (t * n0) * unat m0 + unat t"
  shows "l = 0"
proof -
  have "l = of_nat (unat h * 2 ^ 32 + unat l)" using of_nat_low [of l "unat h"] by (simp add: add.commute mult.commute)
  also have "\<dots> = t * n0 * m0 + t" unfolding assms(2) by simp
  also have "\<dots> = t * (n0 * m0 + 1)" by (simp add: algebra_simps)
  finally show ?thesis using assms(1) by simp
qed

definition mont_inv :: "u32 list \<Rightarrow> u32 list \<Rightarrow> bool" where
  "mont_inv M t \<longleftrightarrow> length t = length M + 2 \<and> t ! (length M + 1) = 0 \<and> bnval t < 2 * bnval M"

lemma split_top:
  assumes "length t = k + 2" "t ! (k + 1) = 0"
  shows "bnval t = bnval (take k t) + 2 ^ (32 * k) * unat (t ! k)"
proof -
  have "t = take k t @ [t ! k, t ! (k + 1)]"
    using assms(1) by (metis Cons_nth_drop_Suc Suc_eq_plus1 add_2_eq_Suc' append_take_drop_id drop_all lessI less_Suc_eq order_refl)
  then have "bnval t = bnval (take k t @ [t ! k, t ! (k + 1)])" by simp
  then show ?thesis using assms by (simp add: bnval_append)
qed

lemma mont_columns:
  fixes P B :: nat
  assumes "t0 + B * ts + P * B * c = T + Ab" "us + P * c2 = ts + u * M + h2" "h2 * B = u * m0 + t0"
    "h1 * B + tk = t1 + c" "h3 * B + l3 = tk + c2"
  shows "(us + P * (l3 + B * (h1 + h3))) * B = T + P * B * t1 + Ab + u * (m0 + B * M)"
proof -
  have "(us + P * (l3 + B * (h1 + h3))) * B = (us + P * (h3 * B + l3) + P * B * h1) * B" by (simp add: algebra_simps)
  also have "\<dots> = (us + P * c2 + P * (h1 * B + tk)) * B" unfolding assms(5) by (simp add: algebra_simps)
  also have "\<dots> = B * ts + B * (u * M) + h2 * B + P * B * c + P * B * t1" unfolding assms(2,4) by (simp add: algebra_simps)
  also have "\<dots> = (t0 + B * ts + P * B * c) + u * (m0 + B * M) + P * B * t1" unfolding assms(3) by (simp add: algebra_simps)
  finally show ?thesis unfolding assms(1) by simp
qed

lemma mont_row_ok:
  assumes i: "mont_inv M t" and A: "length A = length M" "bnval A < bnval M" and n: "n0 * M ! 0 = - 1" and k: "length M \<noteq> 0"
  shows "mont_inv M (mont_row A M n0 (length M) bi t) \<and>
    (\<exists>u. bnval (mont_row A M n0 (length M) bi t) * 2 ^ 32 = bnval t + bnval A * unat bi + u * bnval M)"
proof -
  let ?k = "length M"
  have lt: "length t = ?k + 2" "t ! (?k + 1) = 0" "bnval t < 2 * bnval M" using i by (auto simp: mont_inv_def)
  obtain m0 M' where M: "M = m0 # M'" using k by (cases M) auto
  obtain ts c where 1: "mac_loop (map (\<lambda>x. (x, bi)) A) (take ?k t) 0 = (ts, c)" by (cases "mac_loop (map (\<lambda>x. (x, bi)) A) (take ?k t) 0") auto
  note ts = mac_loop_ok [OF _ 1, simplified pval_map]
  obtain t0 ts' where t0: "ts = t0 # ts'" "length ts' = length M'" using ts lt A M by (cases ts) auto
  obtain tk h1 where 2: "bn_addc (t ! ?k) 0 c = (tk, h1)" by (cases "bn_addc (t ! ?k) 0 c") auto
  define u where "u = t0 * n0"
  obtain h l where 3: "bn_mul32 u m0 = (h, l)" by (cases "bn_mul32 u m0") auto
  obtain l2 h2 where 4: "bn_addc l h t0 = (l2, h2)" by (cases "bn_addc l h t0") auto
  obtain us c2 where 5: "mac_loop (map (Pair u) M') ts' h2 = (us, c2)" by (cases "mac_loop (map (Pair u) M') ts' h2") auto
  note us = mac_loop_ok [OF _ 5, simplified pval_map]
  obtain l3 h3 where 6: "bn_addc tk 0 c2 = (l3, h3)" by (cases "bn_addc tk 0 c2") auto
  have row: "mont_row A M n0 ?k bi t = us @ [l3, h1 + h3, 0]"
    using A lt(2) t0(1) 1 2 3 4 5 6 by (simp add: mont_row_def M u_def)
  have top: "unat (h1 + h3) = unat h1 + unat h3" using addc0(2) [OF 2] addc0(2) [OF 6] by (intro unat_plus) simp
  have c4: "unat h2 * 2 ^ 32 + unat l2 = unat u * unat m0 + unat t0" using column_ok(1) [OF 3 4] by (cases "bn_addc l2 h2 0") blast
  have "l2 = 0" by (rule low_limb [OF _ c4 [unfolded u_def]]) (use n M in simp)
  then have c4: "unat h2 * 2 ^ 32 = unat u * unat m0 + unat t0" using c4 by simp
  have T: "bnval t = bnval (take ?k t) + 2 ^ (32 * ?k) * unat (t ! ?k)" by (rule split_top [OF lt(1,2)])
  have v1: "bnval ts + 2 ^ (32 * ?k) * unat c = bnval (take ?k t) + bnval A * unat bi" using ts lt A by simp
  have lu: "length us = length M'" using us t0(2) by simp
  have v2: "bnval us + 2 ^ (32 * length M') * unat c2 = bnval ts' + unat u * bnval M' + unat h2" using us t0(2) by simp
  have sum: "bnval (us @ [l3, h1 + h3, 0]) * 2 ^ 32 = bnval t + bnval A * unat bi + unat u * bnval M"
    using mont_columns [OF _ v2 c4 addc0(1) [OF 2] addc0(1) [OF 6], of "bnval (take ?k t)" "bnval A * unat bi"] v1 T top t0(1) lu
    by (simp add: M bnval_append power_add mult.commute)
  have "bnval A * unat bi \<le> bnval M * 4294967295" "unat u * bnval M \<le> 4294967295 * bnval M"
    using A(2) unat_u32 [of bi] unat_u32 [of u] by (intro mult_le_mono; simp)+
  then have "bnval (us @ [l3, h1 + h3, 0]) * 2 ^ 32 < 8589934592 * bnval M" unfolding sum using lt(3) by linarith
  then have "bnval (us @ [l3, h1 + h3, 0]) < 2 * bnval M" by simp
  then show ?thesis using sum lu unfolding row by (auto simp: mont_inv_def M nth_append)
qed

lemma mont_rows_ok:
  assumes A: "length A = length M" "bnval A < bnval M" and B: "n \<le> length B" and n: "n0 * M ! 0 = - 1" and k: "length M \<noteq> 0"
  shows "mont_inv M (fold (\<lambda>i. mont_row A M n0 (length M) (B ! i)) [0..<n] (replicate (length M + 2) 0)) \<and>
    (\<exists>u. bnval (fold (\<lambda>i. mont_row A M n0 (length M) (B ! i)) [0..<n] (replicate (length M + 2) 0)) * 2 ^ (32 * n)
       = bnval A * bnval (take n B) + u * bnval M)" (is "mont_inv M (?f n) \<and> _")
  using B
proof (induction n)
  case 0
  then show ?case using A by (simp add: mont_inv_def flip: replicate_Suc)
next
  case (Suc n)
  then obtain u where u: "mont_inv M (?f n)" "bnval (?f n) * 2 ^ (32 * n) = bnval A * bnval (take n B) + u * bnval M" by auto
  from mont_row_ok [OF u(1) A n k, of "B ! n"] obtain v where
    v: "mont_inv M (?f (Suc n))" "bnval (?f (Suc n)) * 2 ^ 32 = bnval (?f n) + bnval A * unat (B ! n) + v * bnval M" by auto
  have "take (Suc n) B = take n B @ [B ! n]" using Suc.prems by (simp add: take_Suc_conv_app_nth)
  then have "bnval (take (Suc n) B) = bnval (take n B) + 2 ^ (32 * n) * unat (B ! n)" using Suc.prems by (simp add: bnval_append)
  moreover have "bnval (?f (Suc n)) * 2 ^ (32 * Suc n) = bnval (?f (Suc n)) * 2 ^ 32 * 2 ^ (32 * n)" by (simp add: power_add)
  moreover have "(bnval (?f n) + bnval A * unat (B ! n) + v * bnval M) * 2 ^ (32 * n)
      = bnval (?f n) * 2 ^ (32 * n) + bnval A * (2 ^ (32 * n) * unat (B ! n)) + v * 2 ^ (32 * n) * bnval M" by (simp add: algebra_simps)
  ultimately have "bnval (?f (Suc n)) * 2 ^ (32 * Suc n) = bnval A * bnval (take (Suc n) B) + (u + v * 2 ^ (32 * n)) * bnval M"
    unfolding v(2) u(2) by (simp only: distrib_left distrib_right add_ac)
  then show ?case using v(1) by blast
qed

lemma mont_reduce:
  assumes i: "mont_inv M t" and s: "bn_sub t M (length M) = (out, borrow)" and r: "r = (if borrow \<noteq> 0 \<and> t ! length M = 0 then take (length M) t else out)"
  shows "length r = length M" "bnval r < bnval M" "bnval t = bnval r \<or> bnval t = bnval r + bnval M"
proof -
  let ?k = "length M"
  have t: "length t = ?k + 2" "bnval t < 2 * bnval M" "bnval t = bnval (take ?k t) + 2 ^ (32 * ?k) * unat (t ! ?k)"
    using i split_top by (auto simp: mont_inv_def)
  note o = sub_ok [OF s, simplified] 
  have lo: "length out = ?k" using o(1) t(1) by simp
  have b: "borrow = 0 \<or> borrow = 1" using o(2) t(1) by (auto simp: word_le_nat_alt word_unat_eq_iff)
  have v: "bnval out + bnval M = bnval (take ?k t) + 2 ^ (32 * ?k) * unat borrow" using o(3) t(1) by simp
  have lim: "bnval out < 2 ^ (32 * ?k)" "bnval (take ?k t) < 2 ^ (32 * ?k)" "bnval M < 2 ^ (32 * ?k)"
    using bnval_bound [of out] bnval_bound [of "take ?k t"] bnval_bound [of M] lo t(1) by simp_all
  show "length r = ?k" using r lo t(1) by simp
  have "bnval r < bnval M \<and> (bnval t = bnval r \<or> bnval t = bnval r + bnval M)"
  proof (cases "t ! ?k = 0")
    case True
    then show ?thesis using r b v t(2,3) lim by auto
  next
    case False
    then have "1 \<le> unat (t ! ?k)" by (simp add: Suc_le_eq unat_gt_0)
    then have "2 ^ (32 * ?k) * 1 \<le> 2 ^ (32 * ?k) * unat (t ! ?k)" by (rule mult_le_mono2)
    moreover have "unat (t ! ?k) = 1"
    proof (rule ccontr)
      assume "unat (t ! ?k) \<noteq> 1"
      with \<open>1 \<le> unat (t ! ?k)\<close> have "2 ^ (32 * ?k) * 2 \<le> 2 ^ (32 * ?k) * unat (t ! ?k)" by (intro mult_le_mono2) simp
      then show False using t(2,3) lim(3) by linarith
    qed
    ultimately show ?thesis using r False b v t(2,3) lim by auto
  qed
  then show "bnval r < bnval M" "bnval t = bnval r \<or> bnval t = bnval r + bnval M" by auto
qed

text \<open>The product of two reduced numbers over a modulus of any length, up to the factor Montgomery's method leaves.\<close>

lemma mont_mul_ok:
  assumes A: "length A = length M" "bnval A < bnval M" and B: "length B = length M" and n: "n0 * M ! 0 = - 1" and k: "length M \<noteq> 0"
  defines "r \<equiv> bn_mont_mul_limbs A B M n0 (length M)"
  shows "length r = length M \<and> bnval r < bnval M \<and> (bnval r * 2 ^ (32 * length M)) mod bnval M = (bnval A * bnval B) mod bnval M"
proof -
  define t where "t = fold (\<lambda>i. mont_row A M n0 (length M) (B ! i)) [0..<length M] (replicate (length M + 2) 0)"
  obtain out borrow where s: "bn_sub t M (length M) = (out, borrow)" by (cases "bn_sub t M (length M)") auto
  have r: "r = (if borrow \<noteq> 0 \<and> t ! length M = 0 then take (length M) t else out)"
    unfolding r_def bn_mont_mul_limbs_def t_def [symmetric] using s by simp
  from mont_rows_ok [OF A _ n k, of "length M" B] obtain u where
    t: "mont_inv M t" "bnval t * 2 ^ (32 * length M) = bnval A * bnval B + u * bnval M" using B by (auto simp: t_def)
  note R = mont_reduce [OF t(1) s r]
  have "(bnval r * 2 ^ (32 * length M)) mod bnval M = (bnval t * 2 ^ (32 * length M)) mod bnval M"
    using R(3) by (auto simp: algebra_simps)
  also have "\<dots> = (bnval A * bnval B) mod bnval M" unfolding t(2) by simp
  finally show ?thesis using R(1,2) by simp
qed

section \<open>Bytes\<close>

definition be_val :: "byte list \<Rightarrow> nat" where
  "be_val s = le_val (rev s)"

lemma bn_unpack_Suc:
  "bn_unpack (a # b # c # d # s) (Suc k) = bn_unpack s k @ [push_bit 24 (ucast a) OR push_bit 16 (ucast b) OR push_bit 8 (ucast c) OR ucast d]"
proof -
  have "(let p = (Suc k - 1 - i) * 4 in push_bit 24 (ucast ((a # b # c # d # s) ! p)) OR push_bit 16 (ucast ((a # b # c # d # s) ! (p + 1)))
       OR push_bit 8 (ucast ((a # b # c # d # s) ! (p + 2))) OR ucast ((a # b # c # d # s) ! (p + 3)) :: u32)
    = (let p = (k - 1 - i) * 4 in push_bit 24 (ucast (s ! p)) OR push_bit 16 (ucast (s ! (p + 1))) OR push_bit 8 (ucast (s ! (p + 2))) OR ucast (s ! (p + 3)))"
    if i: "i < k" for i
  proof -
    obtain j where j: "k = Suc (i + j)" using i less_iff_Suc_add by auto
    have n: "(Suc k - 1 - i) * 4 = Suc (Suc (Suc (Suc (j * 4))))" "(k - 1 - i) * 4 = j * 4" unfolding j by simp_all
    show ?thesis unfolding n by (simp add: Let_def numeral_3_eq_3 numeral_2_eq_2)
  qed
  then show ?thesis by (simp add: bn_unpack_def)
qed

lemma bn_unpack_val: "length s = 4 * k \<Longrightarrow> length (bn_unpack s k) = k \<and> bnval (bn_unpack s k) = be_val s"
proof (induction k arbitrary: s)
  case 0
  then show ?case by (simp add: bn_unpack_def be_val_def)
next
  case (Suc k)
  then obtain a b c d r where s: "s = a # b # c # d # r" "length r = 4 * k"
    by (auto simp: length_Suc_conv numeral_eq_Suc)
  have "(256 :: nat) ^ (4 * k) = 2 ^ (32 * k)" by (simp add: power_mult)
  then show ?case using Suc.IH [OF s(2)] s(2)
    by (simp add: s(1) bn_unpack_Suc bnval_append be_val_def le_val_append unat_be)
qed

lemma limb_be_val: "le_val (rev (limb_be v)) = unat v" "length (limb_be v) = 4"
proof -
  have u: "unat (ucast (drop_bit n v) :: byte) = unat v div 2 ^ n mod 256" for n by (simp add: unat_ucast unat_drop_bit)
  have "unat v div 2 ^ 24 < 256" using unat_u32 [of v] by (simp add: less_mult_imp_div_less)
  then have "unat v div 2 ^ 24 mod 256 = unat v div 256 div 256 div 256" by (simp add: div_mult2_eq [symmetric])
  moreover have "unat v div 2 ^ 16 = unat v div 256 div 256" "unat v div 2 ^ 8 = unat v div 256" by (simp_all add: div_mult2_eq [symmetric])
  moreover have "unat (ucast v :: byte) = unat v mod 256" using u [of 0] by simp
  ultimately show "le_val (rev (limb_be v)) = unat v" by (simp add: limb_be_def u)
qed (simp add: limb_be_def)

lemma bn_pack_val: "k \<le> length a \<Longrightarrow> length (bn_pack a k) = 4 * k \<and> be_val (bn_pack a k) = bnval (take k a)"
proof (induction k)
  case 0
  then show ?case by (simp add: bn_pack_def be_val_def)
next
  case (Suc k)
  have "(256 :: nat) ^ (4 * k) = 2 ^ (32 * k)" by (simp add: power_mult)
  then show ?case using Suc
    by (simp add: bn_pack_def be_val_def le_val_append limb_be_val take_Suc_conv_app_nth bnval_append)
qed

section \<open>Reduced numbers\<close>

definition reduced :: "u32 list \<Rightarrow> u32 list \<Rightarrow> bool" where
  "reduced m a \<longleftrightarrow> length a = length m \<and> bnval a < bnval m"

lemma flag_cases: "(x :: u32) \<le> 1 \<Longrightarrow> x = 0 \<or> x = 1"
  by (auto simp: word_le_nat_alt word_unat_eq_iff)

lemma mod_once: "x < 2 * m \<Longrightarrow> x mod m = (if x < m then x else x - m)" for x m :: nat
  by (simp add: mod_if le_mod_geq)

lemma mod_add_ok:
  assumes "reduced m a" "reduced m b" "k = length m"
  shows "reduced m (bn_mod_add a b m k) \<and> bnval (bn_mod_add a b m k) = (bnval a + bnval b) mod bnval m"
proof -
  obtain t c where t: "bn_add a b k = (t, c)" by (cases "bn_add a b k")
  obtain r w where r: "bn_sub t m k = (r, w)" by (cases "bn_sub t m k")
  have l: "length a = k" "length b = k" "bnval a < bnval m" "bnval b < bnval m" using assms by (auto simp: reduced_def)
  have T: "length t = k" "c \<le> 1" "bnval t + 2 ^ (32 * k) * unat c = bnval a + bnval b" using add_ok [OF t] l by simp_all
  have R: "length r = k" "w \<le> 1" "bnval r + bnval m = bnval t + 2 ^ (32 * k) * unat w" using sub_ok [OF r] T(1) assms(3) by simp_all
  note bd = bnval_bound [of t] bnval_bound [of r] bnval_bound [of m]
  have e: "bn_mod_add a b m k = (if c \<noteq> 0 \<or> w = 0 then r else t)" by (simp add: bn_mod_add_def t r)
  have "bnval (bn_mod_add a b m k) = (if bnval a + bnval b < bnval m then bnval a + bnval b else bnval a + bnval b - bnval m)"
    unfolding e using flag_cases [OF T(2)] flag_cases [OF R(2)] T R bd l assms(3) by auto
  moreover have "length (bn_mod_add a b m k) = k" using T(1) R(1) by (simp add: bn_mod_add_def t r)
  ultimately show ?thesis using mod_once [of "bnval a + bnval b" "bnval m"] l assms(3) by (auto simp: reduced_def)
qed

lemma mod_sub_ok:
  assumes "reduced m a" "reduced m b" "k = length m"
  shows "reduced m (bn_mod_sub a b m k) \<and> bnval (bn_mod_sub a b m k) = (bnval a + bnval m - bnval b) mod bnval m"
proof -
  obtain t w where t: "bn_sub a b k = (t, w)" by (cases "bn_sub a b k")
  obtain r c where r: "bn_add t m k = (r, c)" by (cases "bn_add t m k")
  have l: "length a = k" "length b = k" "bnval a < bnval m" "bnval b < bnval m" using assms by (auto simp: reduced_def)
  have T: "length t = k" "w \<le> 1" "bnval t + bnval b = bnval a + 2 ^ (32 * k) * unat w" using sub_ok [OF t] l by simp_all
  have R: "length r = k" "c \<le> 1" "bnval r + 2 ^ (32 * k) * unat c = bnval t + bnval m" using add_ok [OF r] T(1) assms(3) by simp_all
  note bd = bnval_bound [of t] bnval_bound [of r] bnval_bound [of m]
  have e: "bn_mod_sub a b m k = (if w \<noteq> 0 then r else t)" by (simp add: bn_mod_sub_def t r)
  have "bnval (bn_mod_sub a b m k) = (if bnval a + bnval m - bnval b < bnval m then bnval a + bnval m - bnval b else bnval a - bnval b)"
    unfolding e using flag_cases [OF T(2)] flag_cases [OF R(2)] T R bd l assms(3) by auto
  moreover have "length (bn_mod_sub a b m k) = k" using T(1) R(1) by (simp add: bn_mod_sub_def t r)
  ultimately show ?thesis using mod_once [of "bnval a + bnval m - bnval b" "bnval m"] l assms(3) by (auto simp: reduced_def)
qed

text \<open>Newton's iteration doubles the number of correct low bits of the inverse.\<close>

lemma inv_step: "1 - a * (x * (2 - a * x)) = (1 - a * x) ^ 2" for a x :: u32
  by (simp add: power2_eq_square algebra_simps)

lemma inv_steps: "1 - a * ((\<lambda>x. x * (2 - a * x)) ^^ n) 1 = (1 - a) ^ (2 ^ n)" for a :: u32
proof (induction n)
  case (Suc n)
  have "1 - a * ((\<lambda>x. x * (2 - a * x)) ^^ Suc n) 1 = (1 - a * ((\<lambda>x. x * (2 - a * x)) ^^ n) 1) ^ 2" using inv_step by simp
  then show ?case unfolding Suc by (simp add: power_mult [symmetric] mult.commute)
qed simp

lemma inv_limb_ok: "odd a \<Longrightarrow> a * bn_inv_limb a = 1"
proof -
  assume "odd a"
  then have "even (1 - a)" by simp
  then obtain y where "1 - a = 2 * y" by (elim evenE)
  then have "(1 - a) ^ (2 ^ 6) = 2 ^ 64 * y ^ 64" by (simp add: power_mult_distrib)
  then have "1 - a * bn_inv_limb a = 2 ^ 64 * y ^ 64" using inv_steps [of a 6] by (simp add: bn_inv_limb_def)
  moreover have "(2 :: u32) ^ 64 = 0" by simp
  ultimately have "1 - a * bn_inv_limb a = 0" by (simp only: mult_zero_left)
  then show ?thesis by simp
qed

section \<open>Residues\<close>

text \<open>The factor \<open>R\<close> of Montgomery's method for eight limbs.\<close>

definition MR :: nat where "MR = 2 ^ 256"

text \<open>A modulus set up for use: odd, with the constants \<open>bn_mod_init\<close> computes.\<close>

definition mod_ok :: "bn_mod \<Rightarrow> bool" where
  "mod_ok md \<longleftrightarrow> length (m_m md) = EC_K \<and> odd (bnval (m_m md)) \<and> 1 < bnval (m_m md) \<and> m_n0 md * m_m md ! 0 = - 1 \<and>
     reduced (m_m md) (m_r2 md) \<and> bnval (m_r2 md) = (MR * MR) mod bnval (m_m md) \<and>
     reduced (m_m md) (m_one md) \<and> bnval (m_one md) = MR mod bnval (m_m md)"

lemma limb_one_val: "length limb_one = EC_K" "bnval limb_one = 1"
proof -
  have "(8 :: nat) = Suc 7" by simp
  then have l: "limb_one = 1 # replicate 7 0" unfolding limb_one_def by (metis list_update_code(2) replicate_Suc)
  show "length limb_one = EC_K" "bnval limb_one = 1" unfolding l by simp_all
qed

lemma mont_mul_reduced:
  assumes "reduced M a" "reduced M b" "n0 * M ! 0 = - 1" "length M = EC_K"
  shows "reduced M (bn_mont_mul_limbs a b M n0 EC_K)"
    "(bnval (bn_mont_mul_limbs a b M n0 EC_K) * MR) mod bnval M = (bnval a * bnval b) mod bnval M"
  using mont_mul_ok [of a M b n0] assms by (simp_all add: reduced_def MR_def)

lemma odd_limb: "xs \<noteq> [] \<Longrightarrow> odd (bnval xs) \<longleftrightarrow> odd (xs ! 0)"
  by (cases xs) (simp_all add: bit_unsigned_iff flip: bit_0)

lemma doubled:
  assumes "reduced m x" "bnval x = y mod bnval m" "length m = EC_K"
  shows "reduced m (((\<lambda>r. bn_mod_add r r m EC_K) ^^ n) x) \<and> bnval (((\<lambda>r. bn_mod_add r r m EC_K) ^^ n) x) = (y * 2 ^ n) mod bnval m"
proof (induction n)
  case (Suc n)
  let ?r = "((\<lambda>r. bn_mod_add r r m EC_K) ^^ n) x"
  have "reduced m (bn_mod_add ?r ?r m EC_K) \<and> bnval (bn_mod_add ?r ?r m EC_K) = (bnval ?r + bnval ?r) mod bnval m"
    using mod_add_ok [OF conjunct1 [OF Suc] conjunct1 [OF Suc], of EC_K] assms(3) by simp
  moreover have "y * 2 ^ n + y * 2 ^ n = y * 2 ^ Suc n" by simp
  then have "(bnval ?r + bnval ?r) mod bnval m = (y * 2 ^ Suc n) mod bnval m" unfolding conjunct2 [OF Suc] by (simp only: mod_add_eq)
  ultimately show ?case by simp
qed (use assms in simp)

lemma coprime_R: "odd m \<Longrightarrow> coprime MR (m :: nat)"
  unfolding MR_def by (rule coprime_power_left_iff [THEN iffD2]) (simp add: coprime_left_2_iff_odd)

lemma mod_cancel: "coprime r m \<Longrightarrow> (x * r) mod m = (y * r) mod m \<longleftrightarrow> x mod m = y mod m" for x y r m :: nat
proof -
  assume c: "coprime r m"
  have "int m dvd (int x - int y) * int r \<longleftrightarrow> int m dvd int x - int y"
    using c by (intro coprime_dvd_mult_left_iff) (simp add: coprime_commute)
  then have "(int x * int r) mod int m = (int y * int r) mod int m \<longleftrightarrow> int x mod int m = int y mod int m"
    by (simp add: mod_eq_dvd_iff left_diff_distrib)
  then show ?thesis by (metis of_nat_eq_iff of_nat_mult of_nat_mod)
qed

lemma mod_init_ok:
  assumes "length bytes = 32" "odd (be_val bytes)" "1 < be_val bytes"
  shows "mod_ok (bn_mod_init bytes) \<and> bnval (m_m (bn_mod_init bytes)) = be_val bytes"
proof -
  define m where "m = bn_unpack bytes EC_K"
  define n0 where "n0 = 0 - bn_inv_limb (m ! 0)"
  define r2 where "r2 = ((\<lambda>r. bn_mod_add r r m EC_K) ^^ 512) limb_one"
  have m: "length m = EC_K" "bnval m = be_val bytes" using bn_unpack_val [of bytes EC_K] assms(1) by (simp_all add: m_def)
  have "m \<noteq> []" using m(1) by auto
  then have "odd (m ! 0)" using odd_limb [of m] m(2) assms(2) by simp
  then have n: "n0 * m ! 0 = - 1" using inv_limb_ok [of "m ! 0"] by (simp add: n0_def mult.commute)
  have r1: "reduced m limb_one" using m assms(3) by (simp add: reduced_def limb_one_val)
  have R: "reduced m r2" "bnval r2 = (MR * MR) mod bnval m"
    using doubled [OF r1 _ m(1), of 1 512] m assms(3) by (simp_all add: r2_def limb_one_val MR_def)
  let ?o = "bn_mont_mul_limbs limb_one r2 m n0 EC_K"
  note O = mont_mul_reduced [OF r1 R(1) n m(1)]
  have "(bnval ?o * MR) mod bnval m = (MR * MR) mod bnval m" using O(2) R(2) by (simp add: limb_one_val)
  then have "bnval ?o mod bnval m = MR mod bnval m" using mod_cancel [OF coprime_R] m(2) assms(2) by simp
  then have "bnval ?o = MR mod bnval m" using O(1) by (simp add: reduced_def)
  moreover have "bn_mod_init bytes = \<lparr>m_m = m, m_n0 = n0, m_r2 = r2, m_one = ?o\<rparr>"
    unfolding bn_mod_init_def m_def [symmetric] by (simp add: Let_def n0_def r2_def)
  ultimately show ?thesis using m n R O(1) assms(2,3) by (simp add: mod_ok_def)
qed

text \<open>The number a list of limbs in Montgomery form stands for.\<close>

definition mval :: "bn_mod \<Rightarrow> u32 list \<Rightarrow> nat" where
  "mval md a = bnval (bn_mod_leave md a)"

lemma mod_okD:
  assumes "mod_ok md"
  shows "length (m_m md) = EC_K" "coprime (MR) (bnval (m_m md))" "1 < bnval (m_m md)" "m_n0 md * m_m md ! 0 = - 1"
    "reduced (m_m md) (m_r2 md)" "reduced (m_m md) (m_one md)" "reduced (m_m md) limb_one"
  using assms coprime_R by (auto simp: mod_ok_def reduced_def limb_one_val)

lemma mod_mul_red:
  assumes "mod_ok md" "reduced (m_m md) a" "reduced (m_m md) b"
  shows "reduced (m_m md) (bn_mod_mul md a b)"
    "(bnval (bn_mod_mul md a b) * MR) mod bnval (m_m md) = (bnval a * bnval b) mod bnval (m_m md)"
  using mont_mul_reduced [OF assms(2,3) mod_okD(4,1)] assms(1) by (simp_all add: bn_mod_mul_def)

lemma mval_iff:
  assumes "mod_ok md" "reduced (m_m md) a"
  shows "mval md a = y mod bnval (m_m md) \<longleftrightarrow> bnval a = (y * MR) mod bnval (m_m md)"
proof -
  note r = mod_mul_red [OF assms mod_okD(7) [OF assms(1)]]
  have "mval md a < bnval (m_m md)" "(mval md a * MR) mod bnval (m_m md) = bnval a"
    using r assms(2) by (simp_all add: mval_def bn_mod_leave_def reduced_def limb_one_val)
  then show ?thesis using mod_cancel [OF mod_okD(2) [OF assms(1)], of "mval md a" y] by auto
qed

lemma mval_less: "mod_ok md \<Longrightarrow> reduced (m_m md) a \<Longrightarrow> mval md a < bnval (m_m md)"
  using mod_mul_red(1) [OF _ _ mod_okD(7)] by (simp add: mval_def bn_mod_leave_def reduced_def)

lemma bnval_mval: "mod_ok md \<Longrightarrow> reduced (m_m md) a \<Longrightarrow> bnval a = (mval md a * MR) mod bnval (m_m md)"
  using mval_iff [of md a "mval md a"] mval_less by simp

lemma mval_inject:
  assumes "mod_ok md" "reduced (m_m md) a" "reduced (m_m md) b"
  shows "mval md a = mval md b \<longleftrightarrow> a = b"
  using bnval_mval [OF assms(1)] bnval_inject [of a b] assms by (metis reduced_def)

lemma mval_mul:
  assumes "mod_ok md" "reduced (m_m md) a" "reduced (m_m md) b"
  shows "mval md (bn_mod_mul md a b) = (mval md a * mval md b) mod bnval (m_m md)"
proof -
  let ?m = "bnval (m_m md)" and ?R = "MR :: nat"
  note r = mod_mul_red [OF assms]
  have "(bnval (bn_mod_mul md a b) * ?R) mod ?m = ((mval md a * ?R) mod ?m * ((mval md b * ?R) mod ?m)) mod ?m"
    using r(2) bnval_mval [OF assms(1,2)] bnval_mval [OF assms(1,3)] by simp
  also have "\<dots> = (mval md a * mval md b * ?R * ?R) mod ?m" by (simp only: mod_mult_eq mult_ac)
  finally have "bnval (bn_mod_mul md a b) mod ?m = (mval md a * mval md b * ?R) mod ?m"
    using mod_cancel [OF mod_okD(2) [OF assms(1)]] by blast
  then have "bnval (bn_mod_mul md a b) = (mval md a * mval md b * ?R) mod ?m" using r(1) by (simp add: reduced_def)
  then show ?thesis using mval_iff [OF assms(1) r(1)] by blast
qed

lemma mval_add:
  assumes "mod_ok md" "reduced (m_m md) a" "reduced (m_m md) b"
  shows "mval md (bn_mod_add a b (m_m md) EC_K) = (mval md a + mval md b) mod bnval (m_m md)"
proof -
  let ?m = "bnval (m_m md)"
  note r = mod_add_ok [OF assms(2,3) mod_okD(1) [OF assms(1), symmetric]]
  have "bnval (bn_mod_add a b (m_m md) EC_K) = ((mval md a * MR) mod ?m + (mval md b * MR) mod ?m) mod ?m"
    using r bnval_mval [OF assms(1,2)] bnval_mval [OF assms(1,3)] by simp
  also have "\<dots> = ((mval md a + mval md b) * MR) mod ?m" by (simp only: mod_add_eq distrib_right)
  finally show ?thesis using mval_iff [OF assms(1)] r by blast
qed

lemma mod_add_cancel: "(x + c) mod m = (y + c) mod m \<Longrightarrow> x mod m = y mod m" for x y c m :: nat
proof -
  assume "(x + c) mod m = (y + c) mod m"
  then have "(int x + int c) mod int m = (int y + int c) mod int m" by (metis of_nat_add of_nat_mod)
  then have "int x mod int m = int y mod int m" by (simp add: mod_eq_dvd_iff)
  then show ?thesis by (metis of_nat_eq_iff of_nat_mod)
qed

lemma mval_sub:
  assumes "mod_ok md" "reduced (m_m md) a" "reduced (m_m md) b"
  shows "mval md (bn_mod_sub a b (m_m md) EC_K) = (mval md a + bnval (m_m md) - mval md b) mod bnval (m_m md)"
proof -
  let ?m = "bnval (m_m md)" and ?s = "bn_mod_sub a b (m_m md) EC_K"
  note r = mod_sub_ok [OF assms(2,3) mod_okD(1) [OF assms(1), symmetric]]
  have lt: "mval md b < ?m" "bnval b < ?m" using mval_less [OF assms(1,3)] assms(3) by (auto simp: reduced_def)
  have b: "bnval b = (mval md b * MR) mod ?m" by (rule bnval_mval [OF assms(1,3)])
  have "(bnval ?s + bnval b) mod ?m = bnval a mod ?m" using r lt by (simp add: mod_add_left_eq)
  also have "\<dots> = ((mval md a + ?m - mval md b) * MR + mval md b * MR) mod ?m"
    using bnval_mval [OF assms(1,2)] lt by (simp flip: distrib_right) (simp add: distrib_right)
  also have "\<dots> = (((mval md a + ?m - mval md b) * MR) mod ?m + bnval b) mod ?m" unfolding b by (simp only: mod_add_eq)
  finally have "bnval ?s mod ?m = (((mval md a + ?m - mval md b) * MR) mod ?m) mod ?m"
    by (rule mod_add_cancel)
  then have "bnval ?s = ((mval md a + ?m - mval md b) * MR) mod ?m" using r by (simp add: reduced_def)
  then show ?thesis using mval_iff [OF assms(1) conjunct1 [OF r]] by blast
qed

lemma mval_one: "mod_ok md \<Longrightarrow> mval md (m_one md) = 1"
  using mval_iff [of md "m_one md" 1] mod_okD(3,6) by (simp add: mod_ok_def)

lemma mval_enter:
  assumes "mod_ok md" "reduced (m_m md) a"
  shows "reduced (m_m md) (bn_mod_enter md a)" "mval md (bn_mod_enter md a) = bnval a"
proof -
  let ?m = "bnval (m_m md)"
  note r = mod_mul_red [OF assms mod_okD(5) [OF assms(1)]]
  show 1: "reduced (m_m md) (bn_mod_enter md a)" using r(1) by (simp add: bn_mod_enter_def)
  have "(bnval (bn_mod_enter md a) * MR) mod ?m = (bnval a * ((MR * MR) mod ?m)) mod ?m"
    using r(2) assms(1) by (simp add: bn_mod_enter_def mod_ok_def)
  then have "(bnval (bn_mod_enter md a) * MR) mod ?m = (bnval a * MR * MR) mod ?m" by (simp only: mod_mult_right_eq mult_ac)
  then have "bnval (bn_mod_enter md a) mod ?m = (bnval a * MR) mod ?m" using mod_cancel [OF mod_okD(2) [OF assms(1)]] by blast
  then have "bnval (bn_mod_enter md a) = (bnval a * MR) mod ?m" using 1 by (simp add: reduced_def)
  then show "mval md (bn_mod_enter md a) = bnval a" using mval_iff [OF assms(1) 1, of "bnval a"] assms(2) by (simp add: reduced_def)
qed

subsection \<open>Powers\<close>

definition bits_val :: "bool list \<Rightarrow> nat" where
  "bits_val bs = foldl (\<lambda>v b. 2 * v + of_bool b) 0 bs"

lemma nat_bits_val: "foldl (\<lambda>v b. 2 * v + of_bool b) v (map (\<lambda>i. odd (n div 2 ^ i)) (rev [0..<k])) = v * 2 ^ k + n mod 2 ^ k" for n :: nat
proof (induction k arbitrary: v)
  case (Suc k)
  have "n mod (2 ^ k * 2) = 2 ^ k * (n div 2 ^ k mod 2) + n mod 2 ^ k" by (rule mod_mult2_eq)
  then show ?case using Suc [of "2 * v + of_bool (odd (n div 2 ^ k))"] by (simp add: algebra_simps mod_2_eq_odd)
qed simp

lemma byte_bit: "drop_bit i e AND 1 \<noteq> 0 \<longleftrightarrow> odd (unat e div 2 ^ i)" for e :: byte
proof -
  have "drop_bit i e AND 1 \<noteq> 0 \<longleftrightarrow> bit e i" by (simp add: and_one_eq bit_iff_odd_drop_bit odd_iff_mod_2_eq_one)
  also have "\<dots> \<longleftrightarrow> bit (unat e) i" by (simp add: bit_unsigned_iff)
  finally show ?thesis by (simp add: bit_iff_odd)
qed

lemma byte_bits_val: "foldl (\<lambda>v b. 2 * v + of_bool b) v (byte_bits e) = v * 256 + unat e"
proof -
  have "foldl (\<lambda>v b. 2 * v + of_bool b) v (byte_bits e) = v * 2 ^ 8 + unat e mod 2 ^ 8" unfolding byte_bits_def byte_bit by (rule nat_bits_val)
  then show ?thesis using unat_bounds(1) [of e] by simp
qed

lemma bytes_bits_val: "foldl (\<lambda>v b. 2 * v + of_bool b) v (concat (map byte_bits es)) = v * 256 ^ length es + be_val es"
proof (induction es arbitrary: v)
  case (Cons e es)
  then show ?case by (simp add: byte_bits_val be_val_def le_val_append) (simp add: algebra_simps)
qed (simp add: be_val_def)

lemma exp_bits_ok:
  assumes md: "mod_ok md" "reduced (m_m md) a" and acc: "reduced (m_m md) acc" "mval md acc = mval md a ^ v mod bnval (m_m md)" "st \<longleftrightarrow> v \<noteq> 0"
  shows "\<exists>acc' st'. fold (exp_bit md a) bs (acc, st) = (acc', st') \<and> reduced (m_m md) acc' \<and>
    mval md acc' = mval md a ^ foldl (\<lambda>v b. 2 * v + of_bool b) v bs mod bnval (m_m md)"
  using acc
proof (induction bs arbitrary: acc v st)
  case (Cons b bs)
  let ?m = "bnval (m_m md)" and ?w = "2 * v + of_bool b"
  define sq where "sq = (if st then bn_mod_mul md acc acc else acc)"
  have sq: "reduced (m_m md) sq" "mval md sq = mval md a ^ (2 * v) mod ?m"
  proof -
    show "reduced (m_m md) sq" using Cons.prems(1) mod_mul_red(1) [OF md(1)] by (simp add: sq_def)
    have "mval md (bn_mod_mul md acc acc) = mval md a ^ (v + v) mod ?m"
      using mval_mul [OF md(1) Cons.prems(1,1)] Cons.prems(2) by (simp add: mod_mult_eq power_add)
    then show "mval md sq = mval md a ^ (2 * v) mod ?m" using Cons.prems(2,3) by (simp add: sq_def mult_2)
  qed
  define acc' where "acc' = (if \<not> b then sq else if st then bn_mod_mul md sq a else a)"
  have e: "exp_bit md a b (acc, st) = (acc', st \<or> b)" by (simp add: exp_bit_def sq_def acc'_def Let_def)
  have "reduced (m_m md) acc'" using sq(1) md(2) mod_mul_red(1) [OF md(1)] by (simp add: acc'_def)
  moreover have "mval md acc' = mval md a ^ ?w mod ?m"
  proof (cases "b \<and> st")
    case True
    then show ?thesis using mval_mul [OF md(1) sq(1) md(2)] sq(2) by (simp add: acc'_def mod_mult_right_eq mult.commute)
  next
    case False
    then show ?thesis using sq(2) Cons.prems(3) mval_less [OF md] by (auto simp: acc'_def)
  qed
  moreover have "(st \<or> b) \<longleftrightarrow> ?w \<noteq> 0" using Cons.prems(3) by simp
  ultimately show ?case using Cons.IH [of acc' ?w "st \<or> b"] by (simp add: e)
qed simp

lemma mod_exp_ok:
  assumes "mod_ok md" "reduced (m_m md) a"
  shows "reduced (m_m md) (bn_mod_exp md a e n) \<and> mval md (bn_mod_exp md a e n) = mval md a ^ be_val (take n e) mod bnval (m_m md)"
  using exp_bits_ok [OF assms mod_okD(6) [OF assms(1)], of 0 False "concat (map byte_bits (take n e))"]
    mval_one [OF assms(1)] mod_okD(3) [OF assms(1)] bytes_bits_val [of 0 "take n e"]
  by (auto simp: bn_mod_exp_def)

section \<open>What the library promises\<close>

lemma entry_lengths: "length s = len \<Longrightarrow> len mod 4 = 0 \<Longrightarrow> length (bn_unpack s (len div 4)) = len div 4 \<and> bnval (bn_unpack s (len div 4)) = be_val s"
  by (rule bn_unpack_val) presburger

lemma entry_result: "length r = len div 4 \<Longrightarrow> len mod 4 = 0 \<Longrightarrow> length (bn_pack r (len div 4)) = len \<and> be_val (bn_pack r (len div 4)) = bnval r"
  using bn_pack_val [of "len div 4" r] mult_div_mod_eq [of 4 len] by simp

text \<open>
  C16: the three entry points on big-endian numbers. For a modulus of up to 128 limbs and reduced operands
  of the same length, \<open>bn_add_mod\<close> and \<open>bn_sub_mod\<close> return the sum and the difference modulo it, and
  \<open>bn_mont_mul\<close>, given \<open>n0\<close> with \<open>n0 * m = -1\<close> modulo \<open>2^32\<close>, returns the reduced number whose product with
  \<open>2^(8 len)\<close> is congruent to the product of the operands; all other lengths are refused.
\<close>

theorem bignum_entry:
  assumes l: "length a = len" "length b = len" "length m = len" and r: "be_val a < be_val m" "be_val b < be_val m"
    and n: "n0 * of_nat (be_val m) = - 1"
  shows "if len = 0 \<or> len mod 4 \<noteq> 0 \<or> len > 512 then bn_add_mod a b m len = None \<and> bn_sub_mod a b m len = None \<and> bn_mont_mul a b m n0 len = None
    else \<exists>s d p. bn_add_mod a b m len = Some s \<and> bn_sub_mod a b m len = Some d \<and> bn_mont_mul a b m n0 len = Some p \<and>
      length s = len \<and> length d = len \<and> length p = len \<and>
      be_val s = (be_val a + be_val b) mod be_val m \<and> be_val d = (be_val a + be_val m - be_val b) mod be_val m \<and>
      be_val p < be_val m \<and> (be_val p * 2 ^ (8 * len)) mod be_val m = (be_val a * be_val b) mod be_val m"
proof (cases "len = 0 \<or> len mod 4 \<noteq> 0 \<or> len > 512")
  case True
  then have "len = 0 \<or> len mod 4 \<noteq> 0 \<or> len div 4 > BIGNUM_MAX_LIMBS" by presburger
  then show ?thesis using True by (auto simp: bn_add_mod_def bn_sub_mod_def bn_mont_mul_def Let_def)
next
  case False
  let ?k = "len div 4" let ?A = "bn_unpack a ?k" let ?B = "bn_unpack b ?k" let ?M = "bn_unpack m ?k"
  have g: "\<not> (len = 0 \<or> len mod 4 \<noteq> 0 \<or> ?k > BIGNUM_MAX_LIMBS)" "len mod 4 = 0" "?k \<noteq> 0" using False by auto
  note A = entry_lengths [OF l(1) g(2)] and B = entry_lengths [OF l(2) g(2)] and M = entry_lengths [OF l(3) g(2)]
  have red: "reduced ?M ?A" "reduced ?M ?B" using A B M r by (auto simp: reduced_def)
  have k: "?k = length ?M" using M by simp
  note S = mod_add_ok [OF red k] and D = mod_sub_ok [OF red k]
  have s: "bn_add_mod a b m len = Some (bn_pack (bn_mod_add ?A ?B ?M ?k) ?k)"
    using g by (simp add: bn_add_mod_def bn_mod_add_def Let_def split: prod.splits)
  have d: "bn_sub_mod a b m len = Some (bn_pack (bn_mod_sub ?A ?B ?M ?k) ?k)"
    using g by (simp add: bn_sub_mod_def bn_mod_sub_def Let_def split: prod.splits)
  have p: "bn_mont_mul a b m n0 len = Some (bn_pack (bn_mont_mul_limbs ?A ?B ?M n0 ?k) ?k)"
    using g by (simp add: bn_mont_mul_def Let_def)
  have "of_nat (bnval ?M) = ?M ! 0"
  proof -
    obtain x xs where x: "?M = x # xs" using k g(3) by (cases ?M) auto
    show ?thesis using of_nat_low [of x "bnval xs"] by (simp add: x)
  qed
  then have n': "n0 * ?M ! 0 = - 1" using n M by simp
  have e: "32 * ?k = 8 * len" using g(2) by auto
  note P = mont_mul_ok [of ?A ?M ?B n0, OF _ _ _ n', folded k, unfolded e]
  show ?thesis
    using False s d p S D P A B M r g(2,3) entry_result [of "bn_mod_add ?A ?B ?M ?k" len] entry_result [of "bn_mod_sub ?A ?B ?M ?k" len]
      entry_result [of "bn_mont_mul_limbs ?A ?B ?M n0 ?k" len]
    by (simp add: reduced_def)
qed

theorem bignum_entry_witness:
  "\<exists>p. bn_mont_mul [0, 0, 0, 6] [0, 0, 0, 7] [0, 0, 0, 15] 0x11111111 4 = Some p \<and> be_val p < 15 \<and> (be_val p * 2 ^ 32) mod 15 = 42 mod 15"
proof -
  have v: "be_val [0, 0, 0, 6] = 6" "be_val [0, 0, 0, 7] = 7" "be_val [0, 0, 0, 15] = 15" by (simp_all add: be_val_def)
  have "(0x11111111 :: u32) * of_nat (be_val [0, 0, 0, 15]) = - 1" unfolding v by simp
  from bignum_entry [of "[0, 0, 0, 6]" 4 "[0, 0, 0, 7]" "[0, 0, 0, 15]", OF _ _ _ _ _ this] show ?thesis by (auto simp: v)
qed

text \<open>
  C17: modular powers. For an odd modulus of 32 bytes set up by \<open>bn_mod_init\<close> and a reduced base, entering
  Montgomery form, raising to a big-endian exponent by squaring and multiplying, and leaving again
  gives the power modulo the modulus.
\<close>

theorem mod_exp_correct:
  assumes m: "length mb = 32" "odd (be_val mb)" "1 < be_val mb" and a: "length a = EC_K" "bnval a < be_val mb"
  shows "bnval (bn_mod_leave (bn_mod_init mb) (bn_mod_exp (bn_mod_init mb) (bn_mod_enter (bn_mod_init mb) a) e n))
    = bnval a ^ be_val (take n e) mod be_val mb"
proof -
  have i: "mod_ok (bn_mod_init mb)" "bnval (m_m (bn_mod_init mb)) = be_val mb" using mod_init_ok [OF m] by auto
  have r: "reduced (m_m (bn_mod_init mb)) a" using a i mod_okD(1) [OF i(1)] by (simp add: reduced_def)
  note en = mval_enter [OF i(1) r]
  show ?thesis using mod_exp_ok [OF i(1) en(1), of e n] en(2) i(2) by (simp add: mval_def)
qed

theorem mod_exp_correct_witness:
  "bnval (bn_mod_leave (bn_mod_init (replicate 31 0 @ [17])) (bn_mod_exp (bn_mod_init (replicate 31 0 @ [17]))
     (bn_mod_enter (bn_mod_init (replicate 31 0 @ [17])) (3 # replicate 7 0)) [5] 1)) = 5"
proof -
  have "le_val (17 # replicate 31 0) = 17"
  proof -
    have "le_val (replicate n 0) = 0" for n by (induction n) auto
    then show ?thesis by simp
  qed
  then have v: "be_val (replicate 31 0 @ [17]) = 17" by (simp add: be_val_def)
  have "be_val (take 1 [5]) = 5" by (simp add: be_val_def)
  then show ?thesis using mod_exp_correct [of "replicate 31 0 @ [17]" "3 # replicate 7 0" "[5]" 1] v by simp
qed

end
