(* ===== verification/Jacobian.thy ===== *)
theory Jacobian
  imports Main
begin

text \<open>
  What the curve routines of \<open>src/src/native.c\<close> are meant to compute: the addition of points of a curve
  \<open>y^2 = x^3 + a x + b\<close> over the integers modulo a prime, by chord and tangent, and multiples of a point.
  The code works in Jacobian coordinates, where \<open>(X, Y, Z)\<close> stands for \<open>(X / Z^2, Y / Z^3)\<close>; the lemmas show
  that those formulas are chord and tangent. Inverses are powers, as in the code, which Fermat's theorem justifies.
\<close>

type_synonym jac = "int \<times> int \<times> int"

definition jdouble :: "int \<Rightarrow> int \<Rightarrow> jac \<Rightarrow> jac" where
  "jdouble p a = (\<lambda>(x, y, z).
    if z = 0 then (x, y, z)
    else let s = 4 * x * y ^ 2; m = 3 * x ^ 2 + a * z ^ 4; x3 = m ^ 2 - 2 * s
         in (x3 mod p, (m * (s - x3) - 8 * y ^ 4) mod p, (2 * y * z) mod p))"

definition jadd :: "int \<Rightarrow> int \<Rightarrow> jac \<Rightarrow> jac \<Rightarrow> jac" where
  "jadd p a = (\<lambda>(x1, y1, z1) (x2, y2, z2).
    if z1 = 0 then (x2, y2, z2)
    else if z2 = 0 then (x1, y1, z1)
    else let u1 = x1 * z2 ^ 2; u2 = x2 * z1 ^ 2; s1 = y1 * z2 ^ 3; s2 = y2 * z1 ^ 3 in
      if u1 mod p = u2 mod p then (if s1 mod p \<noteq> s2 mod p then (0, 1, 0) else jdouble p a (x1, y1, z1))
      else let h = u2 - u1; r = 2 * (s2 - s1); x3 = r ^ 2 - 4 * h ^ 3 - 8 * u1 * h ^ 2
           in (x3 mod p, (r * (4 * u1 * h ^ 2 - x3) - 8 * s1 * h ^ 3) mod p, (2 * z1 * z2 * h) mod p))"

section \<open>Prime fields\<close>

definition prime_mod :: "int \<Rightarrow> bool" where
  "prime_mod p \<longleftrightarrow> 2 < p \<and> (\<forall>d > 0. d dvd p \<longrightarrow> d = 1 \<or> d = p)"

lemma prime_mult:
  assumes "prime_mod p" "p dvd x * y"
  shows "p dvd x \<or> p dvd y"
proof (rule disjCI)
  assume n: "\<not> p dvd y"
  have "gcd p y dvd p" "0 < gcd p y" using assms(1) by (auto simp: prime_mod_def)
  then have "gcd p y = 1 \<or> gcd p y = p" using assms(1) by (auto simp: prime_mod_def)
  moreover have "gcd p y \<noteq> p" using n by (metis gcd_dvd2)
  ultimately have "coprime p y" by (simp add: coprime_iff_gcd_eq_1)
  then show "p dvd x" using assms(2) by (simp add: coprime_dvd_mult_left_iff)
qed

lemma prime_power: "prime_mod p \<Longrightarrow> p dvd x ^ n \<Longrightarrow> p dvd x"
proof (induction n)
  case 0
  then show ?case by (auto simp: prime_mod_def)
next
  case (Suc n)
  then show ?case using prime_mult [of p x "x ^ n"] by auto
qed

lemma prime_prod: "finite A \<Longrightarrow> prime_mod p \<Longrightarrow> p dvd prod f A \<Longrightarrow> \<exists>x\<in>A. p dvd f x"
proof (induction A rule: finite_induct)
  case empty
  then show ?case by (auto simp: prime_mod_def)
next
  case (insert x A)
  then show ?case using prime_mult [of p "f x" "prod f A"] by auto
qed

lemma prime_cancel:
  assumes "prime_mod p" "\<not> p dvd c" "(x * c) mod p = (y * c) mod p"
  shows "x mod p = y mod p"
proof -
  have "p dvd (x - y) * c" using assms(3) by (simp add: mod_eq_dvd_iff left_diff_distrib)
  then show ?thesis using prime_mult [OF assms(1)] assms(2) by (auto simp: mod_eq_dvd_iff)
qed

text \<open>Multiplying by a unit permutes the nonzero residues.\<close>

lemma fermat:
  assumes p: "prime_mod p" and a: "\<not> p dvd a"
  shows "a ^ (nat p - 1) mod p = 1"
proof -
  let ?S = "{1..<p}" and ?f = "\<lambda>x. (a * x) mod p"
  have p2: "2 < p" using p by (simp add: prime_mod_def)
  have nd: "\<not> p dvd x" if "x \<in> ?S" for x using that by (auto dest: zdvd_imp_le)
  have inj: "inj_on ?f ?S"
  proof (rule inj_onI)
    fix x y assume xy: "x \<in> ?S" "y \<in> ?S" "?f x = ?f y"
    then have "x mod p = y mod p" using prime_cancel [OF p a, of x y] by (simp add: mult.commute)
    then show "x = y" using xy by simp
  qed
  have "?f ` ?S \<subseteq> ?S"
  proof
    fix z assume "z \<in> ?f ` ?S"
    then obtain x where x: "x \<in> ?S" "z = ?f x" by auto
    have "\<not> p dvd a * x" using prime_mult [OF p] a nd [OF x(1)] by blast
    then have "z \<noteq> 0" using x(2) by (simp add: dvd_eq_mod_eq_0)
    moreover have "0 \<le> z" "z < p" using x(2) p2 by simp_all
    ultimately show "z \<in> ?S" by simp
  qed
  then have im: "?f ` ?S = ?S" by (rule endo_inj_surj [OF finite_atLeastLessThan_int _ inj])
  have "prod ?f ?S = prod (\<lambda>x. x) (?f ` ?S)" by (simp add: prod.reindex [OF inj])
  then have "prod ?f ?S = prod (\<lambda>x. x) ?S" unfolding im .
  moreover have "prod ?f ?S mod p = prod ((*) a) ?S mod p" by (rule mod_prod_eq)
  moreover have "prod ((*) a) ?S = prod (\<lambda>x. x) ?S * a ^ (nat p - 1)"
    using p2 by (simp add: prod.distrib nat_diff_distrib)
  ultimately have e: "(1 * prod (\<lambda>x. x) ?S) mod p = (a ^ (nat p - 1) * prod (\<lambda>x. x) ?S) mod p" by (simp add: mult.commute)
  have "\<not> p dvd prod (\<lambda>x. x) ?S" using prime_prod [OF _ p, of ?S "\<lambda>x. x"] nd by blast
  then have "1 mod p = a ^ (nat p - 1) mod p" using prime_cancel [OF p] e by (metis mult.commute)
  then show ?thesis using p2 by simp
qed

definition pinverse :: "int \<Rightarrow> int \<Rightarrow> int" where
  "pinverse p z = z ^ nat (p - 2) mod p"

lemma pinverse_ok:
  assumes "prime_mod p" "\<not> p dvd z"
  shows "(z * pinverse p z) mod p = 1"
proof -
  have "nat p - 1 = Suc (nat (p - 2))" using assms(1) by (auto simp: prime_mod_def)
  then show ?thesis using fermat [OF assms] by (simp add: pinverse_def mod_mult_right_eq)
qed

section \<open>Chord and tangent\<close>

datatype apt = AtInf | Aff int int

definition pdouble :: "int \<Rightarrow> int \<Rightarrow> apt \<Rightarrow> apt" where
  "pdouble p a P = (case P of
     AtInf \<Rightarrow> AtInf
   | Aff x y \<Rightarrow>
       if y mod p = 0 then AtInf
       else let l = (3 * x ^ 2 + a) * pinverse p (2 * y); x3 = l ^ 2 - 2 * x
            in Aff (x3 mod p) ((l * (x - x3) - y) mod p))"

definition padd :: "int \<Rightarrow> int \<Rightarrow> apt \<Rightarrow> apt \<Rightarrow> apt" where
  "padd p a P Q = (case P of
     AtInf \<Rightarrow> Q
   | Aff x1 y1 \<Rightarrow> (case Q of
       AtInf \<Rightarrow> P
     | Aff x2 y2 \<Rightarrow>
         if x1 mod p = x2 mod p then (if y1 mod p \<noteq> y2 mod p then AtInf else pdouble p a P)
         else let l = (y2 - y1) * pinverse p (x2 - x1); x3 = l ^ 2 - x1 - x2
              in Aff (x3 mod p) ((l * (x1 - x3) - y1) mod p)))"

definition affine :: "int \<Rightarrow> jac \<Rightarrow> apt" where
  "affine p = (\<lambda>(x, y, z). if z = 0 then AtInf else Aff ((x * pinverse p z ^ 2) mod p) ((y * pinverse p z ^ 3) mod p))"

definition reduced_jac :: "int \<Rightarrow> jac \<Rightarrow> bool" where
  "reduced_jac p = (\<lambda>(x, y, z). x \<in> {0..<p} \<and> y \<in> {0..<p} \<and> z \<in> {0..<p})"

subsection \<open>Congruences\<close>

definition cg :: "int \<Rightarrow> int \<Rightarrow> int \<Rightarrow> bool" where
  "cg p x y \<longleftrightarrow> x mod p = y mod p"

lemma cg_refl: "cg p x x" and cg_sym: "cg p x y \<Longrightarrow> cg p y x" and cg_trans: "cg p x y \<Longrightarrow> cg p y z \<Longrightarrow> cg p x z"
  by (simp_all add: cg_def)

lemma cg_add: "cg p x x' \<Longrightarrow> cg p y y' \<Longrightarrow> cg p (x + y) (x' + y')"
  and cg_diff: "cg p x x' \<Longrightarrow> cg p y y' \<Longrightarrow> cg p (x - y) (x' - y')"
  and cg_mult: "cg p x x' \<Longrightarrow> cg p y y' \<Longrightarrow> cg p (x * y) (x' * y')"
  by (auto simp: cg_def intro: mod_add_cong mod_diff_cong mod_mult_cong)

lemma cg_power: "cg p x y \<Longrightarrow> cg p (x ^ n) (y ^ n)"
  by (induction n) (simp_all add: cg_refl cg_mult)

lemmas cg_intros = cg_add cg_diff cg_mult cg_power cg_refl

lemma cg_mod: "cg p (x mod p) x"
  by (simp add: cg_def)

text \<open>The affine point a triple stands for is the only one it is congruent to.\<close>

lemma affineI:
  assumes "prime_mod p" "\<not> p dvd z" "cg p x (u * z ^ 2)" "cg p y (v * z ^ 3)"
  shows "(x * pinverse p z ^ 2) mod p = u mod p \<and> (y * pinverse p z ^ 3) mod p = v mod p"
proof -
  let ?i = "pinverse p z"
  have i: "cg p (z * ?i) 1" using pinverse_ok [OF assms(1,2)] assms(1) by (simp add: cg_def prime_mod_def)
  have "cg p (x * ?i ^ 2) (u * z ^ 2 * ?i ^ 2)" "cg p (y * ?i ^ 3) (v * z ^ 3 * ?i ^ 3)" by (intro cg_intros assms)+
  moreover have "u * z ^ 2 * ?i ^ 2 = u * (z * ?i) ^ 2" "v * z ^ 3 * ?i ^ 3 = v * (z * ?i) ^ 3" by (simp_all add: power_mult_distrib)
  moreover have "cg p (u * (z * ?i) ^ 2) (u * 1 ^ 2)" "cg p (v * (z * ?i) ^ 3) (v * 1 ^ 3)" by (intro cg_intros i)+
  ultimately show ?thesis by (simp add: cg_def)
qed

lemma affineD:
  assumes "prime_mod p" "\<not> p dvd z"
  shows "cg p x ((x * pinverse p z ^ 2) mod p * z ^ 2)" "cg p y ((y * pinverse p z ^ 3) mod p * z ^ 3)"
proof -
  let ?i = "pinverse p z"
  have i: "cg p (z * ?i) 1" using pinverse_ok [OF assms] assms(1) by (simp add: cg_def prime_mod_def)
  have "cg p ((x * ?i ^ 2) mod p * z ^ 2) (x * ?i ^ 2 * z ^ 2)" "cg p ((y * ?i ^ 3) mod p * z ^ 3) (y * ?i ^ 3 * z ^ 3)"
    by (intro cg_mult cg_mod cg_refl)+
  moreover have "x * ?i ^ 2 * z ^ 2 = x * (z * ?i) ^ 2" "y * ?i ^ 3 * z ^ 3 = y * (z * ?i) ^ 3" by (simp_all add: power_mult_distrib)
  moreover have "cg p (x * (z * ?i) ^ 2) (x * 1 ^ 2)" "cg p (y * (z * ?i) ^ 3) (y * 1 ^ 3)" by (intro cg_intros i)+
  ultimately show "cg p x ((x * ?i ^ 2) mod p * z ^ 2)" "cg p y ((y * ?i ^ 3) mod p * z ^ 3)" by (simp_all add: cg_def)
qed

lemma tangent:
  assumes X: "cg p X (x * z ^ 2)" and Y: "cg p Y (y * z ^ 3)" and l: "cg p (l * (2 * y)) (3 * x ^ 2 + a)"
  defines "S \<equiv> 4 * X * Y ^ 2" and "M \<equiv> 3 * X ^ 2 + a * z ^ 4" and "w \<equiv> 2 * y * z ^ 4" and "u \<equiv> l ^ 2 - 2 * x"
  shows "cg p (2 * Y * z) w" "cg p (M ^ 2 - 2 * S) (u * w ^ 2)" "cg p (M * (S - (M ^ 2 - 2 * S)) - 8 * Y ^ 4) ((l * (x - u) - y) * w ^ 3)"
proof -
  have "cg p (2 * Y * z) (2 * (y * z ^ 3) * z)" by (intro cg_intros Y)
  moreover have "2 * (y * z ^ 3) * z = w" by (simp add: w_def power3_eq_cube power4_eq_xxxx)
  ultimately show "cg p (2 * Y * z) w" by simp
  have "cg p S (4 * (x * z ^ 2) * (y * z ^ 3) ^ 2)" unfolding S_def by (intro cg_intros X Y)
  moreover have "4 * (x * z ^ 2) * (y * z ^ 3) ^ 2 = x * w ^ 2" by (simp add: w_def power2_eq_square power3_eq_cube power4_eq_xxxx)
  ultimately have S: "cg p S (x * w ^ 2)" by simp
  have "cg p M (3 * (x * z ^ 2) ^ 2 + a * z ^ 4)" unfolding M_def by (intro cg_intros X)
  moreover have "3 * (x * z ^ 2) ^ 2 + a * z ^ 4 = (3 * x ^ 2 + a) * z ^ 4" by (simp add: power2_eq_square power4_eq_xxxx algebra_simps)
  moreover have "cg p ((3 * x ^ 2 + a) * z ^ 4) (l * (2 * y) * z ^ 4)" by (intro cg_mult cg_sym [OF l] cg_refl)
  moreover have "l * (2 * y) * z ^ 4 = l * w" by (simp add: w_def)
  ultimately have M: "cg p M (l * w)" using cg_trans by metis
  have "cg p (M ^ 2 - 2 * S) ((l * w) ^ 2 - 2 * (x * w ^ 2))" by (intro cg_intros M S)
  moreover have "(l * w) ^ 2 - 2 * (x * w ^ 2) = u * w ^ 2" by (simp add: u_def power2_eq_square algebra_simps)
  ultimately show X3: "cg p (M ^ 2 - 2 * S) (u * w ^ 2)" by simp
  have "cg p (M * (S - (M ^ 2 - 2 * S)) - 8 * Y ^ 4) (l * w * (x * w ^ 2 - u * w ^ 2) - 8 * (y * z ^ 3) ^ 4)"
    by (intro cg_diff cg_mult cg_power cg_refl M S X3 Y)
  moreover have "8 * (y * z ^ 3) ^ 4 = y * w ^ 3" by (simp add: w_def power3_eq_cube power4_eq_xxxx)
  moreover have "l * w * (x * w ^ 2 - u * w ^ 2) - y * w ^ 3 = (l * (x - u) - y) * w ^ 3" by (simp add: power2_eq_square power3_eq_cube algebra_simps)
  ultimately show "cg p (M * (S - (M ^ 2 - 2 * S)) - 8 * Y ^ 4) ((l * (x - u) - y) * w ^ 3)" by simp
qed

lemma chord:
  assumes X1: "cg p u1 (x1 * w ^ 2)" and X2: "cg p u2 (x2 * w ^ 2)" and Y1: "cg p s1 (y1 * w ^ 3)" and Y2: "cg p s2 (y2 * w ^ 3)"
    and l: "cg p (l * (x2 - x1)) (y2 - y1)"
  defines "h \<equiv> u2 - u1" and "r \<equiv> 2 * (s2 - s1)" and "d \<equiv> x2 - x1"
  defines "X3 \<equiv> r ^ 2 - 4 * h ^ 3 - 8 * u1 * h ^ 2" and "z \<equiv> 2 * (d * w ^ 3)" and "u \<equiv> l ^ 2 - x1 - x2"
  shows "cg p (2 * w * h) z" "cg p X3 (u * z ^ 2)" "cg p (r * (4 * u1 * h ^ 2 - X3) - 8 * s1 * h ^ 3) ((l * (x1 - u) - y1) * z ^ 3)"
proof -
  have "cg p h (x2 * w ^ 2 - x1 * w ^ 2)" unfolding h_def by (intro cg_diff X1 X2)
  then have h: "cg p h (d * w ^ 2)" by (simp add: d_def algebra_simps)
  have "cg p (2 * w * h) (2 * w * (d * w ^ 2))" by (intro cg_intros h)
  moreover have "2 * w * (d * w ^ 2) = z" by (simp add: z_def power2_eq_square power3_eq_cube)
  ultimately show "cg p (2 * w * h) z" by simp
  have "cg p r (2 * (y2 * w ^ 3 - y1 * w ^ 3))" unfolding r_def by (intro cg_intros Y1 Y2)
  moreover have "2 * (y2 * w ^ 3 - y1 * w ^ 3) = (y2 - y1) * (2 * w ^ 3)" by (simp add: algebra_simps)
  moreover have "cg p ((y2 - y1) * (2 * w ^ 3)) (l * d * (2 * w ^ 3))" unfolding d_def by (intro cg_mult cg_sym [OF l] cg_refl)
  moreover have "l * d * (2 * w ^ 3) = l * z" by (simp add: z_def)
  ultimately have r: "cg p r (l * z)" using cg_trans by metis
  have "cg p X3 ((l * z) ^ 2 - 4 * (d * w ^ 2) ^ 3 - 8 * (x1 * w ^ 2) * (d * w ^ 2) ^ 2)" unfolding X3_def by (intro cg_intros r h X1)
  moreover have "4 * (d * w ^ 2) ^ 3 = d * z ^ 2" "8 * (x1 * w ^ 2) * (d * w ^ 2) ^ 2 = 2 * x1 * z ^ 2"
    by (simp_all add: z_def power2_eq_square power3_eq_cube)
  moreover have "(l * z) ^ 2 - d * z ^ 2 - 2 * x1 * z ^ 2 = u * z ^ 2" by (simp add: u_def d_def power2_eq_square algebra_simps)
  ultimately show X3: "cg p X3 (u * z ^ 2)" by simp
  have "cg p (r * (4 * u1 * h ^ 2 - X3) - 8 * s1 * h ^ 3) (l * z * (4 * (x1 * w ^ 2) * (d * w ^ 2) ^ 2 - u * z ^ 2) - 8 * (y1 * w ^ 3) * (d * w ^ 2) ^ 3)"
    by (intro cg_diff cg_mult cg_power cg_refl r X1 h X3 Y1)
  moreover have "4 * (x1 * w ^ 2) * (d * w ^ 2) ^ 2 = x1 * z ^ 2" "8 * (y1 * w ^ 3) * (d * w ^ 2) ^ 3 = y1 * z ^ 3"
    by (simp_all add: z_def power2_eq_square power3_eq_cube)
  moreover have "l * z * (x1 * z ^ 2 - u * z ^ 2) - y1 * z ^ 3 = (l * (x1 - u) - y1) * z ^ 3" by (simp add: power2_eq_square power3_eq_cube algebra_simps)
  ultimately show "cg p (r * (4 * u1 * h ^ 2 - X3) - 8 * s1 * h ^ 3) ((l * (x1 - u) - y1) * z ^ 3)" by simp
qed

subsection \<open>The formulas are chord and tangent\<close>

lemma prime_two: "prime_mod p \<Longrightarrow> p dvd 2 * x \<Longrightarrow> p dvd x"
  using prime_mult [of p 2 x] zdvd_imp_le [of p 2] by (auto simp: prime_mod_def)

lemma cg_dvd: "cg p x y \<Longrightarrow> p dvd x \<longleftrightarrow> p dvd y"
  by (simp add: cg_def dvd_eq_mod_eq_0)

lemma reduced_dvd: "z \<in> {0..<p} \<Longrightarrow> p dvd z \<longleftrightarrow> z = 0" for z :: int
  by (auto dest: zdvd_imp_le)

text \<open>A triple with a nonzero third coordinate that is congruent to a multiple of a point stands for that point.\<close>

lemma affine_of:
  assumes p: "prime_mod p" and w: "\<not> p dvd w" "cg p z w" and x: "cg p x (u * w ^ 2)" "cg p y (v * w ^ 3)"
  shows "affine p (x mod p, y mod p, z mod p) = Aff (u mod p) (v mod p)"
proof -
  have z: "cg p (z mod p) w" using cg_trans [OF cg_mod w(2)] .
  then have n: "\<not> p dvd z mod p" "z mod p \<noteq> 0" using w(1) cg_dvd [OF z] by auto
  have "cg p (u * w ^ 2) (u * (z mod p) ^ 2)" "cg p (v * w ^ 3) (v * (z mod p) ^ 3)" by (intro cg_intros cg_sym [OF z])+
  then have "cg p (x mod p) (u * (z mod p) ^ 2)" "cg p (y mod p) (v * (z mod p) ^ 3)" using x cg_mod cg_trans by blast+
  from affineI [OF p n(1) this] n(2) show ?thesis by (simp add: affine_def)
qed

lemma slope: "prime_mod p \<Longrightarrow> \<not> p dvd d \<Longrightarrow> cg p (n * pinverse p d * d) n"
proof -
  assume p: "prime_mod p" "\<not> p dvd d"
  have i: "cg p (d * pinverse p d) 1" using pinverse_ok [OF p] p(1) by (simp add: cg_def prime_mod_def)
  have "cg p (n * (d * pinverse p d)) (n * 1)" by (intro cg_intros i)
  then show ?thesis by (simp add: mult_ac)
qed

lemma jdouble_affine:
  assumes p: "prime_mod p" and r: "reduced_jac p J"
  shows "affine p (jdouble p a J) = pdouble p a (affine p J)"
proof -
  obtain x y z where J: "J = (x, y, z)" by (cases J) auto
  show ?thesis
  proof (cases "z = 0")
    case True
    then show ?thesis by (simp add: J jdouble_def affine_def pdouble_def)
  next
    case False
    then have nz: "\<not> p dvd z" using r reduced_dvd [of z p] by (auto simp: J reduced_jac_def)
    define xa ya where "xa = (x * pinverse p z ^ 2) mod p" and "ya = (y * pinverse p z ^ 3) mod p"
    have X: "cg p x (xa * z ^ 2)" and Y: "cg p y (ya * z ^ 3)" unfolding xa_def ya_def using affineD [OF p nz] by blast+
    have af: "affine p J = Aff xa ya" using False by (simp add: J affine_def xa_def ya_def)
    define l where "l = (3 * xa ^ 2 + a) * pinverse p (2 * ya)"
    show ?thesis
    proof (cases "ya mod p = 0")
      case True
      then have "p dvd ya * z ^ 3" by auto
      then have "y mod p = 0" using cg_dvd [OF Y] by simp
      then have "(2 * y * z) mod p = 0" by auto
      then show ?thesis unfolding af using True False by (simp add: J jdouble_def pdouble_def affine_def Let_def)
    next
      case nya: False
      have n2: "\<not> p dvd 2 * ya" using prime_two [OF p, of ya] nya by (auto simp: dvd_eq_mod_eq_0)
      then have w: "\<not> p dvd 2 * ya * z ^ 4" using prime_mult [OF p, of "2 * ya" "z ^ 4"] prime_power [OF p, of z 4] nz by blast
      note t = tangent [OF X Y slope [OF p n2, of "3 * xa ^ 2 + a", folded l_def]]
      have "jdouble p a J = ((((3 * x\<^sup>2 + a * z ^ 4)\<^sup>2 - 2 * (4 * x * y\<^sup>2)) mod p),
          ((3 * x\<^sup>2 + a * z ^ 4) * (4 * x * y\<^sup>2 - ((3 * x\<^sup>2 + a * z ^ 4)\<^sup>2 - 2 * (4 * x * y\<^sup>2))) - 8 * y ^ 4) mod p, (2 * y * z) mod p)"
        using False by (simp only: J jdouble_def prod.case Let_def if_False)
      moreover have "pdouble p a (Aff xa ya) = Aff ((l ^ 2 - 2 * xa) mod p) ((l * (xa - (l ^ 2 - 2 * xa)) - ya) mod p)"
        using nya by (simp only: pdouble_def apt.case Let_def l_def if_False)
      ultimately show ?thesis using affine_of [OF p w t] unfolding af by (simp only:)
    qed
  qed
qed

lemma jadd_affine:
  assumes p: "prime_mod p" and r: "reduced_jac p J" "reduced_jac p K"
  shows "affine p (jadd p a J K) = padd p a (affine p J) (affine p K)"
proof -
  obtain x1 y1 z1 where J: "J = (x1, y1, z1)" by (cases J) auto
  obtain x2 y2 z2 where K: "K = (x2, y2, z2)" by (cases K) auto
  show ?thesis
  proof (cases "z1 = 0 \<or> z2 = 0")
    case True
    then show ?thesis by (auto simp: J K jadd_def affine_def padd_def)
  next
    case False
    then have nz: "\<not> p dvd z1" "\<not> p dvd z2" using r reduced_dvd [of z1 p] reduced_dvd [of z2 p] by (auto simp: J K reduced_jac_def)
    define a1 b1 where "a1 = (x1 * pinverse p z1 ^ 2) mod p" and "b1 = (y1 * pinverse p z1 ^ 3) mod p"
    define a2 b2 where "a2 = (x2 * pinverse p z2 ^ 2) mod p" and "b2 = (y2 * pinverse p z2 ^ 3) mod p"
    have A1: "cg p x1 (a1 * z1 ^ 2)" "cg p y1 (b1 * z1 ^ 3)" unfolding a1_def b1_def using affineD [OF p nz(1)] by blast+
    have A2: "cg p x2 (a2 * z2 ^ 2)" "cg p y2 (b2 * z2 ^ 3)" unfolding a2_def b2_def using affineD [OF p nz(2)] by blast+
    have af: "affine p J = Aff a1 b1" "affine p K = Aff a2 b2" using False by (simp_all add: J K affine_def a1_def b1_def a2_def b2_def)
    define w where "w = z1 * z2"
    have nw: "\<not> p dvd w" using prime_mult [OF p] nz by (auto simp: w_def)
    have "cg p (x1 * z2 ^ 2) (a1 * z1 ^ 2 * z2 ^ 2)" "cg p (x2 * z1 ^ 2) (a2 * z2 ^ 2 * z1 ^ 2)"
      "cg p (y1 * z2 ^ 3) (b1 * z1 ^ 3 * z2 ^ 3)" "cg p (y2 * z1 ^ 3) (b2 * z2 ^ 3 * z1 ^ 3)" by (intro cg_intros A1 A2)+
    then have U: "cg p (x1 * z2 ^ 2) (a1 * w ^ 2)" "cg p (x2 * z1 ^ 2) (a2 * w ^ 2)" "cg p (y1 * z2 ^ 3) (b1 * w ^ 3)" "cg p (y2 * z1 ^ 3) (b2 * w ^ 3)"
      by (simp_all add: w_def power_mult_distrib mult_ac)
    have iff: "(m mod p = n mod p) = (k mod p = j mod p)" if "cg p m (k * w ^ i)" "cg p n (j * w ^ i)" for m n k j i
      using prime_cancel [OF p, of "w ^ i" k j] prime_power [OF p] nw that mod_mult_cong [of k p j "w ^ i" "w ^ i"] by (auto simp: cg_def)
    show ?thesis
    proof (cases "a1 mod p = a2 mod p")
      case True
      then show ?thesis using False iff [OF U(1,2)] iff [OF U(3,4)] jdouble_affine [OF p r(1), of a] unfolding af
        by (simp add: J K jadd_def padd_def Let_def) (simp add: affine_def)
    next
      case na: False
      then have nd: "\<not> p dvd a2 - a1" by (simp add: mod_eq_dvd_iff [symmetric])
      define l where "l = (b2 - b1) * pinverse p (a2 - a1)"
      have wd: "\<not> p dvd 2 * ((a2 - a1) * w ^ 3)"
        using prime_two [OF p, of "(a2 - a1) * w ^ 3"] prime_mult [OF p, of "a2 - a1" "w ^ 3"] prime_power [OF p, of w 3] nd nw by blast
      note t = chord [OF U slope [OF p nd, of "b2 - b1", folded l_def]]
      have "2 * z1 * z2 = 2 * w" by (simp add: w_def)
      then have "jadd p a J K = (let u1 = x1 * z2 ^ 2; u2 = x2 * z1 ^ 2; s1 = y1 * z2 ^ 3; s2 = y2 * z1 ^ 3; h = u2 - u1; r = 2 * (s2 - s1);
          x3 = r ^ 2 - 4 * h ^ 3 - 8 * u1 * h ^ 2 in (x3 mod p, (r * (4 * u1 * h ^ 2 - x3) - 8 * s1 * h ^ 3) mod p, (2 * w * h) mod p))"
        using False na iff [OF U(1,2)] by (simp only: J K jadd_def prod.case Let_def if_False de_Morgan_disj simp_thms)
      moreover have "padd p a (Aff a1 b1) (Aff a2 b2) = Aff ((l ^ 2 - a1 - a2) mod p) ((l * (a1 - (l ^ 2 - a1 - a2)) - b1) mod p)"
        using na by (simp only: padd_def apt.case Let_def l_def if_False)
      ultimately show ?thesis using affine_of [OF p wd t] unfolding af by (simp only: Let_def)
    qed
  qed
qed

lemma reduced_jadd: "0 < p \<Longrightarrow> reduced_jac p J \<Longrightarrow> reduced_jac p (jdouble p a J)"
  "1 < p \<Longrightarrow> reduced_jac p J \<Longrightarrow> reduced_jac p K \<Longrightarrow> reduced_jac p (jadd p a J K)"
  by (auto simp: reduced_jac_def jdouble_def jadd_def Let_def split: prod.splits)

section \<open>Multiples\<close>

text \<open>The multiple of a point, by its binary digits from the top.\<close>

fun pmult :: "int \<Rightarrow> int \<Rightarrow> nat \<Rightarrow> apt \<Rightarrow> apt" where
  "pmult p a n P =
    (if n = 0 then AtInf
     else let Q = pdouble p a (pmult p a (n div 2) P) in if odd n then padd p a Q P else Q)"

declare pmult.simps [simp del]

lemma pmult_0 [simp]: "pmult p a 0 P = AtInf"
  by (simp add: pmult.simps)

lemma pdouble_AtInf [simp]: "pdouble p a AtInf = AtInf" and padd_AtInf [simp]: "padd p a AtInf P = P"
  by (simp_all add: pdouble_def padd_def)

lemma pmult_bit: "pmult p a (2 * n + of_bool b) P =
    (let Q = pdouble p a (pmult p a n P) in if b then padd p a Q P else Q)"
proof (cases "n = 0 \<and> \<not> b")
  case True
  then show ?thesis by simp
next
  case False
  have "(2 * n + of_bool b) div 2 = n" "odd (2 * n + of_bool b :: nat) = b" "2 * n + of_bool b \<noteq> 0" using False by auto
  then show ?thesis unfolding pmult.simps [of p a "2 * n + of_bool b" P] by (simp only: if_False)
qed

lemma pmult_one: "pmult p a 1 P = P"
  using pmult_bit [of p a 0 True P] by simp

text \<open>The sum of two multiples, in Jacobian coordinates and in one pass over the digits of both scalars.\<close>

definition jpick :: "int \<Rightarrow> int \<Rightarrow> jac \<Rightarrow> jac \<Rightarrow> bool \<Rightarrow> bool \<Rightarrow> jac \<Rightarrow> jac" where
  "jpick p a G Q b1 b2 acc =
    (if b1 then jadd p a acc (if b2 then jadd p a G Q else G) else if b2 then jadd p a acc Q else acc)"

lemma halves_less: "0 < u \<Longrightarrow> u div 2 + v div 2 < u + v" "0 < v \<Longrightarrow> u div 2 + v div 2 < u + v" for u v :: nat
  by simp_all

function jmult2 :: "int \<Rightarrow> int \<Rightarrow> jac \<Rightarrow> jac \<Rightarrow> nat \<Rightarrow> nat \<Rightarrow> jac" where
  "jmult2 p a G Q u1 u2 =
    (if u1 = 0 \<and> u2 = 0 then (0, 1, 0)
     else jpick p a G Q (odd u1) (odd u2) (jdouble p a (jmult2 p a G Q (u1 div 2) (u2 div 2))))"
  by pat_completeness auto
termination
  by (relation "measure (\<lambda>(p, a, G, Q, u1, u2). u1 + u2)") (auto simp: halves_less)

declare jmult2.simps [simp del]

lemma jmult2_0 [simp]: "jmult2 p a G Q 0 0 = (0, 1, 0)" and jdouble_0 [simp]: "jdouble p a (x, y, 0) = (x, y, 0)" and jadd_0 [simp]: "jadd p a (x, y, 0) J = J"
  by (simp_all add: jmult2.simps jdouble_def jadd_def split: prod.splits)

lemma jmult2_bit:
  "jmult2 p a G Q (2 * u1 + of_bool b1) (2 * u2 + of_bool b2) = jpick p a G Q b1 b2 (jdouble p a (jmult2 p a G Q u1 u2))"
proof (cases "u1 = 0 \<and> u2 = 0 \<and> \<not> b1 \<and> \<not> b2")
  case True
  then show ?thesis by (simp add: jpick_def)
next
  case False
  have d: "(2 * u + of_bool b) div 2 = u" "odd (2 * u + of_bool b :: nat) = b" for u b by auto
  have "\<not> (2 * u1 + of_bool b1 = 0 \<and> 2 * u2 + of_bool b2 = 0)" using False by auto
  then show ?thesis unfolding jmult2.simps [of p a G Q "2 * u1 + of_bool b1" "2 * u2 + of_bool b2"] d by (simp only: if_False)
qed

end
