(* ===== verification/Ecc.thy ===== *)
theory Ecc
  imports Bignum Jacobian
begin

text \<open>
  Elliptic curves in \<open>src/src/native.c\<close> (\<open>ec_*\<close>, \<open>p256_*\<close>, \<open>k1_*\<close>): points in Jacobian coordinates over the
  Montgomery arithmetic of \<open>Bignum\<close>, scalar multiples, and the two verifications. A routine that
  returns 0 for an input it refuses is \<open>None\<close> or \<open>False\<close> here. The arguments that are arrays of a fixed
  size in C are lists of that length.
\<close>

unbundle bit_operations_syntax

section \<open>The code\<close>

record ec_pt =
  e_x :: "u32 list"
  e_y :: "u32 list"
  e_z :: "u32 list"

record ec_curve =
  c_ready :: bool
  c_p :: bn_mod
  c_n :: bn_mod
  c_b :: "u32 list"
  c_g :: ec_pt
  c_a_zero :: bool

definition ec_is_zero :: "u32 list \<Rightarrow> bool" where
  "ec_is_zero a \<longleftrightarrow> fold (\<lambda>i d. d OR a ! i) [0..<EC_K] 0 = 0"

definition ec_eq :: "u32 list \<Rightarrow> u32 list \<Rightarrow> bool" where
  "ec_eq a b \<longleftrightarrow> fold (\<lambda>i d. d OR (a ! i XOR b ! i)) [0..<EC_K] 0 = 0"

definition ec_init :: "byte list \<Rightarrow> byte list \<Rightarrow> byte list \<Rightarrow> byte list \<Rightarrow> byte list \<Rightarrow> bool \<Rightarrow> ec_curve \<Rightarrow> ec_curve" where
  "ec_init pbe nbe bbe gxbe gybe a_zero c =
    (if c_ready c then c
     else let p = bn_mod_init pbe; n = bn_mod_init nbe in
       \<lparr>c_ready = True, c_p = p, c_n = n, c_b = bn_mod_enter p (bn_unpack bbe EC_K),
        c_g = \<lparr>e_x = bn_mod_enter p (bn_unpack gxbe EC_K), e_y = bn_mod_enter p (bn_unpack gybe EC_K), e_z = m_one p\<rparr>,
        c_a_zero = a_zero\<rparr>)"

definition FMUL :: "ec_curve \<Rightarrow> u32 list \<Rightarrow> u32 list \<Rightarrow> u32 list" where "FMUL c a b = bn_mod_mul (c_p c) a b"
definition FADD :: "ec_curve \<Rightarrow> u32 list \<Rightarrow> u32 list \<Rightarrow> u32 list" where "FADD c a b = bn_mod_add a b (m_m (c_p c)) EC_K"
definition FSUB :: "ec_curve \<Rightarrow> u32 list \<Rightarrow> u32 list \<Rightarrow> u32 list" where "FSUB c a b = bn_mod_sub a b (m_m (c_p c)) EC_K"

definition double_azero :: "ec_curve \<Rightarrow> ec_pt \<Rightarrow> ec_pt" where
  "double_azero c a =
    (let aa = FMUL c (e_x a) (e_x a);
         bb = FMUL c (e_y a) (e_y a);
         cc = FMUL c bb bb;
         t1 = FADD c (e_x a) bb;
         t1 = FMUL c t1 t1;
         t1 = FSUB c t1 aa;
         t1 = FSUB c t1 cc;
         dd = FADD c t1 t1;
         ee = FADD c aa aa;
         ee = FADD c ee aa;
         t1 = FMUL c ee ee;
         t2 = FADD c dd dd;
         t2 = FSUB c t1 t2;
         t1 = FADD c cc cc;
         t1 = FADD c t1 t1;
         t1 = FADD c t1 t1;
         cc = FSUB c dd t2;
         cc = FMUL c ee cc;
         bb = FSUB c cc t1;
         t1 = FMUL c (e_y a) (e_z a);
         aa = FADD c t1 t1
     in \<lparr>e_x = t2, e_y = bb, e_z = aa\<rparr>)"

definition double_aminus3 :: "ec_curve \<Rightarrow> ec_pt \<Rightarrow> ec_pt" where
  "double_aminus3 c a =
    (let delta = FMUL c (e_z a) (e_z a);
         gamma = FMUL c (e_y a) (e_y a);
         beta = FMUL c (e_x a) gamma;
         t1 = FSUB c (e_x a) delta;
         t2 = FADD c t1 t1;
         t1 = FADD c t2 t1;
         t2 = FADD c (e_x a) delta;
         alpha = FMUL c t1 t2;
         t1 = FADD c beta beta;
         t1 = FADD c t1 t1;
         t2 = FADD c t1 t1;
         ox = FMUL c alpha alpha;
         ox = FSUB c ox t2;
         t2 = FADD c (e_y a) (e_z a);
         t2 = FMUL c t2 t2;
         t2 = FSUB c t2 gamma;
         oz = FSUB c t2 delta;
         t1 = FSUB c t1 ox;
         t1 = FMUL c alpha t1;
         t2 = FMUL c gamma gamma;
         t2 = FADD c t2 t2;
         t2 = FADD c t2 t2;
         t2 = FADD c t2 t2;
         oy = FSUB c t1 t2
     in \<lparr>e_x = ox, e_y = oy, e_z = oz\<rparr>)"

definition ec_double :: "ec_curve \<Rightarrow> ec_pt \<Rightarrow> ec_pt" where
  "ec_double c a =
    (if ec_is_zero (e_z a) then a
     else if c_a_zero c then double_azero c a
     else double_aminus3 c a)"

text \<open>The formulas of \<open>ec_add\<close> for two points with different \<open>x\<close>.\<close>

definition add_chord :: "ec_curve \<Rightarrow> ec_pt \<Rightarrow> ec_pt \<Rightarrow> u32 list \<Rightarrow> u32 list \<Rightarrow> u32 list \<Rightarrow> u32 list \<Rightarrow> u32 list \<Rightarrow> u32 list \<Rightarrow> ec_pt" where
  "add_chord c a b z1z1 z2z2 u1 u2 s1 s2 =
    (let h = FSUB c u2 u1;
         i = FADD c h h;
         i = FMUL c i i;
         j = FMUL c h i;
         r = FSUB c s2 s1;
         r = FADD c r r;
         v = FMUL c u1 i;
         t1 = FMUL c r r;
         t1 = FSUB c t1 j;
         ox = FSUB c t1 v;
         ox = FSUB c ox v;
         t1 = FSUB c v ox;
         t1 = FMUL c r t1;
         v = FMUL c s1 j;
         v = FADD c v v;
         oy = FSUB c t1 v;
         t1 = FADD c (e_z a) (e_z b);
         t1 = FMUL c t1 t1;
         t1 = FSUB c t1 z1z1;
         t1 = FSUB c t1 z2z2;
         oz = FMUL c t1 h
     in \<lparr>e_x = ox, e_y = oy, e_z = oz\<rparr>)"

definition ec_add :: "ec_curve \<Rightarrow> ec_pt \<Rightarrow> ec_pt \<Rightarrow> ec_pt" where
  "ec_add c a b =
    (if ec_is_zero (e_z a) then b
     else if ec_is_zero (e_z b) then a
     else let z1z1 = FMUL c (e_z a) (e_z a);
              z2z2 = FMUL c (e_z b) (e_z b);
              u1 = FMUL c (e_x a) z2z2;
              u2 = FMUL c (e_x b) z1z1;
              s1 = FMUL c (e_y a) (e_z b);
              s1 = FMUL c s1 z2z2;
              s2 = FMUL c (e_y b) (e_z a);
              s2 = FMUL c s2 z1z1
          in if ec_eq u1 u2 then
               (if \<not> ec_eq s1 s2 then \<lparr>e_x = replicate EC_K 0, e_y = m_one (c_p c), e_z = replicate EC_K 0\<rparr>
                else ec_double c a)
             else add_chord c a b z1z1 z2z2 u1 u2 s1 s2)"

definition ec_on_curve :: "ec_curve \<Rightarrow> u32 list \<Rightarrow> u32 list \<Rightarrow> bool" where
  "ec_on_curve c x y =
    (let rhs = FMUL c x x;
         rhs = FMUL c rhs x;
         rhs = (if \<not> c_a_zero c then let t = FADD c x x; t = FADD c t x in FSUB c rhs t else rhs);
         rhs = FADD c rhs (c_b c);
         lhs = FMUL c y y
     in ec_eq lhs rhs)"

definition ec_infinity :: "ec_curve \<Rightarrow> ec_pt" where
  "ec_infinity c = \<lparr>e_x = replicate EC_K 0, e_y = m_one (c_p c), e_z = replicate EC_K 0\<rparr>"

text \<open>One bit of both scalars in Shamir's trick, and of the one scalar of \<open>ec_mul\<close>: \<open>None\<close> adds nothing.\<close>

definition scan_bit :: "ec_curve \<Rightarrow> ec_pt option \<Rightarrow> ec_pt \<times> bool \<Rightarrow> ec_pt \<times> bool" where
  "scan_bit c q x =
    (case x of (acc, started) \<Rightarrow>
      let acc = (if started then ec_double c acc else acc) in
      case q of
        None \<Rightarrow> (acc, started)
      | Some q \<Rightarrow> if started then (ec_add c acc q, True) else (q, True))"

definition shamir_pick :: "ec_pt \<Rightarrow> ec_pt \<Rightarrow> ec_pt \<Rightarrow> bool \<times> bool \<Rightarrow> ec_pt option" where
  "shamir_pick t1 t2 t3 b = (case b of (b1, b2) \<Rightarrow> if b1 then Some (if b2 then t3 else t1) else if b2 then Some t2 else None)"

definition ec_double_scalar_mul :: "ec_curve \<Rightarrow> byte list \<Rightarrow> byte list \<Rightarrow> ec_pt \<Rightarrow> ec_pt" where
  "ec_double_scalar_mul c u1 u2 q =
    (let pick = shamir_pick (c_g c) q (ec_add c (c_g c) q) in
     fst (fold (scan_bit c) (map pick (zip (concat (map byte_bits (take 32 u1))) (concat (map byte_bits (take 32 u2))))) (ec_infinity c, False)))"

definition ec_mul :: "ec_curve \<Rightarrow> byte list \<Rightarrow> ec_pt \<Rightarrow> ec_pt" where
  "ec_mul c k q =
    fst (fold (scan_bit c) (map (\<lambda>b. if b then Some q else None) (concat (map byte_bits (take 32 k)))) (ec_infinity c, False))"

definition minus2 :: "byte list \<Rightarrow> byte list" where
  "minus2 e = e[31 := e ! 31 - 2]"

definition ec_affine :: "ec_curve \<Rightarrow> ec_pt \<Rightarrow> (byte list \<times> byte list) option" where
  "ec_affine c pt =
    (if ec_is_zero (e_z pt) then None
     else let zinv = bn_mod_exp (c_p c) (e_z pt) (minus2 (bn_pack (m_m (c_p c)) EC_K)) 32;
              z2 = FMUL c zinv zinv;
              t = FMUL c (e_x pt) z2;
              x = bn_pack (bn_mod_leave (c_p c) t) EC_K;
              t = FMUL c z2 zinv;
              t = FMUL c (e_y pt) t
          in Some (x, bn_pack (bn_mod_leave (c_p c) t) EC_K))"

definition ec_below :: "u32 list \<Rightarrow> u32 list \<Rightarrow> bool" where
  "ec_below a m \<longleftrightarrow> snd (bn_sub a m EC_K) \<noteq> 0"

section \<open>P-256\<close>

definition p256_p_be :: "byte list" where
  "p256_p_be = [0xff,0xff,0xff,0xff,0x00,0x00,0x00,0x01,0x00,0x00,0x00,0x00,0x00,0x00,0x00,0x00,
    0x00,0x00,0x00,0x00,0xff,0xff,0xff,0xff,0xff,0xff,0xff,0xff,0xff,0xff,0xff,0xff]"

definition p256_n_be :: "byte list" where
  "p256_n_be = [0xff,0xff,0xff,0xff,0x00,0x00,0x00,0x00,0xff,0xff,0xff,0xff,0xff,0xff,0xff,0xff,
    0xbc,0xe6,0xfa,0xad,0xa7,0x17,0x9e,0x84,0xf3,0xb9,0xca,0xc2,0xfc,0x63,0x25,0x51]"

definition p256_b_be :: "byte list" where
  "p256_b_be = [0x5a,0xc6,0x35,0xd8,0xaa,0x3a,0x93,0xe7,0xb3,0xeb,0xbd,0x55,0x76,0x98,0x86,0xbc,
    0x65,0x1d,0x06,0xb0,0xcc,0x53,0xb0,0xf6,0x3b,0xce,0x3c,0x3e,0x27,0xd2,0x60,0x4b]"

definition p256_gx_be :: "byte list" where
  "p256_gx_be = [0x6b,0x17,0xd1,0xf2,0xe1,0x2c,0x42,0x47,0xf8,0xbc,0xe6,0xe5,0x63,0xa4,0x40,0xf2,
    0x77,0x03,0x7d,0x81,0x2d,0xeb,0x33,0xa0,0xf4,0xa1,0x39,0x45,0xd8,0x98,0xc2,0x96]"

definition p256_gy_be :: "byte list" where
  "p256_gy_be = [0x4f,0xe3,0x42,0xe2,0xfe,0x1a,0x7f,0x9b,0x8e,0xe7,0xeb,0x4a,0x7c,0x0f,0x9e,0x16,
    0x2b,0xce,0x33,0x57,0x6b,0x31,0x5e,0xce,0xcb,0xb6,0x40,0x68,0x37,0xbf,0x51,0xf5]"

definition p256_init :: "ec_curve \<Rightarrow> ec_curve" where
  "p256_init = ec_init p256_p_be p256_n_be p256_b_be p256_gx_be p256_gy_be False"

definition p256_point :: "ec_curve \<Rightarrow> byte list \<Rightarrow> nat \<Rightarrow> ec_pt option" where
  "p256_point c s len =
    (if len \<noteq> 65 \<or> s ! 0 \<noteq> 0x04 then None
     else let x = bn_unpack (drop 1 s) EC_K; y = bn_unpack (drop 33 s) EC_K in
       if snd (bn_sub x (m_m (c_p c)) EC_K) = 0 then None
       else if snd (bn_sub y (m_m (c_p c)) EC_K) = 0 then None
       else let ox = bn_mod_enter (c_p c) x; oy = bn_mod_enter (c_p c) y in
         if ec_is_zero ox \<and> ec_is_zero oy then None
         else if ec_on_curve c ox oy then Some \<lparr>e_x = ox, e_y = oy, e_z = m_one (c_p c)\<rparr> else None)"

definition reduce_once :: "u32 list \<Rightarrow> u32 list \<Rightarrow> u32 list" where
  "reduce_once e m = (case bn_sub e m EC_K of (scratch, borrow) \<Rightarrow> if borrow = 0 then scratch else e)"

definition p256_verify :: "ec_curve \<Rightarrow> byte list \<Rightarrow> nat \<Rightarrow> byte list \<Rightarrow> nat \<Rightarrow> byte list \<Rightarrow> byte list \<Rightarrow> bool" where
  "p256_verify c pub publen hash hashlen rb sb =
    (let c = p256_init c in
     if hashlen \<noteq> 32 then False
     else case p256_point c pub publen of
       None \<Rightarrow> False
     | Some q \<Rightarrow>
         let r = bn_unpack rb EC_K; s = bn_unpack sb EC_K in
         if ec_is_zero r \<or> ec_is_zero s then False
         else if snd (bn_sub r (m_m (c_n c)) EC_K) = 0 then False
         else if snd (bn_sub s (m_m (c_n c)) EC_K) = 0 then False
         else
           let e = reduce_once (bn_unpack hash EC_K) (m_m (c_n c));
               w = bn_mod_enter (c_n c) s;
               w = bn_mod_exp (c_n c) w (minus2 p256_n_be) 32;
               u1 = bn_mod_enter (c_n c) e;
               u1 = bn_mod_mul (c_n c) u1 w;
               u1 = bn_mod_leave (c_n c) u1;
               u2 = bn_mod_enter (c_n c) r;
               u2 = bn_mod_mul (c_n c) u2 w;
               u2 = bn_mod_leave (c_n c) u2;
               point = ec_double_scalar_mul c (bn_pack u1 EC_K) (bn_pack u2 EC_K) q
           in if ec_is_zero (e_z point) then False
              else
                let zinv = bn_mod_exp (c_p c) (e_z point) (minus2 p256_p_be) 32;
                    x = FMUL c zinv zinv;
                    x = FMUL c (e_x point) x;
                    x = bn_mod_leave (c_p c) x;
                    xb = bn_pack x EC_K;
                    x = reduce_once (bn_unpack xb EC_K) (m_m (c_n c))
                in ec_eq x r)"

section \<open>secp256k1\<close>

definition k1_p_be :: "byte list" where
  "k1_p_be = [0xff,0xff,0xff,0xff,0xff,0xff,0xff,0xff,0xff,0xff,0xff,0xff,0xff,0xff,0xff,0xff,
    0xff,0xff,0xff,0xff,0xff,0xff,0xff,0xff,0xff,0xff,0xff,0xfe,0xff,0xff,0xfc,0x2f]"

definition k1_n_be :: "byte list" where
  "k1_n_be = [0xff,0xff,0xff,0xff,0xff,0xff,0xff,0xff,0xff,0xff,0xff,0xff,0xff,0xff,0xff,0xfe,
    0xba,0xae,0xdc,0xe6,0xaf,0x48,0xa0,0x3b,0xbf,0xd2,0x5e,0x8c,0xd0,0x36,0x41,0x41]"

definition k1_b_be :: "byte list" where
  "k1_b_be = replicate 31 0 @ [7]"

definition k1_gx_be :: "byte list" where
  "k1_gx_be = [0x79,0xbe,0x66,0x7e,0xf9,0xdc,0xbb,0xac,0x55,0xa0,0x62,0x95,0xce,0x87,0x0b,0x07,
    0x02,0x9b,0xfc,0xdb,0x2d,0xce,0x28,0xd9,0x59,0xf2,0x81,0x5b,0x16,0xf8,0x17,0x98]"

definition k1_gy_be :: "byte list" where
  "k1_gy_be = [0x48,0x3a,0xda,0x77,0x26,0xa3,0xc4,0x65,0x5d,0xa4,0xfb,0xfc,0x0e,0x11,0x08,0xa8,
    0xfd,0x17,0xb4,0x48,0xa6,0x85,0x54,0x19,0x9c,0x47,0xd0,0x8f,0xfb,0x10,0xd4,0xb8]"

definition k1_sqrt_be :: "byte list" where
  "k1_sqrt_be = [0x3f,0xff,0xff,0xff,0xff,0xff,0xff,0xff,0xff,0xff,0xff,0xff,0xff,0xff,0xff,0xff,
    0xff,0xff,0xff,0xff,0xff,0xff,0xff,0xff,0xff,0xff,0xff,0xff,0xbf,0xff,0xff,0x0c]"

definition k1_init :: "ec_curve \<Rightarrow> ec_curve" where
  "k1_init = ec_init k1_p_be k1_n_be k1_b_be k1_gx_be k1_gy_be True"

definition k1_lift_x :: "ec_curve \<Rightarrow> byte list \<Rightarrow> ec_pt option" where
  "k1_lift_x c xb =
    (let x = bn_unpack xb EC_K in
     if \<not> ec_below x (m_m (c_p c)) then None
     else
       let ox = bn_mod_enter (c_p c) x;
           t = FMUL c ox ox;
           t = FMUL c t ox;
           t = FADD c t (c_b c);
           y = bn_mod_exp (c_p c) t k1_sqrt_be 32;
           oy = FMUL c y y
       in if \<not> ec_eq oy t then None
          else
            let oy = bn_mod_leave (c_p c) y;
                yb = bn_pack oy EC_K;
                y = (if yb ! 31 AND 1 \<noteq> 0 then bn_mod_sub (m_m (c_p c)) y (m_m (c_p c)) EC_K else y)
            in Some \<lparr>e_x = ox, e_y = y, e_z = m_one (c_p c)\<rparr>)"

definition k1_mul_g :: "ec_curve \<Rightarrow> byte list \<Rightarrow> (byte list \<times> byte list) option" where
  "k1_mul_g c k =
    (let c = k1_init c; d = bn_unpack k EC_K in
     if ec_is_zero d \<or> \<not> ec_below d (m_m (c_n c)) then None
     else ec_affine c (ec_mul c k (c_g c)))"

definition k1_ecdh :: "ec_curve \<Rightarrow> byte list \<Rightarrow> byte list \<Rightarrow> byte list option" where
  "k1_ecdh c k pub =
    (let c = k1_init c; d = bn_unpack k EC_K in
     if ec_is_zero d \<or> \<not> ec_below d (m_m (c_n c)) then None
     else case k1_lift_x c pub of
       None \<Rightarrow> None
     | Some q \<Rightarrow> map_option fst (ec_affine c (ec_mul c k q)))"

definition k1_verify :: "ec_curve \<Rightarrow> byte list \<Rightarrow> byte list \<Rightarrow> byte list \<Rightarrow> byte list \<Rightarrow> bool" where
  "k1_verify c pub e rb sb =
    (let c = k1_init c in
     if \<not> ec_below (bn_unpack sb EC_K) (m_m (c_n c)) then False
     else if \<not> ec_below (bn_unpack e EC_K) (m_m (c_n c)) then False
     else if \<not> ec_below (bn_unpack rb EC_K) (m_m (c_p c)) then False
     else case k1_lift_x c pub of
       None \<Rightarrow> False
     | Some pp \<Rightarrow>
         let pp = pp\<lparr>e_y := bn_mod_sub (m_m (c_p c)) (e_y pp) (m_m (c_p c)) EC_K\<rparr>;
             r = ec_double_scalar_mul c sb e pp
         in case ec_affine c r of
              None \<Rightarrow> False
            | Some (rx, ry) \<Rightarrow> if ry ! 31 AND 1 \<noteq> 0 then False else take 32 rx = take 32 rb)"

section \<open>Limbs as residues\<close>

text \<open>The limbs \<open>x\<close> are reduced and stand, in Montgomery form, for the residue of \<open>v\<close>.\<close>

definition field_char :: "ec_curve \<Rightarrow> int" where
  "field_char c = int (bnval (m_m (c_p c)))"

definition rep :: "ec_curve \<Rightarrow> u32 list \<Rightarrow> int \<Rightarrow> bool" where
  "rep c x v \<longleftrightarrow> reduced (m_m (c_p c)) x \<and> int (mval (c_p c) x) = v mod field_char c"

definition pt_ok :: "ec_curve \<Rightarrow> ec_pt \<Rightarrow> bool" where
  "pt_ok c a \<longleftrightarrow> reduced (m_m (c_p c)) (e_x a) \<and> reduced (m_m (c_p c)) (e_y a) \<and> reduced (m_m (c_p c)) (e_z a)"

definition jv :: "ec_curve \<Rightarrow> ec_pt \<Rightarrow> jac" where
  "jv c a = (int (mval (c_p c) (e_x a)), int (mval (c_p c) (e_y a)), int (mval (c_p c) (e_z a)))"

definition coef_a :: "ec_curve \<Rightarrow> int" where
  "coef_a c = (if c_a_zero c then 0 else - 3)"

lemma or_fold_0: "fold (\<lambda>i d. d OR f i) is d = (0 :: u32) \<longleftrightarrow> d = 0 \<and> (\<forall>i\<in>set is. f i = 0)"
  by (induction "is" arbitrary: d) (auto simp: or_eq_0_iff)

lemma is_zero_iff: "length a = EC_K \<Longrightarrow> ec_is_zero a \<longleftrightarrow> a = replicate EC_K 0"
  unfolding ec_is_zero_def or_fold_0 by (auto simp: list_eq_iff_nth_eq)

lemma ec_eq_iff: "length a = EC_K \<Longrightarrow> length b = EC_K \<Longrightarrow> ec_eq a b \<longleftrightarrow> a = b"
  unfolding ec_eq_def or_fold_0 by (auto simp: list_eq_iff_nth_eq)

text \<open>A curve whose field is set up: what every call on points relies on.\<close>

locale curve =
  fixes c :: ec_curve
  assumes field_ok: "mod_ok (c_p c)"
begin

abbreviation P :: int where "P \<equiv> field_char c"

lemma rep_mval: "reduced (m_m (c_p c)) x \<Longrightarrow> rep c x (int (mval (c_p c) x))"
  using mval_less [OF field_ok] by (simp add: rep_def field_char_def)

lemma rep_mul: "rep c x v \<Longrightarrow> rep c y w \<Longrightarrow> rep c (FMUL c x y) (v * w)"
  using mod_mul_red(1) [OF field_ok] mval_mul [OF field_ok] by (simp add: rep_def FMUL_def of_nat_mod mod_mult_eq field_char_def)

lemma rep_add: "rep c x v \<Longrightarrow> rep c y w \<Longrightarrow> rep c (FADD c x y) (v + w)"
  using mod_add_ok [OF _ _ mod_okD(1) [OF field_ok, symmetric]] mval_add [OF field_ok]
  by (simp add: rep_def FADD_def of_nat_mod mod_add_eq field_char_def)

lemma rep_sub:
  assumes "rep c x v" "rep c y w"
  shows "rep c (FSUB c x y) (v - w)"
proof -
  have "mval (c_p c) y < bnval (m_m (c_p c))" using assms(2) mval_less [OF field_ok] by (simp add: rep_def)
  then have "int (mval (c_p c) (FSUB c x y)) = (int (mval (c_p c) x) + P - int (mval (c_p c) y)) mod P"
    using mval_sub [OF field_ok] assms by (simp add: rep_def FSUB_def of_nat_mod of_nat_diff field_char_def)
  also have "\<dots> = (int (mval (c_p c) x) - int (mval (c_p c) y)) mod P" by (metis add_diff_eq add_diff_cancel_right' diff_add_eq mod_add_self2)
  also have "\<dots> = (v - w) mod P" using assms by (simp add: rep_def mod_diff_eq)
  finally show ?thesis
    using mod_sub_ok [OF _ _ mod_okD(1) [OF field_ok, symmetric]] assms by (simp add: rep_def FSUB_def)
qed

lemma rep_eq: "rep c x v \<Longrightarrow> rep c y w \<Longrightarrow> ec_eq x y \<longleftrightarrow> v mod P = w mod P"
  using mval_inject [OF field_ok, of x y] ec_eq_iff [of x y] mod_okD(1) [OF field_ok] by (auto simp: rep_def reduced_def)

lemma rep_zero: "rep c (replicate EC_K 0) 0"
proof -
  have "reduced (m_m (c_p c)) (replicate EC_K 0)" using mod_okD(1,3) [OF field_ok] by (simp add: reduced_def)
  moreover from this have "mval (c_p c) (replicate EC_K 0) = 0" using mval_iff [OF field_ok, of "replicate EC_K 0" 0] by simp
  ultimately show ?thesis by (simp add: rep_def)
qed

lemma rep_one: "rep c (m_one (c_p c)) 1"
  using mval_one [OF field_ok] mod_okD(3,6) [OF field_ok] by (simp add: rep_def field_char_def)

lemma is_zero_rep: "reduced (m_m (c_p c)) x \<Longrightarrow> ec_is_zero x \<longleftrightarrow> mval (c_p c) x = 0"
  using is_zero_iff [of x] mod_okD(1) [OF field_ok] rep_zero mval_inject [OF field_ok, of x "replicate EC_K 0"]
  by (auto simp: rep_def reduced_def)

lemma jv_rep:
  assumes "rep c (e_x o') x" "rep c (e_y o') y" "rep c (e_z o') z"
  shows "pt_ok c o' \<and> jv c o' = (x mod P, y mod P, z mod P)"
  using assms by (simp add: rep_def pt_ok_def jv_def)

lemma double_azero_ok:
  assumes "rep c (e_x a) x" "rep c (e_y a) y" "rep c (e_z a) z"
  shows "pt_ok c (double_azero c a) \<and> jv c (double_azero c a) =
    (((3 * x ^ 2) ^ 2 - 2 * (4 * x * y ^ 2)) mod P,
     (3 * x ^ 2 * (4 * x * y ^ 2 - ((3 * x ^ 2) ^ 2 - 2 * (4 * x * y ^ 2))) - 8 * y ^ 4) mod P, (2 * y * z) mod P)"
proof -
  note x = assms(1) and y = assms(2) and z = assms(3)
  define aa bb where "aa = FMUL c (e_x a) (e_x a)" and "bb = FMUL c (e_y a) (e_y a)"
  define cc where "cc = FMUL c bb bb"
  define t1 where "t1 = FADD c (e_x a) bb"
  define t2 where "t2 = FSUB c (FSUB c (FMUL c t1 t1) aa) cc"
  define dd ee where "dd = FADD c t2 t2" and "ee = FADD c (FADD c aa aa) aa"
  define ox where "ox = FSUB c (FMUL c ee ee) (FADD c dd dd)"
  define c4 where "c4 = FADD c (FADD c cc cc) (FADD c cc cc)"
  define yz where "yz = FMUL c (e_y a) (e_z a)"
  have aa: "rep c aa (x * x)" and bb: "rep c bb (y * y)" unfolding aa_def bb_def using rep_mul x y by blast+
  have cc: "rep c cc (y * y * (y * y))" unfolding cc_def by (rule rep_mul [OF bb bb])
  have t1: "rep c t1 (x + y * y)" unfolding t1_def by (rule rep_add [OF x bb])
  have t2: "rep c t2 ((x + y * y) * (x + y * y) - x * x - y * y * (y * y))" unfolding t2_def by (intro rep_sub rep_mul t1 aa cc)
  have "rep c dd ((x + y * y) * (x + y * y) - x * x - y * y * (y * y) + ((x + y * y) * (x + y * y) - x * x - y * y * (y * y)))"
    unfolding dd_def by (rule rep_add [OF t2 t2])
  then have dd: "rep c dd (4 * x * y ^ 2)" by (simp add: algebra_simps power2_eq_square)
  have "rep c ee (x * x + x * x + x * x)" unfolding ee_def by (intro rep_add aa)
  then have ee: "rep c ee (3 * x ^ 2)" by (simp add: power2_eq_square)
  have "rep c ox (3 * x ^ 2 * (3 * x ^ 2) - (4 * x * y ^ 2 + 4 * x * y ^ 2))" unfolding ox_def by (intro rep_sub rep_mul rep_add dd ee)
  then have ox: "rep c ox ((3 * x ^ 2) ^ 2 - 2 * (4 * x * y ^ 2))" by (simp add: power2_eq_square)
  have "rep c (FADD c c4 c4) (8 * y ^ 4)"
  proof -
    have "rep c (FADD c c4 c4) (y * y * (y * y) + y * y * (y * y) + (y * y * (y * y) + y * y * (y * y)) + (y * y * (y * y) + y * y * (y * y) + (y * y * (y * y) + y * y * (y * y))))"
      unfolding c4_def by (intro rep_add cc)
    then show ?thesis by (simp add: power4_eq_xxxx algebra_simps)
  qed
  then have oy: "rep c (FSUB c (FMUL c ee (FSUB c dd ox)) (FADD c c4 c4))
      (3 * x ^ 2 * (4 * x * y ^ 2 - ((3 * x ^ 2) ^ 2 - 2 * (4 * x * y ^ 2))) - 8 * y ^ 4)"
    by (intro rep_sub rep_mul ee dd ox)
  have "rep c (FADD c yz yz) (y * z + y * z)" unfolding yz_def by (intro rep_add rep_mul y z)
  then have oz: "rep c (FADD c yz yz) (2 * y * z)" by (simp add: mult.assoc)
  have "double_azero c a = \<lparr>e_x = ox, e_y = FSUB c (FMUL c ee (FSUB c dd ox)) (FADD c c4 c4), e_z = FADD c yz yz\<rparr>"
    by (simp add: double_azero_def Let_def aa_def bb_def cc_def t1_def t2_def dd_def ee_def ox_def c4_def yz_def)
  then show ?thesis using jv_rep [of "double_azero c a"] ox oy oz by simp
qed

lemma double_aminus3_ok:
  assumes "rep c (e_x a) x" "rep c (e_y a) y" "rep c (e_z a) z"
  defines "m \<equiv> 3 * x ^ 2 - 3 * z ^ 4" and "s \<equiv> 4 * x * y ^ 2"
  shows "pt_ok c (double_aminus3 c a) \<and> jv c (double_aminus3 c a) =
    ((m ^ 2 - 2 * s) mod P, (m * (s - (m ^ 2 - 2 * s)) - 8 * y ^ 4) mod P, (2 * y * z) mod P)"
proof -
  note x = assms(1) and y = assms(2) and z = assms(3)
  define delta gamma where "delta = FMUL c (e_z a) (e_z a)" and "gamma = FMUL c (e_y a) (e_y a)"
  define beta where "beta = FMUL c (e_x a) gamma"
  define t1 where "t1 = FSUB c (e_x a) delta"
  define alpha where "alpha = FMUL c (FADD c (FADD c t1 t1) t1) (FADD c (e_x a) delta)"
  define b4 where "b4 = FADD c (FADD c beta beta) (FADD c beta beta)"
  define ox where "ox = FSUB c (FMUL c alpha alpha) (FADD c b4 b4)"
  define yz where "yz = FADD c (e_y a) (e_z a)"
  define g2 where "g2 = FMUL c gamma gamma"
  define g4 where "g4 = FADD c (FADD c g2 g2) (FADD c g2 g2)"
  have delta: "rep c delta (z * z)" and gamma: "rep c gamma (y * y)" unfolding delta_def gamma_def using rep_mul z y by blast+
  have beta: "rep c beta (x * (y * y))" unfolding beta_def by (rule rep_mul [OF x gamma])
  have t1: "rep c t1 (x - z * z)" unfolding t1_def by (rule rep_sub [OF x delta])
  have "rep c alpha ((x - z * z + (x - z * z) + (x - z * z)) * (x + z * z))" unfolding alpha_def by (intro rep_mul rep_add t1 x delta)
  moreover have "(x - z * z + (x - z * z) + (x - z * z)) * (x + z * z) = m" by (simp add: m_def power4_eq_xxxx power2_eq_square algebra_simps)
  ultimately have alpha: "rep c alpha m" by simp
  have "rep c b4 (x * (y * y) + x * (y * y) + (x * (y * y) + x * (y * y)))" unfolding b4_def by (intro rep_add beta)
  moreover have "x * (y * y) + x * (y * y) + (x * (y * y) + x * (y * y)) = s" by (simp add: s_def power2_eq_square)
  ultimately have b4: "rep c b4 s" by simp
  have "rep c ox (m * m - (s + s))" unfolding ox_def by (intro rep_sub rep_mul rep_add alpha b4)
  then have ox: "rep c ox (m ^ 2 - 2 * s)" by (simp add: power2_eq_square)
  have "rep c (FSUB c (FSUB c (FMUL c yz yz) gamma) delta) ((y + z) * (y + z) - y * y - z * z)"
    unfolding yz_def by (intro rep_sub rep_mul rep_add y z gamma delta)
  moreover have "(y + z) * (y + z) - y * y - z * z = 2 * y * z" by (simp add: algebra_simps)
  ultimately have oz: "rep c (FSUB c (FSUB c (FMUL c yz yz) gamma) delta) (2 * y * z)" by simp
  have "rep c (FADD c g4 g4) (y * y * (y * y) + y * y * (y * y) + (y * y * (y * y) + y * y * (y * y)) + (y * y * (y * y) + y * y * (y * y) + (y * y * (y * y) + y * y * (y * y))))"
    unfolding g4_def g2_def by (intro rep_add rep_mul gamma)
  moreover have "y * y * (y * y) + y * y * (y * y) + (y * y * (y * y) + y * y * (y * y)) + (y * y * (y * y) + y * y * (y * y) + (y * y * (y * y) + y * y * (y * y))) = 8 * y ^ 4"
    by (simp add: power4_eq_xxxx algebra_simps)
  ultimately have g8: "rep c (FADD c g4 g4) (8 * y ^ 4)" by simp
  have oy: "rep c (FSUB c (FMUL c alpha (FSUB c b4 ox)) (FADD c g4 g4)) (m * (s - (m ^ 2 - 2 * s)) - 8 * y ^ 4)"
    by (intro rep_sub rep_mul alpha b4 ox g8)
  have "double_aminus3 c a = \<lparr>e_x = ox, e_y = FSUB c (FMUL c alpha (FSUB c b4 ox)) (FADD c g4 g4), e_z = FSUB c (FSUB c (FMUL c yz yz) gamma) delta\<rparr>"
    by (simp add: double_aminus3_def Let_def delta_def gamma_def beta_def t1_def alpha_def b4_def ox_def yz_def g2_def g4_def)
  then show ?thesis using jv_rep [of "double_aminus3 c a"] ox oy oz by simp
qed

lemma pt_reps:
  assumes "pt_ok c a" "jv c a = (x, y, z)"
  shows "rep c (e_x a) x" "rep c (e_y a) y" "rep c (e_z a) z" "ec_is_zero (e_z a) \<longleftrightarrow> z = 0"
  using assms rep_mval is_zero_rep by (auto simp: pt_ok_def jv_def)

lemma ec_double_ok:
  assumes "pt_ok c a"
  shows "pt_ok c (ec_double c a) \<and> jv c (ec_double c a) = jdouble P (coef_a c) (jv c a)"
proof -
  obtain x y z where v: "jv c a = (x, y, z)" by (cases "jv c a") auto
  note r = pt_reps [OF assms v]
  show ?thesis using assms v r(4) double_azero_ok [OF r(1-3)] double_aminus3_ok [OF r(1-3)]
    by (simp add: ec_double_def jdouble_def coef_a_def Let_def)
qed

lemma add_chord_ok:
  assumes "rep c (e_z a) z1" "rep c (e_z b) z2" "rep c zz1 (z1 * z1)" "rep c zz2 (z2 * z2)" "rep c p1 u1" "rep c p2 u2" "rep c q1 s1" "rep c q2 s2"
  defines "h \<equiv> u2 - u1" and "r \<equiv> 2 * (s2 - s1)"
  defines "x3 \<equiv> r ^ 2 - 4 * h ^ 3 - 8 * u1 * h ^ 2"
  shows "pt_ok c (add_chord c a b zz1 zz2 p1 p2 q1 q2) \<and> jv c (add_chord c a b zz1 zz2 p1 p2 q1 q2) =
    (x3 mod P, (r * (4 * u1 * h ^ 2 - x3) - 8 * s1 * h ^ 3) mod P, (2 * z1 * z2 * h) mod P)"
proof -
  define H where "H = FSUB c p2 p1"
  define I where "I = FMUL c (FADD c H H) (FADD c H H)"
  define J where "J = FMUL c H I"
  define d where "d = FSUB c q2 q1"
  define R V where "R = FADD c d d" and "V = FMUL c p1 I"
  define ox where "ox = FSUB c (FSUB c (FSUB c (FMUL c R R) J) V) V"
  define W where "W = FMUL c q1 J"
  define zs where "zs = FADD c (e_z a) (e_z b)"
  have H: "rep c H h" unfolding H_def h_def by (rule rep_sub [OF assms(6,5)])
  have "rep c I ((h + h) * (h + h))" unfolding I_def by (intro rep_mul rep_add H)
  moreover have "(h + h) * (h + h) = 4 * h ^ 2" by (simp add: power2_eq_square)
  ultimately have I: "rep c I (4 * h ^ 2)" by simp
  have "rep c J (h * (4 * h ^ 2))" unfolding J_def by (rule rep_mul [OF H I])
  moreover have "h * (4 * h ^ 2) = 4 * h ^ 3" by (simp add: power2_eq_square power3_eq_cube)
  ultimately have J: "rep c J (4 * h ^ 3)" by simp
  have d: "rep c d (s2 - s1)" unfolding d_def by (rule rep_sub [OF assms(8,7)])
  have "rep c R (s2 - s1 + (s2 - s1))" unfolding R_def by (rule rep_add [OF d d])
  then have R: "rep c R r" by (simp add: r_def)
  have V: "rep c V (u1 * (4 * h ^ 2))" unfolding V_def by (rule rep_mul [OF assms(5) I])
  have "rep c ox (r * r - 4 * h ^ 3 - u1 * (4 * h ^ 2) - u1 * (4 * h ^ 2))" unfolding ox_def by (intro rep_sub rep_mul R J V)
  moreover have "r * r - 4 * h ^ 3 - u1 * (4 * h ^ 2) - u1 * (4 * h ^ 2) = x3" by (simp add: x3_def power2_eq_square)
  ultimately have ox: "rep c ox x3" by simp
  have W: "rep c W (s1 * (4 * h ^ 3))" unfolding W_def by (rule rep_mul [OF assms(7) J])
  have "rep c (FSUB c (FMUL c R (FSUB c V ox)) (FADD c W W)) (r * (u1 * (4 * h ^ 2) - x3) - (s1 * (4 * h ^ 3) + s1 * (4 * h ^ 3)))"
    by (intro rep_sub rep_mul rep_add R V ox W)
  moreover have "r * (u1 * (4 * h ^ 2) - x3) - (s1 * (4 * h ^ 3) + s1 * (4 * h ^ 3)) = r * (4 * u1 * h ^ 2 - x3) - 8 * s1 * h ^ 3" by simp
  ultimately have oy: "rep c (FSUB c (FMUL c R (FSUB c V ox)) (FADD c W W)) (r * (4 * u1 * h ^ 2 - x3) - 8 * s1 * h ^ 3)" by (simp only:)
  have "rep c (FMUL c (FSUB c (FSUB c (FMUL c zs zs) zz1) zz2) H) (((z1 + z2) * (z1 + z2) - z1 * z1 - z2 * z2) * h)"
    unfolding zs_def by (intro rep_sub rep_mul rep_add assms H)
  moreover have "((z1 + z2) * (z1 + z2) - z1 * z1 - z2 * z2) * h = 2 * z1 * z2 * h" by (simp add: algebra_simps)
  ultimately have oz: "rep c (FMUL c (FSUB c (FSUB c (FMUL c zs zs) zz1) zz2) H) (2 * z1 * z2 * h)" by simp
  have "add_chord c a b zz1 zz2 p1 p2 q1 q2 = \<lparr>e_x = ox, e_y = FSUB c (FMUL c R (FSUB c V ox)) (FADD c W W),
      e_z = FMUL c (FSUB c (FSUB c (FMUL c zs zs) zz1) zz2) H\<rparr>"
    by (simp add: add_chord_def Let_def H_def I_def J_def d_def R_def V_def ox_def W_def zs_def)
  then show ?thesis using jv_rep [of "add_chord c a b zz1 zz2 p1 p2 q1 q2"] ox oy oz by simp
qed

lemma ec_add_ok:
  assumes "pt_ok c a" "pt_ok c b"
  shows "pt_ok c (ec_add c a b) \<and> jv c (ec_add c a b) = jadd P (coef_a c) (jv c a) (jv c b)"
proof -
  obtain x1 y1 z1 where v1: "jv c a = (x1, y1, z1)" by (cases "jv c a") auto
  obtain x2 y2 z2 where v2: "jv c b = (x2, y2, z2)" by (cases "jv c b") auto
  note a = pt_reps [OF assms(1) v1] and b = pt_reps [OF assms(2) v2]
  define zz1 zz2 where "zz1 = FMUL c (e_z a) (e_z a)" and "zz2 = FMUL c (e_z b) (e_z b)"
  define p1 p2 where "p1 = FMUL c (e_x a) zz2" and "p2 = FMUL c (e_x b) zz1"
  define q1 q2 where "q1 = FMUL c (FMUL c (e_y a) (e_z b)) zz2" and "q2 = FMUL c (FMUL c (e_y b) (e_z a)) zz1"
  have zz: "rep c zz1 (z1 * z1)" "rep c zz2 (z2 * z2)" unfolding zz1_def zz2_def using rep_mul a b by blast+
  have "rep c p1 (x1 * (z2 * z2))" "rep c p2 (x2 * (z1 * z1))" "rep c q1 (y1 * z2 * (z2 * z2))" "rep c q2 (y2 * z1 * (z1 * z1))"
    unfolding p1_def p2_def q1_def q2_def by (intro rep_mul zz a b)+
  then have r: "rep c p1 (x1 * z2 ^ 2)" "rep c p2 (x2 * z1 ^ 2)" "rep c q1 (y1 * z2 ^ 3)" "rep c q2 (y2 * z1 ^ 3)"
    by (simp_all add: power2_eq_square power3_eq_cube mult.assoc)
  have e: "ec_add c a b = (if z1 = 0 then b else if z2 = 0 then a else if ec_eq p1 p2 then
      (if \<not> ec_eq q1 q2 then \<lparr>e_x = replicate EC_K 0, e_y = m_one (c_p c), e_z = replicate EC_K 0\<rparr> else ec_double c a)
      else add_chord c a b zz1 zz2 p1 p2 q1 q2)"
    using a(4) b(4) by (simp add: ec_add_def Let_def zz1_def zz2_def p1_def p2_def q1_def q2_def)
  have inf: "pt_ok c \<lparr>e_x = replicate EC_K 0, e_y = m_one (c_p c), e_z = replicate EC_K 0\<rparr> \<and>
      jv c \<lparr>e_x = replicate EC_K 0, e_y = m_one (c_p c), e_z = replicate EC_K 0\<rparr> = (0, 1, 0)"
    using jv_rep [of "\<lparr>e_x = replicate EC_K 0, e_y = m_one (c_p c), e_z = replicate EC_K 0\<rparr>" 0 1 0] rep_zero rep_one mod_okD(3) [OF field_ok]
    by (simp add: field_char_def)
  show ?thesis
  proof (cases "z1 = 0 \<or> z2 = 0 \<or> x1 * z2 ^ 2 mod P = x2 * z1 ^ 2 mod P")
    case True
    then show ?thesis
      unfolding e using assms v1 v2 inf ec_double_ok [OF assms(1)] rep_eq [OF r(1,2)] rep_eq [OF r(3,4)]
      by (elim disjE) (simp_all add: jadd_def Let_def)
  next
    case False
    then have "ec_add c a b = add_chord c a b zz1 zz2 p1 p2 q1 q2" unfolding e using rep_eq [OF r(1,2)] by simp
    then show ?thesis using False add_chord_ok [OF a(3) b(3) zz r] unfolding v1 v2 by (simp only: jadd_def prod.case Let_def if_False de_Morgan_disj simp_thms)
  qed
qed

lemma reduced_jv: "pt_ok c a \<Longrightarrow> reduced_jac P (jv c a)"
  using mval_less [OF field_ok] by (auto simp: pt_ok_def jv_def reduced_jac_def field_char_def)

text \<open>The affine point limbs stand for.\<close>

lemma affine_ops:
  assumes "prime_mod P" "pt_ok c a" "pt_ok c b"
  shows "affine P (jv c (ec_add c a b)) = padd P (coef_a c) (affine P (jv c a)) (affine P (jv c b))"
    "affine P (jv c (ec_double c a)) = pdouble P (coef_a c) (affine P (jv c a))"
  using ec_add_ok [OF assms(2,3)] ec_double_ok [OF assms(2)] jadd_affine [OF assms(1) reduced_jv reduced_jv] jdouble_affine [OF assms(1) reduced_jv] assms
  by simp_all

lemma infinity_ok: "pt_ok c (ec_infinity c)" "jv c (ec_infinity c) = (0, 1, 0)"
  using jv_rep [of "ec_infinity c" 0 1 0] rep_zero rep_one mod_okD(3) [OF field_ok] by (simp_all add: ec_infinity_def field_char_def)

lemma mul_bits_ok:
  assumes p: "prime_mod P" and q: "pt_ok c q" and acc: "pt_ok c acc" "affine P (jv c acc) = pmult P (coef_a c) v (affine P (jv c q))" "st \<longleftrightarrow> v \<noteq> 0"
  shows "\<exists>acc' st'. fold (scan_bit c) (map (\<lambda>b. if b then Some q else None) bs) (acc, st) = (acc', st') \<and> pt_ok c acc' \<and>
    affine P (jv c acc') = pmult P (coef_a c) (foldl (\<lambda>v b. 2 * v + of_bool b) v bs) (affine P (jv c q))"
  using acc
proof (induction bs arbitrary: acc v st)
  case (Cons b bs)
  let ?A = "\<lambda>a. affine P (jv c a)"
  define d where "d = (if st then ec_double c acc else acc)"
  have d: "pt_ok c d" "?A d = pdouble P (coef_a c) (pmult P (coef_a c) v (?A q))"
    using Cons.prems ec_double_ok [OF Cons.prems(1)] affine_ops(2) [OF p Cons.prems(1) q] by (auto simp: d_def)
  define acc' where "acc' = (if \<not> b then d else if st then ec_add c d q else q)"
  have e: "scan_bit c (if b then Some q else None) (acc, st) = (acc', st \<or> b)" by (simp add: scan_bit_def d_def acc'_def Let_def)
  have "pt_ok c acc'" using d(1) q ec_add_ok [OF d(1) q] by (simp add: acc'_def)
  moreover have "?A acc' = pmult P (coef_a c) (2 * v + of_bool b) (?A q)"
  proof (cases "b \<and> \<not> st")
    case True
    then show ?thesis using Cons.prems(3) pmult_one by (simp add: acc'_def)
  next
    case False
    then show ?thesis unfolding pmult_bit using d affine_ops(1) [OF p d(1) q] by (auto simp: acc'_def Let_def)
  qed
  moreover have "(st \<or> b) \<longleftrightarrow> 2 * v + of_bool b \<noteq> 0" using Cons.prems(3) by simp
  ultimately show ?case using Cons.IH [of acc' "2 * v + of_bool b" "st \<or> b"] by (simp add: e)
qed simp

lemma ec_mul_ok:
  assumes "prime_mod P" "pt_ok c q"
  shows "pt_ok c (ec_mul c k q) \<and> affine P (jv c (ec_mul c k q)) = pmult P (coef_a c) (be_val (take 32 k)) (affine P (jv c q))"
  using mul_bits_ok [OF assms infinity_ok(1), of 0 False "concat (map byte_bits (take 32 k))"] infinity_ok(2)
    bytes_bits_val [of 0 "take 32 k"] by (auto simp: ec_mul_def affine_def)

end

end
