(* ===== verification/Ecprops.thy ===== *)
theory Ecprops
  imports Ecc
begin

text \<open>
  What the curve routines deliver: the bytes \<open>ec_affine\<close> returns for a multiple of a point are the
  coordinates of that multiple by chord and tangent, and \<open>p256_verify\<close> accepts exactly the signatures
  the textbook arithmetic accepts.
\<close>

unbundle bit_operations_syntax

section \<open>Bytes in and out\<close>

lemma split_last:
  assumes "length e = 32"
  obtains a b where "e = a @ [b]" "length a = 31" "e ! 31 = b"
proof (cases e rule: rev_cases)
  case (snoc a b)
  then show ?thesis using that [of a b] assms by (simp add: nth_append)
qed (use assms in simp)

lemma minus2_val:
  assumes "length e = 32" "2 \<le> unat (e ! 31)"
  shows "length (minus2 e) = 32" "be_val (minus2 e) = be_val e - 2"
proof -
  obtain a b where e: "e = a @ [b]" "length a = 31" "e ! 31 = b" by (rule split_last [OF assms(1)])
  then have m: "minus2 e = a @ [b - 2]" by (simp add: minus2_def list_update_append)
  have "unat (b - 2) = unat b - 2" "2 \<le> unat b" using assms(2) e(3) by (simp_all add: unat_sub word_le_nat_alt)
  then show "be_val (minus2 e) = be_val e - 2" using m by (simp add: be_val_def e(1))
  show "length (minus2 e) = 32" using assms(1) by (simp add: minus2_def)
qed

lemma last_byte: "length e = 32 \<Longrightarrow> unat (e ! 31) = be_val e mod 256"
  using unat_bounds(1) by (auto simp: be_val_def elim!: split_last)

context curve
begin

lemma leave_bytes:
  assumes "rep c x v"
  shows "length (bn_pack (bn_mod_leave (c_p c) x) EC_K) = 32" "int (be_val (bn_pack (bn_mod_leave (c_p c) x) EC_K)) = v mod P"
proof -
  have "length (bn_mod_leave (c_p c) x) = EC_K"
    using mod_mul_red(1) [OF field_ok _ mod_okD(7) [OF field_ok]] assms mod_okD(1) [OF field_ok] by (simp add: rep_def reduced_def bn_mod_leave_def)
  with bn_pack_val [of EC_K "bn_mod_leave (c_p c) x"] assms
  show "length (bn_pack (bn_mod_leave (c_p c) x) EC_K) = 32" "int (be_val (bn_pack (bn_mod_leave (c_p c) x) EC_K)) = v mod P"
    by (simp_all add: rep_def mval_def)
qed

lemma rep_exp: "rep c x v \<Longrightarrow> rep c (bn_mod_exp (c_p c) x e n) (v ^ be_val (take n e))"
  using mod_exp_ok [OF field_ok] by (simp add: rep_def field_char_def of_nat_mod of_nat_power power_mod)

lemma field_bytes: "length (bn_pack (m_m (c_p c)) EC_K) = 32" "int (be_val (bn_pack (m_m (c_p c)) EC_K)) = P"
  using bn_pack_val [of EC_K "m_m (c_p c)"] mod_okD(1) [OF field_ok] by (simp_all add: field_char_def)

lemma zinv_ok:
  assumes e: "length e = 32" "int (be_val e) = P" and low: "2 \<le> P mod 256" and z: "rep c z v"
  shows "rep c (bn_mod_exp (c_p c) z (minus2 e) 32) (pinverse P v)"
proof -
  have "int (unat (e ! 31)) = P mod 256" unfolding last_byte [OF e(1)] using e(2) by (simp add: of_nat_mod)
  then have "2 \<le> unat (e ! 31)" using low by linarith
  note m = minus2_val [OF e(1) this]
  have "take 32 (minus2 e) = minus2 e" using m(1) by simp
  moreover have "nat (P - 2) = be_val e - 2" using e(2) by simp
  ultimately have "rep c (bn_mod_exp (c_p c) z (minus2 e) 32) (v ^ nat (P - 2))" using rep_exp [OF z, of "minus2 e" 32] m(2) by simp
  then show ?thesis by (simp add: rep_def pinverse_def)
qed

lemma ec_affine_ok:
  assumes pt: "pt_ok c pt" and low: "2 \<le> P mod 256"
  shows "case affine P (jv c pt) of AtInf \<Rightarrow> ec_affine c pt = None
    | Aff x y \<Rightarrow> \<exists>xb yb. ec_affine c pt = Some (xb, yb) \<and> length xb = 32 \<and> length yb = 32 \<and> int (be_val xb) = x \<and> int (be_val yb) = y"
proof -
  obtain x y z where v: "jv c pt = (x, y, z)" by (cases "jv c pt") auto
  note r = pt_reps [OF pt v]
  define zi where "zi = bn_mod_exp (c_p c) (e_z pt) (minus2 (bn_pack (m_m (c_p c)) EC_K)) 32"
  have zi: "rep c zi (pinverse P z)" unfolding zi_def by (rule zinv_ok [OF field_bytes low r(3)])
  have "rep c (FMUL c (e_x pt) (FMUL c zi zi)) (x * (pinverse P z * pinverse P z))"
    "rep c (FMUL c (e_y pt) (FMUL c (FMUL c zi zi) zi)) (y * (pinverse P z * pinverse P z * pinverse P z))" by (intro rep_mul zi r)+
  then have "rep c (FMUL c (e_x pt) (FMUL c zi zi)) (x * pinverse P z ^ 2)" "rep c (FMUL c (e_y pt) (FMUL c (FMUL c zi zi) zi)) (y * pinverse P z ^ 3)"
    by (simp_all add: power2_eq_square power3_eq_cube mult.assoc)
  from leave_bytes [OF this(1)] leave_bytes [OF this(2)] show ?thesis
    using r(4) by (simp add: v affine_def ec_affine_def Let_def zi_def)
qed

lemma shamir_bits_ok:
  assumes q: "pt_ok c (c_g c)" "pt_ok c q" and acc: "pt_ok c acc" "jv c acc = jmult2 P (coef_a c) (jv c (c_g c)) (jv c q) v1 v2"
    "st \<longleftrightarrow> v1 \<noteq> 0 \<or> v2 \<noteq> 0" and l: "length bs1 = length bs2"
  shows "\<exists>acc' st'. fold (scan_bit c) (map (shamir_pick (c_g c) q (ec_add c (c_g c) q)) (zip bs1 bs2)) (acc, st) = (acc', st') \<and> pt_ok c acc' \<and>
    jv c acc' = jmult2 P (coef_a c) (jv c (c_g c)) (jv c q) (foldl (\<lambda>v b. 2 * v + of_bool b) v1 bs1) (foldl (\<lambda>v b. 2 * v + of_bool b) v2 bs2)"
  using l acc
proof (induction bs1 bs2 arbitrary: acc v1 v2 st rule: list_induct2)
  case (Cons b1 bs1 b2 bs2)
  let ?a = "coef_a c" and ?G = "jv c (c_g c)" and ?Q = "jv c q" let ?t = "shamir_pick (c_g c) q (ec_add c (c_g c) q) (b1, b2)"
  define d where "d = (if st then ec_double c acc else acc)"
  have d: "pt_ok c d" "jv c d = jdouble P ?a (jmult2 P ?a ?G ?Q v1 v2)"
    using Cons.prems ec_double_ok [OF Cons.prems(1)] by (auto simp: d_def)
  define acc' where "acc' = (case ?t of None \<Rightarrow> d | Some t \<Rightarrow> if st then ec_add c d t else t)"
  have e: "scan_bit c ?t (acc, st) = (acc', st \<or> b1 \<or> b2)"
    by (auto simp: scan_bit_def d_def acc'_def Let_def shamir_pick_def)
  have t: "pt_ok c t \<and> jpick P ?a ?G ?Q b1 b2 (jv c d) = jadd P ?a (jv c d) (jv c t)" if "?t = Some t" for t
    using that q ec_add_ok [OF q] by (auto simp: shamir_pick_def jpick_def split: if_splits)
  have n: "jpick P ?a ?G ?Q b1 b2 (jv c d) = jv c d" if "?t = None" using that by (auto simp: shamir_pick_def jpick_def split: if_splits)
  have z: "jadd P ?a (jv c d) J = J" if "\<not> st" for J using that d(2) Cons.prems(3) by simp
  have "pt_ok c acc' \<and> jv c acc' = jpick P ?a ?G ?Q b1 b2 (jv c d)"
    using d(1) t n z ec_add_ok [OF d(1)] by (auto simp: acc'_def split: option.splits)
  then have "pt_ok c acc'" "jv c acc' = jmult2 P ?a ?G ?Q (2 * v1 + of_bool b1) (2 * v2 + of_bool b2)"
    unfolding jmult2_bit d(2) by simp_all
  moreover have "(st \<or> b1 \<or> b2) \<longleftrightarrow> 2 * v1 + of_bool b1 \<noteq> 0 \<or> 2 * v2 + of_bool b2 \<noteq> 0" using Cons.prems(3) by auto
  ultimately show ?case using Cons.IH [of acc' "2 * v1 + of_bool b1" "2 * v2 + of_bool b2" "st \<or> b1 \<or> b2"] by (simp add: e)
qed simp

lemma length_byte_bits: "length (concat (map byte_bits es)) = 8 * length es"
  by (induction es) (simp_all add: byte_bits_def)

lemma shamir_ok:
  assumes "pt_ok c (c_g c)" "pt_ok c q" "length u1 = 32" "length u2 = 32"
  shows "pt_ok c (ec_double_scalar_mul c u1 u2 q) \<and>
    jv c (ec_double_scalar_mul c u1 u2 q) = jmult2 P (coef_a c) (jv c (c_g c)) (jv c q) (be_val u1) (be_val u2)"
  using shamir_bits_ok [OF assms(1,2) infinity_ok(1), of 0 0 False "concat (map byte_bits u1)" "concat (map byte_bits u2)"] infinity_ok(2)
    bytes_bits_val [of 0 u1] bytes_bits_val [of 0 u2] assms(3,4) by (auto simp: ec_double_scalar_mul_def Let_def length_byte_bits)

end

section \<open>Curves set up by the code\<close>

lemma be_val_small: "be_val (replicate n 0 @ [b]) = unat b"
proof -
  have "le_val (replicate n 0) = 0" by (induction n) auto
  then show ?thesis by (simp add: be_val_def)
qed

text \<open>The curve records before anything ran, zero as C leaves a static.\<close>

definition curve0 :: ec_curve where
  "curve0 = (let z = replicate EC_K 0; m = \<lparr>m_m = z, m_n0 = 0, m_r2 = z, m_one = z\<rparr>
    in \<lparr>c_ready = False, c_p = m, c_n = m, c_b = z, c_g = \<lparr>e_x = z, e_y = z, e_z = z\<rparr>, c_a_zero = False\<rparr>)"

lemma ec_init_ok:
  assumes l: "length pbe = 32" "length nbe = 32" "length bbe = 32" "length gxbe = 32" "length gybe = 32"
    and p: "odd (be_val pbe)" "1 < be_val pbe" "odd (be_val nbe)" "1 < be_val nbe"
    and r: "be_val bbe < be_val pbe" "be_val gxbe < be_val pbe" "be_val gybe < be_val pbe" and c: "c = ec_init pbe nbe bbe gxbe gybe az curve0"
  shows "mod_ok (c_p c)" "field_char c = int (be_val pbe)" "mod_ok (c_n c)" "bnval (m_m (c_n c)) = be_val nbe" "coef_a c = (if az then 0 else - 3)"
    "pt_ok c (c_g c)" "jv c (c_g c) = (int (be_val gxbe), int (be_val gybe), 1)" "rep c (c_b c) (int (be_val bbe))" "ec_init pbe nbe bbe gxbe gybe az c = c"
proof -
  let ?p = "bn_mod_init pbe"
  note P = mod_init_ok [OF l(1) p(1,2)] and N = mod_init_ok [OF l(2) p(3,4)]
  have e: "c = \<lparr>c_ready = True, c_p = ?p, c_n = bn_mod_init nbe, c_b = bn_mod_enter ?p (bn_unpack bbe EC_K),
      c_g = \<lparr>e_x = bn_mod_enter ?p (bn_unpack gxbe EC_K), e_y = bn_mod_enter ?p (bn_unpack gybe EC_K), e_z = m_one ?p\<rparr>, c_a_zero = az\<rparr>"
    unfolding c by (simp add: ec_init_def curve0_def Let_def)
  have u: "reduced (m_m ?p) (bn_unpack s EC_K)" "bnval (bn_unpack s EC_K) = be_val s" if "length s = 32" "be_val s < be_val pbe" for s
    using bn_unpack_val [of s EC_K] that P mod_okD(1) [of ?p] by (simp_all add: reduced_def)
  have en: "reduced (m_m ?p) (bn_mod_enter ?p (bn_unpack s EC_K)) \<and> mval ?p (bn_mod_enter ?p (bn_unpack s EC_K)) = be_val s"
    if "length s = 32" "be_val s < be_val pbe" for s using mval_enter [of ?p "bn_unpack s EC_K"] u [OF that] P by simp
  note B = en [OF l(3) r(1)] and X = en [OF l(4) r(2)] and Y = en [OF l(5) r(3)]
  have one: "reduced (m_m ?p) (m_one ?p)" "mval ?p (m_one ?p) = 1" using P mod_okD(6) mval_one by blast+
  show "mod_ok (c_p c)" "field_char c = int (be_val pbe)" "mod_ok (c_n c)" "bnval (m_m (c_n c)) = be_val nbe" "coef_a c = (if az then 0 else - 3)"
    using P N by (simp_all only: e ec_curve.simps coef_a_def field_char_def)
  have g: "c_p c = ?p" "e_x (c_g c) = bn_mod_enter ?p (bn_unpack gxbe EC_K)" "e_y (c_g c) = bn_mod_enter ?p (bn_unpack gybe EC_K)" "e_z (c_g c) = m_one ?p"
    by (simp_all only: e ec_curve.simps ec_pt.simps)
  show "pt_ok c (c_g c)" "jv c (c_g c) = (int (be_val gxbe), int (be_val gybe), 1)"
    unfolding pt_ok_def jv_def g using X Y one by (simp_all only: of_nat_1 simp_thms)
  have "int (be_val bbe) mod int (be_val pbe) = int (be_val bbe)" using r(1) by simp
  then show "rep c (c_b c) (int (be_val bbe))"
    using B P by (simp only: e ec_curve.simps rep_def field_char_def)
  show "ec_init pbe nbe bbe gxbe gybe az c = c" by (simp only: e ec_init_def ec_curve.simps if_True)
qed

definition p256_curve :: ec_curve where "p256_curve = p256_init curve0"
definition k1_curve :: ec_curve where "k1_curve = k1_init curve0"

definition p256_p :: nat where "p256_p = 0xffffffff00000001000000000000000000000000ffffffffffffffffffffffff"
definition p256_n :: nat where "p256_n = 0xffffffff00000000ffffffffffffffffbce6faada7179e84f3b9cac2fc632551"
definition p256_b :: nat where "p256_b = 0x5ac635d8aa3a93e7b3ebbd55769886bc651d06b0cc53b0f63bce3c3e27d2604b"
definition p256_gx :: nat where "p256_gx = 0x6b17d1f2e12c4247f8bce6e563a440f277037d812deb33a0f4a13945d898c296"
definition p256_gy :: nat where "p256_gy = 0x4fe342e2fe1a7f9b8ee7eb4a7c0f9e162bce33576b315ececbb6406837bf51f5"

lemma p256_numbers:
  "be_val p256_p_be = p256_p" "be_val p256_n_be = p256_n" "be_val p256_b_be = p256_b" "be_val p256_gx_be = p256_gx" "be_val p256_gy_be = p256_gy"
  by (simp_all add: be_val_def p256_p_be_def p256_n_be_def p256_b_be_def p256_gx_be_def p256_gy_be_def p256_p_def p256_n_def p256_b_def p256_gx_def p256_gy_def)

lemma p256_lengths: "length p256_p_be = 32" "length p256_n_be = 32" "length p256_b_be = 32" "length p256_gx_be = 32" "length p256_gy_be = 32"
  by (simp_all add: p256_p_be_def p256_n_be_def p256_b_be_def p256_gx_be_def p256_gy_be_def)

lemma p256_bounds: "odd p256_p" "1 < p256_p" "odd p256_n" "1 < p256_n" "p256_b < p256_p" "p256_gx < p256_p" "p256_gy < p256_p"
  by (simp_all add: p256_p_def p256_n_def p256_b_def p256_gx_def p256_gy_def)

lemmas p256_ok = ec_init_ok [OF p256_lengths p256_bounds [folded p256_numbers], of p256_curve False, folded p256_init_def, unfolded p256_numbers if_False, OF p256_curve_def]

definition k1_p :: nat where "k1_p = 0xfffffffffffffffffffffffffffffffffffffffffffffffffffffffefffffc2f"

lemma k1_numbers: "be_val k1_p_be = k1_p" "be_val k1_b_be = 7"
  using be_val_small [of 31 7] by (simp_all add: be_val_def k1_p_be_def k1_p_def k1_b_be_def)

lemma k1_ok: "mod_ok (c_p k1_curve)" "field_char k1_curve = int k1_p" "rep k1_curve (c_b k1_curve) 7"
proof -
  let ?n = "be_val k1_n_be" and ?x = "be_val k1_gx_be" and ?y = "be_val k1_gy_be"
  have n: "?n = 0xfffffffffffffffffffffffffffffffebaaedce6af48a03bbfd25e8cd0364141"
    "?x = 0x79be667ef9dcbbac55a06295ce870b07029bfcdb2dce28d959f2815b16f81798" "?y = 0x483ada7726a3c4655da4fbfc0e1108a8fd17b448a68554199c47d08ffb10d4b8"
    by (simp_all add: be_val_def k1_n_be_def k1_gx_be_def k1_gy_be_def)
  have b: "odd k1_p" "1 < k1_p" "odd ?n" "1 < ?n" "7 < k1_p" "?x < k1_p" "?y < k1_p" unfolding n by (simp_all add: k1_p_def)
  have l: "length k1_p_be = 32" "length k1_n_be = 32" "length k1_b_be = 32" "length k1_gx_be = 32" "length k1_gy_be = 32"
    by (simp_all add: k1_p_be_def k1_n_be_def k1_b_be_def k1_gx_be_def k1_gy_be_def)
  note o = ec_init_ok [OF l, unfolded k1_numbers, OF b, of k1_curve True, folded k1_init_def, OF k1_curve_def]
  show "mod_ok (c_p k1_curve)" "field_char k1_curve = int k1_p" by (rule o(1)) (rule o(2))
  show "rep k1_curve (c_b k1_curve) 7" using o(8) by (simp only: of_nat_numeral)
qed

interpretation p256: curve p256_curve
  by unfold_locales (rule p256_ok(1))

interpretation k1: curve k1_curve
  by unfold_locales (rule k1_ok(1))

section \<open>Multiples of a point\<close>

text \<open>
  C7: a scalar multiple is the multiple. On a curve over an odd prime field whose last byte is at
  least 2, scanning the bits of a scalar with the Jacobian formulas on Montgomery limbs and coming back to bytes gives the
  coordinates of the multiple by chord and tangent, and nothing exactly when that is the point at infinity.
\<close>

theorem ec_mul_correct:
  assumes "mod_ok (c_p c)" "prime_mod (field_char c)" "2 \<le> field_char c mod 256" "pt_ok c q"
  shows "case pmult (field_char c) (coef_a c) (be_val (take 32 k)) (affine (field_char c) (jv c q)) of
      AtInf \<Rightarrow> ec_affine c (ec_mul c k q) = None
    | Aff x y \<Rightarrow> \<exists>xb yb. ec_affine c (ec_mul c k q) = Some (xb, yb) \<and> length xb = 32 \<and> length yb = 32 \<and> int (be_val xb) = x \<and> int (be_val yb) = y"
proof -
  have cu: "curve c" using assms(1) by unfold_locales
  show ?thesis
    using curve.ec_affine_ok [OF cu conjunct1 [OF curve.ec_mul_ok [OF cu assms(2,4), of k]] assms(3)] curve.ec_mul_ok [OF cu assms(2,4), of k] by simp
qed

text \<open>A small curve to try it on: \<open>y^2 = x^3 - 3 x + 11\<close> over the field of 17 elements, with the point (2, 8).\<close>

definition curve17 :: ec_curve where
  "curve17 = ec_init (replicate 31 0 @ [17]) (replicate 31 0 @ [19]) (replicate 31 0 @ [11]) (replicate 31 0 @ [2]) (replicate 31 0 @ [8]) False curve0"

lemmas curve17_ok = ec_init_ok [of "replicate 31 0 @ [17]" "replicate 31 0 @ [19]" "replicate 31 0 @ [11]" "replicate 31 0 @ [2]" "replicate 31 0 @ [8]" curve17 False,
    simplified be_val_small, simplified, OF curve17_def]

lemma prime17: "prime_mod 17"
proof -
  have "d = 1 \<or> d = 17" if "0 < d" "d dvd 17" for d :: int
  proof -
    have "d \<le> 17" using that zdvd_imp_le [of d 17] by simp
    then have "d \<in> {1..17}" using that(1) by simp
    then have "d \<in> set [1..17]" by simp
    then show ?thesis using that(2) by (simp add: upto.simps) (elim disjE; simp)
  qed
  then show ?thesis by (simp add: prime_mod_def)
qed

theorem ec_mul_correct_witness:
  "prime_mod (field_char curve17) \<and> pmult 17 (- 3) 2 (Aff 2 8) = Aff 9 4 \<and>
   (\<exists>xb yb. ec_affine curve17 (ec_mul curve17 (replicate 31 0 @ [2]) (c_g curve17)) = Some (xb, yb) \<and> int (be_val xb) = 9 \<and> int (be_val yb) = 4)"
proof -
  have f: "field_char curve17 = 17" "coef_a curve17 = - 3" "jv curve17 (c_g curve17) = (2, 8, 1)" using curve17_ok by simp_all
  have k: "be_val (take 32 (replicate 31 0 @ [2 :: byte])) = 2" by (simp add: be_val_small)
  have p: "pmult 17 (- 3) 2 (Aff 2 8) = Aff 9 4" by code_simp
  have a: "affine 17 (2, 8, 1) = Aff 2 8" by code_simp
  show ?thesis using ec_mul_correct [OF curve17_ok(1) _ _ curve17_ok(6), of "replicate 31 0 @ [2]"] prime17 p by (auto simp: f k a be_val_small)
qed

section \<open>Signatures\<close>

lemma not_below:
  assumes "length x = EC_K" "length m = EC_K"
  shows "snd (bn_sub x m EC_K) = 0 \<longleftrightarrow> bnval m \<le> bnval x" "bnval (reduce_once x m) = (if bnval x < bnval m then bnval x else bnval x - bnval m)"
    "length (reduce_once x m) = EC_K"
proof -
  obtain out r where s: "bn_sub x m EC_K = (out, r)" by (cases "bn_sub x m EC_K")
  have o: "length out = EC_K" "r = 0 \<or> r = 1" "bnval out + bnval m = bnval x + 2 ^ (32 * EC_K) * unat r"
    using sub_ok [OF s] flag_cases assms by simp_all
  have "bnval out < 2 ^ (32 * EC_K)" using bnval_bound [of out] o(1) by (simp only:)
  then show "snd (bn_sub x m EC_K) = 0 \<longleftrightarrow> bnval m \<le> bnval x" "bnval (reduce_once x m) = (if bnval x < bnval m then bnval x else bnval x - bnval m)"
    "length (reduce_once x m) = EC_K"
    using o assms by (auto simp: s reduce_once_def)
qed

lemma unpack32: "length s = 32 \<Longrightarrow> length (bn_unpack s EC_K) = EC_K \<and> bnval (bn_unpack s EC_K) = be_val s"
  using bn_unpack_val [of s EC_K] by simp

lemma zero_val: "length a = EC_K \<Longrightarrow> ec_is_zero a \<longleftrightarrow> bnval a = 0"
  using is_zero_iff [of a] bnval_inject [of a "replicate EC_K 0"] by simp

lemma unpack_take: "length s = 32 + n \<Longrightarrow> bn_unpack s EC_K = bn_unpack (take 32 s) EC_K"
  unfolding bn_unpack_def by (intro map_cong refl) (auto simp: Let_def)

text \<open>The equation of the curve, on residues.\<close>

lemma on_curve_ok:
  assumes "rep p256_curve x u" "rep p256_curve y v"
  shows "ec_on_curve p256_curve x y \<longleftrightarrow> v ^ 2 mod int p256_p = (u ^ 3 - 3 * u + int p256_b) mod int p256_p"
proof -
  let ?c = p256_curve
  have z: "\<not> c_a_zero ?c" using p256_ok(5) by (auto simp: coef_a_def split: if_splits)
  have l: "rep ?c (FMUL ?c y y) (v ^ 2)" using p256.rep_mul [OF assms(2,2)] by (simp add: power2_eq_square)
  have "rep ?c (FADD ?c (FSUB ?c (FMUL ?c (FMUL ?c x x) x) (FADD ?c (FADD ?c x x) x)) (c_b ?c)) (u * u * u - (u + u + u) + int p256_b)"
    by (intro p256.rep_add p256.rep_sub p256.rep_mul assms(1) p256_ok(8))
  moreover have "u * u * u - (u + u + u) + int p256_b = u ^ 3 - 3 * u + int p256_b" by (simp add: power3_eq_cube)
  ultimately have "rep ?c (FADD ?c (FSUB ?c (FMUL ?c (FMUL ?c x x) x) (FADD ?c (FADD ?c x x) x)) (c_b ?c)) (u ^ 3 - 3 * u + int p256_b)" by (simp only:)
  from p256.rep_eq [OF l this] show ?thesis using z by (simp add: ec_on_curve_def Let_def p256_ok(2))
qed

definition key_x :: "byte list \<Rightarrow> nat" where "key_x s = be_val (take 32 (drop 1 s))"
definition key_y :: "byte list \<Rightarrow> nat" where "key_y s = be_val (drop 33 s)"

text \<open>A public key of 65 bytes: the mark of an uncompressed point, then reduced coordinates of a point of the curve.\<close>

definition good_key :: "byte list \<Rightarrow> bool" where
  "good_key s \<longleftrightarrow> length s = 65 \<and> s ! 0 = 4 \<and> key_x s < p256_p \<and> key_y s < p256_p \<and> \<not> (key_x s = 0 \<and> key_y s = 0) \<and>
     int (key_y s) ^ 2 mod int p256_p = (int (key_x s) ^ 3 - 3 * int (key_x s) + int p256_b) mod int p256_p"

lemma p256_point_ok:
  assumes l: "length s = len"
  shows "if good_key s then \<exists>q. p256_point p256_curve s len = Some q \<and> pt_ok p256_curve q \<and> jv p256_curve q = (int (key_x s), int (key_y s), 1)
    else p256_point p256_curve s len = None"
proof (cases "len = 65")
  case False
  then show ?thesis using l by (simp add: p256_point_def good_key_def)
next
  case True
  let ?c = p256_curve
  define x y where "x = bn_unpack (drop 1 s) EC_K" and "y = bn_unpack (drop 33 s) EC_K"
  have x: "length x = EC_K" "bnval x = key_x s" and y: "length y = EC_K" "bnval y = key_y s"
    using unpack32 [of "take 32 (drop 1 s)"] unpack_take [of "drop 1 s" 32] unpack32 [of "drop 33 s"] l True by (simp_all add: x_def y_def key_x_def key_y_def)
  have m: "length (m_m (c_p ?c)) = EC_K" "bnval (m_m (c_p ?c)) = p256_p" using mod_okD(1) [OF p256_ok(1)] p256_ok(2) by (simp_all add: field_char_def)
  let ?ox = "bn_mod_enter (c_p ?c) x" let ?oy = "bn_mod_enter (c_p ?c) y"
  have e: "rep ?c (bn_mod_enter (c_p ?c) a) (int v) \<and> mval (c_p ?c) (bn_mod_enter (c_p ?c) a) = v" if "length a = EC_K" "bnval a = v" "v < p256_p" for a v
  proof -
    have "reduced (m_m (c_p ?c)) a" using that m by (simp add: reduced_def)
    from mval_enter [OF p256_ok(1) this] that show ?thesis by (simp add: rep_def p256_ok(2))
  qed
  have one: "rep ?c (m_one (c_p ?c)) 1" by (rule p256.rep_one)
  show ?thesis
  proof (cases "s ! 0 = 4 \<and> key_x s < p256_p \<and> key_y s < p256_p")
    case False
    then have "p256_point ?c s len = None"
      unfolding p256_point_def x_def [symmetric] y_def [symmetric] Let_def not_below(1) [OF x(1) m(1)] not_below(1) [OF y(1) m(1)] x(2) y(2) m(2) by auto
    then show ?thesis using False by (auto simp: good_key_def)
  next
    case ok: True
    note ex = e [OF x] and ey = e [OF y]
    have pt: "p256_point ?c s len = (if key_x s = 0 \<and> key_y s = 0 then None else if ec_on_curve ?c ?ox ?oy
        then Some \<lparr>e_x = ?ox, e_y = ?oy, e_z = m_one (c_p ?c)\<rparr> else None)"
    proof -
      have "ec_is_zero ?ox \<longleftrightarrow> key_x s = 0" "ec_is_zero ?oy \<longleftrightarrow> key_y s = 0" using ex ey ok p256.is_zero_rep [of ?ox] p256.is_zero_rep [of ?oy] by (auto simp: rep_def)
      moreover have "\<not> p256_p \<le> key_x s" "\<not> p256_p \<le> key_y s" "\<not> (len \<noteq> 65 \<or> s ! 0 \<noteq> 4)" using ok True by auto
      ultimately show ?thesis
        unfolding p256_point_def x_def [symmetric] y_def [symmetric] Let_def not_below(1) [OF x(1) m(1)] not_below(1) [OF y(1) m(1)] x(2) y(2) m(2) by (simp only: if_False)
    qed
    have "pt_ok ?c \<lparr>e_x = ?ox, e_y = ?oy, e_z = m_one (c_p ?c)\<rparr> \<and> jv ?c \<lparr>e_x = ?ox, e_y = ?oy, e_z = m_one (c_p ?c)\<rparr> = (int (key_x s), int (key_y s), 1)"
      using p256.jv_rep [of "\<lparr>e_x = ?ox, e_y = ?oy, e_z = m_one (c_p ?c)\<rparr>" "int (key_x s)" "int (key_y s)" 1] ex ey ok one p256_bounds(2) by (simp add: p256_ok(2))
    then show ?thesis unfolding pt using True l ok on_curve_ok [of ?ox "int (key_x s)" ?oy "int (key_y s)"] ex ey by (simp add: good_key_def)
  qed
qed

text \<open>Verification as the standard has it, on numbers: the hash reduced by the order, the two scalars, the point, and its \<open>x\<close> modulo the order.\<close>

definition scalars :: "nat \<Rightarrow> nat \<Rightarrow> nat \<Rightarrow> nat \<times> nat" where
  "scalars e r s = (let w = s ^ (p256_n - 2) mod p256_n in ((e mod p256_n * w) mod p256_n, (r * w) mod p256_n))"

definition ecdsa_accepts :: "byte list \<Rightarrow> nat \<Rightarrow> nat \<Rightarrow> nat \<Rightarrow> bool" where
  "ecdsa_accepts key e r s \<longleftrightarrow> good_key key \<and> 0 < r \<and> r < p256_n \<and> 0 < s \<and> s < p256_n \<and>
     (case scalars e r s of (u1, u2) \<Rightarrow>
      case jmult2 (int p256_p) (- 3) (int p256_gx, int p256_gy, 1) (int (key_x key), int (key_y key), 1) u1 u2 of (x, y, z) \<Rightarrow>
        z \<noteq> 0 \<and> (x * pinverse (int p256_p) z ^ 2) mod int p256_p mod int p256_n = int r)"

lemma order_ok: "length (m_m (c_n p256_curve)) = EC_K" "bnval (m_m (c_n p256_curve)) = p256_n" "mod_ok (c_n p256_curve)"
  using mod_okD(1) p256_ok(3,4) by blast+

lemma reduce_order:
  assumes "length x = EC_K"
  shows "reduced (m_m (c_n p256_curve)) (reduce_once x (m_m (c_n p256_curve)))" "bnval (reduce_once x (m_m (c_n p256_curve))) = bnval x mod p256_n"
proof -
  have "bnval x < 2 ^ (32 * EC_K)" using bnval_bound [of x] assms by (simp only:)
  then have "bnval x < 2 * p256_n" by (simp add: p256_n_def)
  then have "bnval x mod p256_n = (if bnval x < p256_n then bnval x else bnval x - p256_n)" "0 < p256_n" using mod_once by (auto simp: p256_n_def)
  then show "bnval (reduce_once x (m_m (c_n p256_curve))) = bnval x mod p256_n" "reduced (m_m (c_n p256_curve)) (reduce_once x (m_m (c_n p256_curve)))"
    using not_below(2,3) [OF assms order_ok(1)] order_ok mod_less_divisor [of p256_n "bnval x"] by (auto simp: reduced_def split: if_splits)
qed

lemma scalar_ok:
  assumes s: "reduced (m_m (c_n p256_curve)) s" and a: "reduced (m_m (c_n p256_curve)) a"
  defines "N \<equiv> c_n p256_curve"
  defines "b \<equiv> bn_pack (bn_mod_leave N (bn_mod_mul N (bn_mod_enter N a) (bn_mod_exp N (bn_mod_enter N s) (minus2 p256_n_be) 32))) EC_K"
  shows "length b = 32" "be_val b = (bnval a * (bnval s ^ (p256_n - 2) mod p256_n)) mod p256_n"
proof -
  have N: "mod_ok N" "bnval (m_m N) = p256_n" "length (m_m N) = EC_K" using order_ok by (simp_all add: N_def)
  have "unat (p256_n_be ! 31) = 0x51" by (simp add: p256_n_be_def)
  then have m: "length (minus2 p256_n_be) = 32" "be_val (minus2 p256_n_be) = p256_n - 2"
    using minus2_val [OF p256_lengths(2)] p256_numbers(2) by simp_all
  note es = mval_enter [OF N(1) s [folded N_def]] and ea = mval_enter [OF N(1) a [folded N_def]]
  let ?w = "bn_mod_exp N (bn_mod_enter N s) (minus2 p256_n_be) 32"
  have w: "reduced (m_m N) ?w" "mval N ?w = bnval s ^ (p256_n - 2) mod p256_n"
    using mod_exp_ok [OF N(1) es(1), of "minus2 p256_n_be" 32] es(2) m N(2) by simp_all
  let ?u = "bn_mod_mul N (bn_mod_enter N a) ?w"
  have u: "reduced (m_m N) ?u" "mval N ?u = (bnval a * (bnval s ^ (p256_n - 2) mod p256_n)) mod p256_n"
    using mod_mul_red(1) [OF N(1) ea(1) w(1)] mval_mul [OF N(1) ea(1) w(1)] ea(2) w(2) N(2) by simp_all
  have "length (bn_mod_leave N ?u) = EC_K" using mod_mul_red(1) [OF N(1) u(1) mod_okD(7) [OF N(1)]] N(3) by (simp add: bn_mod_leave_def reduced_def)
  then show "length b = 32" "be_val b = (bnval a * (bnval s ^ (p256_n - 2) mod p256_n)) mod p256_n"
    using bn_pack_val [of EC_K "bn_mod_leave N ?u"] u(2) by (simp_all add: b_def mval_def)
qed

lemma final_x:
  assumes pt: "pt_ok p256_curve pt" "jv p256_curve pt = (x, y, z)" and r: "length r = EC_K" "bnval r < p256_n"
  defines "zi \<equiv> bn_mod_exp (c_p p256_curve) (e_z pt) (minus2 p256_p_be) 32"
  defines "xb \<equiv> bn_pack (bn_mod_leave (c_p p256_curve) (FMUL p256_curve (e_x pt) (FMUL p256_curve zi zi))) EC_K"
  shows "ec_eq (reduce_once (bn_unpack xb EC_K) (m_m (c_n p256_curve))) r \<longleftrightarrow> (x * pinverse (int p256_p) z ^ 2) mod int p256_p mod int p256_n = int (bnval r)"
proof -
  note rp = p256.pt_reps [OF pt]
  have "int (be_val p256_p_be) = field_char p256_curve" "2 \<le> field_char p256_curve mod 256" unfolding p256_ok(2) p256_numbers by (simp_all add: p256_p_def)
  from p256.zinv_ok [OF p256_lengths(1) this rp(3)] have zi: "rep p256_curve zi (pinverse (int p256_p) z)" by (simp add: zi_def p256_ok(2))
  have "rep p256_curve (FMUL p256_curve (e_x pt) (FMUL p256_curve zi zi)) (x * (pinverse (int p256_p) z * pinverse (int p256_p) z))"
    by (intro p256.rep_mul rp zi)
  note xb = p256.leave_bytes [OF this, folded xb_def, unfolded p256_ok(2)]
  note u = unpack32 [OF xb(1)]
  note o = reduce_order [OF conjunct1 [OF u]]
  have "int (be_val xb mod p256_n) = (x * pinverse (int p256_p) z ^ 2) mod int p256_p mod int p256_n" using xb(2) by (simp add: of_nat_mod power2_eq_square)
  moreover have "ec_eq (reduce_once (bn_unpack xb EC_K) (m_m (c_n p256_curve))) r \<longleftrightarrow> be_val xb mod p256_n = bnval r"
    using ec_eq_iff [OF _ r(1)] bnval_inject [of "reduce_once (bn_unpack xb EC_K) (m_m (c_n p256_curve))" r] o r(1) order_ok(1) u by (auto simp: reduced_def)
  ultimately show ?thesis by (metis of_nat_eq_iff)
qed

text \<open>
  C6: \<open>p256_verify\<close> is ECDSA verification. Whether this is the first call, which sets the curve up, or a later one, and whatever
  the bytes of key, hash and signature, it accepts exactly when the arithmetic of the standard does, with every bound checked.
\<close>

theorem p256_verify_correct:
  assumes l: "length pub = publen" "length hash = hashlen" "length rb = 32" "length sb = 32" and c: "c = curve0 \<or> c = p256_curve"
  shows "p256_verify c pub publen hash hashlen rb sb \<longleftrightarrow> hashlen = 32 \<and> ecdsa_accepts pub (be_val hash) (be_val rb) (be_val sb)"
proof -
  have i: "p256_init c = p256_curve" using c p256_ok(9) by (auto simp: p256_curve_def)
  note R = unpack32 [OF l(3)] and S = unpack32 [OF l(4)] 
  note nb = not_below(1) [OF conjunct1 [OF R] order_ok(1)] not_below(1) [OF conjunct1 [OF S] order_ok(1)]
  note z = zero_val [OF conjunct1 [OF R]] zero_val [OF conjunct1 [OF S]]
  show ?thesis
  proof (cases "hashlen = 32 \<and> good_key pub \<and> 0 < be_val rb \<and> be_val rb < p256_n \<and> 0 < be_val sb \<and> be_val sb < p256_n")
    case False
    have "\<not> p256_verify c pub publen hash hashlen rb sb"
    proof (cases "hashlen = 32 \<and> good_key pub")
      case f: False
      then show ?thesis using p256_point_ok [OF l(1)] by (cases "hashlen = 32") (simp_all add: p256_verify_def i)
    next
      case t: True
      then obtain q where q: "p256_point p256_curve pub publen = Some q" using p256_point_ok [OF l(1)] by auto
      have "ec_is_zero (bn_unpack rb EC_K) \<or> ec_is_zero (bn_unpack sb EC_K) \<or> snd (bn_sub (bn_unpack rb EC_K) (m_m (c_n p256_curve)) EC_K) = 0
        \<or> snd (bn_sub (bn_unpack sb EC_K) (m_m (c_n p256_curve)) EC_K) = 0" unfolding nb z using False t R S order_ok(2) by auto
      then show ?thesis unfolding p256_verify_def i Let_def q option.case by (elim disjE) simp_all
    qed
    then show ?thesis using False by (auto simp: ecdsa_accepts_def)
  next
    case True
    then obtain q where q: "p256_point p256_curve pub publen = Some q" "pt_ok p256_curve q" "jv p256_curve q = (int (key_x pub), int (key_y pub), 1)"
      using p256_point_ok [OF l(1)] by auto
    define e where "e = reduce_once (bn_unpack hash EC_K) (m_m (c_n p256_curve))"
    have e: "reduced (m_m (c_n p256_curve)) e" "bnval e = be_val hash mod p256_n"
      using reduce_order [OF conjunct1 [OF unpack32 [of hash]]] unpack32 [of hash] l(2) True by (simp_all add: e_def)
    have r: "reduced (m_m (c_n p256_curve)) (bn_unpack rb EC_K)" "reduced (m_m (c_n p256_curve)) (bn_unpack sb EC_K)"
      using R S True order_ok by (simp_all add: reduced_def)
    let ?N = "c_n p256_curve" and ?w = "bn_mod_exp (c_n p256_curve) (bn_mod_enter (c_n p256_curve) (bn_unpack sb EC_K)) (minus2 p256_n_be) 32"
    define u1 where "u1 = bn_pack (bn_mod_leave ?N (bn_mod_mul ?N (bn_mod_enter ?N e) ?w)) EC_K"
    define u2 where "u2 = bn_pack (bn_mod_leave ?N (bn_mod_mul ?N (bn_mod_enter ?N (bn_unpack rb EC_K)) ?w)) EC_K"
    have u: "length u1 = 32" "length u2 = 32" "scalars (be_val hash) (be_val rb) (be_val sb) = (be_val u1, be_val u2)"
      using scalar_ok [OF r(2) e(1), folded u1_def] scalar_ok [OF r(2) r(1), folded u2_def] e(2) R S by (simp_all add: scalars_def Let_def)
    define pt where "pt = ec_double_scalar_mul p256_curve u1 u2 q"
    have pt: "pt_ok p256_curve pt" "jv p256_curve pt = jmult2 (int p256_p) (- 3) (int p256_gx, int p256_gy, 1) (int (key_x pub), int (key_y pub), 1) (be_val u1) (be_val u2)"
      using p256.shamir_ok [OF p256_ok(6) q(2) u(1,2)] unfolding pt_def p256_ok(2,5,7) q(3) by auto
    obtain x y zz where j: "jv p256_curve pt = (x, y, zz)" by (cases "jv p256_curve pt") auto
    have lt: "length (bn_unpack rb EC_K) = EC_K" "bnval (bn_unpack rb EC_K) < p256_n" using R True by simp_all
    note fx = final_x [OF pt(1) j lt]
    have v: "p256_verify c pub publen hash hashlen rb sb \<longleftrightarrow> \<not> ec_is_zero (e_z pt) \<and>
        ec_eq (reduce_once (bn_unpack (bn_pack (bn_mod_leave (c_p p256_curve) (FMUL p256_curve (e_x pt) (FMUL p256_curve (bn_mod_exp (c_p p256_curve) (e_z pt) (minus2 p256_p_be) 32)
          (bn_mod_exp (c_p p256_curve) (e_z pt) (minus2 p256_p_be) 32)))) EC_K) EC_K) (m_m (c_n p256_curve))) (bn_unpack rb EC_K)"
      using True q(1) nb z R S order_ok(2) by (simp add: p256_verify_def i Let_def e_def [symmetric] u1_def [symmetric] u2_def [symmetric] pt_def [symmetric])
    show ?thesis unfolding v fx using True p256.pt_reps(4) [OF pt(1) j] u(3) j [unfolded pt(2)] R by (simp add: ecdsa_accepts_def)
  qed
qed

theorem p256_verify_correct_witness:
  "\<not> p256_verify curve0 (replicate 65 0) 65 (replicate 32 0) 32 (replicate 32 1) (replicate 32 1)"
  using p256_verify_correct [of "replicate 65 0" 65 "replicate 32 0" 32 "replicate 32 1" "replicate 32 1" curve0]
  by (simp add: ecdsa_accepts_def good_key_def)

lemma k1_negate:
  assumes y: "reduced (m_m (c_p k1_curve)) y" and n: "mval (c_p k1_curve) y \<noteq> 0"
  shows "rep k1_curve (bn_mod_sub (m_m (c_p k1_curve)) y (m_m (c_p k1_curve)) EC_K) (int k1_p - int (mval (c_p k1_curve) y))"
proof -
  let ?p = "c_p k1_curve" let ?n = "bn_mod_sub (m_m ?p) y (m_m ?p) EC_K"
  have m: "length (m_m ?p) = EC_K" "bnval (m_m ?p) = k1_p" using mod_okD(1) [OF k1_ok(1)] k1_ok(2) by (simp_all add: field_char_def)
  have l: "length y = EC_K" "bnval y < k1_p" using y m by (simp_all add: reduced_def)
  obtain t r where s: "bn_sub (m_m ?p) y EC_K = (t, r)" by (cases "bn_sub (m_m ?p) y EC_K")
  have "r = 0" using not_below(1) [OF m(1) l(1)] l(2) m(2) s by simp
  then have t: "?n = t" "length t = EC_K" "bnval t + bnval y = k1_p" using sub_ok [OF s] m l(1) by (simp_all add: bn_mod_sub_def s)
  have "bnval y \<noteq> 0" using bnval_mval [OF k1_ok(1) y] mval_iff [OF k1_ok(1) y, of 0] n by auto
  then have rt: "reduced (m_m ?p) t" using t m by (simp add: reduced_def)
  have "mval ?p (bn_mod_add t y (m_m ?p) EC_K) = 0"
    using mod_add_ok [OF rt y, of EC_K] mval_iff [OF k1_ok(1), of "bn_mod_add t y (m_m ?p) EC_K" 0] t(3) m by simp
  then have z: "(mval ?p t + mval ?p y) mod k1_p = 0" using mval_add [OF k1_ok(1) rt y] m(2) by simp
  have b: "mval ?p t < k1_p" "mval ?p y < k1_p" using mval_less [OF k1_ok(1)] rt y m(2) by auto
  have "mval ?p t + mval ?p y = k1_p" using z b n mod_once [of "mval ?p t + mval ?p y" k1_p] by (auto split: if_splits)
  then have "int (mval ?p t) = int k1_p - int (mval ?p y)" by simp
  then show ?thesis using k1.rep_mval [OF rt] t(1) by simp
qed

text \<open>
  A public key of secp256k1 is an \<open>x\<close>: what \<open>k1_lift_x\<close> returns is the point of the curve with that \<open>x\<close>
  and an even \<open>y\<close>.
\<close>

lemma k1_lift_ok:
  assumes l: "length xb = 32" and s: "k1_lift_x k1_curve xb = Some pt"
  shows "\<exists>y. pt_ok k1_curve pt \<and> jv k1_curve pt = (int (be_val xb), y, 1) \<and> be_val xb < k1_p \<and> even y \<and>
    y ^ 2 mod int k1_p = (int (be_val xb) ^ 3 + 7) mod int k1_p"
proof -
  let ?c = k1_curve let ?p = "c_p k1_curve" let ?x = "int (be_val xb)"
  define ox where "ox = bn_mod_enter ?p (bn_unpack xb EC_K)"
  define t where "t = FADD ?c (FMUL ?c (FMUL ?c ox ox) ox) (c_b ?c)"
  define y where "y = bn_mod_exp ?p t k1_sqrt_be 32"
  define yb where "yb = bn_pack (bn_mod_leave ?p y) EC_K"
  define y' where "y' = (if yb ! 31 AND 1 \<noteq> 0 then bn_mod_sub (m_m ?p) y (m_m ?p) EC_K else y)"
  have m: "length (m_m ?p) = EC_K" "bnval (m_m ?p) = k1_p" using mod_okD(1) [OF k1_ok(1)] k1_ok(2) by (simp_all add: field_char_def)
  note X = unpack32 [OF l]
  have below: "be_val xb < k1_p" and eq: "ec_eq (FMUL ?c y y) t" and pt: "pt = \<lparr>e_x = ox, e_y = y', e_z = m_one ?p\<rparr>"
    using s not_below(1) [OF conjunct1 [OF X] m(1)] X m(2)
    by (auto simp: k1_lift_x_def Let_def ec_below_def ox_def t_def y_def yb_def y'_def split: if_splits)
  have "reduced (m_m ?p) (bn_unpack xb EC_K)" using X m below by (simp add: reduced_def)
  from mval_enter [OF k1_ok(1) this] X below have ox: "rep ?c ox ?x" by (simp add: rep_def ox_def k1_ok(2))
  have "rep ?c t (?x * ?x * ?x + 7)" unfolding t_def by (intro k1.rep_add k1.rep_mul ox k1_ok(3))
  then have t: "rep ?c t (?x ^ 3 + 7)" by (simp add: power3_eq_cube)
  define v where "v = int (mval ?p y)"
  have ry: "reduced (m_m ?p) y" using k1.rep_exp [OF t] by (simp add: y_def rep_def)
  then have y: "rep ?c y v" using k1.rep_mval v_def by blast
  have sq: "v ^ 2 mod int k1_p = (?x ^ 3 + 7) mod int k1_p"
    using eq k1.rep_eq [OF k1.rep_mul [OF y y] t] by (simp add: k1_ok(2) power2_eq_square)
  have v: "0 \<le> v" "v < int k1_p" using mval_less [OF k1_ok(1) ry] m by (simp_all add: v_def)
  note B = k1.leave_bytes [OF y, folded yb_def]
  have "int (unat (yb ! 31)) = v mod 256" using last_byte [OF B(1)] B(2) v by (simp add: k1_ok(2) of_nat_mod)
  then have "even (unat (yb ! 31)) = even (v mod 256)" by (metis even_of_nat)
  then have od: "(yb ! 31 AND 1 \<noteq> 0) = odd v" using byte_bit [of 0 "yb ! 31"] by (simp add: dvd_mod_iff)
  have "\<exists>w. rep ?c y' w \<and> 0 \<le> w \<and> w < int k1_p \<and> even w \<and> w ^ 2 mod int k1_p = v ^ 2 mod int k1_p"
  proof (cases "odd v")
    case False
    then show ?thesis using y v od by (auto simp: y'_def)
  next
    case True
    note neg = k1_negate [OF ry, folded v_def]
    have "v \<noteq> 0" "mval ?p y \<noteq> 0" using True odd_pos by (auto simp: v_def intro!: Nat.gr0I)
    then have "rep ?c y' (int k1_p - v)" using neg True od by (simp add: y'_def)
    moreover have "odd (int k1_p)" by (simp add: k1_p_def)
    moreover have "(int k1_p - v) ^ 2 = v ^ 2 + int k1_p * (int k1_p - 2 * v)" by (simp add: power2_eq_square algebra_simps)
    ultimately show ?thesis using True v \<open>v \<noteq> 0\<close> by (intro exI [of _ "int k1_p - v"]) auto
  qed
  then obtain w where w: "rep ?c y' w" "0 \<le> w" "w < int k1_p" "even w" "w ^ 2 mod int k1_p = v ^ 2 mod int k1_p" by blast
  have "pt_ok ?c pt \<and> jv ?c pt = (?x mod int k1_p, w mod int k1_p, 1 mod int k1_p)"
    using k1.jv_rep [of pt ?x w 1] ox w(1) k1.rep_one by (simp add: pt k1_ok(2))
  moreover have "1 mod int k1_p = 1" by (simp add: k1_p_def)
  ultimately show ?thesis using w below sq by (intro exI [of _ w]) simp
qed

end
