(* ===== verification/Poly1305.thy ===== *)
theory Poly1305
  imports Limbs
begin

text \<open>
  The message authenticator of \<open>src/src/native.c\<close> (\<open>poly1305_*\<close>): five limbs of 26 bits, products in 64 bits, one
  carry pass a block and one reduction at the end. The theorem is that whatever way a message is cut into
  updates, the tag is the polynomial of the standard modulo \<open>2^130 - 5\<close>.
\<close>

unbundle bit_operations_syntax

section \<open>The code\<close>

definition u32le :: "byte list \<Rightarrow> nat \<Rightarrow> u32" where
  "u32le p o' = ucast (p ! o') OR push_bit 8 (ucast (p ! (o' + 1))) OR push_bit 16 (ucast (p ! (o' + 2))) OR push_bit 24 (ucast (p ! (o' + 3)))"

definition p32le :: "u32 \<Rightarrow> byte list" where
  "p32le v = [ucast v, ucast (drop_bit 8 v), ucast (drop_bit 16 v), ucast (drop_bit 24 v)]"

type_synonym limbs5 = "u32 \<times> u32 \<times> u32 \<times> u32 \<times> u32"

record poly1305 =
  pl_r :: limbs5
  pl_h :: limbs5
  pl_pad :: "u32 \<times> u32 \<times> u32 \<times> u32"
  pl_buf :: "byte list"
  pl_buflen :: nat

text \<open>Initialising leaves \<open>buf\<close> as it was.\<close>

definition poly1305_init :: "byte list \<Rightarrow> byte list \<Rightarrow> poly1305" where
  "poly1305_init buf key =
    (let t0 = u32le key 0; t1 = u32le key 4; t2 = u32le key 8; t3 = u32le key 12 in
     \<lparr>pl_r = (t0 AND 0x3ffffff, (drop_bit 26 t0 OR push_bit 6 t1) AND 0x3ffff03, (drop_bit 20 t1 OR push_bit 12 t2) AND 0x3ffc0ff,
        (drop_bit 14 t2 OR push_bit 18 t3) AND 0x3f03fff, drop_bit 8 t3 AND 0x00fffff),
      pl_h = (0, 0, 0, 0, 0), pl_pad = (u32le key 16, u32le key 20, u32le key 24, u32le key 28),
      pl_buf = buf, pl_buflen = 0\<rparr>)"

text \<open>The message block added to the accumulator, limb by limb.\<close>

definition block_limbs :: "byte list \<Rightarrow> u32 \<Rightarrow> limbs5" where
  "block_limbs m hibit =
    (let t0 = u32le m 0; t1 = u32le m 4; t2 = u32le m 8; t3 = u32le m 12 in
     (t0 AND 0x3ffffff, (drop_bit 26 t0 OR push_bit 6 t1) AND 0x3ffffff, (drop_bit 20 t1 OR push_bit 12 t2) AND 0x3ffffff,
      (drop_bit 14 t2 OR push_bit 18 t3) AND 0x3ffffff, drop_bit 8 t3 OR hibit))"

definition mul64 :: "u32 \<Rightarrow> u32 \<Rightarrow> u64" where
  "mul64 a b = ucast a * ucast b"

definition columns :: "limbs5 \<Rightarrow> limbs5 \<Rightarrow> u64 \<times> u64 \<times> u64 \<times> u64 \<times> u64" where
  "columns h r = (case h of (h0, h1, h2, h3, h4) \<Rightarrow> case r of (r0, r1, r2, r3, r4) \<Rightarrow>
    let s1 = r1 * 5; s2 = r2 * 5; s3 = r3 * 5; s4 = r4 * 5 in
    (mul64 h0 r0 + mul64 h1 s4 + mul64 h2 s3 + mul64 h3 s2 + mul64 h4 s1,
     mul64 h0 r1 + mul64 h1 r0 + mul64 h2 s4 + mul64 h3 s3 + mul64 h4 s2,
     mul64 h0 r2 + mul64 h1 r1 + mul64 h2 r0 + mul64 h3 s4 + mul64 h4 s3,
     mul64 h0 r3 + mul64 h1 r2 + mul64 h2 r1 + mul64 h3 r0 + mul64 h4 s4,
     mul64 h0 r4 + mul64 h1 r3 + mul64 h2 r2 + mul64 h3 r1 + mul64 h4 r0))"

definition carry64 :: "u64 \<Rightarrow> u32 \<times> u32" where
  "carry64 d = (ucast (drop_bit 26 d), ucast d AND 0x3ffffff)"

definition carry_pass :: "u64 \<times> u64 \<times> u64 \<times> u64 \<times> u64 \<Rightarrow> limbs5" where
  "carry_pass = (\<lambda>(d0, d1, d2, d3, d4).
    let (c, h0) = carry64 d0;
        (c, h1) = carry64 (d1 + ucast c);
        (c, h2) = carry64 (d2 + ucast c);
        (c, h3) = carry64 (d3 + ucast c);
        (c, h4) = carry64 (d4 + ucast c);
        h0 = h0 + c * 5; c = drop_bit 26 h0; h0 = h0 AND 0x3ffffff;
        h1 = h1 + c
    in (h0, h1, h2, h3, h4))"

definition add5 :: "limbs5 \<Rightarrow> limbs5 \<Rightarrow> limbs5" where
  "add5 = (\<lambda>(a0, a1, a2, a3, a4) (b0, b1, b2, b3, b4). (a0 + b0, a1 + b1, a2 + b2, a3 + b3, a4 + b4))"

definition poly1305_block :: "poly1305 \<Rightarrow> byte list \<Rightarrow> u32 \<Rightarrow> poly1305" where
  "poly1305_block st m hibit = st\<lparr>pl_h := carry_pass (columns (add5 (pl_h st) (block_limbs m hibit)) (pl_r st))\<rparr>"

text \<open>\<open>for (i = 0; i < n; i++) buf[at + i] = m[i]\<close>\<close>

definition buf_store :: "byte list \<Rightarrow> nat \<Rightarrow> byte list \<Rightarrow> byte list" where
  "buf_store buf at m = take at buf @ m @ drop (at + length m) buf"

function blocks16 :: "poly1305 \<Rightarrow> byte list \<Rightarrow> poly1305 \<times> byte list" where
  "blocks16 st m = (if length m \<ge> 16 then blocks16 (poly1305_block st (take 16 m) (push_bit 24 1)) (drop 16 m) else (st, m))"
  by pat_completeness auto
termination
  by (relation "measure (\<lambda>(st, m). length m)") auto

declare blocks16.simps [simp del]

definition poly1305_update :: "poly1305 \<Rightarrow> byte list \<Rightarrow> poly1305" where
  "poly1305_update st m =
    (let (st, m) =
       (if pl_buflen st > 0 then
          let want = 16 - pl_buflen st;
              n = (if length m < want then length m else want);
              st = st\<lparr>pl_buf := buf_store (pl_buf st) (pl_buflen st) (take n m), pl_buflen := pl_buflen st + n\<rparr>;
              m = drop n m
          in (if pl_buflen st = 16 then (poly1305_block st (pl_buf st) (push_bit 24 1))\<lparr>pl_buflen := 0\<rparr> else st, m)
        else (st, m));
       (st, m) = blocks16 st m
     in st\<lparr>pl_buf := buf_store (pl_buf st) (pl_buflen st) m, pl_buflen := pl_buflen st + length m\<rparr>)"

definition final_carry :: "limbs5 \<Rightarrow> limbs5" where
  "final_carry = (\<lambda>(h0, h1, h2, h3, h4).
    let c = drop_bit 26 h1; h1 = h1 AND 0x3ffffff;
        h2 = h2 + c; c = drop_bit 26 h2; h2 = h2 AND 0x3ffffff;
        h3 = h3 + c; c = drop_bit 26 h3; h3 = h3 AND 0x3ffffff;
        h4 = h4 + c; c = drop_bit 26 h4; h4 = h4 AND 0x3ffffff;
        h0 = h0 + c * 5; c = drop_bit 26 h0; h0 = h0 AND 0x3ffffff;
        h1 = h1 + c
    in (h0, h1, h2, h3, h4))"

definition minus_p :: "limbs5 \<Rightarrow> limbs5" where
  "minus_p = (\<lambda>(h0, h1, h2, h3, h4).
    let g0 = h0 + 5; c = drop_bit 26 g0; g0 = g0 AND 0x3ffffff;
        g1 = h1 + c; c = drop_bit 26 g1; g1 = g1 AND 0x3ffffff;
        g2 = h2 + c; c = drop_bit 26 g2; g2 = g2 AND 0x3ffffff;
        g3 = h3 + c; c = drop_bit 26 g3; g3 = g3 AND 0x3ffffff;
        g4 = h4 + c - push_bit 26 1
    in (g0, g1, g2, g3, g4))"

definition select5 :: "limbs5 \<Rightarrow> limbs5 \<Rightarrow> limbs5" where
  "select5 = (\<lambda>(h0, h1, h2, h3, h4) (g0, g1, g2, g3, g4).
    let mask = drop_bit 31 g4 - 1; nmask = NOT mask
    in ((h0 AND nmask) OR (g0 AND mask), (h1 AND nmask) OR (g1 AND mask), (h2 AND nmask) OR (g2 AND mask),
        (h3 AND nmask) OR (g3 AND mask), (h4 AND nmask) OR (g4 AND mask)))"

definition pack4 :: "limbs5 \<Rightarrow> u32 \<times> u32 \<times> u32 \<times> u32" where
  "pack4 = (\<lambda>(h0, h1, h2, h3, h4).
    (h0 OR push_bit 26 h1, drop_bit 6 h1 OR push_bit 20 h2, drop_bit 12 h2 OR push_bit 14 h3, drop_bit 18 h3 OR push_bit 8 h4))"

definition add_pad :: "u32 \<times> u32 \<times> u32 \<times> u32 \<Rightarrow> u32 \<times> u32 \<times> u32 \<times> u32 \<Rightarrow> u32 \<times> u32 \<times> u32 \<times> u32" where
  "add_pad = (\<lambda>(h0, h1, h2, h3) (p0, p1, p2, p3).
    let f = ucast h0 + ucast p0 :: u64; h0 = ucast f;
        f = ucast h1 + ucast p1 + drop_bit 32 f; h1 = ucast f;
        f = ucast h2 + ucast p2 + drop_bit 32 f; h2 = ucast f;
        f = ucast h3 + ucast p3 + drop_bit 32 f; h3 = ucast f
    in (h0, h1, h2, h3))"

definition poly1305_finish :: "poly1305 \<Rightarrow> byte list \<times> poly1305" where
  "poly1305_finish st =
    (let st = (if pl_buflen st > 0 then
           let st = st\<lparr>pl_buf := buf_store (pl_buf st) (pl_buflen st) (1 # replicate (15 - pl_buflen st) 0)\<rparr>
           in poly1305_block st (pl_buf st) 0
         else st);
         h = final_carry (pl_h st);
         (t0, t1, t2, t3) = add_pad (pack4 (select5 h (minus_p h))) (pl_pad st)
     in (p32le t0 @ p32le t1 @ p32le t2 @ p32le t3, st\<lparr>pl_r := (0, 0, 0, 0, 0), pl_h := (0, 0, 0, 0, 0), pl_pad := (0, 0, 0, 0)\<rparr>))"

section \<open>The standard\<close>

definition P1305 :: nat where "P1305 = 2 ^ 130 - 5"

definition clamped :: "byte list \<Rightarrow> nat" where
  "clamped key = le_val (take 16 key) AND 0x0ffffffc0ffffffc0ffffffc0fffffff"

text \<open>The accumulator over the blocks of 16 bytes and a last shorter one, each with a one bit above it.\<close>

function poly_acc :: "nat \<Rightarrow> nat \<Rightarrow> byte list \<Rightarrow> nat" where
  "poly_acc r a m = (if m = [] then a else poly_acc r (((a + le_val (take 16 m @ [1])) * r) mod P1305) (drop 16 m))"
  by pat_completeness auto
termination
  by (relation "measure (\<lambda>(r, a, m). length m)") auto

declare poly_acc.simps [simp del]

definition poly1305_tag :: "byte list \<Rightarrow> byte list \<Rightarrow> byte list" where
  "poly1305_tag key m = le_bytes 16 (poly_acc (clamped key) 0 m + le_val (drop 16 key))"

section \<open>Limbs of 26 bits\<close>

definition v26 :: "limbs5 \<Rightarrow> nat" where
  "v26 = (\<lambda>(a0, a1, a2, a3, a4). unat a0 + 2 ^ 26 * unat a1 + 2 ^ 52 * unat a2 + 2 ^ 78 * unat a3 + 2 ^ 104 * unat a4)"

lemma and26: "(x :: 'a::len word) AND 0x3ffffff = take_bit 26 x"
  by (simp add: take_bit_eq_mask mask_eq_exp_minus_1)

lemma unat_and26: "unat ((x :: 'a::len word) AND 0x3ffffff) = unat x mod 2 ^ 26"
  unfolding and26 by (rule unat_take_bit)

lemma unat_push: "unat (push_bit b (y :: u32)) = unat y mod 2 ^ (32 - b) * 2 ^ b" if "b \<le> 32"
proof -
  have "unat (push_bit b y) = take_bit 32 (push_bit b (unat y))" unfolding unsigned_push_bit_eq by simp
  also have "\<dots> = push_bit b (take_bit (32 - b) (unat y))" using that by (simp add: take_bit_push_bit)
  finally show ?thesis by (simp add: push_bit_eq_mult take_bit_eq_mod)
qed

text \<open>The limbs that straddle two words.\<close>

lemma straddle:
  fixes x y :: u32
  assumes "b \<le> 26"
  shows "unat (drop_bit (32 - b) x OR push_bit b y) = unat x div 2 ^ (32 - b) + 2 ^ b * (unat y mod 2 ^ (32 - b))"
    "unat ((drop_bit (32 - b) x OR push_bit b y) AND 0x3ffffff) = unat x div 2 ^ (32 - b) + 2 ^ b * (unat y mod 2 ^ (26 - b))"
proof -
  have lt: "unat x div 2 ^ (32 - b) < 2 ^ b"
    using unat_u32 [of x] assms by (intro less_mult_imp_div_less) (simp flip: power_add)
  have "unat (drop_bit (32 - b) x OR push_bit b y) = push_bit b (unat y mod 2 ^ (32 - b)) OR (unat x div 2 ^ (32 - b))"
    using assms by (simp add: unsigned_or_eq unat_push unat_drop_bit or.commute) (simp add: push_bit_eq_mult)
  also have "\<dots> = unat y mod 2 ^ (32 - b) * 2 ^ b + unat x div 2 ^ (32 - b)" by (rule or_shift [OF lt])
  finally show 1: "unat (drop_bit (32 - b) x OR push_bit b y) = unat x div 2 ^ (32 - b) + 2 ^ b * (unat y mod 2 ^ (32 - b))" by simp
  have "32 - b = 26 - b + 6" using assms by simp
  then have p: "(2 :: nat) ^ 26 = 2 ^ b * 2 ^ (26 - b)" "(2 :: nat) ^ (32 - b) = 2 ^ (26 - b) * 2 ^ 6" using assms by (simp_all only: power_add [symmetric]) simp_all
  have "(unat x div 2 ^ (32 - b) + 2 ^ b * (unat y mod 2 ^ (32 - b))) mod 2 ^ 26 = unat x div 2 ^ (32 - b) + 2 ^ b * (unat y mod 2 ^ (26 - b))"
    unfolding p(1) using lt by (simp add: mod_mult2_eq) (simp add: p(2) mod_mult2_eq)
  then show "unat ((drop_bit (32 - b) x OR push_bit b y) AND 0x3ffffff) = unat x div 2 ^ (32 - b) + 2 ^ b * (unat y mod 2 ^ (26 - b))"
    unfolding unat_and26 1 .
qed

lemma le_val4:
  assumes "o' + 4 \<le> length p"
  shows "unat (u32le p o') = le_val (take 4 (drop o' p))"
proof -
  have "take 4 (drop o' p) = map (\<lambda>i. p ! (o' + i)) [0..<4]" by (rule nth_equalityI) (use assms in auto)
  then have "take 4 (drop o' p) = [p ! o', p ! (o' + 1), p ! (o' + 2), p ! (o' + 3)]" by (simp add: upt_rec numeral_3_eq_3)
  moreover have "u32le p o' = push_bit 24 (ucast (p ! (o' + 3))) OR push_bit 16 (ucast (p ! (o' + 2))) OR push_bit 8 (ucast (p ! (o' + 1))) OR ucast (p ! o')"
    unfolding u32le_def by (simp only: or.assoc or.commute or.left_commute)
  ultimately show ?thesis using unat_be by simp
qed

lemma le_val_4: "le_val xs = le_val (take 4 xs) + 2 ^ 32 * le_val (drop 4 xs)"
proof (cases "4 \<le> length xs")
  case True
  have "le_val xs = le_val (take 4 xs @ drop 4 xs)" by simp
  then show ?thesis unfolding le_val_append using True by simp
qed simp

lemma le_val16:
  assumes "length m = 16"
  shows "le_val m = unat (u32le m 0) + 2 ^ 32 * unat (u32le m 4) + 2 ^ 64 * unat (u32le m 8) + 2 ^ 96 * unat (u32le m 12)"
proof -
  have "le_val (drop 4 m) = le_val (take 4 (drop 4 m)) + 2 ^ 32 * le_val (drop 8 m)" "le_val (drop 8 m) = le_val (take 4 (drop 8 m)) + 2 ^ 32 * le_val (drop 12 m)"
    using le_val_4 [of "drop 4 m"] le_val_4 [of "drop 8 m"] by simp_all
  moreover have "le_val (drop 12 m) = le_val (take 4 (drop 12 m))" using assms by simp
  moreover have "unat (u32le m 0) = le_val (take 4 m)" "unat (u32le m 4) = le_val (take 4 (drop 4 m))" "unat (u32le m 8) = le_val (take 4 (drop 8 m))"
    "unat (u32le m 12) = le_val (take 4 (drop 12 m))" using le_val4 [of 0 m] le_val4 [of 4 m] le_val4 [of 8 m] le_val4 [of 12 m] assms by simp_all
  ultimately show ?thesis using le_val_4 [of m] by (simp add: distrib_left)
qed

text \<open>The limbs of a 128-bit number given by its four words.\<close>

definition limbs_of :: "nat \<Rightarrow> nat \<Rightarrow> nat \<Rightarrow> nat \<Rightarrow> nat \<times> nat \<times> nat \<times> nat \<times> nat" where
  "limbs_of t0 t1 t2 t3 = (t0 mod 2 ^ 26, t0 div 2 ^ 26 + 2 ^ 6 * (t1 mod 2 ^ 20), t1 div 2 ^ 20 + 2 ^ 12 * (t2 mod 2 ^ 14),
     t2 div 2 ^ 14 + 2 ^ 18 * (t3 mod 2 ^ 8), t3 div 2 ^ 8)"

lemma limbs_sum:
  fixes q0 q1 q2 q3 r0 r1 r2 r3 :: nat
  assumes "t0 = q0 * 2 ^ 26 + r0" "t1 = q1 * 2 ^ 20 + r1" "t2 = q2 * 2 ^ 14 + r2" "t3 = q3 * 2 ^ 8 + r3"
  shows "r0 + 2 ^ 26 * (q0 + 2 ^ 6 * r1) + 2 ^ 52 * (q1 + 2 ^ 12 * r2) + 2 ^ 78 * (q2 + 2 ^ 18 * r3) + 2 ^ 104 * q3 =
    t0 + 2 ^ 32 * t1 + 2 ^ 64 * t2 + 2 ^ 96 * t3"
  unfolding assms by (simp add: distrib_left)

lemma limbs_of_sum:
  assumes "limbs_of t0 t1 t2 t3 = (a0, a1, a2, a3, a4)"
  shows "a0 + 2 ^ 26 * a1 + 2 ^ 52 * a2 + 2 ^ 78 * a3 + 2 ^ 104 * a4 = t0 + 2 ^ 32 * t1 + 2 ^ 64 * t2 + 2 ^ 96 * t3"
  using limbs_sum [OF div_mult_mod_eq [symmetric] div_mult_mod_eq [symmetric] div_mult_mod_eq [symmetric] div_mult_mod_eq [symmetric], of t0 t1 t2 t3] assms
  unfolding limbs_of_def by blast

lemma limbs_of_bounds:
  assumes "limbs_of t0 t1 t2 t3 = (a0, a1, a2, a3, a4)" "t0 < 2 ^ 32" "t1 < 2 ^ 32" "t2 < 2 ^ 32" "t3 < 2 ^ 32"
  shows "a0 < 2 ^ 26" "a1 < 2 ^ 26" "a2 < 2 ^ 26" "a3 < 2 ^ 26" "a4 < 2 ^ 24"
proof -
  have low: "x + 2 ^ j * y < 2 ^ 26" if "x < 2 ^ j" "y < 2 ^ k" "j + k = 26" for x y j k :: nat
  proof -
    have "x + 2 ^ j * y < 2 ^ j * Suc y" using that(1) by simp
    also have "\<dots> \<le> 2 ^ j * 2 ^ k" using that(2) by (intro mult_le_mono2) simp
    finally show ?thesis using that(3) by (simp add: power_add [symmetric])
  qed
  have d: "t0 div 2 ^ 26 < 2 ^ 6" "t1 div 2 ^ 20 < 2 ^ 12" "t2 div 2 ^ 14 < 2 ^ 18" "t3 div 2 ^ 8 < 2 ^ 24" using assms(2-5) by simp_all
  have m: "t1 mod 2 ^ 20 < 2 ^ 20" "t2 mod 2 ^ 14 < 2 ^ 14" "t3 mod 2 ^ 8 < 2 ^ 8" "t0 mod 2 ^ 26 < 2 ^ 26" by simp_all
  have e: "a0 = t0 mod 2 ^ 26" "a1 = t0 div 2 ^ 26 + 2 ^ 6 * (t1 mod 2 ^ 20)" "a2 = t1 div 2 ^ 20 + 2 ^ 12 * (t2 mod 2 ^ 14)"
    "a3 = t2 div 2 ^ 14 + 2 ^ 18 * (t3 mod 2 ^ 8)" "a4 = t3 div 2 ^ 8" using assms(1) unfolding limbs_of_def by blast+
  show "a0 < 2 ^ 26" unfolding e by (rule m(4))
  show "a1 < 2 ^ 26" unfolding e by (rule low [OF d(1) m(1)]) simp
  show "a2 < 2 ^ 26" unfolding e by (rule low [OF d(2) m(2)]) simp
  show "a3 < 2 ^ 26" unfolding e by (rule low [OF d(3) m(3)]) simp
  show "a4 < 2 ^ 24" unfolding e by (rule d(4))
qed

definition words_of :: "byte list \<Rightarrow> nat \<times> nat \<times> nat \<times> nat \<times> nat" where
  "words_of m = limbs_of (unat (u32le m 0)) (unat (u32le m 4)) (unat (u32le m 8)) (unat (u32le m 12))"

lemma words_of_val:
  assumes "length m = 16" "words_of m = (a0, a1, a2, a3, a4)"
  shows "a0 + 2 ^ 26 * a1 + 2 ^ 52 * a2 + 2 ^ 78 * a3 + 2 ^ 104 * a4 = le_val m"
    "a0 < 2 ^ 26" "a1 < 2 ^ 26" "a2 < 2 ^ 26" "a3 < 2 ^ 26" "a4 < 2 ^ 24"
  using limbs_of_sum [OF assms(2) [unfolded words_of_def]] le_val16 [OF assms(1)] limbs_of_bounds [OF assms(2) [unfolded words_of_def] unat_u32 unat_u32 unat_u32 unat_u32] by simp_all

text \<open>The same four limbs taken out of the words by shifts and masks.\<close>

lemma limb_words:
  fixes t0 t1 t2 t3 :: u32
  shows "limbs_of (unat t0) (unat t1) (unat t2) (unat t3) =
    (unat (t0 AND 0x3ffffff), unat ((drop_bit 26 t0 OR push_bit 6 t1) AND 0x3ffffff), unat ((drop_bit 20 t1 OR push_bit 12 t2) AND 0x3ffffff),
     unat ((drop_bit 14 t2 OR push_bit 18 t3) AND 0x3ffffff), unat (drop_bit 8 t3))"
proof -
  have "unat ((drop_bit 26 t0 OR push_bit 6 t1) AND 0x3ffffff) = unat t0 div 2 ^ 26 + 2 ^ 6 * (unat t1 mod 2 ^ 20)"
    "unat ((drop_bit 20 t1 OR push_bit 12 t2) AND 0x3ffffff) = unat t1 div 2 ^ 20 + 2 ^ 12 * (unat t2 mod 2 ^ 14)"
    "unat ((drop_bit 14 t2 OR push_bit 18 t3) AND 0x3ffffff) = unat t2 div 2 ^ 14 + 2 ^ 18 * (unat t3 mod 2 ^ 8)"
    using straddle(2) [of 6 t0 t1] straddle(2) [of 12 t1 t2] straddle(2) [of 18 t2 t3] by simp_all
  then show ?thesis unfolding limbs_of_def unat_and26 unat_drop_bit by (simp only:)
qed

lemma block_limbs_val:
  assumes "length m = 16" "hibit = 0 \<or> hibit = push_bit 24 1" "block_limbs m hibit = (b0, b1, b2, b3, b4)"
  shows "v26 (block_limbs m hibit) = le_val m + 2 ^ 104 * unat hibit"
    "unat b0 < 2 ^ 26" "unat b1 < 2 ^ 26" "unat b2 < 2 ^ 26" "unat b3 < 2 ^ 26" "unat b4 < 2 ^ 25"
proof -
  obtain a0 a1 a2 a3 a4 where w: "words_of m = (a0, a1, a2, a3, a4)" by (cases "words_of m") auto
  note v = words_of_val [OF assms(1) w]
  have b: "unat b0 = a0" "unat b1 = a1" "unat b2 = a2" "unat b3 = a3" and o: "b4 = drop_bit 8 (u32le m 12) OR hibit"
    using limb_words [of "u32le m 0" "u32le m 4" "u32le m 8" "u32le m 12"] w assms(3)
    unfolding words_of_def block_limbs_def Let_def by auto
  have t: "unat (drop_bit 8 (u32le m 12)) = a4" using w unfolding words_of_def limbs_of_def by (simp add: unat_drop_bit)
  have h: "hibit = 0 \<and> unat hibit = 0 \<or> hibit = push_bit 24 1 \<and> unat hibit = push_bit 24 1"
    using assms(2) by (auto simp: push_bit_eq_mult)
  have "unat b4 = unat hibit OR a4" using o t by (simp add: unsigned_or_eq or.commute)
  then have b4: "unat b4 = unat hibit + a4" using h or_shift [OF v(6), of 1] by (auto simp: push_bit_eq_mult)
  show "v26 (block_limbs m hibit) = le_val m + 2 ^ 104 * unat hibit" unfolding assms(3) v26_def prod.case b b4 using v(1) by (simp add: distrib_left)
  show "unat b0 < 2 ^ 26" "unat b1 < 2 ^ 26" "unat b2 < 2 ^ 26" "unat b3 < 2 ^ 26" "unat b4 < 2 ^ 25"
    using v b b4 h by (auto simp: push_bit_eq_mult)
qed

section \<open>The clamped key\<close>

lemma and_split:
  fixes x m :: nat
  assumes "x < 2 ^ k" "m < 2 ^ k"
  shows "(x + 2 ^ k * y) AND (m + 2 ^ k * n) = (x AND m) + 2 ^ k * (y AND n)"
proof -
  have s: "take_bit k (a + 2 ^ k * b) = a" "drop_bit k (a + 2 ^ k * b) = b" if "a < 2 ^ k" for a b :: nat
    using that by (simp_all add: take_bit_eq_mod drop_bit_eq_div)
  have "(x + 2 ^ k * y) AND (m + 2 ^ k * n) =
      push_bit k (drop_bit k ((x + 2 ^ k * y) AND (m + 2 ^ k * n))) + take_bit k ((x + 2 ^ k * y) AND (m + 2 ^ k * n))"
    by (rule bits_ident [symmetric])
  then show ?thesis unfolding take_bit_and drop_bit_and s [OF assms(1)] s [OF assms(2)] by (simp add: push_bit_eq_mult ac_simps)
qed

lemma and_limit: "(x :: nat) AND m \<le> m"
  by (simp add: and_nat_def nat_le_iff AND_upper2)

lemma and_mask26: "unat ((x :: u32) AND m) = unat (x AND 0x3ffffff) AND unat m" if "0x3ffffff AND m = m"
  unfolding unsigned_and_eq [symmetric] and.assoc that ..

lemma init_r:
  assumes "32 \<le> length key" "pl_r (poly1305_init [] key) = (r0, r1, r2, r3, r4)"
  shows "v26 (r0, r1, r2, r3, r4) = clamped key" "unat r0 < 2 ^ 26" "unat r1 < 2 ^ 26" "unat r2 < 2 ^ 26" "unat r3 < 2 ^ 26" "unat r4 < 2 ^ 26"
proof -
  have l: "length (take 16 key) = 16" using assms(1) by simp
  obtain a0 a1 a2 a3 a4 where w: "words_of (take 16 key) = (a0, a1, a2, a3, a4)" by (cases "words_of (take 16 key)") auto
  note v = words_of_val [OF l w]
  have u: "u32le (take 16 key) o' = u32le key o'" if "o' + 4 \<le> 16" for o' using that by (simp add: u32le_def)
  have m: "unat ((x :: u32) AND 0x3ffff03) = unat (x AND 0x3ffffff) AND 0x3ffff03" "unat (x AND 0x3ffc0ff) = unat (x AND 0x3ffffff) AND 0x3ffc0ff"
    "unat (x AND 0x3f03fff) = unat (x AND 0x3ffffff) AND 0x3f03fff" "unat (x AND 0xfffff) = unat x AND 0xfffff" for x
    using and_mask26 [of "0x3ffff03" x] and_mask26 [of "0x3ffc0ff" x] and_mask26 [of "0x3f03fff" x] unsigned_and_eq [of x "0xfffff"] by simp_all
  have lw: "limbs_of (unat (u32le key 0)) (unat (u32le key 4)) (unat (u32le key 8)) (unat (u32le key 12)) = (a0, a1, a2, a3, a4)"
    using w by (simp add: words_of_def u)
  have e: "r0 = u32le key 0 AND 0x3ffffff" "r1 = (drop_bit 26 (u32le key 0) OR push_bit 6 (u32le key 4)) AND 0x3ffff03"
    "r2 = (drop_bit 20 (u32le key 4) OR push_bit 12 (u32le key 8)) AND 0x3ffc0ff" "r3 = (drop_bit 14 (u32le key 8) OR push_bit 18 (u32le key 12)) AND 0x3f03fff"
    "r4 = drop_bit 8 (u32le key 12) AND 0xfffff" using assms(2) by (auto simp: poly1305_init_def Let_def)
  have r: "unat r0 = a0" "unat r1 = a1 AND 0x3ffff03" "unat r2 = a2 AND 0x3ffc0ff" "unat r3 = a3 AND 0x3f03fff" "unat r4 = a4 AND 0xfffff"
    using lw e unfolding limb_words by (auto simp only: m prod.inject)
  have a0: "a0 AND 0x3ffffff = a0" 
  proof -
    have "(0x3ffffff :: nat) = mask 26" by (simp add: mask_eq_exp_minus_1)
    then have "a0 AND 0x3ffffff = take_bit 26 a0" by (simp only: take_bit_eq_mask)
    then show ?thesis using v(2) by (simp only: take_bit_nat_eq_self)
  qed
  have mb: "(0x3ffffff :: nat) < 2 ^ 26" "(0x3ffff03 :: nat) < 2 ^ 26" "(0x3ffc0ff :: nat) < 2 ^ 26" "(0x3f03fff :: nat) < 2 ^ 26" by simp_all
  have "clamped key = (a0 + 2 ^ 26 * (a1 + 2 ^ 26 * (a2 + 2 ^ 26 * (a3 + 2 ^ 26 * a4)))) AND
      (0x3ffffff + 2 ^ 26 * (0x3ffff03 + 2 ^ 26 * (0x3ffc0ff + 2 ^ 26 * (0x3f03fff + 2 ^ 26 * 0xfffff))))"
    unfolding clamped_def v(1) [symmetric] by (simp add: distrib_left add.assoc)
  also have "\<dots> = (a0 AND 0x3ffffff) + 2 ^ 26 * ((a1 AND 0x3ffff03) + 2 ^ 26 * ((a2 AND 0x3ffc0ff) + 2 ^ 26 * ((a3 AND 0x3f03fff) + 2 ^ 26 * (a4 AND 0xfffff))))"
    unfolding and_split [OF v(2) mb(1)] and_split [OF v(3) mb(2)] and_split [OF v(4) mb(3)] and_split [OF v(5) mb(4)] ..
  finally show "v26 (r0, r1, r2, r3, r4) = clamped key" unfolding v26_def prod.case r a0 by (simp add: distrib_left)
  show "unat r0 < 2 ^ 26" using r(1) v(2) by simp
  show "unat r1 < 2 ^ 26" using and_limit [of a1 "0x3ffff03"] unfolding r by simp
  show "unat r2 < 2 ^ 26" using and_limit [of a2 "0x3ffc0ff"] unfolding r by simp
  show "unat r3 < 2 ^ 26" using and_limit [of a3 "0x3f03fff"] unfolding r by simp
  show "unat r4 < 2 ^ 26" using and_limit [of a4 "0xfffff"] unfolding r by simp
qed

section \<open>One block\<close>

definition hinv :: "limbs5 \<Rightarrow> bool" where
  "hinv = (\<lambda>(h0, h1, h2, h3, h4). unat h0 < 2 ^ 26 \<and> unat h1 < 2 ^ 26 + 2 ^ 6 \<and> unat h2 < 2 ^ 26 \<and> unat h3 < 2 ^ 26 \<and> unat h4 < 2 ^ 26)"

definition rinv :: "limbs5 \<Rightarrow> bool" where
  "rinv = (\<lambda>(r0, r1, r2, r3, r4). unat r0 < 2 ^ 26 \<and> unat r1 < 2 ^ 26 \<and> unat r2 < 2 ^ 26 \<and> unat r3 < 2 ^ 26 \<and> unat r4 < 2 ^ 26)"

lemma unat_mul64: "unat (mul64 a b) = unat a * unat b"
proof -
  have "unat a * unat b < 2 ^ 32 * 2 ^ 32" using unat_u32 [of a] unat_u32 [of b] by (intro mult_strict_mono) auto
  then show ?thesis unfolding mul64_def by (subst unat_times) (simp_all add: unat_ucast_up)
qed

lemma unat_times5: "unat (r * 5) = 5 * unat r" if "unat (r :: u32) < 2 ^ 26"
  using that by (subst unat_times) simp_all

text \<open>The columns of the product as numbers, with every product of a high limb folded back times five.\<close>

lemma columns_fold:
  fixes h0 h1 h2 h3 h4 r0 r1 r2 r3 r4 X :: nat
  shows "(h0 + X * h1 + X ^ 2 * h2 + X ^ 3 * h3 + X ^ 4 * h4) * (r0 + X * r1 + X ^ 2 * r2 + X ^ 3 * r3 + X ^ 4 * r4) +
      5 * ((h1 * r4 + h2 * r3 + h3 * r2 + h4 * r1) + X * (h2 * r4 + h3 * r3 + h4 * r2) + X ^ 2 * (h3 * r4 + h4 * r3) + X ^ 3 * (h4 * r4)) =
    (h0 * r0 + h1 * (5 * r4) + h2 * (5 * r3) + h3 * (5 * r2) + h4 * (5 * r1)) + X * (h0 * r1 + h1 * r0 + h2 * (5 * r4) + h3 * (5 * r3) + h4 * (5 * r2)) +
      X ^ 2 * (h0 * r2 + h1 * r1 + h2 * r0 + h3 * (5 * r4) + h4 * (5 * r3)) + X ^ 3 * (h0 * r3 + h1 * r2 + h2 * r1 + h3 * r0 + h4 * (5 * r4)) +
      X ^ 4 * (h0 * r4 + h1 * r3 + h2 * r2 + h3 * r1 + h4 * r0) +
      X ^ 5 * ((h1 * r4 + h2 * r3 + h3 * r2 + h4 * r1) + X * (h2 * r4 + h3 * r3 + h4 * r2) + X ^ 2 * (h3 * r4 + h4 * r3) + X ^ 3 * (h4 * r4))"
  by (simp add: algebra_simps eval_nat_numeral)

lemma unat_sum5:
  fixes a b c d e :: u64
  assumes "unat a + unat b + unat c + unat d + unat e < 2 ^ 64"
  shows "unat (a + b + c + d + e) = unat a + unat b + unat c + unat d + unat e"
proof -
  have "unat (a + b) = unat a + unat b" using assms by (intro unat_plus) simp
  moreover from this have "unat (a + b + c) = unat a + unat b + unat c" using assms by (subst unat_plus) simp_all
  moreover from this have "unat (a + b + c + d) = unat a + unat b + unat c + unat d" using assms by (subst unat_plus) simp_all
  ultimately show ?thesis using assms by (subst unat_plus) simp_all
qed

definition colval :: "u64 \<times> u64 \<times> u64 \<times> u64 \<times> u64 \<Rightarrow> nat" where
  "colval = (\<lambda>(d0, d1, d2, d3, d4). unat d0 + 2 ^ 26 * unat d1 + (2 ^ 26) ^ 2 * unat d2 + (2 ^ 26) ^ 3 * unat d3 + (2 ^ 26) ^ 4 * unat d4)"

definition colinv :: "u64 \<times> u64 \<times> u64 \<times> u64 \<times> u64 \<Rightarrow> bool" where
  "colinv = (\<lambda>(d0, d1, d2, d3, d4). unat d0 < 22 * 2 ^ 53 \<and> unat d1 < 22 * 2 ^ 53 \<and> unat d2 < 22 * 2 ^ 53 \<and> unat d3 < 22 * 2 ^ 53 \<and> unat d4 < 6 * 2 ^ 53)"

lemma v26_powers: "v26 (a0, a1, a2, a3, a4) = unat a0 + 2 ^ 26 * unat a1 + (2 ^ 26) ^ 2 * unat a2 + (2 ^ 26) ^ 3 * unat a3 + (2 ^ 26) ^ 4 * unat a4"
  unfolding v26_def by simp

text \<open>No column overflows its word, and the columns stand for the product modulo the prime.\<close>

lemma columns_ok:
  assumes h: "\<forall>x \<in> {h0, h1, h2, h3, h4}. unat x < 2 ^ 27 + 2 ^ 6" and r: "rinv (r0, r1, r2, r3, r4)"
  shows "colinv (columns (h0, h1, h2, h3, h4) (r0, r1, r2, r3, r4))"
    "\<exists>k. v26 (h0, h1, h2, h3, h4) * v26 (r0, r1, r2, r3, r4) + 5 * k = colval (columns (h0, h1, h2, h3, h4) (r0, r1, r2, r3, r4)) + (2 ^ 26) ^ 5 * k"
proof -
  define M :: nat where "M = (2 ^ 27 + 2 ^ 6) * 2 ^ 26"
  have p: "unat x * unat y \<le> M" if "x \<in> {h0, h1, h2, h3, h4}" "y \<in> {r0, r1, r2, r3, r4}" for x y
  proof -
    have "unat x \<le> 2 ^ 27 + 2 ^ 6" using h that(1) by (meson less_imp_le)
    moreover have "unat y \<le> 2 ^ 26" using r that(2) unfolding rinv_def by auto
    ultimately show ?thesis unfolding M_def by (rule mult_le_mono)
  qed
  have s: "unat (r1 * 5) = 5 * unat r1" "unat (r2 * 5) = 5 * unat r2" "unat (r3 * 5) = 5 * unat r3" "unat (r4 * 5) = 5 * unat r4"
    using r unat_times5 unfolding rinv_def by auto
  have all: "unat h0 * unat r0 \<le> M" "unat h0 * unat r1 \<le> M" "unat h0 * unat r2 \<le> M" "unat h0 * unat r3 \<le> M" "unat h0 * unat r4 \<le> M"
    "unat h1 * unat r0 \<le> M" "unat h1 * unat r1 \<le> M" "unat h1 * unat r2 \<le> M" "unat h1 * unat r3 \<le> M" "unat h1 * unat r4 \<le> M"
    "unat h2 * unat r0 \<le> M" "unat h2 * unat r1 \<le> M" "unat h2 * unat r2 \<le> M" "unat h2 * unat r3 \<le> M" "unat h2 * unat r4 \<le> M"
    "unat h3 * unat r0 \<le> M" "unat h3 * unat r1 \<le> M" "unat h3 * unat r2 \<le> M" "unat h3 * unat r3 \<le> M" "unat h3 * unat r4 \<le> M"
    "unat h4 * unat r0 \<le> M" "unat h4 * unat r1 \<le> M" "unat h4 * unat r2 \<le> M" "unat h4 * unat r3 \<le> M" "unat h4 * unat r4 \<le> M"
    by (rule p; simp)+
  have fives: "unat x * (5 * unat y) = 5 * (unat x * unat y)" for x y :: u32 by simp
  have m: "21 * M < 22 * 2 ^ 53" "5 * M < 6 * 2 ^ 53" "21 * M < 2 ^ 64" unfolding M_def by simp_all
  define d0 d1 d2 d3 d4 where
    "d0 = mul64 h0 r0 + mul64 h1 (r4 * 5) + mul64 h2 (r3 * 5) + mul64 h3 (r2 * 5) + mul64 h4 (r1 * 5)" and
    "d1 = mul64 h0 r1 + mul64 h1 r0 + mul64 h2 (r4 * 5) + mul64 h3 (r3 * 5) + mul64 h4 (r2 * 5)" and
    "d2 = mul64 h0 r2 + mul64 h1 r1 + mul64 h2 r0 + mul64 h3 (r4 * 5) + mul64 h4 (r3 * 5)" and
    "d3 = mul64 h0 r3 + mul64 h1 r2 + mul64 h2 r1 + mul64 h3 r0 + mul64 h4 (r4 * 5)" and
    "d4 = mul64 h0 r4 + mul64 h1 r3 + mul64 h2 r2 + mul64 h3 r1 + mul64 h4 r0"
  have c: "columns (h0, h1, h2, h3, h4) (r0, r1, r2, r3, r4) = (d0, d1, d2, d3, d4)"
    unfolding columns_def prod.case Let_def d0_def d1_def d2_def d3_def d4_def ..
  have b: "unat h0 * unat r0 + unat h1 * (5 * unat r4) + unat h2 * (5 * unat r3) + unat h3 * (5 * unat r2) + unat h4 * (5 * unat r1) \<le> 21 * M"
    "unat h0 * unat r1 + unat h1 * unat r0 + unat h2 * (5 * unat r4) + unat h3 * (5 * unat r3) + unat h4 * (5 * unat r2) \<le> 21 * M"
    "unat h0 * unat r2 + unat h1 * unat r1 + unat h2 * unat r0 + unat h3 * (5 * unat r4) + unat h4 * (5 * unat r3) \<le> 21 * M"
    "unat h0 * unat r3 + unat h1 * unat r2 + unat h2 * unat r1 + unat h3 * unat r0 + unat h4 * (5 * unat r4) \<le> 21 * M"
    "unat h0 * unat r4 + unat h1 * unat r3 + unat h2 * unat r2 + unat h3 * unat r1 + unat h4 * unat r0 \<le> 5 * M"
    unfolding fives using all by linarith+
  have u: "unat d0 = unat h0 * unat r0 + unat h1 * (5 * unat r4) + unat h2 * (5 * unat r3) + unat h3 * (5 * unat r2) + unat h4 * (5 * unat r1)"
    "unat d1 = unat h0 * unat r1 + unat h1 * unat r0 + unat h2 * (5 * unat r4) + unat h3 * (5 * unat r3) + unat h4 * (5 * unat r2)"
    "unat d2 = unat h0 * unat r2 + unat h1 * unat r1 + unat h2 * unat r0 + unat h3 * (5 * unat r4) + unat h4 * (5 * unat r3)"
    "unat d3 = unat h0 * unat r3 + unat h1 * unat r2 + unat h2 * unat r1 + unat h3 * unat r0 + unat h4 * (5 * unat r4)"
    "unat d4 = unat h0 * unat r4 + unat h1 * unat r3 + unat h2 * unat r2 + unat h3 * unat r1 + unat h4 * unat r0"
    unfolding d0_def d1_def d2_def d3_def d4_def using b m(3) by (subst unat_sum5; simp only: unat_mul64 s; linarith)+
  show "colinv (columns (h0, h1, h2, h3, h4) (r0, r1, r2, r3, r4))" unfolding c colinv_def prod.case u using b m by (meson le_less_trans)
  show "\<exists>k. v26 (h0, h1, h2, h3, h4) * v26 (r0, r1, r2, r3, r4) + 5 * k = colval (columns (h0, h1, h2, h3, h4) (r0, r1, r2, r3, r4)) + (2 ^ 26) ^ 5 * k"
    unfolding c colval_def prod.case u v26_powers using columns_fold [of "unat h0" "2 ^ 26" "unat h1" "unat h2" "unat h3" "unat h4" "unat r0" "unat r1" "unat r2" "unat r3" "unat r4"]
    by (rule exI)
qed

lemma carry64_ok:
  assumes "carry64 d = (c, l)" "unat d < 2 ^ 58"
  shows "unat c = unat d div 2 ^ 26" "unat l = unat d mod 2 ^ 26" "unat d = unat l + 2 ^ 26 * unat c" "unat l < 2 ^ 26"
proof -
  have "unat (drop_bit 26 d) < 2 ^ 32" using assms(2) unfolding unat_drop_bit by (simp add: less_mult_imp_div_less)
  then show c: "unat c = unat d div 2 ^ 26" using assms(1) by (auto simp: carry64_def unat_drop_bit unat_ucast)
  have "unat d mod 2 ^ 32 mod 2 ^ 26 = unat d mod 2 ^ 26" by (rule mod_mod_cancel) simp
  then show l: "unat l = unat d mod 2 ^ 26" using assms(1) by (auto simp: carry64_def unat_and26 unat_ucast)
  show "unat d = unat l + 2 ^ 26 * unat c" "unat l < 2 ^ 26" unfolding c l by simp_all
qed

lemma carry_chain:
  fixes l0 l1 l2 l3 l4 c0 c1 c2 c3 c4 X :: nat
  assumes "d0 = l0 + X * c0" "d1 + c0 = l1 + X * c1" "d2 + c1 = l2 + X * c2" "d3 + c2 = l3 + X * c3" "d4 + c3 = l4 + X * c4"
  shows "d0 + X * d1 + X ^ 2 * d2 + X ^ 3 * d3 + X ^ 4 * d4 = l0 + X * l1 + X ^ 2 * l2 + X ^ 3 * l3 + X ^ 4 * l4 + X ^ 5 * c4"
proof -
  have "d0 + X * d1 + X ^ 2 * d2 + X ^ 3 * d3 + X ^ 4 * d4 = l0 + X * (d1 + c0) + X ^ 2 * d2 + X ^ 3 * d3 + X ^ 4 * d4"
    unfolding assms(1) by (simp add: distrib_left)
  also have "\<dots> = l0 + X * l1 + X ^ 2 * (d2 + c1) + X ^ 3 * d3 + X ^ 4 * d4" unfolding assms(2) by (simp add: distrib_left power2_eq_square)
  also have "\<dots> = l0 + X * l1 + X ^ 2 * l2 + X ^ 3 * (d3 + c2) + X ^ 4 * d4" unfolding assms(3) by (simp add: distrib_left eval_nat_numeral ac_simps)
  also have "\<dots> = l0 + X * l1 + X ^ 2 * l2 + X ^ 3 * l3 + X ^ 4 * (d4 + c3)" unfolding assms(4) by (simp add: distrib_left eval_nat_numeral ac_simps)
  also have "\<dots> = l0 + X * l1 + X ^ 2 * l2 + X ^ 3 * l3 + X ^ 4 * l4 + X ^ 5 * c4" unfolding assms(5) by (simp add: distrib_left eval_nat_numeral ac_simps)
  finally show ?thesis .
qed

lemma carry_into:
  assumes "unat (d :: u64) < 22 * 2 ^ 53"
  shows "unat (d + ucast (c :: u32)) = unat d + unat c"
  using assms unat_u32 [of c] by (subst unat_plus) (simp_all add: unat_ucast_up)

lemma carry_pass_ok:
  assumes d: "colinv (d0, d1, d2, d3, d4)"
  shows "hinv (carry_pass (d0, d1, d2, d3, d4))" "\<exists>k. colval (d0, d1, d2, d3, d4) + 5 * k = v26 (carry_pass (d0, d1, d2, d3, d4)) + (2 ^ 26) ^ 5 * k"
proof -
  note b = d [unfolded colinv_def prod.case]
  obtain c0 l0 where e0: "carry64 d0 = (c0, l0)" by (cases "carry64 d0")
  obtain c1 l1 where e1: "carry64 (d1 + ucast c0) = (c1, l1)" by (cases "carry64 (d1 + ucast c0)")
  obtain c2 l2 where e2: "carry64 (d2 + ucast c1) = (c2, l2)" by (cases "carry64 (d2 + ucast c1)")
  obtain c3 l3 where e3: "carry64 (d3 + ucast c2) = (c3, l3)" by (cases "carry64 (d3 + ucast c2)")
  obtain c4 l4 where e4: "carry64 (d4 + ucast c3) = (c4, l4)" by (cases "carry64 (d4 + ucast c3)")
  have u: "unat (d1 + ucast c0) = unat d1 + unat c0" "unat (d2 + ucast c1) = unat d2 + unat c1" "unat (d3 + ucast c2) = unat d3 + unat c2"
    "unat (d4 + ucast c3) = unat d4 + unat c3" using b by (auto intro!: carry_into)
  have lt: "unat d0 < 2 ^ 58" "unat (d1 + ucast c0) < 2 ^ 58" "unat (d2 + ucast c1) < 2 ^ 58" "unat (d3 + ucast c2) < 2 ^ 58" "unat (d4 + ucast c3) < 2 ^ 58"
    unfolding u using b unat_u32 [of c0] unat_u32 [of c1] unat_u32 [of c2] unat_u32 [of c3] by auto
  note k0 = carry64_ok [OF e0 lt(1)] and k1 = carry64_ok [OF e1 lt(2), unfolded u] and k2 = carry64_ok [OF e2 lt(3), unfolded u]
    and k3 = carry64_ok [OF e3 lt(4), unfolded u] and k4 = carry64_ok [OF e4 lt(5), unfolded u]
  have "unat d4 + unat c3 < 6 * 2 ^ 53 + 2 ^ 32" using b unat_u32 [of c3] by linarith
  then have "unat c4 \<le> 6 * 2 ^ 27 + 2 ^ 6" unfolding k4(1) by (simp add: less_mult_imp_div_less)
  then have h0: "unat (l0 + c4 * 5) = unat l0 + 5 * unat c4" using k0(4) by (subst unat_plus; subst unat_times) simp_all
  let ?h0 = "l0 + c4 * 5"
  have lt6: "unat ?h0 div 2 ^ 26 < 2 ^ 6" using unat_u32 [of ?h0] by (simp add: less_mult_imp_div_less)
  then have h1: "unat (l1 + drop_bit 26 ?h0) = unat l1 + unat ?h0 div 2 ^ 26" using k1(4) by (subst unat_plus) (simp_all add: unat_drop_bit)
  have c: "carry_pass (d0, d1, d2, d3, d4) = (?h0 AND 0x3ffffff, l1 + drop_bit 26 ?h0, l2, l3, l4)" by (simp add: carry_pass_def e0 e1 e2 e3 e4 Let_def)
  show "hinv (carry_pass (d0, d1, d2, d3, d4))" unfolding c hinv_def prod.case unat_and26 h1 using k1(4) k2(4) k3(4) k4(4) lt6 by simp
  have "v26 (carry_pass (d0, d1, d2, d3, d4)) = unat l0 + 2 ^ 26 * unat l1 + (2 ^ 26) ^ 2 * unat l2 + (2 ^ 26) ^ 3 * unat l3 + (2 ^ 26) ^ 4 * unat l4 + 5 * unat c4"
    unfolding c v26_powers unat_and26 h1 using mod_mult_div_eq [of "unat ?h0" "2 ^ 26"] unfolding h0 by (simp only: distrib_left)
  moreover have "colval (d0, d1, d2, d3, d4) = unat l0 + 2 ^ 26 * unat l1 + (2 ^ 26) ^ 2 * unat l2 + (2 ^ 26) ^ 3 * unat l3 + (2 ^ 26) ^ 4 * unat l4 + (2 ^ 26) ^ 5 * unat c4"
    unfolding colval_def prod.case by (rule carry_chain [OF k0(3) k1(3) k2(3) k3(3) k4(3)])
  ultimately show "\<exists>k. colval (d0, d1, d2, d3, d4) + 5 * k = v26 (carry_pass (d0, d1, d2, d3, d4)) + (2 ^ 26) ^ 5 * k" by (intro exI [of _ "unat c4"]) simp
qed

lemma P1305_val: "P1305 + 5 = (2 ^ 26) ^ 5"
  by (simp add: P1305_def)

lemma fold_mod: "a mod P1305 = b mod P1305" if "a + 5 * k = b + (2 ^ 26) ^ 5 * k"
proof -
  have "a = b + P1305 * k" using that unfolding P1305_val [symmetric] by (simp add: distrib_right)
  then show ?thesis by simp
qed

lemma block_ok:
  assumes h: "hinv (pl_h st)" and r: "rinv (pl_r st)" and m: "length m = 16" "hibit = 0 \<or> hibit = push_bit 24 1"
  shows "hinv (pl_h (poly1305_block st m hibit))"
    "v26 (pl_h (poly1305_block st m hibit)) mod P1305 = ((v26 (pl_h st) + le_val m + 2 ^ 104 * unat hibit) * v26 (pl_r st)) mod P1305"
proof -
  obtain h0 h1 h2 h3 h4 where H: "pl_h st = (h0, h1, h2, h3, h4)" by (cases "pl_h st") auto
  obtain r0 r1 r2 r3 r4 where R: "pl_r st = (r0, r1, r2, r3, r4)" by (cases "pl_r st") auto
  obtain b0 b1 b2 b3 b4 where B: "block_limbs m hibit = (b0, b1, b2, b3, b4)" by (cases "block_limbs m hibit") auto
  note b = block_limbs_val [OF m B]
  have hs: "unat h0 < 2 ^ 26" "unat h1 < 2 ^ 26 + 2 ^ 6" "unat h2 < 2 ^ 26" "unat h3 < 2 ^ 26" "unat h4 < 2 ^ 26" using h unfolding H hinv_def by auto
  have u: "unat (h0 + b0) = unat h0 + unat b0" "unat (h1 + b1) = unat h1 + unat b1" "unat (h2 + b2) = unat h2 + unat b2" "unat (h3 + b3) = unat h3 + unat b3"
    "unat (h4 + b4) = unat h4 + unat b4" using hs b(2-6) by (auto intro!: unat_plus)
  have "\<forall>x \<in> {h0 + b0, h1 + b1, h2 + b2, h3 + b3, h4 + b4}. unat x < 2 ^ 27 + 2 ^ 6" using u hs b(2-6) by simp
  note c = columns_ok [OF this r [unfolded R]]
  have S: "add5 (pl_h st) (block_limbs m hibit) = (h0 + b0, h1 + b1, h2 + b2, h3 + b3, h4 + b4)" by (simp add: add5_def H B)
  obtain d0 d1 d2 d3 d4 where D: "columns (h0 + b0, h1 + b1, h2 + b2, h3 + b3, h4 + b4) (r0, r1, r2, r3, r4) = (d0, d1, d2, d3, d4)"
    by (cases "columns (h0 + b0, h1 + b1, h2 + b2, h3 + b3, h4 + b4) (r0, r1, r2, r3, r4)") auto
  note p = carry_pass_ok [OF c(1) [unfolded D]]
  have e: "pl_h (poly1305_block st m hibit) = carry_pass (d0, d1, d2, d3, d4)" by (simp add: poly1305_block_def S R D)
  show "hinv (pl_h (poly1305_block st m hibit))" unfolding e by (rule p(1))
  have "v26 (h0 + b0, h1 + b1, h2 + b2, h3 + b3, h4 + b4) = v26 (pl_h st) + v26 (block_limbs m hibit)"
    unfolding H B v26_def prod.case u by (simp add: distrib_left)
  then show "v26 (pl_h (poly1305_block st m hibit)) mod P1305 = ((v26 (pl_h st) + le_val m + 2 ^ 104 * unat hibit) * v26 (pl_r st)) mod P1305"
    unfolding e R using c(2) [unfolded D] p(2) b(1) by (elim exE) (drule fold_mod, drule fold_mod, simp add: add.assoc)
qed

section \<open>The last reduction\<close>

definition norm5 :: "limbs5 \<Rightarrow> bool" where
  "norm5 = (\<lambda>(h0, h1, h2, h3, h4). unat h0 < 2 ^ 26 \<and> unat h1 < 2 ^ 26 \<and> unat h2 < 2 ^ 26 \<and> unat h3 < 2 ^ 26 \<and> unat h4 < 2 ^ 26)"

text \<open>One step of a carry chain over words: the limb with the carry into it, split at 26 bits.\<close>

lemma split26: "unat (x :: u32) = unat (x AND 0x3ffffff) + 2 ^ 26 * unat (drop_bit 26 x)" "unat (x AND 0x3ffffff) < 2 ^ 26"
  unfolding unat_and26 unat_drop_bit by simp_all

lemma step26:
  fixes h c :: u32
  assumes "unat h < 2 ^ 26 + 2 ^ 6" "unat c \<le> 1"
  shows "unat h + unat c = unat ((h + c) AND 0x3ffffff) + 2 ^ 26 * unat (drop_bit 26 (h + c))" "unat ((h + c) AND 0x3ffffff) < 2 ^ 26" "unat (drop_bit 26 (h + c)) \<le> 1"
proof -
  have "unat (h + c) = unat h + unat c" using assms by (intro unat_plus) simp
  then show "unat h + unat c = unat ((h + c) AND 0x3ffffff) + 2 ^ 26 * unat (drop_bit 26 (h + c))" using split26(1) [of "h + c"] by simp
  then show "unat (drop_bit 26 (h + c)) \<le> 1" using assms by simp
  show "unat ((h + c) AND 0x3ffffff) < 2 ^ 26" by (rule split26(2))
qed

lemma final_carry_ok:
  assumes "hinv (h0, h1, h2, h3, h4)"
  shows "norm5 (final_carry (h0, h1, h2, h3, h4))" "v26 (final_carry (h0, h1, h2, h3, h4)) mod P1305 = v26 (h0, h1, h2, h3, h4) mod P1305"
proof -
  note b = assms [unfolded hinv_def prod.case]
  define c1 where "c1 = drop_bit 26 h1" define l1 where "l1 = h1 AND 0x3ffffff"
  define c2 where "c2 = drop_bit 26 (h2 + c1)" define l2 where "l2 = (h2 + c1) AND 0x3ffffff"
  define c3 where "c3 = drop_bit 26 (h3 + c2)" define l3 where "l3 = (h3 + c2) AND 0x3ffffff"
  define c4 where "c4 = drop_bit 26 (h4 + c3)" define l4 where "l4 = (h4 + c3) AND 0x3ffffff"
  define c0 where "c0 = drop_bit 26 (h0 + c4 * 5)" define l0 where "l0 = (h0 + c4 * 5) AND 0x3ffffff"
  have s1: "unat h1 = unat l1 + 2 ^ 26 * unat c1" "unat l1 < 2 ^ 26" unfolding l1_def c1_def by (rule split26)+
  then have 1: "unat c1 \<le> 1" "unat c1 = 1 \<longrightarrow> unat l1 < 2 ^ 6" using b by auto
  have s2: "unat h2 + unat c1 = unat l2 + 2 ^ 26 * unat c2" "unat l2 < 2 ^ 26" "unat c2 \<le> 1"
    unfolding l2_def c2_def using step26 [of h2 c1] b 1 by simp_all
  have s3: "unat h3 + unat c2 = unat l3 + 2 ^ 26 * unat c3" "unat l3 < 2 ^ 26" "unat c3 \<le> 1"
    unfolding l3_def c3_def using step26 [of h3 c2] b s2(3) by simp_all
  have s4: "unat h4 + unat c3 = unat l4 + 2 ^ 26 * unat c4" "unat l4 < 2 ^ 26" "unat c4 \<le> 1"
    unfolding l4_def c4_def using step26 [of h4 c3] b s3(3) by simp_all
  have c5: "unat (c4 * 5) = 5 * unat c4" using s4(3) by (subst unat_times) simp_all
  have "unat (h0 + c4 * 5) = unat h0 + 5 * unat c4" using b s4(3) c5 by (subst unat_plus) simp_all
  then have s0: "unat h0 + 5 * unat c4 = unat l0 + 2 ^ 26 * unat c0" "unat l0 < 2 ^ 26" using split26 [of "h0 + c4 * 5"] unfolding l0_def c0_def by simp_all
  have up: "unat c4 = 1 \<longrightarrow> unat c1 = 1" using s2 s3 s4 b 1(1) by auto
  have 0: "unat l1 + unat c0 < 2 ^ 26"
  proof (cases "unat c4 = 0")
    case True
    then show ?thesis using s0 b s1(2) by auto
  next
    case False
    then have "unat l1 < 2 ^ 6" using up 1 s4(3) by auto
    then show ?thesis using s0 b s4(3) by auto
  qed
  then have u: "unat (l1 + c0) = unat l1 + unat c0" by (intro unat_plus) simp
  have f: "final_carry (h0, h1, h2, h3, h4) = (l0, l1 + c0, l2, l3, l4)"
    unfolding final_carry_def l0_def c0_def l1_def c1_def l2_def c2_def l3_def c3_def l4_def c4_def by (simp add: Let_def)
  show "norm5 (final_carry (h0, h1, h2, h3, h4))" unfolding f norm5_def prod.case u using 0 s0 s2 s3 s4 by simp
  have "v26 (h0, h1, h2, h3, h4) + 5 * unat c4 = v26 (l0, l1 + c0, l2, l3, l4) + (2 ^ 26) ^ 5 * unat c4"
    unfolding v26_def prod.case u using s0 s1 s2 s3 s4 by simp
  then show "v26 (final_carry (h0, h1, h2, h3, h4)) mod P1305 = v26 (h0, h1, h2, h3, h4) mod P1305" unfolding f by (metis fold_mod)
qed

lemma select_words:
  fixes h g :: u32
  shows "(h AND NOT 0) OR (g AND 0) = h" "(h AND NOT (- 1)) OR (g AND - 1) = g"
  by simp_all

lemma select_ok:
  assumes "norm5 (h0, h1, h2, h3, h4)"
  shows "norm5 (select5 (h0, h1, h2, h3, h4) (minus_p (h0, h1, h2, h3, h4)))"
    "v26 (select5 (h0, h1, h2, h3, h4) (minus_p (h0, h1, h2, h3, h4))) = v26 (h0, h1, h2, h3, h4) mod P1305"
proof -
  note b = assms [unfolded norm5_def prod.case]
  define c0 where "c0 = drop_bit 26 (h0 + 5)" define g0 where "g0 = (h0 + 5) AND 0x3ffffff"
  define c1 where "c1 = drop_bit 26 (h1 + c0)" define g1 where "g1 = (h1 + c0) AND 0x3ffffff"
  define c2 where "c2 = drop_bit 26 (h2 + c1)" define g2 where "g2 = (h2 + c1) AND 0x3ffffff"
  define c3 where "c3 = drop_bit 26 (h3 + c2)" define g3 where "g3 = (h3 + c2) AND 0x3ffffff"
  have "unat (h0 + 5) = unat h0 + 5" using b by (subst unat_plus) simp_all
  then have s0: "unat h0 + 5 = unat g0 + 2 ^ 26 * unat c0" "unat g0 < 2 ^ 26" using split26 [of "h0 + 5"] unfolding g0_def c0_def by simp_all
  then have "unat c0 \<le> 1" using b by auto
  then have s1: "unat h1 + unat c0 = unat g1 + 2 ^ 26 * unat c1" "unat g1 < 2 ^ 26" "unat c1 \<le> 1"
    unfolding g1_def c1_def using step26 [of h1 c0] b by simp_all
  then have s2: "unat h2 + unat c1 = unat g2 + 2 ^ 26 * unat c2" "unat g2 < 2 ^ 26" "unat c2 \<le> 1"
    unfolding g2_def c2_def using step26 [of h2 c1] b by simp_all
  then have s3: "unat h3 + unat c2 = unat g3 + 2 ^ 26 * unat c3" "unat g3 < 2 ^ 26" "unat c3 \<le> 1"
    unfolding g3_def c3_def using step26 [of h3 c2] b by simp_all
  have s4: "unat (h4 + c3) = unat h4 + unat c3" using b s3(3) by (intro unat_plus) simp
  have g: "minus_p (h0, h1, h2, h3, h4) = (g0, g1, g2, g3, h4 + c3 - push_bit 26 1)"
    unfolding minus_p_def g0_def c0_def g1_def c1_def g2_def c2_def g3_def c3_def by (simp add: Let_def)
  have V: "v26 (h0, h1, h2, h3, h4) + 5 = unat g0 + 2 ^ 26 * unat g1 + 2 ^ 52 * unat g2 + 2 ^ 78 * unat g3 + 2 ^ 104 * (unat h4 + unat c3)"
    unfolding v26_def prod.case using s0 s1 s2 s3 by simp
  have bit26: "unat (push_bit 26 1 :: u32) = 2 ^ 26" by (simp add: push_bit_eq_mult)
  show "norm5 (select5 (h0, h1, h2, h3, h4) (minus_p (h0, h1, h2, h3, h4)))"
    "v26 (select5 (h0, h1, h2, h3, h4) (minus_p (h0, h1, h2, h3, h4))) = v26 (h0, h1, h2, h3, h4) mod P1305"
  proof (atomize (full), cases "unat h4 + unat c3 < 2 ^ 26")
    case True
    have lt: "v26 (h0, h1, h2, h3, h4) < P1305" using V s0(2) s1(2) s2(2) s3(2) True unfolding P1305_def by simp
    have "unat (h4 + c3 - push_bit 26 1) = 2 ^ 32 + (unat h4 + unat c3) - 2 ^ 26"
      using True by (simp add: unat_sub_if' word_le_nat_alt s4 bit26)
    then have "unat (drop_bit 31 (h4 + c3 - push_bit 26 1)) = 1" using True unfolding unat_drop_bit by simp
    then have "drop_bit 31 (h4 + c3 - push_bit 26 1) = 1" by (metis unat_1 word_unat_eq_iff)
    then have "select5 (h0, h1, h2, h3, h4) (minus_p (h0, h1, h2, h3, h4)) = (h0, h1, h2, h3, h4)" unfolding g select5_def by (simp add: Let_def)
    then show "norm5 (select5 (h0, h1, h2, h3, h4) (minus_p (h0, h1, h2, h3, h4))) \<and>
      v26 (select5 (h0, h1, h2, h3, h4) (minus_p (h0, h1, h2, h3, h4))) = v26 (h0, h1, h2, h3, h4) mod P1305" using assms lt by simp
  next
    case False
    have d: "unat (h4 + c3 - push_bit 26 1) = unat h4 + unat c3 - 2 ^ 26"
      using False by (simp add: unat_sub_if' word_le_nat_alt s4 bit26)
    then have z: "unat (h4 + c3 - push_bit 26 1) = 0" using b s3(3) by simp
    then have "h4 + c3 - push_bit 26 1 = 0" by (simp only: unat_eq_zero)
    then have sel: "select5 (h0, h1, h2, h3, h4) (minus_p (h0, h1, h2, h3, h4)) = (g0, g1, g2, g3, 0)" unfolding g select5_def by (simp add: Let_def)
    have "unat h4 + unat c3 = 2 ^ 26" using False b s3(3) by auto
    then have v: "v26 (h0, h1, h2, h3, h4) = v26 (g0, g1, g2, g3, 0) + P1305" using V unfolding v26_def prod.case P1305_def by simp
    have lt: "v26 (g0, g1, g2, g3, 0) < P1305" unfolding v26_def prod.case P1305_def using s0(2) s1(2) s2(2) s3(2) by simp
    show "norm5 (select5 (h0, h1, h2, h3, h4) (minus_p (h0, h1, h2, h3, h4))) \<and>
      v26 (select5 (h0, h1, h2, h3, h4) (minus_p (h0, h1, h2, h3, h4))) = v26 (h0, h1, h2, h3, h4) mod P1305"
      unfolding sel v using lt s0(2) s1(2) s2(2) s3(2) by (simp add: norm5_def)
  qed
qed

section \<open>The tag\<close>

definition v32 :: "u32 \<times> u32 \<times> u32 \<times> u32 \<Rightarrow> nat" where
  "v32 = (\<lambda>(t0, t1, t2, t3). unat t0 + 2 ^ 32 * unat t1 + 2 ^ 64 * unat t2 + 2 ^ 96 * unat t3)"

lemma or_push: "unat (x OR push_bit b y) = unat x + 2 ^ b * (unat y mod 2 ^ (32 - b))" if "unat (x :: u32) < 2 ^ b" "b \<le> 32"
proof -
  have "unat (x OR push_bit b y) = push_bit b (unat y mod 2 ^ (32 - b)) OR unat x"
    unfolding unsigned_or_eq unat_push [OF that(2)] by (simp add: push_bit_eq_mult or.commute)
  then show ?thesis unfolding or_shift [OF that(1)] by simp
qed

lemma pack_sum:
  fixes a0 :: nat
  assumes "h1 = a1 + 2 ^ 6 * b1" "h2 = a2 + 2 ^ 12 * b2" "h3 = a3 + 2 ^ 18 * b3" "h4 = a4 + 2 ^ 24 * b4"
  shows "a0 + 2 ^ 26 * h1 + 2 ^ 52 * h2 + 2 ^ 78 * h3 + 2 ^ 104 * h4 =
    (a0 + 2 ^ 26 * a1) + 2 ^ 32 * (b1 + 2 ^ 20 * a2) + 2 ^ 64 * (b2 + 2 ^ 14 * a3) + 2 ^ 96 * (b3 + 2 ^ 8 * a4) + 2 ^ 128 * b4"
  unfolding assms by (simp add: distrib_left)

lemma v32_bound: "v32 t < 2 ^ 128"
proof (cases t)
  case (fields t0 t1 t2 t3)
  show ?thesis unfolding fields v32_def prod.case using unat_u32 [of t0] unat_u32 [of t1] unat_u32 [of t2] unat_u32 [of t3] by simp
qed

lemma pack4_ok:
  assumes "norm5 (h0, h1, h2, h3, h4)"
  shows "v32 (pack4 (h0, h1, h2, h3, h4)) = v26 (h0, h1, h2, h3, h4) mod 2 ^ 128"
proof -
  note b = assms [unfolded norm5_def prod.case]
  have d: "unat (drop_bit 6 h1) < 2 ^ 20" "unat (drop_bit 12 h2) < 2 ^ 14" "unat (drop_bit 18 h3) < 2 ^ 8"
    using b unfolding unat_drop_bit by (auto simp: less_mult_imp_div_less)
  have p: "pack4 (h0, h1, h2, h3, h4) = (h0 OR push_bit 26 h1, drop_bit 6 h1 OR push_bit 20 h2, drop_bit 12 h2 OR push_bit 14 h3, drop_bit 18 h3 OR push_bit 8 h4)"
    by (simp add: pack4_def)
  have w: "unat (h0 OR push_bit 26 h1) = unat h0 + 2 ^ 26 * (unat h1 mod 2 ^ 6)" "unat (drop_bit 6 h1 OR push_bit 20 h2) = unat h1 div 2 ^ 6 + 2 ^ 20 * (unat h2 mod 2 ^ 12)"
    "unat (drop_bit 12 h2 OR push_bit 14 h3) = unat h2 div 2 ^ 12 + 2 ^ 14 * (unat h3 mod 2 ^ 18)"
    "unat (drop_bit 18 h3 OR push_bit 8 h4) = unat h3 div 2 ^ 18 + 2 ^ 8 * (unat h4 mod 2 ^ 24)"
    using or_push [of h0 26 h1] or_push [of "drop_bit 6 h1" 20 h2] or_push [of "drop_bit 12 h2" 14 h3] or_push [of "drop_bit 18 h3" 8 h4] b d
    by (simp_all add: unat_drop_bit)
  have "v26 (h0, h1, h2, h3, h4) = v32 (pack4 (h0, h1, h2, h3, h4)) + 2 ^ 128 * (unat h4 div 2 ^ 24)"
    unfolding p v26_def v32_def prod.case w
    by (rule pack_sum [OF mod_mult_div_eq [symmetric] mod_mult_div_eq [symmetric] mod_mult_div_eq [symmetric] mod_mult_div_eq [symmetric]])
  then show ?thesis using v32_bound [of "pack4 (h0, h1, h2, h3, h4)"] by simp
qed

lemma add_step:
  fixes f :: u64
  assumes "unat f = unat (a :: u32) + unat (b :: u32) + k" "k \<le> 1"
  shows "unat a + unat b + k = unat (ucast f :: u32) + 2 ^ 32 * unat (drop_bit 32 f)" "unat (drop_bit 32 f) \<le> 1"
proof -
  have "unat (ucast f :: u32) = unat f mod 2 ^ 32" by (simp add: unat_ucast)
  then show "unat a + unat b + k = unat (ucast f :: u32) + 2 ^ 32 * unat (drop_bit 32 f)" unfolding assms(1) [symmetric] unat_drop_bit by simp
  then show "unat (drop_bit 32 f) \<le> 1" using unat_u32 [of a] unat_u32 [of b] assms(2) by simp
qed

lemma add_pad_ok: "v32 (add_pad t p) = (v32 t + v32 p) mod 2 ^ 128"
proof -
  obtain t0 t1 t2 t3 where t: "t = (t0, t1, t2, t3)" by (cases t)
  obtain p0 p1 p2 p3 where p: "p = (p0, p1, p2, p3)" by (cases p)
  define f0 :: u64 where "f0 = ucast t0 + ucast p0"
  define f1 :: u64 where "f1 = ucast t1 + ucast p1 + drop_bit 32 f0"
  define f2 :: u64 where "f2 = ucast t2 + ucast p2 + drop_bit 32 f1"
  define f3 :: u64 where "f3 = ucast t3 + ucast p3 + drop_bit 32 f2"
  have two: "unat (ucast a + ucast b :: u64) = unat a + unat b" for a b :: u32
    using unat_u32 [of a] unat_u32 [of b] by (subst unat_plus) simp_all
  have three: "unat (ucast a + ucast b + c :: u64) = unat a + unat b + unat c" if "unat c \<le> 1" for a b :: u32 and c :: u64
    using unat_u32 [of a] unat_u32 [of b] that by (subst unat_plus) (simp_all add: two)
  have "unat f0 = unat t0 + unat p0 + 0" unfolding f0_def two by simp
  note s0 = add_step [OF this]
  have "unat f1 = unat t1 + unat p1 + unat (drop_bit 32 f0)" unfolding f1_def using s0 by (intro three) simp
  note s1 = add_step [OF this]
  have "unat f2 = unat t2 + unat p2 + unat (drop_bit 32 f1)" unfolding f2_def using s0 s1 by (intro three) simp
  note s2 = add_step [OF this]
  have "unat f3 = unat t3 + unat p3 + unat (drop_bit 32 f2)" unfolding f3_def using s0 s1 s2 by (intro three) simp
  note s3 = add_step [OF this]
  have a: "add_pad t p = (ucast f0, ucast f1, ucast f2, ucast f3)" unfolding t p add_pad_def f0_def f1_def f2_def f3_def by (simp add: Let_def)
  have "v32 t + v32 p = v32 (add_pad t p) + 2 ^ 128 * unat (drop_bit 32 f3)"
    unfolding a unfolding t p v32_def prod.case using s0 s1 s2 s3 by simp
  then show ?thesis using v32_bound [of "add_pad t p"] by simp
qed

lemma p32le_bytes: "p32le t = le_bytes 4 (unat t)"
proof -
  have u: "ucast (drop_bit n t) = (of_nat (unat t div 2 ^ n) :: byte)" for n by (simp add: unat_drop_bit [symmetric])
  have d: "v div 256 div 256 = v div 2 ^ 16" "v div 2 ^ 16 div 256 = v div 2 ^ 24" for v :: nat by (simp_all add: div_mult2_eq [symmetric])
  have "le_bytes (Suc (Suc (Suc (Suc 0)))) v = [of_nat v, of_nat (v div 2 ^ 8), of_nat (v div 2 ^ 16), of_nat (v div 2 ^ 24)]" for v :: nat
    unfolding le_bytes.simps d by simp
  moreover have "Suc (Suc (Suc (Suc 0))) = 4" by simp
  ultimately have "le_bytes 4 (unat t) = [of_nat (unat t), of_nat (unat t div 2 ^ 8), of_nat (unat t div 2 ^ 16), of_nat (unat t div 2 ^ 24)]" by metis
  then show ?thesis unfolding p32le_def u by simp
qed

lemma tag_bytes: "(case t of (t0, t1, t2, t3) \<Rightarrow> p32le t0 @ p32le t1 @ p32le t2 @ p32le t3) = le_bytes 16 (v32 t)"
proof -
  obtain t0 t1 t2 t3 where t: "t = (t0, t1, t2, t3)" by (cases t)
  let ?bs = "p32le t0 @ p32le t1 @ p32le t2 @ p32le t3"
  have l: "length ?bs = 16" by (simp add: p32le_bytes)
  have v: "le_val (le_bytes 4 (unat x)) = unat x" for x :: u32 using unat_u32 [of x] by (simp add: le_val_le_bytes)
  have ap: "le_val (le_bytes 4 x @ ys) = le_val (le_bytes 4 x) + 2 ^ 32 * le_val ys" for x ys
    using le_val_4 [of "le_bytes 4 x @ ys"] by simp
  have "le_val ?bs = v32 t" unfolding t v32_def prod.case p32le_bytes ap v by (simp add: distrib_left)
  then show ?thesis using le_bytes_le_val [OF l] t by simp
qed

section \<open>Absorbing a message in pieces\<close>

lemma le_val_zeros [simp]: "le_val (replicate n 0) = 0"
  by (induction n) simp_all

lemma poly_acc_Nil [simp]: "poly_acc r a [] = a"
  by (simp add: poly_acc.simps)

lemma poly_acc_step: "m \<noteq> [] \<Longrightarrow> poly_acc r a m = poly_acc r (((a + le_val (take 16 m @ [1])) * r) mod P1305) (drop 16 m)"
  by (subst poly_acc.simps) simp

lemma poly_acc_block: "length b = 16 \<Longrightarrow> poly_acc r a (b @ m) = poly_acc r (((a + le_val b + 2 ^ 128) * r) mod P1305) m"
  by (subst poly_acc_step) (auto simp: le_val_append add.assoc)

lemma poly_acc_append: "16 dvd length b \<Longrightarrow> poly_acc r a (b @ m) = poly_acc r (poly_acc r a b) m"
proof (induction r a b rule: poly_acc.induct)
  case (1 r a b)
  show ?case
  proof (cases "b = []")
    case False
    have l: "16 \<le> length b" using 1(2) False by (intro dvd_imp_le) auto
    then have "16 dvd length (drop 16 b)" using 1(2) by simp
    from 1(1) [OF False this] show ?thesis using False l poly_acc_step [of "b @ m" r a] poly_acc_step [OF False, of r a] by simp
  qed simp
qed

lemma poly_acc_less: "a < P1305 \<Longrightarrow> poly_acc r a m < P1305"
proof (induction r a m rule: poly_acc.induct)
  case (1 r a m)
  have "0 < P1305" by (simp add: P1305_def)
  then show ?case using 1 poly_acc_step [of m r a] by (cases "m = []") simp_all
qed

definition keyed :: "byte list \<Rightarrow> poly1305 \<Rightarrow> bool" where
  "keyed key st \<longleftrightarrow> pl_r st = pl_r (poly1305_init [] key) \<and> pl_pad st = pl_pad (poly1305_init [] key) \<and> hinv (pl_h st) \<and> length (pl_buf st) = 16"

text \<open>After the message \<open>b @ t\<close>, of which \<open>b\<close> is whole blocks and \<open>t\<close> is in the buffer.\<close>

definition absorbed :: "byte list \<Rightarrow> byte list \<Rightarrow> byte list \<Rightarrow> poly1305 \<Rightarrow> bool" where
  "absorbed key b t st \<longleftrightarrow> keyed key st \<and> 16 dvd length b \<and> length t < 16 \<and> pl_buflen st = length t \<and> take (length t) (pl_buf st) = t \<and>
     v26 (pl_h st) mod P1305 = poly_acc (clamped key) 0 b"

lemma keyed_r:
  assumes "32 \<le> length key" "keyed key st"
  shows "rinv (pl_r st)" "v26 (pl_r st) = clamped key"
proof -
  obtain r0 r1 r2 r3 r4 where r: "pl_r (poly1305_init [] key) = (r0, r1, r2, r3, r4)" by (cases "pl_r (poly1305_init [] key)") auto
  note i = init_r [OF assms(1) r]
  show "rinv (pl_r st)" "v26 (pl_r st) = clamped key" using assms(2) i r by (simp_all add: keyed_def rinv_def)
qed

lemma block_keeps [simp]: "pl_r (poly1305_block st m w) = pl_r st" "pl_pad (poly1305_block st m w) = pl_pad st"
  "pl_buf (poly1305_block st m w) = pl_buf st" "pl_buflen (poly1305_block st m w) = pl_buflen st"
  by (simp_all add: poly1305_block_def)

lemma full_block:
  assumes k: "32 \<le> length key" "keyed key st" and m: "length m = 16"
  shows "keyed key (poly1305_block st m (push_bit 24 1))"
    "v26 (pl_h (poly1305_block st m (push_bit 24 1))) mod P1305 = poly_acc (clamped key) (v26 (pl_h st) mod P1305) m"
proof -
  have "unat (push_bit 24 1 :: u32) = 2 ^ 24" by (simp add: push_bit_eq_mult)
  then have u: "2 ^ 104 * unat (push_bit 24 1 :: u32) = 2 ^ 128" by (simp only:) simp
  note b = block_ok [OF _ keyed_r(1) [OF k] m, of "push_bit 24 1", unfolded u keyed_r(2) [OF k]]
  show "keyed key (poly1305_block st m (push_bit 24 1))" using k(2) b(1) by (simp add: keyed_def)
  have "poly_acc (clamped key) (v26 (pl_h st) mod P1305) (m @ []) = ((v26 (pl_h st) mod P1305 + le_val m + 2 ^ 128) * clamped key) mod P1305"
    unfolding poly_acc_block [OF m] poly_acc_Nil ..
  also have "\<dots> = ((v26 (pl_h st) + le_val m + 2 ^ 128) * clamped key) mod P1305" by (metis (no_types, opaque_lifting) mod_add_left_eq mod_mult_left_eq)
  finally show "v26 (pl_h (poly1305_block st m (push_bit 24 1))) mod P1305 = poly_acc (clamped key) (v26 (pl_h st) mod P1305) m"
    using b(2) k(2) by (simp add: keyed_def)
qed

lemma blocks16_ok:
  assumes "32 \<le> length key" "keyed key st" "16 dvd length b" "v26 (pl_h st) mod P1305 = poly_acc (clamped key) 0 b" "blocks16 st m = (st', t)"
  shows "\<exists>b'. keyed key st' \<and> b' @ t = b @ m \<and> 16 dvd length b' \<and> length t < 16 \<and> v26 (pl_h st') mod P1305 = poly_acc (clamped key) 0 b' \<and>
    pl_buf st' = pl_buf st \<and> pl_buflen st' = pl_buflen st"
  using assms
proof (induction st m arbitrary: b rule: blocks16.induct)
  case (1 st m)
  show ?case
  proof (cases "16 \<le> length m")
    case True
    let ?st = "poly1305_block st (take 16 m) (push_bit 24 1)"
    have l: "length (take 16 m) = 16" using True by simp
    have "v26 (pl_h ?st) mod P1305 = poly_acc (clamped key) 0 (b @ take 16 m)" using full_block(2) [OF 1(2,3) l] 1(4,5) poly_acc_append by simp
    moreover have "16 dvd length (b @ take 16 m)" using 1(4) l by simp
    moreover have "blocks16 ?st (drop 16 m) = (st', t)" using 1(6) True by (subst (asm) blocks16.simps) simp
    ultimately have "\<exists>b'. keyed key st' \<and> b' @ t = (b @ take 16 m) @ drop 16 m \<and> 16 dvd length b' \<and> length t < 16 \<and> v26 (pl_h st') mod P1305 = poly_acc (clamped key) 0 b' \<and>
      pl_buf st' = pl_buf ?st \<and> pl_buflen st' = pl_buflen ?st" using 1(1) [OF True] full_block(1) [OF 1(2,3) l] 1(2) by blast
    then show ?thesis by simp
  next
    case False
    then show ?thesis using 1 by (subst (asm) blocks16.simps) auto
  qed
qed

lemma length_buf_store: "at + length m \<le> length buf \<Longrightarrow> length (buf_store buf at m) = length buf"
  by (simp add: buf_store_def)

lemma take_buf_store: "at + length m \<le> length buf \<Longrightarrow> take (at + length m) (buf_store buf at m) = take at buf @ m"
  by (simp add: buf_store_def)

text \<open>The second half of \<open>poly1305_update\<close>, from a buffer that is empty or with nothing left to add.\<close>

definition update_tail :: "poly1305 \<Rightarrow> byte list \<Rightarrow> poly1305" where
  "update_tail st m = (let (st, m) = blocks16 st m in st\<lparr>pl_buf := buf_store (pl_buf st) (pl_buflen st) m, pl_buflen := pl_buflen st + length m\<rparr>)"

lemma update_tail_empty:
  assumes k: "32 \<le> length key" and a: "absorbed key b [] st"
  shows "\<exists>b' t'. b' @ t' = b @ m \<and> absorbed key b' t' (update_tail st m)"
proof -
  obtain st' t where e: "blocks16 st m = (st', t)" by (cases "blocks16 st m")
  from a have s: "keyed key st" "16 dvd length b" "v26 (pl_h st) mod P1305 = poly_acc (clamped key) 0 b" "pl_buflen st = 0" by (simp_all add: absorbed_def)
  from blocks16_ok [OF k s(1-3) e] s(4) obtain b' where b': "keyed key st'" "b' @ t = b @ m" "16 dvd length b'" "length t < 16"
    "v26 (pl_h st') mod P1305 = poly_acc (clamped key) 0 b'" "pl_buflen st' = 0" by auto
  have "update_tail st m = st'\<lparr>pl_buf := buf_store (pl_buf st') 0 t, pl_buflen := length t\<rparr>" using e b'(6) by (simp add: update_tail_def)
  moreover have "length (buf_store (pl_buf st') 0 t) = 16" "take (length t) (buf_store (pl_buf st') 0 t) = t"
    using length_buf_store [of 0 t "pl_buf st'"] take_buf_store [of 0 t "pl_buf st'"] b'(1,4) by (simp_all add: keyed_def)
  ultimately have "absorbed key b' t (update_tail st m)" using b' by (simp add: absorbed_def keyed_def)
  then show ?thesis using b'(2) by blast
qed

lemma update_tail_none: "length (pl_buf st) = 16 \<Longrightarrow> pl_buflen st \<le> 16 \<Longrightarrow> update_tail st [] = st"
  by (simp add: update_tail_def blocks16.simps [of st "[]"] buf_store_def)

lemma update_ok:
  assumes k: "32 \<le> length key" and a: "absorbed key b t st"
  shows "\<exists>b' t'. b' @ t' = b @ t @ m \<and> absorbed key b' t' (poly1305_update st m)"
proof (cases "t = []")
  case True
  then have "pl_buflen st = 0" using a by (simp add: absorbed_def)
  then have "poly1305_update st m = update_tail st m" by (simp add: poly1305_update_def update_tail_def)
  then show ?thesis using update_tail_empty [OF k, of b st m] a True by simp
next
  case False
  let ?n = "if length m < 16 - length t then length m else 16 - length t"
  define st1 where "st1 = st\<lparr>pl_buf := buf_store (pl_buf st) (length t) (take ?n m), pl_buflen := length t + ?n\<rparr>"
  from a have s: "keyed key st" "16 dvd length b" "length t < 16" "pl_buflen st = length t" "take (length t) (pl_buf st) = t" "v26 (pl_h st) mod P1305 = poly_acc (clamped key) 0 b"
    by (simp_all add: absorbed_def)
  have lb: "length (pl_buf st) = 16" using s(1) by (simp add: keyed_def)
  have n: "length (take ?n m) = ?n" "length t + length (take ?n m) \<le> length (pl_buf st)" using s(3) lb by auto
  have pb: "pl_buf st1 = buf_store (pl_buf st) (length t) (take ?n m)" by (simp add: st1_def)
  have b1: "length (pl_buf st1) = 16" "take (length t + ?n) (pl_buf st1) = t @ take ?n m"
    unfolding pb using length_buf_store [OF n(2)] take_buf_store [OF n(2)] lb s(5) n(1) by (simp_all only:)
  have k1: "keyed key st1" using s(1) b1(1) by (simp add: keyed_def st1_def)
  have up: "poly1305_update st m = update_tail (if length t + ?n = 16 then (poly1305_block st1 (pl_buf st1) (push_bit 24 1))\<lparr>pl_buflen := 0\<rparr> else st1) (drop ?n m)"
    using False s(4) unfolding poly1305_update_def update_tail_def st1_def Let_def by simp
  show ?thesis
  proof (cases "length m < 16 - length t")
    case True
    then have "drop ?n m = []" "?n = length m" "length t + ?n \<noteq> 16" by simp_all
    then have "poly1305_update st m = st1" unfolding up using update_tail_none [of st1] b1(1) s(3) True by (simp add: st1_def)
    moreover have "absorbed key b (t @ m) st1" using k1 s b1(2) True by (simp add: absorbed_def st1_def)
    ultimately show ?thesis by auto
  next
    case n16: False
    let ?blk = "t @ take (16 - length t) m"
    have l: "length ?blk = 16" "length t + ?n = 16" "?n = 16 - length t" using n16 s(3) by simp_all
    have bf: "pl_buf st1 = ?blk" using b1 l by simp
    let ?st2 = "(poly1305_block st1 (pl_buf st1) (push_bit 24 1))\<lparr>pl_buflen := 0\<rparr>"
    note f = full_block [OF k k1 b1(1)]
    have "v26 (pl_h ?st2) mod P1305 = poly_acc (clamped key) 0 (b @ ?blk)" using f(2) s(2,6) poly_acc_append unfolding bf by (simp add: st1_def)
    then have "absorbed key (b @ ?blk) [] ?st2" using f(1) s(2) l(1) by (simp add: absorbed_def keyed_def)
    from update_tail_empty [OF k this, of "drop (16 - length t) m"] show ?thesis unfolding up using l by simp
  qed
qed

lemma absorbed_fold:
  assumes "32 \<le> length key" "absorbed key b t st"
  shows "\<exists>b' t'. b' @ t' = b @ t @ concat ms \<and> absorbed key b' t' (fold (\<lambda>m st. poly1305_update st m) ms st)"
  using assms(2)
proof (induction ms arbitrary: b t st)
  case (Cons m ms)
  from update_ok [OF assms(1) Cons(2), of m] obtain b' t' where 1: "b' @ t' = b @ t @ m" "absorbed key b' t' (poly1305_update st m)" by blast
  from Cons(1) [OF 1(2)] obtain b'' t'' where "b'' @ t'' = b' @ t' @ concat ms" "absorbed key b'' t'' (fold (\<lambda>m st. poly1305_update st m) ms (poly1305_update st m))" by blast
  then show ?case using 1(1) by (metis append.assoc concat.simps(2) fold_simps(2))
qed auto

lemma absorbed_init: "length buf = 16 \<Longrightarrow> absorbed key [] [] (poly1305_init buf key)"
  by (simp add: absorbed_def keyed_def hinv_def v26_def poly1305_init_def Let_def)

section \<open>The theorem\<close>

lemma last_block:
  assumes k: "32 \<le> length key" and a: "absorbed key b t st" and t: "t \<noteq> []"
  defines "buf \<equiv> buf_store (pl_buf st) (length t) (1 # replicate (15 - length t) 0)"
  shows "hinv (pl_h (poly1305_block (st\<lparr>pl_buf := buf\<rparr>) buf 0))" "v26 (pl_h (poly1305_block (st\<lparr>pl_buf := buf\<rparr>) buf 0)) mod P1305 = poly_acc (clamped key) 0 (b @ t)"
proof -
  from a have s: "keyed key st" "16 dvd length b" "length t < 16" "take (length t) (pl_buf st) = t" "v26 (pl_h st) mod P1305 = poly_acc (clamped key) 0 b"
    by (simp_all add: absorbed_def)
  have bf: "buf = t @ [1] @ replicate (15 - length t) 0" using s by (simp add: buf_def buf_store_def keyed_def)
  have l: "length buf = 16" using s(3) unfolding bf by simp
  have k': "keyed key (st\<lparr>pl_buf := buf\<rparr>)" using s(1) l by (simp add: keyed_def)
  have h: "hinv (pl_h (st\<lparr>pl_buf := buf\<rparr>))" using k' by (simp add: keyed_def)
  note o = block_ok [OF h keyed_r(1) [OF k k'] l, of 0, unfolded keyed_r(2) [OF k k']]
  show "hinv (pl_h (poly1305_block (st\<lparr>pl_buf := buf\<rparr>) buf 0))" using o(1) by simp
  have v: "le_val buf = le_val (t @ [1])" unfolding bf le_val_append by simp
  have "poly_acc (clamped key) 0 (b @ t) = ((v26 (pl_h st) mod P1305 + le_val (t @ [1])) * clamped key) mod P1305"
    unfolding poly_acc_append [OF s(2)] s(5) [symmetric] using poly_acc_step [OF t] s(3) by simp
  also have "\<dots> = ((v26 (pl_h st) + le_val (t @ [1])) * clamped key) mod P1305" by (metis (no_types, opaque_lifting) mod_add_left_eq mod_mult_left_eq)
  finally show "v26 (pl_h (poly1305_block (st\<lparr>pl_buf := buf\<rparr>) buf 0)) mod P1305 = poly_acc (clamped key) 0 (b @ t)" using o(2) v by simp
qed

lemma reduce_tag:
  assumes "hinv h" "v26 h mod P1305 = a"
  shows "v32 (add_pad (pack4 (select5 (final_carry h) (minus_p (final_carry h)))) p) = (a + v32 p) mod 2 ^ 128"
proof -
  obtain h0 h1 h2 h3 h4 where h: "h = (h0, h1, h2, h3, h4)" by (cases h) auto
  note f = final_carry_ok [OF assms(1) [unfolded h]]
  obtain f0 f1 f2 f3 f4 where F: "final_carry (h0, h1, h2, h3, h4) = (f0, f1, f2, f3, f4)" by (cases "final_carry (h0, h1, h2, h3, h4)") auto
  note s = select_ok [OF f(1) [unfolded F]]
  obtain g0 g1 g2 g3 g4 where G: "select5 (f0, f1, f2, f3, f4) (minus_p (f0, f1, f2, f3, f4)) = (g0, g1, g2, g3, g4)"
    by (cases "select5 (f0, f1, f2, f3, f4) (minus_p (f0, f1, f2, f3, f4))") auto
  have "v26 (g0, g1, g2, g3, g4) = a" using s(2) [unfolded G] f(2) [unfolded F] assms(2) unfolding h by simp
  then show ?thesis unfolding h F G add_pad_ok pack4_ok [OF s(1) [unfolded G]] by (simp only: mod_add_left_eq)
qed

lemma pad_val:
  assumes "length key = 32"
  shows "v32 (pl_pad (poly1305_init [] key)) = le_val (drop 16 key)"
proof -
  have u: "u32le (drop 16 key) o' = u32le key (16 + o')" if "o' + 4 \<le> 16" for o' using that assms by (simp add: u32le_def add.assoc)
  have "pl_pad (poly1305_init [] key) = (u32le (drop 16 key) 0, u32le (drop 16 key) 4, u32le (drop 16 key) 8, u32le (drop 16 key) 12)"
    using u [of 0] u [of 4] u [of 8] u [of 12] by (simp add: poly1305_init_def Let_def)
  then show ?thesis using le_val16 [of "drop 16 key"] assms by (simp add: v32_def)
qed

lemma le_bytes_mod: "le_bytes n (v mod 256 ^ n) = le_bytes n v"
  using le_bytes_le_val [of "le_bytes n v" n] by (simp add: le_val_le_bytes)

lemma finish_ok:
  assumes k: "length key = 32" and a: "absorbed key b t st"
  shows "fst (poly1305_finish st) = poly1305_tag key (b @ t)"
proof -
  define st' where "st' = (if pl_buflen st > 0 then let s = st\<lparr>pl_buf := buf_store (pl_buf st) (pl_buflen st) (1 # replicate (15 - pl_buflen st) 0)\<rparr> in poly1305_block s (pl_buf s) 0 else st)"
  have s: "keyed key st" "pl_buflen st = length t" using a by (simp_all add: absorbed_def)
  have k32: "32 \<le> length key" using k by simp
  have h: "hinv (pl_h st')" "v26 (pl_h st') mod P1305 = poly_acc (clamped key) 0 (b @ t)"
    using last_block [OF k32 a] a by (cases "t = []"; simp add: st'_def absorbed_def keyed_def Let_def)+
  have p: "v32 (pl_pad st') = le_val (drop 16 key)" using s(1) pad_val [OF k] by (simp add: st'_def keyed_def Let_def)
  have "fst (poly1305_finish st) = le_bytes 16 (v32 (add_pad (pack4 (select5 (final_carry (pl_h st')) (minus_p (final_carry (pl_h st'))))) (pl_pad st')))"
    unfolding tag_bytes [symmetric] poly1305_finish_def unfolding st'_def [symmetric] by (simp add: Let_def split: prod.split)
  also have "\<dots> = le_bytes 16 ((poly_acc (clamped key) 0 (b @ t) + le_val (drop 16 key)) mod 256 ^ 16)" unfolding reduce_tag [OF h] p by simp
  finally show ?thesis unfolding le_bytes_mod poly1305_tag_def .
qed

text \<open>
  C8: the authenticator is the one of the standard. Whatever pieces a message arrives in, initialising with a 32-byte key,
  feeding the pieces to \<open>poly1305_update\<close> in order and finishing gives the bytes of the polynomial of the whole message at the
  clamped half of the key, modulo \<open>2^130 - 5\<close>, plus the other half; no intermediate product or carry leaves its word.
\<close>

theorem poly1305_correct:
  assumes "length key = 32" "length buf = 16"
  shows "fst (poly1305_finish (fold (\<lambda>m st. poly1305_update st m) ms (poly1305_init buf key))) = poly1305_tag key (concat ms)"
proof -
  have "32 \<le> length key" using assms by simp
  from absorbed_fold [OF this absorbed_init [OF assms(2)], of ms] show ?thesis using finish_ok [OF assms(1)] by auto
qed

theorem poly1305_correct_witness:
  "fst (poly1305_finish (fold (\<lambda>m st. poly1305_update st m) [[1, 2, 3], [], replicate 20 4] (poly1305_init (replicate 16 9) (replicate 16 1 @ replicate 16 0)))) =
    poly1305_tag (replicate 16 1 @ replicate 16 0) ([1, 2, 3] @ replicate 20 4)"
  using poly1305_correct [of "replicate 16 1 @ replicate 16 0" "replicate 16 9" "[[1, 2, 3], [], replicate 20 4]"] by simp

end
