(* ===== verification/Chacha.thy ===== *)
theory Chacha
  imports Poly1305
begin

text \<open>
  The stream cipher of \<open>src/src/native.c\<close> (\<open>chacha20_block\<close>, \<open>chacha20_xor\<close>), and the cipher as RFC 8439 has it. Memory
  is a function from addresses to bytes. Both pointers of \<open>chacha20_xor\<close> are \<open>restrict\<close>, so a call in which the
  output overlaps the input is undefined in C, and \<open>None\<close> here. The words of eight bytes the inner loop copies are loaded and
  stored little-endian; the lemmas show that the order plays no part.
\<close>

unbundle bit_operations_syntax

section \<open>The code\<close>

definition ROTL32 :: "u32 \<Rightarrow> nat \<Rightarrow> u32" where
  "ROTL32 x n = push_bit n x OR drop_bit (32 - n) x"

definition QR :: "u32 \<Rightarrow> u32 \<Rightarrow> u32 \<Rightarrow> u32 \<Rightarrow> u32 \<times> u32 \<times> u32 \<times> u32" where
  "QR a b c d =
    (let a = a + b; d = d XOR a; d = ROTL32 d 16;
         c = c + d; b = b XOR c; b = ROTL32 b 12;
         a = a + b; d = d XOR a; d = ROTL32 d 8;
         c = c + d; b = b XOR c; b = ROTL32 b 7
     in (a, b, c, d))"

definition QR_at :: "nat \<Rightarrow> nat \<Rightarrow> nat \<Rightarrow> nat \<Rightarrow> u32 list \<Rightarrow> u32 list" where
  "QR_at i j k l x = (case QR (x ! i) (x ! j) (x ! k) (x ! l) of (a, b, c, d) \<Rightarrow> x[i := a, j := b, k := c, l := d])"

definition double_round :: "u32 list \<Rightarrow> u32 list" where
  "double_round x =
    (let x = QR_at 0 4 8 12 x; x = QR_at 1 5 9 13 x; x = QR_at 2 6 10 14 x; x = QR_at 3 7 11 15 x;
         x = QR_at 0 5 10 15 x; x = QR_at 1 6 11 12 x; x = QR_at 2 7 8 13 x; x = QR_at 3 4 9 14 x
     in x)"

definition chacha20_state :: "byte list \<Rightarrow> u32 \<Rightarrow> byte list \<Rightarrow> u32 list" where
  "chacha20_state key counter nonce =
    [0x61707865, 0x3320646e, 0x79622d32, 0x6b206574] @ map (\<lambda>i. u32le key (4 * i)) [0..<8] @ [counter] @ map (\<lambda>i. u32le nonce (4 * i)) [0..<3]"

definition chacha20_block :: "byte list \<Rightarrow> u32 \<Rightarrow> byte list \<Rightarrow> byte list" where
  "chacha20_block key counter nonce =
    (let s = chacha20_state key counter nonce; x = (double_round ^^ 10) s
     in concat (map (\<lambda>i. p32le (x ! i + s ! i)) [0..<16]))"

definition ld64 :: "(nat \<Rightarrow> byte) \<Rightarrow> nat \<Rightarrow> u64" where
  "ld64 m a = of_nat (le_val (map m [a..<a + 8]))"

definition st64 :: "nat \<Rightarrow> u64 \<Rightarrow> (nat \<Rightarrow> byte) \<Rightarrow> nat \<Rightarrow> byte" where
  "st64 a w m = (\<lambda>x. if a \<le> x \<and> x < a + 8 then ucast (drop_bit (8 * (x - a)) w) else m x)"

text \<open>The two inner loops over the \<open>n\<close> bytes at \<open>src\<close>, with the block of keystream \<open>ks\<close>, written to \<open>dst\<close>.\<close>

function xor_words :: "byte list \<Rightarrow> nat \<Rightarrow> nat \<Rightarrow> nat \<Rightarrow> nat \<Rightarrow> (nat \<Rightarrow> byte) \<Rightarrow> nat \<times> (nat \<Rightarrow> byte)" where
  "xor_words ks dst src n i m =
    (if i + 8 \<le> n then
       let a = ld64 m (src + i); b = ld64 ((!) ks) i; a = a XOR b
       in xor_words ks dst src n (i + 8) (st64 (dst + i) a m)
     else (i, m))"
  by pat_completeness auto
termination
  by (relation "measure (\<lambda>(ks, dst, src, n, i, m). n - i)") auto

function xor_bytes :: "byte list \<Rightarrow> nat \<Rightarrow> nat \<Rightarrow> nat \<Rightarrow> nat \<Rightarrow> (nat \<Rightarrow> byte) \<Rightarrow> (nat \<Rightarrow> byte)" where
  "xor_bytes ks dst src n i m =
    (if i < n then xor_bytes ks dst src n (i + 1) (m(dst + i := m (src + i) XOR ks ! i)) else m)"
  by pat_completeness auto
termination
  by (relation "measure (\<lambda>(ks, dst, src, n, i, m). n - i)") auto

function xor_blocks :: "byte list \<Rightarrow> byte list \<Rightarrow> nat \<Rightarrow> nat \<Rightarrow> nat \<Rightarrow> nat \<Rightarrow> u32 \<Rightarrow> (nat \<Rightarrow> byte) \<Rightarrow> (nat \<Rightarrow> byte)" where
  "xor_blocks key nonce out inp len off counter m =
    (if off < len then
       let ks = chacha20_block key counter nonce;
           n = len - off; n = (if n > 64 then 64 else n);
           (i, m) = xor_words ks (out + off) (inp + off) n 0 m
       in xor_blocks key nonce out inp len (off + 64) (counter + 1) (xor_bytes ks (out + off) (inp + off) n i m)
     else m)"
  by pat_completeness auto
termination
  by (relation "measure (\<lambda>(key, nonce, out, inp, len, off, counter, m). len - off)") auto

declare xor_words.simps [simp del] xor_bytes.simps [simp del] xor_blocks.simps [simp del]

definition chacha20_xor :: "nat \<Rightarrow> nat \<Rightarrow> nat \<Rightarrow> byte list \<Rightarrow> u32 \<Rightarrow> byte list \<Rightarrow> (nat \<Rightarrow> byte) \<Rightarrow> (nat \<Rightarrow> byte) option" where
  "chacha20_xor out inp len key counter nonce m =
    (if out < inp + len \<and> inp < out + len then None else Some (xor_blocks key nonce out inp len 0 counter m))"

section \<open>Words and bytes\<close>

lemma byte_of_le: "i < length bs \<Longrightarrow> length bs \<le> 8 \<Longrightarrow> ucast (drop_bit (8 * i) (of_nat (le_val bs) :: u64)) = bs ! i"
proof -
  assume i: "i < length bs" and l: "length bs \<le> 8"
  have "le_val bs < 256 ^ length bs" by (rule le_val_bound)
  also have "(256 :: nat) ^ length bs \<le> 256 ^ 8" using l by (intro power_increasing) simp_all
  finally have "unat (of_nat (le_val bs) :: u64) = le_val bs" by (simp add: unat_of_nat)
  then have "unat (drop_bit (8 * i) (of_nat (le_val bs) :: u64)) = le_val bs div 256 ^ i" by (simp add: unat_drop_bit power_mult)
  then have "(ucast (drop_bit (8 * i) (of_nat (le_val bs) :: u64)) :: byte) = of_nat (le_val bs div 256 ^ i)" by (metis of_nat_unat)
  also have "\<dots> = le_bytes (length bs) (le_val bs) ! i" by (rule nth_le_bytes [OF i, symmetric])
  finally show ?thesis using le_bytes_le_val [of bs] by simp
qed

lemma xor_word: "j < 8 \<Longrightarrow> ucast (drop_bit (8 * j) (ld64 f a XOR ld64 g b)) = f (a + j) XOR g (b + j)"
  unfolding ld64_def drop_bit_xor by (simp add: unsigned_xor_eq byte_of_le)

section \<open>The cipher as RFC 8439 has it\<close>

text \<open>
  Section 2.1 to 2.4 of the RFC: the state is a matrix of four rows of four words, a round works on its four
  columns or its four diagonals (here: the columns, once row \<open>i\<close> is turned left by \<open>i\<close>), a block is twenty rounds
  with the first state added at the end, and every word is read and written little-endian.
\<close>

definition rfc_quarter :: "u32 list \<Rightarrow> u32 list" where
  "rfc_quarter v = (case v of [a, b, c, d] \<Rightarrow>
     (let a = a + b; d = word_rotl 16 (d XOR a); c = c + d; b = word_rotl 12 (b XOR c);
          a = a + b; d = word_rotl 8 (d XOR a); c = c + d; b = word_rotl 7 (b XOR c) in [a, b, c, d])
     | _ \<Rightarrow> v)"

definition rfc_columns :: "u32 list list \<Rightarrow> u32 list list" where
  "rfc_columns M = transpose (map rfc_quarter (transpose M))"

definition rfc_diagonals :: "u32 list list \<Rightarrow> u32 list list" where
  "rfc_diagonals M = map2 (\<lambda>i. rotate (4 - i)) [0..<4] (rfc_columns (map2 rotate [0..<4] M))"

definition rfc_words :: "byte list \<Rightarrow> u32 list" where
  "rfc_words bs = map (\<lambda>i. of_nat (le_val (take 4 (drop (4 * i) bs)))) [0..<length bs div 4]"

definition rfc_state :: "byte list \<Rightarrow> u32 \<Rightarrow> byte list \<Rightarrow> u32 list list" where
  "rfc_state key counter nonce =
    [rfc_words (map of_char ''expand 32-byte k''), rfc_words (take 16 key), rfc_words (drop 16 key), counter # rfc_words nonce]"

definition rfc_block :: "byte list \<Rightarrow> u32 \<Rightarrow> byte list \<Rightarrow> byte list" where
  "rfc_block key counter nonce =
    (let S = rfc_state key counter nonce; X = ((\<lambda>M. rfc_diagonals (rfc_columns M)) ^^ 10) S
     in concat (map (\<lambda>w. le_bytes 4 (unat w)) (map2 (+) (concat X) (concat S))))"

text \<open>The keystream: block after block, the counter wrapping at its width.\<close>

definition rfc_keystream :: "byte list \<Rightarrow> u32 \<Rightarrow> byte list \<Rightarrow> nat \<Rightarrow> byte" where
  "rfc_keystream key counter nonce i = rfc_block key (counter + of_nat (i div 64)) nonce ! (i mod 64)"

section \<open>The block function is the one of the RFC\<close>

lemma ROTL32_rotl: "0 < n \<Longrightarrow> n < 32 \<Longrightarrow> ROTL32 x n = word_rotl n x"
proof (rule bit_word_eqI)
  fix k
  assume n: "0 < n" "n < 32" and "k < LENGTH(32)"
  then have k: "k < 32" by simp
  have l: "bit (ROTL32 x n) k \<longleftrightarrow> n \<le> k \<and> bit x (k - n) \<or> bit x (32 - n + k)"
    using k by (auto simp: ROTL32_def bit_or_iff bit_push_bit_iff bit_drop_bit_eq)
  have r: "bit (word_rotl n x) k \<longleftrightarrow> bit x ((k + (32 - n)) mod 32)" using n k by (simp add: bit_word_rotl_iff)
  show "bit (ROTL32 x n) k = bit (word_rotl n x) k"
  proof (cases "n \<le> k")
    case True
    then have "k + (32 - n) = k - n + 32" using n k by simp
    then have "(k + (32 - n)) mod 32 = k - n" unfolding \<open>k + (32 - n) = k - n + 32\<close> using k by simp
    moreover have "\<not> bit x (32 - n + k)" using True n bit_imp_le_length [of x "32 - n + k"] by auto
    ultimately show ?thesis unfolding l r using True by simp
  next
    case False
    then have "(k + (32 - n)) mod 32 = 32 - n + k" using n k by simp
    then show ?thesis unfolding l r using False by simp
  qed
qed

text \<open>The test vectors of sections 2.1.1 and 2.3 of the RFC: a quarter round, and the words of the constant.\<close>

lemma rfc_quarter_vector:
  "rfc_quarter [0x11111111, 0x01020304, 0x9b8d6f43, 0x01234567] = [0xea2a92f4, 0xcb1cf8ce, 0x4581472e, 0x5881c4bb]"
  by (simp add: rfc_quarter_def Let_def ROTL32_rotl [symmetric] ROTL32_def push_bit_eq_mult drop_bit_eq_div)

lemma rfc_constant: "rfc_words (map of_char ''expand 32-byte k'') = [0x61707865, 0x3320646e, 0x79622d32, 0x6b206574]"
  by (simp add: rfc_words_def upt_rec of_char_def)

lemma quarter_QR: "QR a b c d = (a', b', c', d') \<Longrightarrow> rfc_quarter [a, b, c, d] = [a', b', c', d']"
  by (auto simp: rfc_quarter_def QR_def Let_def ROTL32_rotl)

text \<open>The sixteen words as four rows.\<close>

definition rows :: "u32 list \<Rightarrow> u32 list list" where
  "rows x = [take 4 x, take 4 (drop 4 x), take 4 (drop 8 x), drop 12 x]"

lemma list16:
  assumes "length x = 16"
  obtains x0 x1 x2 x3 x4 x5 x6 x7 x8 x9 xa xb xc xd xe xf where "x = [x0, x1, x2, x3, x4, x5, x6, x7, x8, x9, xa, xb, xc, xd, xe, xf]"
  using assms by (auto simp: length_Suc_conv numeral_eq_Suc)

lemma columns_rows:
  assumes "length x = 16"
  shows "rows (QR_at 3 7 11 15 (QR_at 2 6 10 14 (QR_at 1 5 9 13 (QR_at 0 4 8 12 x)))) = rfc_columns (rows x)"
proof -
  obtain x0 x1 x2 x3 x4 x5 x6 x7 x8 x9 xa xb xc xd xe xf where x: "x = [x0, x1, x2, x3, x4, x5, x6, x7, x8, x9, xa, xb, xc, xd, xe, xf]"
    by (rule list16 [OF assms])
  obtain a0 b0 c0 d0 a1 b1 c1 d1 a2 b2 c2 d2 a3 b3 c3 d3 where
    q: "QR x0 x4 x8 xc = (a0, b0, c0, d0)" "QR x1 x5 x9 xd = (a1, b1, c1, d1)" "QR x2 x6 xa xe = (a2, b2, c2, d2)" "QR x3 x7 xb xf = (a3, b3, c3, d3)"
    by (metis prod_cases4)
  note r = q [THEN quarter_QR]
  show ?thesis by (simp add: x rows_def rfc_columns_def QR_at_def q r)
qed

lemma diagonals_rows:
  assumes "length x = 16"
  shows "rows (QR_at 3 4 9 14 (QR_at 2 7 8 13 (QR_at 1 6 11 12 (QR_at 0 5 10 15 x)))) = rfc_diagonals (rows x)"
proof -
  obtain x0 x1 x2 x3 x4 x5 x6 x7 x8 x9 xa xb xc xd xe xf where x: "x = [x0, x1, x2, x3, x4, x5, x6, x7, x8, x9, xa, xb, xc, xd, xe, xf]"
    by (rule list16 [OF assms])
  obtain a0 b0 c0 d0 a1 b1 c1 d1 a2 b2 c2 d2 a3 b3 c3 d3 where
    q: "QR x0 x5 xa xf = (a0, b0, c0, d0)" "QR x1 x6 xb xc = (a1, b1, c1, d1)" "QR x2 x7 x8 xd = (a2, b2, c2, d2)" "QR x3 x4 x9 xe = (a3, b3, c3, d3)"
    by (metis prod_cases4)
  note r = q [THEN quarter_QR]
  show ?thesis by (simp add: x rows_def rfc_diagonals_def rfc_columns_def QR_at_def q r upt_rec numeral_eq_Suc)
qed

lemma QR_at_length [simp]: "length (QR_at i j k l x) = length x"
  by (simp add: QR_at_def split: prod.split)

lemma double_round_rows: "length x = 16 \<Longrightarrow> rows (double_round x) = rfc_diagonals (rfc_columns (rows x)) \<and> length (double_round x) = 16"
  unfolding double_round_def Let_def by (simp add: diagonals_rows columns_rows del: One_nat_def)

lemma rounds_rows: "length x = 16 \<Longrightarrow> rows ((double_round ^^ n) x) = ((\<lambda>M. rfc_diagonals (rfc_columns M)) ^^ n) (rows x) \<and> length ((double_round ^^ n) x) = 16"
  by (induction n) (simp_all add: double_round_rows)

lemma concat_rows: "length x = 16 \<Longrightarrow> concat (rows x) = x"
  by (erule list16) (simp add: rows_def)

lemma words_u32le: "length bs = 4 * n \<Longrightarrow> rfc_words bs = map (\<lambda>i. u32le bs (4 * i)) [0..<n]"
proof -
  assume l: "length bs = 4 * n"
  have "of_nat (le_val (take 4 (drop (4 * i) bs))) = u32le bs (4 * i)" if "i < n" for i
    using le_val4 [of "4 * i" bs] l that by (metis add_le_cancel_right mult_Suc_right mult_le_mono2 Suc_leI add.commute of_nat_unat ucast_id)
  then show ?thesis using l by (simp add: rfc_words_def)
qed

lemma state_rows:
  assumes "length key = 32" "length nonce = 12"
  shows "rows (chacha20_state key counter nonce) = rfc_state key counter nonce"
proof -
  have u: "u32le (take 16 key) (4 * i) = u32le key (4 * i)" "u32le (drop 16 key) (4 * i) = u32le key (16 + 4 * i)" if "i < 4" for i
    using that assms(1) by (simp_all add: u32le_def add.assoc)
  have "rfc_words (take 16 key) = map (\<lambda>i. u32le (take 16 key) (4 * i)) [0..<4]"
    "rfc_words (drop 16 key) = map (\<lambda>i. u32le (drop 16 key) (4 * i)) [0..<4]" "rfc_words nonce = map (\<lambda>i. u32le nonce (4 * i)) [0..<3]"
    using assms by (simp_all add: words_u32le)
  then show ?thesis
    unfolding rfc_state_def rfc_constant using u(1) [of 0] u(1) [of 1] u(1) [of 2] u(1) [of 3] u(2) [of 0] u(2) [of 1] u(2) [of 2] u(2) [of 3] by (simp add: rows_def chacha20_state_def upt_rec)
qed

lemma block_rfc:
  assumes "length key = 32" "length nonce = 12"
  shows "chacha20_block key counter nonce = rfc_block key counter nonce"
proof -
  let ?s = "chacha20_state key counter nonce" and ?x = "(double_round ^^ 10) (chacha20_state key counter nonce)"
  have s: "length ?s = 16" by (simp add: chacha20_state_def)
  have x: "rows ?x = ((\<lambda>M. rfc_diagonals (rfc_columns M)) ^^ 10) (rows ?s)" "length ?x = 16" using rounds_rows [OF s, of 10] by simp_all
  have "map (\<lambda>i. p32le (?x ! i + ?s ! i)) [0..<16] = map (\<lambda>w. le_bytes 4 (unat w)) (map2 (+) ?x ?s)"
    using s x(2) by (intro nth_equalityI) (simp_all add: p32le_bytes)
  then show ?thesis
    unfolding chacha20_block_def rfc_block_def Let_def state_rows [OF assms, symmetric] x(1) [symmetric] concat_rows [OF s] concat_rows [OF x(2)] by simp
qed

section \<open>What the cipher writes\<close>

text \<open>The memory once the first \<open>k\<close> bytes are done: at \<open>out\<close> the bytes of \<open>inp\<close> with the keystream, elsewhere as before.\<close>

definition xored :: "(nat \<Rightarrow> byte) \<Rightarrow> nat \<Rightarrow> nat \<Rightarrow> nat \<Rightarrow> (nat \<Rightarrow> byte) \<Rightarrow> (nat \<Rightarrow> byte)" where
  "xored ks out inp k m = (\<lambda>x. if out \<le> x \<and> x < out + k then m (inp + (x - out)) XOR ks (x - out) else m x)"

abbreviation (input) apart :: "nat \<Rightarrow> nat \<Rightarrow> nat \<Rightarrow> bool" where
  "apart out inp len \<equiv> out + len \<le> inp \<or> inp + len \<le> out"

lemma xored_0 [simp]: "xored ks out inp 0 m = m"
  by (auto simp: xored_def fun_eq_iff)

lemma xored_src: "apart out inp len \<Longrightarrow> k \<le> j \<Longrightarrow> j < len \<Longrightarrow> xored ks out inp k m (inp + j) = m (inp + j)"
  by (auto simp: xored_def)

lemma xored_byte:
  assumes "apart out inp len" "k < len" "b = ks k"
  shows "(xored ks out inp k m)(out + k := xored ks out inp k m (inp + k) XOR b) = xored ks out inp (k + 1) m"
  unfolding xored_src [OF assms(1) order_refl assms(2)] using assms(3) by (auto simp: xored_def fun_eq_iff less_Suc_eq)

lemma xored_word:
  assumes "apart out inp len" "k + 8 \<le> len" "\<forall>j < 8. g (i + j) = ks (k + j)"
  shows "st64 (out + k) (ld64 (xored ks out inp k m) (inp + k) XOR ld64 g i) (xored ks out inp k m) = xored ks out inp (k + 8) m"
proof
  fix x
  show "st64 (out + k) (ld64 (xored ks out inp k m) (inp + k) XOR ld64 g i) (xored ks out inp k m) x = xored ks out inp (k + 8) m x"
  proof (cases "out + k \<le> x \<and> x < out + k + 8")
    case True
    then obtain j where j: "x = out + k + j" "j < 8" by (metis add_less_cancel_left le_Suc_ex)
    have "k + j < len" using assms(2) j(2) by simp
    then have src: "xored ks out inp k m (inp + k + j) = m (inp + k + j)" using xored_src [OF assms(1), of k "k + j" ks m] by (simp add: add.assoc)
    have s: "st64 (out + k) W M x = ucast (drop_bit (8 * j) W)" for W M using j by (simp add: st64_def)
    show ?thesis unfolding s xor_word [OF j(2)] src using assms(3) j by (simp add: xored_def add.assoc)
  next
    case False
    then show ?thesis by (auto simp: st64_def xored_def)
  qed
qed

lemma xor_words_ok:
  assumes "apart out inp len" "off + n \<le> len" "i \<le> n" "\<forall>j < n. b ! j = ks (off + j)"
  shows "\<exists>i'. xor_words b (out + off) (inp + off) n i (xored ks out inp (off + i) m) = (i', xored ks out inp (off + i') m) \<and> i' \<le> n"
  using assms(3)
proof (induction "n - i" arbitrary: i rule: less_induct)
  case less
  show ?case
  proof (cases "i + 8 \<le> n")
    case True
    have "\<forall>j < 8. b ! (i + j) = ks (off + i + j)" using assms(4) True by (simp add: add.assoc)
    note w = xored_word [OF assms(1) _ this, of m]
    have "off + i + 8 \<le> len" using True assms(2) by simp
    from w [OF this] have "xor_words b (out + off) (inp + off) n i (xored ks out inp (off + i) m) = xor_words b (out + off) (inp + off) n (i + 8) (xored ks out inp (off + (i + 8)) m)"
      using True by (subst xor_words.simps) (simp add: Let_def add.assoc)
    then show ?thesis using less(1) [of "i + 8"] True by simp
  next
    case False
    then show ?thesis using less(2) by (subst xor_words.simps) auto
  qed
qed

lemma xor_bytes_ok:
  assumes "apart out inp len" "off + n \<le> len" "i \<le> n" "\<forall>j < n. b ! j = ks (off + j)"
  shows "xor_bytes b (out + off) (inp + off) n i (xored ks out inp (off + i) m) = xored ks out inp (off + n) m"
  using assms(3)
proof (induction "n - i" arbitrary: i rule: less_induct)
  case less
  show ?case
  proof (cases "i < n")
    case True
    then have "off + i < len" "b ! i = ks (off + i)" using assms(2,4) by simp_all
    from xored_byte [of out len inp "off + i" _ ks, OF assms(1) this, of m] have "xor_bytes b (out + off) (inp + off) n i (xored ks out inp (off + i) m) =
        xor_bytes b (out + off) (inp + off) n (i + 1) (xored ks out inp (off + (i + 1)) m)"
      using True by (subst xor_bytes.simps) (simp add: add.assoc)
    then show ?thesis using less(1) [of "i + 1"] True by simp
  next
    case False
    then show ?thesis using less(2) by (subst xor_bytes.simps) auto
  qed
qed

lemma xor_blocks_ok:
  assumes "apart out inp len" and kl: "length key = 32" "length nonce = 12"
  shows "xor_blocks key nonce out inp len (64 * q) (counter + of_nat q) (xored (rfc_keystream key counter nonce) out inp (min len (64 * q)) m) =
    xored (rfc_keystream key counter nonce) out inp len m"
proof (induction "len - 64 * q" arbitrary: q rule: less_induct)
  case less
  show ?case
  proof (cases "64 * q < len")
    case True
    let ?ks = "rfc_keystream key counter nonce" and ?b = "chacha20_block key (counter + of_nat q) nonce"
    define n where "n = min 64 (len - 64 * q)"
    have ks: "\<forall>j < n. ?b ! j = ?ks (64 * q + j)" by (auto simp: n_def rfc_keystream_def block_rfc [OF kl])
    have n: "64 * q + n \<le> len" "64 * q + n = min len (64 * Suc q)" using True by (simp_all add: n_def)
    obtain i where i: "xor_words ?b (out + 64 * q) (inp + 64 * q) n 0 (xored ?ks out inp (64 * q + 0) m) = (i, xored ?ks out inp (64 * q + i) m)" "i \<le> n"
      using xor_words_ok [OF assms(1) n(1) le0 ks, of m] by blast
    have e: "(let n = len - 64 * q in if n > 64 then 64 else n) = n" by (simp add: n_def min_def Let_def)
    have "xor_blocks key nonce out inp len (64 * q) (counter + of_nat q) (xored ?ks out inp (64 * q) m) =
        xor_blocks key nonce out inp len (64 * q + 64) (counter + of_nat q + 1) (xored ?ks out inp (64 * q + n) m)"
      using True i xor_bytes_ok [OF assms(1) n(1) i(2) ks, of m] e by (subst xor_blocks.simps) (simp add: Let_def)
    also have "\<dots> = xor_blocks key nonce out inp len (64 * Suc q) (counter + of_nat (Suc q)) (xored ?ks out inp (min len (64 * Suc q)) m)"
      unfolding n(2) by (simp add: ac_simps)
    finally show ?thesis using less(1) [of "Suc q"] True by (simp add: min_absorb2)
  next
    case False
    then show ?thesis by (subst xor_blocks.simps) (simp add: min_absorb1)
  qed
qed

text \<open>
  C9: the cipher is ChaCha20 of RFC 8439. For a key of 32 bytes, a nonce of 12 and an output that does not
  overlap the input (overlapping is undefined, both pointers being \<open>restrict\<close>), \<open>chacha20_xor\<close> leaves at the
  output the input bytes combined with the keystream of the RFC, block by block with a counter that wraps at
  32 bits, and no other byte of memory changed, whether a byte went through the loop of eight or the
  loop of one; doing it again from there to a third place gives the input back there.
\<close>

theorem chacha20_xor_correct:
  assumes "out + len \<le> inp \<or> inp + len \<le> out" "length key = 32" "length nonce = 12"
  shows "chacha20_xor out inp len key counter nonce m =
      Some (\<lambda>x. if out \<le> x \<and> x < out + len then m (inp + (x - out)) XOR rfc_keystream key counter nonce (x - out) else m x) \<and>
    (\<forall>third m1 m2 j. chacha20_xor out inp len key counter nonce m = Some m1 \<and> chacha20_xor third out len key counter nonce m1 = Some m2 \<and> j < len
       \<longrightarrow> m2 (third + j) = m (inp + j))"
proof -
  have x: "chacha20_xor o' i len key counter nonce m = Some (xored (rfc_keystream key counter nonce) o' i len m)" if "apart o' i len" for o' i m
    using xor_blocks_ok [OF that assms(2,3), of 0 counter m] that by (auto simp: chacha20_xor_def)
  have "m2 (third + j) = m (inp + j)"
    if m: "chacha20_xor out inp len key counter nonce m = Some m1" "chacha20_xor third out len key counter nonce m1 = Some m2" "j < len" for third m1 m2 j
  proof -
    have "apart third out len" using m(2) by (auto simp: chacha20_xor_def split: if_splits)
    then show ?thesis using m x [OF assms(1)] x [of third out m1] by (auto simp: xored_def xor.assoc)
  qed
  then show ?thesis unfolding x [OF assms(1)] by (simp add: xored_def)
qed

theorem chacha20_xor_correct_witness:
  "chacha20_xor 100 0 20 (replicate 32 0) 1 (replicate 12 0) (\<lambda>x. 7) =
      Some (\<lambda>x. if 100 \<le> x \<and> x < 120 then 7 XOR rfc_keystream (replicate 32 0) 1 (replicate 12 0) (x - 100) else 7)"
  using chacha20_xor_correct [of 100 20 0 "replicate 32 0" "replicate 12 0" 1 "\<lambda>x. 7"] by simp

end
