(* ===== verification/Spec2Isabelle.thy ===== *)
theory Spec2Isabelle
  imports IpcProps Sysprops Pmm Crc Inet Audio Metro Cstring Ninep Ecprops Chacha
begin

text \<open>
  A verification development for nlos, a small operating system that runs lua programs as procs over a
  microkernel in C. The programs talk by messages: a proc holds numbered rights on ports, sends lua values
  to a port and receives them from one. The sources are under \<open>src/src\<close>; this theory imports the whole
  development and says what is where.

  \<^bold>\<open>The kernel and its calls.\<close> The state of the kernel is one record, \<open>kstate\<close> (theory \<open>Kstate\<close>, from \<open>kproc.h\<close>,
  \<open>cpu.h\<close> and the file-scope variables of \<open>port.c\<close>, \<open>sched.c\<close>, \<open>timer.c\<close>). A C function that changes it takes it and
  returns it, inside \<open>fault + 'a\<close>: a read through a freed port, a chunk freed twice, a lock taken out of order
  and a failed assertion are values of \<open>fault\<close>, so that \<^emph>\<open>no fault\<close> is a theorem and not a habit of the model.
  Whether an allocation succeeds is read off a stream in the state. The theorems that nothing faults and that
  the accounts balance hold for every pattern of failures; those that a call succeeds say which memory they need.
  \<^item> \<open>Ipclock\<close>: the eight recursive buckets of the ipc lock and the assertions made on them (\<open>port.c\<close>).
  \<^item> \<open>Sched\<close>: the two dispatch sets, pricing, blocking and waking (\<open>sched.c\<close>).
  \<^item> \<open>Port\<close>, \<open>PortTerm\<close>, \<open>Waits\<close>, \<open>Refs\<close>, \<open>PortSafe\<close>, \<open>Rights\<close>, \<open>Msgs\<close>: every function of \<open>port.c\<close>, that its recursion ends,
    and that each keeps the accounts: \<open>kinv G C\<close> says that the count of every port is the number of rights in
    handle tables and in queued messages plus what the running code holds (\<open>G\<close>), that every chunk of
    memory in a message has one owner (\<open>C\<close>), and that the wait lists of procs and ports agree.
  \<^item> \<open>Timer\<close>: the one-shot timers (\<open>timer.c\<close>).
  \<^item> \<open>Buf\<close>: mutable buffers outside the lua heap, their views, finalizers and transfers (\<open>buf.c\<close>). Chunks come from
    \<open>platform_chunk_alloc\<close> as \<open>malloc\<close> answers it, wrap-around of the size included. \<open>bstep\<close> is one call, labelled with
    whether it is ordinary; memory safety is proved of ordinary calls, and the three kinds left out (a size
    within 16 bytes of \<open>2 ^ 64\<close>, a pushed view whose end wraps, a finalizer run by hand) are named there; what
    the first and the last of them do is proved too.
  \<^item> \<open>Serialize\<close>, \<open>SerialTrip\<close>: lua values to messages and back (\<open>serialize.c\<close>), that both walks keep the accounts, and that
    reading inverts writing.
  \<^item> \<open>Receive\<close>, \<open>Block\<close>, \<open>Send\<close>, \<open>Resume\<close>, \<open>Syscalls\<close>: the calls a program makes on ports (\<open>sysapi.c\<close>): \<open>send\<close>, \<open>tryrecv\<close>, both
    ways to sleep, \<open>close\<close>, \<open>newport\<close>, \<open>sendright\<close>, \<open>timer\<close>, and the timer interrupt. \<open>sysstep\<close> is one such call
    by one proc, labelled with whether it keeps the rights in flight free of cycles and whether lua raised an
    error out of it; \<open>sysrun\<close> is a sequence of them. \<open>accounted G L\<close> says that the counts are right but for the references \<open>G\<close>
    and the chunks \<open>L\<close> that nothing refers to any more. \<open>Sysprops\<close> has the theorems on sequences: as long as no send
    puts a cycle of rights in flight (\<open>no_cycle\<close>), no call faults and the accounts balance after each, with nothing
    newly lost unless lua raised. Plain values arrive in the order they were sent, and whoever sleeps on a port
    is made ready by what it waits for. The condition on cycles is needed: \<open>self_queued_uaf\<close> in \<open>IpcProps\<close> has a port in whose
    queue its own last right waits, and dropping its receiver uses it after it is freed.
  \<^item> \<open>IpcProps\<close>, \<open>Samples\<close>: the properties of \<open>port.c\<close> alone, and concrete states the theorems are applied to.

  \<^bold>\<open>Memory.\<close> \<open>Pmm\<close> has the first-fit arena and \<open>malloc\<close> over it (\<open>platform/microvm\<close>): blocks in use never overlap, and the
  list of holes is determined by which bytes are free. \<open>Cstring\<close> has the memory and string functions of the
  C library (\<open>libc/string.c\<close>) over a flat memory.

  \<^bold>\<open>Codecs and checks.\<close> \<open>Crc\<close> (\<open>crc.c\<close>) is compared with the bit-serial registers, \<open>Inet\<close> (\<open>inet.c\<close>) with the sum of RFC 1071 and
  \<open>Audio\<close> (\<open>adpcm_native.c\<close>, \<open>pcm_native.c\<close>) with the IMA formulas. For \<open>Ninep\<close> (\<open>ninep.c\<close>) decoding inverts encoding. \<open>Metro\<close>
  (\<open>gefs_native.c\<close>) has no reference to be compared with: the theorem there is only that the hash reads nothing outside the
  run it is given.

  \<^bold>\<open>Cryptography\<close> (\<open>native.c\<close>). \<open>Limbs\<close> and \<open>Bignum\<close> have the multi-word arithmetic, with every carry at its width: the limbs
  of a Montgomery product stand for the product modulo \<open>m\<close>. \<open>Jacobian\<close> is the mathematics of points in
  projective coordinates over a prime field, with Fermat's theorem proved where the code inverts by a power.
  \<open>Ecc\<close> and \<open>Ecprops\<close> are the curve routines in two refinements: limbs to residues, which needs no assumption on the
  modulus, and residues to chord and tangent, which needs it prime. The locale \<open>curve\<close> carries the first one
  and is interpreted on both curves the code builds. \<open>Poly1305\<close> has the authenticator, from its limbs of 26 bits to the polynomial
  modulo \<open>2^130 - 5\<close>, for a message fed in any pieces; \<open>Chacha\<close> has the stream cipher over a flat memory and
  the cipher of RFC 8439 (\<open>rfc_keystream\<close>), which it is proved to be. The two pointers of the cipher are \<open>restrict\<close>, so a call whose
  output overlaps its input has no value.

  \<^bold>\<open>Bounds and fuel.\<close> The only fuel is that of \<open>port_unref\<close>: one more than the number of rights in flight, which each
  recursive call consumes one of, and \<open>IpcProps\<close> proves that it never runs out. Loops that only a terminating zero
  ends are partial functions, proved to return on terminated strings. Counters that can wrap in C
  are words or are reduced explicitly where the code can reach the wrap.

  \<^bold>\<open>What stands for code outside the sources.\<close> The lua library is third-party: \<open>lua_checkstack\<close>, the normalisation of table
  keys and failures of allocation inside lua are arguments or streams. The compiler's and hardware's memory
  order is sequentially consistent; a region under a lock is one step.

  \<^bold>\<open>Not modelled.\<close> The interpreter's side of procs (\<open>proc.c\<close>, \<open>kernel.c\<close>: creation of lua states, the run loop, reaping), the
  debugger and tracer (\<open>dbg.c\<close>, \<open>debug.c\<close>), \<open>thread.c\<close>, the remaining calls of \<open>sysapi.c\<close>, AES, the
  hashes and curve25519 of \<open>native.c\<close>, and all device drivers, whose behaviour is that of hardware registers. The programs in lua
  (\<open>lib\<close>, \<open>bin\<close>, \<open>task\<close>) are not C and are outside this development.
\<close>

end
